(* ===== verification/Prelude.thy ===== *)
theory Prelude
  imports Main "HOL-Library.AList" "HOL-Library.Char_ord" "HOL-Library.List_Lexorder"
begin

text \<open>
  What every component shares: Go's strings and byte slices as lists of bytes, results as
  sums with the error on the left, Python's insertion-ordered dictionary as an association
  list, and the two interfaces several components are clients of: an appender (a function
  that writes the encoding of a value at the end of a buffer) and a keyed list (a list
  searched by a key, with or without an index map). The generic lemmas on lists that more
  than one component needs are collected in \<open>bytes_simps\<close> and \<open>res_simps\<close>.
\<close>

named_theorems bytes_simps \<open>facts about bytes, byte classes and their ranges\<close>
named_theorems res_simps \<open>facts about results\<close>

section \<open>Bytes\<close>

text \<open>A Go string or byte slice is a list of 8-bit characters; a byte's value is a number
  below 256.\<close>

type_synonym bytes = string

text \<open>A header of an HTTP message: its names, each with its values.\<close>

type_synonym header = "(bytes \<times> bytes list) list"

abbreviation byte :: "char \<Rightarrow> nat" where
  "byte c \<equiv> of_char c"

definition byte_between :: "nat \<Rightarrow> nat \<Rightarrow> char \<Rightarrow> bool" where
  "byte_between lo hi c \<longleftrightarrow> lo \<le> byte c \<and> byte c \<le> hi"

definition is_digit :: "char \<Rightarrow> bool" where
  "is_digit c \<longleftrightarrow> byte_between 48 57 c"

definition is_hex :: "char \<Rightarrow> bool" where
  "is_hex c \<longleftrightarrow> byte_between 48 57 c \<or> byte_between 97 102 c \<or> byte_between 65 70 c"

abbreviation quote_char :: char where "quote_char \<equiv> CHR 0x22"
abbreviation backslash :: char where "backslash \<equiv> CHR 0x5C"

text \<open>The value of an ASCII decimal digit.\<close>

definition digit_val :: "char \<Rightarrow> nat" where
  "digit_val c = byte c - 48"

definition digit_char :: "nat \<Rightarrow> char" where
  "digit_char d = char_of (48 + d)"

text \<open>Decimal digits of a number, most significant first, as \<open>strconv\<close> writes an
  unsigned integer.\<close>

fun show_nat :: "nat \<Rightarrow> bytes" where
  "show_nat n = (if n < 10 then [digit_char n] else show_nat (n div 10) @ [digit_char (n mod 10)])"

declare show_nat.simps [simp del]

definition show_int :: "int \<Rightarrow> bytes" where
  "show_int i = (if i < 0 then CHR ''-'' # show_nat (nat (- i)) else show_nat (nat i))"

definition nat_of_digits :: "bytes \<Rightarrow> nat" where
  "nat_of_digits s = foldl (\<lambda>n c. n * 10 + digit_val c) 0 s"

lemma digit_char_is_digit [bytes_simps]: "d < 10 \<Longrightarrow> is_digit (digit_char d)"
  by (simp add: is_digit_def byte_between_def digit_char_def)

lemma digit_val_char [bytes_simps]: "d < 10 \<Longrightarrow> digit_val (digit_char d) = d"
  by (simp add: digit_val_def digit_char_def)

lemma show_nat_not_Nil [simp]: "show_nat n \<noteq> []"
  by (subst show_nat.simps) simp

lemma show_nat_digits: "list_all is_digit (show_nat n)"
proof (induction n rule: show_nat.induct)
  case (1 n)
  then show ?case
    by (subst show_nat.simps) (simp add: bytes_simps)
qed

lemma nat_of_digits_snoc: "nat_of_digits (s @ [c]) = nat_of_digits s * 10 + digit_val c"
  by (simp add: nat_of_digits_def)

lemma nat_of_digits_show_nat [simp]: "nat_of_digits (show_nat n) = n"
proof (induction n rule: show_nat.induct)
  case (1 n)
  show ?case
  proof (cases "n < 10")
    case True
    then show ?thesis
      by (subst show_nat.simps) (simp add: nat_of_digits_def bytes_simps)
  next
    case False
    with "1.IH" show ?thesis
      by (subst show_nat.simps) (simp add: nat_of_digits_snoc bytes_simps)
  qed
qed

lemma show_nat_inject [simp]: "show_nat m = show_nat n \<longleftrightarrow> m = n"
  by (metis nat_of_digits_show_nat)

lemma show_nat_length: "length (show_nat n) \<le> k" if "n < 10 ^ k" "0 < k" for n k
  using that
proof (induction k arbitrary: n)
  case 0
  then show ?case by simp
next
  case (Suc k)
  show ?case
  proof (cases "n < 10")
    case True
    then show ?thesis by (subst show_nat.simps) simp
  next
    case False
    with Suc.prems have "n div 10 < 10 ^ k" by auto
    moreover from False Suc.prems have "0 < k" by (cases k) auto
    ultimately show ?thesis
      using Suc.IH False by (subst show_nat.simps) simp
  qed
qed

section \<open>Results\<close>

text \<open>A call that may fail returns a sum: the error on the left, the value on the right.\<close>

fun rbind :: "'e + 'a \<Rightarrow> ('a \<Rightarrow> 'e + 'b) \<Rightarrow> 'e + 'b" where
  "rbind (Inl e) f = Inl e"
| "rbind (Inr x) f = f x"

fun rmap :: "('a \<Rightarrow> 'b) \<Rightarrow> 'e + 'a \<Rightarrow> 'e + 'b" where
  "rmap f (Inl e) = Inl e"
| "rmap f (Inr x) = Inr (f x)"

fun rmap_err :: "('e \<Rightarrow> 'd) \<Rightarrow> 'e + 'a \<Rightarrow> 'd + 'a" where
  "rmap_err f (Inl e) = Inl (f e)"
| "rmap_err f (Inr x) = Inr x"

definition is_ok :: "'e + 'a \<Rightarrow> bool" where
  "is_ok r \<longleftrightarrow> (\<exists>x. r = Inr x)"

lemma is_ok_simps [simp]: "is_ok (Inr x)" "\<not> is_ok (Inl e)"
  by (simp_all add: is_ok_def)

lemma rbind_Inr [res_simps]: "rbind r f = Inr y \<longleftrightarrow> (\<exists>x. r = Inr x \<and> f x = Inr y)"
  by (cases r) auto

lemma rbind_Inl [res_simps]:
  "rbind r f = Inl e \<longleftrightarrow> r = Inl e \<or> (\<exists>x. r = Inr x \<and> f x = Inl e)"
  by (cases r) auto

lemma rmap_Inr [res_simps]: "rmap f r = Inr y \<longleftrightarrow> (\<exists>x. r = Inr x \<and> y = f x)"
  by (cases r) auto

lemma rmap_Inl [res_simps]: "rmap f r = Inl e \<longleftrightarrow> r = Inl e"
  by (cases r) auto

lemma rmap_err_Inr [res_simps]: "rmap_err f r = Inr y \<longleftrightarrow> r = Inr y"
  by (cases r) auto

lemma rmap_err_Inl [res_simps]: "rmap_err f r = Inl d \<longleftrightarrow> (\<exists>e. r = Inl e \<and> d = f e)"
  by (cases r) auto

lemma rbind_split:
  "P (rbind r f) \<longleftrightarrow> (\<forall>e. r = Inl e \<longrightarrow> P (Inl e)) \<and> (\<forall>x. r = Inr x \<longrightarrow> P (f x))"
  by (cases r) auto

lemma rmap_rmap [simp]: "rmap f (rmap g r) = rmap (f \<circ> g) r"
  by (cases r) auto

lemma rmap_id [simp]: "rmap (\<lambda>x. x) r = r"
  by (cases r) auto

lemma rbind_rmap [simp]: "rbind (rmap g r) f = rbind r (\<lambda>x. f (g x))"
  by (cases r) auto

lemma rmap_rbind: "rmap g (rbind r f) = rbind r (\<lambda>x. rmap g (f x))"
  by (cases r) auto

text \<open>A loop over a list whose body may fail stops at the first failure.\<close>

fun rfold :: "('a \<Rightarrow> 's \<Rightarrow> 'e + 's) \<Rightarrow> 'a list \<Rightarrow> 's \<Rightarrow> 'e + 's" where
  "rfold f [] s = Inr s"
| "rfold f (x # xs) s = rbind (f x s) (rfold f xs)"

lemma rfold_append: "rfold f (xs @ ys) s = rbind (rfold f xs s) (rfold f ys)"
proof (induction xs arbitrary: s)
  case Nil
  show ?case by simp
next
  case (Cons x xs)
  then show ?case by (cases "f x s") auto
qed

section \<open>Insertion-ordered dictionaries\<close>

text \<open>
  A Python dictionary built from a list of members keeps each key at the position where it
  first appeared, with the value of its last appearance. \<open>AList.update\<close> of the library is
  exactly one such insertion; \<open>pydict\<close> builds the dictionary of a member list.
\<close>

definition pydict :: "('k \<times> 'v) list \<Rightarrow> ('k \<times> 'v) list" where
  "pydict kvs = foldl (\<lambda>d (k, v). AList.update k v d) [] kvs"

lemma pydict_Nil [simp]: "pydict [] = []"
  by (simp add: pydict_def)

lemma pydict_snoc [simp]: "pydict (kvs @ [(k, v)]) = AList.update k v (pydict kvs)"
  by (simp add: pydict_def)

lemma pydict_distinct: "distinct (map fst (pydict kvs))"
proof (induction kvs rule: rev_induct)
  case Nil
  show ?case by simp
next
  case (snoc kv kvs)
  then show ?case by (cases kv) (simp add: distinct_update)
qed

lemma pydict_map_of: "map_of (pydict kvs) = map_of (rev kvs)"
proof (induction kvs rule: rev_induct)
  case Nil
  show ?case by simp
next
  case (snoc kv kvs)
  then show ?case by (cases kv) (simp add: update_conv')
qed

lemma update_append_new: "k \<notin> fst ` set al \<Longrightarrow> AList.update k v al = al @ [(k, v)]"
  by (induction al) auto

lemma fst_pydict: "fst ` set (pydict kvs) = fst ` set kvs"
proof (induction kvs rule: rev_induct)
  case Nil
  show ?case by simp
next
  case (snoc kv kvs)
  then show ?case by (cases kv) (simp add: dom_update)
qed

lemma map_fst_update_old:
  "k \<in> fst ` set al \<Longrightarrow> map fst (AList.update k v al) = map fst al"
  by (simp add: update_keys)

lemma update_map_snd:
  "AList.update k (f v) (map (map_prod (\<lambda>x. x) f) al) = map (map_prod (\<lambda>x. x) f) (AList.update k v al)"
  by (induction al) auto

lemma pydict_map_snd: "pydict (map (map_prod (\<lambda>x. x) f) kvs) = map (map_prod (\<lambda>x. x) f) (pydict kvs)"
proof (induction kvs rule: rev_induct)
  case Nil
  show ?case by simp
next
  case (snoc kv kvs)
  then show ?case by (cases kv) (simp add: update_map_snd)
qed

section \<open>Finding a position\<close>

text \<open>\<open>find_index p xs\<close> is the position of the first element that satisfies \<open>p\<close>: the Go
  loops that return an index or \<open>-1\<close>.\<close>

fun find_index :: "('a \<Rightarrow> bool) \<Rightarrow> 'a list \<Rightarrow> nat option" where
  "find_index p [] = None"
| "find_index p (x # xs) = (if p x then Some 0 else map_option Suc (find_index p xs))"

lemma find_index_None: "find_index p xs = None \<longleftrightarrow> (\<forall>x \<in> set xs. \<not> p x)"
  by (induction xs) auto

lemma find_index_Some:
  "find_index p xs = Some i \<longleftrightarrow> i < length xs \<and> p (xs ! i) \<and> (\<forall>j < i. \<not> p (xs ! j))"
proof (induction xs arbitrary: i)
  case Nil
  show ?case by simp
next
  case (Cons x xs)
  show ?case
  proof (cases i)
    case 0
    then show ?thesis by auto
  next
    case (Suc j)
    then show ?thesis using Cons.IH [of j] by (auto simp: less_Suc_eq_0_disj)
  qed
qed

lemma find_index_append:
  "find_index p (xs @ ys) =
     (case find_index p xs of Some i \<Rightarrow> Some i
      | None \<Rightarrow> map_option (\<lambda>i. length xs + i) (find_index p ys))"
  by (induction xs) (auto simp: option.map_comp comp_def map_option_case split: option.splits)

section \<open>Keyed lists with an optional index\<close>

text \<open>
  The answer sets, the prepared question sets and the fold tables of the decoder are lists
  whose elements have a key; a lookup scans the list while it is short and uses an index map
  once it is longer. The interface says what the index must satisfy; its clients prove that
  a lookup is the linear scan whatever the representation.
\<close>

fun index_from :: "('a \<Rightarrow> 'k) \<Rightarrow> nat \<Rightarrow> 'a list \<Rightarrow> ('k \<rightharpoonup> nat) \<Rightarrow> ('k \<rightharpoonup> nat)" where
  "index_from key i [] m = m"
| "index_from key i (x # xs) m = index_from key (Suc i) xs (m(key x \<mapsto> i))"

definition index_of :: "('a \<Rightarrow> 'k) \<Rightarrow> 'a list \<Rightarrow> 'k \<rightharpoonup> nat" where
  "index_of key xs = index_from key 0 xs Map.empty"

definition index_ok :: "('a \<Rightarrow> 'k) \<Rightarrow> 'a list \<Rightarrow> ('k \<rightharpoonup> nat) \<Rightarrow> bool" where
  "index_ok key xs m \<longleftrightarrow> (\<forall>k. m k = find_index (\<lambda>x. key x = k) xs)"

lemma index_ok_Nil [simp]: "index_ok key [] Map.empty"
  by (simp add: index_ok_def)

lemma index_ok_append:
  assumes "index_ok key xs m" and "m (key x) = None"
  shows "index_ok key (xs @ [x]) (m(key x \<mapsto> length xs))"
  using assms by (auto simp: index_ok_def find_index_append split: option.splits)

lemma index_ok_update:
  assumes "index_ok key xs m" and "i < length xs" and "key x = key (xs ! i)"
  shows "index_ok key (xs[i := x]) m"
proof -
  have "find_index (\<lambda>y. key y = k) (xs[i := x]) = find_index (\<lambda>y. key y = k) xs" for k
    using assms(2,3)
  proof (induction xs arbitrary: i)
    case Nil
    then show ?case by simp
  next
    case (Cons y ys)
    then show ?case by (cases i) auto
  qed
  with assms(1) show ?thesis by (simp add: index_ok_def)
qed

lemma index_from_ok:
  assumes "index_ok key ys m" and "distinct (map key (ys @ xs))"
  shows "index_ok key (ys @ xs) (index_from key (length ys) xs m)"
  using assms
proof (induction xs arbitrary: ys m)
  case Nil
  then show ?case by simp
next
  case (Cons x xs)
  have "find_index (\<lambda>y. key y = key x) ys = None"
    using Cons.prems(2) by (auto simp: find_index_None) (metis imageI)
  with Cons.prems(1) have "m (key x) = None" by (simp add: index_ok_def)
  with Cons.prems(1) have "index_ok key (ys @ [x]) (m(key x \<mapsto> length ys))"
    by (rule index_ok_append)
  from Cons.IH [OF this] Cons.prems(2) show ?case by (simp del: fun_upd_apply)
qed

lemma index_of_ok: "distinct (map key xs) \<Longrightarrow> index_ok key xs (index_of key xs)"
  using index_from_ok [of key "[]" Map.empty xs] by (simp add: index_of_def)

text \<open>
  The interface itself: a representation \<open>'r\<close> with its elements, its search and an
  invariant. What the search returns is the position the scan would return.
\<close>

locale keyed_list =
  fixes elems :: "'r \<Rightarrow> 'a list"
    and key :: "'a \<Rightarrow> 'k"
    and search :: "'r \<Rightarrow> 'k \<Rightarrow> nat option"
    and invar :: "'r \<Rightarrow> bool"
  assumes search_scan: "invar r \<Longrightarrow> search r k = find_index (\<lambda>x. key x = k) (elems r)"
    and elems_distinct: "invar r \<Longrightarrow> distinct (map key (elems r))"
begin

lemma search_None: "invar r \<Longrightarrow> search r k = None \<longleftrightarrow> k \<notin> key ` set (elems r)"
  by (auto simp: search_scan find_index_None)

lemma search_bound: "invar r \<Longrightarrow> search r k = Some i \<Longrightarrow> i < length (elems r) \<and> key (elems r ! i) = k"
  by (auto simp: search_scan find_index_Some)

lemma search_nth: "invar r \<Longrightarrow> i < length (elems r) \<Longrightarrow> search r (key (elems r ! i)) = Some i"
proof -
  assume r: "invar r" and i: "i < length (elems r)"
  then obtain j where j: "search r (key (elems r ! i)) = Some j"
    using search_None by fastforce
  with r have "j < length (elems r)" "key (elems r ! j) = key (elems r ! i)"
    using search_bound by blast+
  with elems_distinct [OF r] i have "j = i"
    by (metis distinct_conv_nth length_map nth_map)
  with j show ?thesis by simp
qed

lemma search_unique:
  "invar r \<Longrightarrow> search r k = Some i \<Longrightarrow> search r k' = Some i \<Longrightarrow> k = k'"
  by (metis search_bound)

end

section \<open>Appenders\<close>

text \<open>
  Every writer of the wire layer takes the buffer it appends to and returns it extended, or
  an error. The interface: what is appended does not depend on what the buffer holds.
\<close>

locale appender =
  fixes app :: "bytes \<Rightarrow> 'a \<Rightarrow> 'e + bytes"
    and enc :: "'a \<Rightarrow> 'e + bytes"
  assumes app_enc: "app dst x = rmap (\<lambda>s. dst @ s) (enc x)"
begin

lemma app_extends: "app dst x = Inr out \<Longrightarrow> \<exists>s. enc x = Inr s \<and> out = dst @ s"
  by (auto simp: app_enc res_simps)

lemma app_fails: "app dst x = Inl e \<longleftrightarrow> enc x = Inl e"
  by (auto simp: app_enc res_simps)

lemma app_take: "app dst x = Inr out \<Longrightarrow> take (length dst) out = dst"
  by (auto dest: app_extends)

lemma app_rfold:
  "rfold (\<lambda>x dst. app dst x) xs dst =
     rmap (\<lambda>s. dst @ s) (rfold (\<lambda>x dst. app dst x) xs [])"
proof (induction xs arbitrary: dst)
  case Nil
  show ?case by simp
next
  case (Cons x xs)
  show ?case
  proof (cases "enc x")
    case (Inl e)
    then show ?thesis by (simp add: app_enc)
  next
    case (Inr s)
    have "rfold (\<lambda>x dst. app dst x) xs (dst @ s) =
        rmap (\<lambda>t. dst @ s @ t) (rfold (\<lambda>x dst. app dst x) xs [])"
      using Cons.IH [of "dst @ s"] by simp
    moreover have "rfold (\<lambda>x dst. app dst x) xs s =
        rmap (\<lambda>t. s @ t) (rfold (\<lambda>x dst. app dst x) xs [])"
      using Cons.IH [of s] by simp
    ultimately show ?thesis
      using Inr by (simp add: app_enc comp_def)
  qed
qed

end

section \<open>The first of a list of options\<close>

fun first_some :: "'a option list \<Rightarrow> 'a option" where
  "first_some [] = None"
| "first_some (Some x # xs) = Some x"
| "first_some (None # xs) = first_some xs"

lemma first_some_None: "first_some xs = None \<longleftrightarrow> (\<forall>x \<in> set xs. x = None)"
  by (induction xs rule: first_some.induct) auto

lemma first_some_in: "first_some xs = Some x \<Longrightarrow> Some x \<in> set xs"
  by (induction xs rule: first_some.induct) auto

end
