(* ===== verification/Utf8.thy ===== *)
theory Utf8
  imports Prelude
begin

text \<open>
  What the code uses of Go's package \<open>unicode/utf8\<close>: decoding the first rune of a byte
  string (Unicode 15, table 3-7), the validity of a whole string and the encoding of a rune.
  The loops of the code walk a string with an offset \<open>i\<close>; here they walk the suffix
  \<open>s[i:]\<close>. A failed decode is the pair of \<open>utf8.RuneError\<close> and the size 1, as in Go.
\<close>

definition rune_error :: nat where
  "rune_error = 0xFFFD"

text \<open>For a lead byte: how many continuation bytes follow, and the range of the first of
  them; no continuation byte for a byte that starts no multi-byte sequence.\<close>

definition utf8_class :: "nat \<Rightarrow> nat \<times> nat \<times> nat" where
  "utf8_class b =
     (if 0xC2 \<le> b \<and> b \<le> 0xDF then (1, 0x80, 0xBF)
      else if b = 0xE0 then (2, 0xA0, 0xBF)
      else if b = 0xED then (2, 0x80, 0x9F)
      else if 0xE1 \<le> b \<and> b \<le> 0xEF then (2, 0x80, 0xBF)
      else if b = 0xF0 then (3, 0x90, 0xBF)
      else if 0xF1 \<le> b \<and> b \<le> 0xF3 then (3, 0x80, 0xBF)
      else if b = 0xF4 then (3, 0x80, 0x8F)
      else (0, 0, 0))"

text \<open>The payload bits of the lead byte, and the value of a sequence.\<close>

definition lead_bits :: "nat \<Rightarrow> nat \<Rightarrow> nat" where
  "lead_bits n b = (if n = 1 then b - 0xC0 else if n = 2 then b - 0xE0 else b - 0xF0)"

definition seq_value :: "nat \<Rightarrow> nat \<Rightarrow> bytes \<Rightarrow> nat" where
  "seq_value n b cs = foldl (\<lambda>v c. v * 64 + (byte c - 0x80)) (lead_bits n b) (take n cs)"

definition seq_ok :: "nat \<Rightarrow> nat \<Rightarrow> nat \<Rightarrow> bytes \<Rightarrow> bool" where
  "seq_ok n lo hi cs \<longleftrightarrow>
     n \<noteq> 0 \<and> n \<le> length cs \<and> byte_between lo hi (hd cs) \<and>
     list_all (byte_between 0x80 0xBF) (tl (take n cs))"

fun decode_rune :: "bytes \<Rightarrow> nat \<times> nat" where
  "decode_rune [] = (rune_error, 0)"
| "decode_rune (c # cs) =
     (if byte c < 0x80 then (byte c, 1)
      else case utf8_class (byte c) of (n, lo, hi) \<Rightarrow>
        if seq_ok n lo hi cs then (seq_value n (byte c) cs, Suc n) else (rune_error, 1))"

definition rune_bad :: "bytes \<Rightarrow> bool" where
  "rune_bad s \<longleftrightarrow> decode_rune s = (rune_error, 1)"

abbreviation rune_size :: "bytes \<Rightarrow> nat" where
  "rune_size s \<equiv> snd (decode_rune s)"

lemma utf8_class_le: "utf8_class b = (n, lo, hi) \<Longrightarrow> n \<le> 3"
  by (auto simp: utf8_class_def split: if_splits)

lemma utf8_class_cont: "utf8_class b = (n, lo, hi) \<Longrightarrow> n \<noteq> 0 \<Longrightarrow> 0x80 \<le> lo \<and> hi \<le> 0xBF"
  by (auto simp: utf8_class_def split: if_splits)

lemma seq_ok_length: "seq_ok n lo hi cs \<Longrightarrow> n \<le> length cs"
  by (simp add: seq_ok_def)

lemma rune_size_pos: "s \<noteq> [] \<Longrightarrow> 0 < rune_size s"
  by (cases s) (auto split: prod.splits)

lemma rune_size_le: "rune_size s \<le> length s"
proof (cases s)
  case Nil
  then show ?thesis by simp
next
  case (Cons c cs)
  then show ?thesis
    by (auto dest: seq_ok_length split: prod.splits)
qed

lemma rune_size_le_4: "rune_size s \<le> 4"
proof (cases s)
  case Nil
  then show ?thesis by simp
next
  case (Cons c cs)
  then show ?thesis
    by (auto dest!: utf8_class_le split: prod.splits)
qed

lemma drop_rune_shorter [termination_simp]: "s \<noteq> [] \<Longrightarrow> length (drop (rune_size s) s) < length s"
  using rune_size_pos rune_size_le by (metis diff_less length_drop length_greater_0_conv)

lemma drop_rune_shorter_Cons: "length (drop (rune_size (c # cs)) (c # cs)) < Suc (length cs)"
  using drop_rune_shorter [of "c # cs"] by (simp del: decode_rune.simps)

text \<open>\<open>utf8.ValidString\<close>.\<close>

function valid_utf8 :: "bytes \<Rightarrow> bool" where
  "valid_utf8 s = (if s = [] then True else if rune_bad s then False
     else valid_utf8 (drop (rune_size s) s))"
  by pat_completeness auto
termination
  by (relation "measure length") (use drop_rune_shorter in \<open>auto simp del: length_drop\<close>)

declare valid_utf8.simps [simp del]

lemma valid_utf8_unfold:
  "s \<noteq> [] \<Longrightarrow> valid_utf8 s \<longleftrightarrow> \<not> rune_bad s \<and> valid_utf8 (drop (rune_size s) s)"
  by (subst valid_utf8.simps) simp

lemma valid_utf8_Nil [simp]: "valid_utf8 []"
  by (subst valid_utf8.simps) simp

lemma decode_rune_ascii [simp]: "byte c < 0x80 \<Longrightarrow> decode_rune (c # cs) = (byte c, 1)"
  by simp

lemma rune_bad_ascii [simp]: "byte c < 0x80 \<Longrightarrow> \<not> rune_bad (c # cs)"
  by (simp add: rune_bad_def rune_error_def)

lemma rune_bad_Nil [simp]: "\<not> rune_bad []"
  by (simp add: rune_bad_def)

lemma valid_utf8_ascii [simp]: "byte c < 0x80 \<Longrightarrow> valid_utf8 (c # cs) \<longleftrightarrow> valid_utf8 cs"
  by (subst valid_utf8.simps) simp

lemma rune_multibyte:
  assumes "\<not> byte c < 0x80" and "\<not> rune_bad (c # cs)"
  obtains n lo hi where "utf8_class (byte c) = (n, lo, hi)" and "seq_ok n lo hi cs"
    and "decode_rune (c # cs) = (seq_value n (byte c) cs, Suc n)"
proof -
  obtain n lo hi where k: "utf8_class (byte c) = (n, lo, hi)" by (cases "utf8_class (byte c)")
  with assms have "seq_ok n lo hi cs"
    by (auto simp: rune_bad_def split: if_splits)
  with assms k that show thesis by simp
qed

lemma seq_ok_append: "n \<le> length cs \<Longrightarrow> seq_ok n lo hi (cs @ ds) \<longleftrightarrow> seq_ok n lo hi cs"
  by (cases cs; cases n) (auto simp: seq_ok_def)

lemma seq_value_append: "n \<le> length cs \<Longrightarrow> seq_value n b (cs @ ds) = seq_value n b cs"
  by (simp add: seq_value_def)

lemma decode_rune_append:
  assumes "s \<noteq> []" and "\<not> rune_bad s"
  shows "decode_rune (s @ t) = decode_rune s"
proof (cases s)
  case Nil
  with assms(1) show ?thesis by simp
next
  case (Cons c cs)
  show ?thesis
  proof (cases "byte c < 0x80")
    case True
    with Cons show ?thesis by simp
  next
    case False
    with assms(2) Cons obtain n lo hi where k: "utf8_class (byte c) = (n, lo, hi)"
      and ok: "seq_ok n lo hi cs" by (auto elim: rune_multibyte)
    from ok have "n \<le> length cs" by (rule seq_ok_length)
    with k ok Cons show ?thesis by (simp add: seq_ok_append seq_value_append)
  qed
qed

lemma rune_bad_append: "s \<noteq> [] \<Longrightarrow> \<not> rune_bad s \<Longrightarrow> \<not> rune_bad (s @ t)"
  by (simp add: rune_bad_def decode_rune_append)

lemma seq_ok_take: "seq_ok n lo hi cs \<Longrightarrow> seq_ok n lo hi (take n cs)"
  by (cases cs; cases n) (auto simp: seq_ok_def)

lemma decode_rune_take:
  assumes "s \<noteq> []" and "\<not> rune_bad s"
  shows "decode_rune (take (rune_size s) s) = decode_rune s"
proof (cases s)
  case Nil
  with assms(1) show ?thesis by simp
next
  case (Cons c cs)
  show ?thesis
  proof (cases "byte c < 0x80")
    case True
    with Cons show ?thesis by simp
  next
    case False
    with assms(2) Cons obtain n lo hi where k: "utf8_class (byte c) = (n, lo, hi)"
      and ok: "seq_ok n lo hi cs" and d: "decode_rune s = (seq_value n (byte c) cs, Suc n)"
      by (auto elim: rune_multibyte)
    from k d Cons False seq_ok_take [OF ok] show ?thesis
      by (simp add: seq_value_def)
  qed
qed

lemma rune_cont_bytes:
  assumes "\<not> rune_bad (c # cs)" and "x \<in> set (take (rune_size (c # cs)) (c # cs))" and "\<not> byte c < 0x80"
  shows "0x80 \<le> byte x"
proof -
  from assms(1,3) obtain n lo hi where k: "utf8_class (byte c) = (n, lo, hi)"
    and ok: "seq_ok n lo hi cs" and d: "decode_rune (c # cs) = (seq_value n (byte c) cs, Suc n)"
    by (auto elim: rune_multibyte)
  from k ok have lo: "0x80 \<le> lo" by (auto simp: seq_ok_def dest: utf8_class_cont)
  from assms(2) d have "x = c \<or> x \<in> set (take n cs)" by simp
  moreover from ok have "take n cs \<noteq> []" by (auto simp: seq_ok_def)
  then have "set (take n cs) = insert (hd cs) (set (tl (take n cs)))"
    by (cases "take n cs"; cases cs; cases n) auto
  ultimately show ?thesis
    using assms(3) lo ok by (auto simp: seq_ok_def byte_between_def list_all_iff)
qed

lemma valid_utf8_append:
  "valid_utf8 a \<Longrightarrow> valid_utf8 (a @ b) \<longleftrightarrow> valid_utf8 b"
proof (induction a rule: valid_utf8.induct)
  case (1 a)
  show ?case
  proof (cases "a = []")
    case True
    then show ?thesis by simp
  next
    case False
    with "1.prems" have ok: "\<not> rune_bad a" "valid_utf8 (drop (rune_size a) a)"
      using valid_utf8_unfold [of a] by blast+
    have "drop (rune_size a) (a @ b) = drop (rune_size a) a @ b"
      using rune_size_le [of a] by simp
    with False ok "1.IH" [OF False ok] show ?thesis
      by (simp add: valid_utf8_unfold [of "a @ b"] decode_rune_append rune_bad_append)
  qed
qed

lemma valid_utf8_rune:
  assumes "s \<noteq> []" and "\<not> rune_bad s"
  shows "valid_utf8 (take (rune_size s) s)"
proof -
  let ?t = "take (rune_size s) s"
  have "?t \<noteq> []" using assms(1) rune_size_pos [of s] by auto
  moreover have "decode_rune ?t = decode_rune s" using assms by (rule decode_rune_take)
  moreover from this assms(2) have "\<not> rune_bad ?t" by (simp add: rune_bad_def)
  ultimately show ?thesis by (subst valid_utf8.simps) simp
qed

lemma valid_utf8_step:
  "s \<noteq> [] \<Longrightarrow> \<not> rune_bad s \<Longrightarrow> valid_utf8 s \<longleftrightarrow> valid_utf8 (drop (rune_size s) s)"
  by (subst valid_utf8.simps) simp

lemma valid_utf8_bad: "rune_bad s \<Longrightarrow> \<not> valid_utf8 s"
  by (subst valid_utf8.simps) auto

lemma valid_utf8_ascii_all: "list_all (\<lambda>c. byte c < 0x80) s \<Longrightarrow> valid_utf8 s"
  by (induction s) auto

text \<open>\<open>utf8.AppendRune\<close> for a valid rune.\<close>

definition encode_rune :: "nat \<Rightarrow> bytes" where
  "encode_rune r =
     (if r < 0x80 then [char_of r]
      else if r < 0x800 then [char_of (0xC0 + r div 64), char_of (0x80 + r mod 64)]
      else if r < 0x10000 then
        [char_of (0xE0 + r div 4096), char_of (0x80 + r div 64 mod 64), char_of (0x80 + r mod 64)]
      else [char_of (0xF0 + r div 262144), char_of (0x80 + r div 4096 mod 64),
            char_of (0x80 + r div 64 mod 64), char_of (0x80 + r mod 64)])"

abbreviation replacement :: bytes where
  "replacement \<equiv> encode_rune rune_error"

lemma replacement_bytes: "replacement = [CHR 0xEF, CHR 0xBF, CHR 0xBD]"
  by (simp add: encode_rune_def rune_error_def char_of_def bit_simps bit_nat_def)

lemma valid_replacement: "valid_utf8 replacement"
proof -
  have "decode_rune [CHR 0xEF, CHR 0xBF, CHR 0xBD] = (rune_error, 3)"
    by (simp add: rune_error_def utf8_class_def seq_ok_def byte_between_def seq_value_def
        lead_bits_def)
  then show ?thesis
    by (simp add: replacement_bytes valid_utf8_unfold rune_bad_def del: decode_rune.simps)
qed

section \<open>Encoding is the inverse of decoding\<close>

lemma utf8_class_cases:
  "utf8_class b = (n, lo, hi) \<Longrightarrow> n \<noteq> 0 \<Longrightarrow>
     n = 1 \<and> 0xC2 \<le> b \<and> b \<le> 0xDF \<or>
     n = 2 \<and> 0xE0 \<le> b \<and> b \<le> 0xEF \<and> (b = 0xE0 \<longrightarrow> lo = 0xA0) \<or>
     n = 3 \<and> 0xF0 \<le> b \<and> b \<le> 0xF4 \<and> (b = 0xF0 \<longrightarrow> lo = 0x90) \<and> (b = 0xF4 \<longrightarrow> hi = 0x8F)"
  by (auto simp: utf8_class_def split: if_splits)

lemma encode_2:
  "0xC2 \<le> b \<Longrightarrow> b \<le> 0xDF \<Longrightarrow> c < 64 \<Longrightarrow> encode_rune ((b - 0xC0) * 64 + c) = [char_of b, char_of (0x80 + c)]"
  by (auto simp: encode_rune_def)

lemma encode_3:
  assumes "0xE0 \<le> b" "b \<le> 0xEF" "b = 0xE0 \<Longrightarrow> 0x20 \<le> c" "c < 64" "d < 64"
  shows "encode_rune (((b - 0xE0) * 64 + c) * 64 + d) = [char_of b, char_of (0x80 + c), char_of (0x80 + d)]"
proof -
  let ?v = "((b - 0xE0) * 64 + c) * 64 + d"
  have "?v mod 64 = d" using assms(5) by (simp only: mod_mult_self3 mod_less)
  moreover have "?v div 4096 = b - 0xE0" "?v div 64 = (b - 0xE0) * 64 + c" "?v < 0x10000" using assms by simp_all
  moreover have "\<not> ?v < 0x800"
  proof (cases "b = 0xE0")
    case True
    with assms(3) show ?thesis by simp
  next
    case False
    with assms(1) have "1 \<le> b - 0xE0" by simp
    then show ?thesis by simp
  qed
  ultimately show ?thesis using assms by (simp add: encode_rune_def)
qed

lemma encode_4:
  assumes "0xF0 \<le> b" "b \<le> 0xF4" "b = 0xF0 \<Longrightarrow> 0x10 \<le> c" "c < 64" "d < 64" "e < 64"
  shows "encode_rune ((((b - 0xF0) * 64 + c) * 64 + d) * 64 + e) =
    [char_of b, char_of (0x80 + c), char_of (0x80 + d), char_of (0x80 + e)]"
proof -
  let ?v = "(((b - 0xF0) * 64 + c) * 64 + d) * 64 + e"
  have "?v mod 64 = e" "(((b - 0xF0) * 64 + c) * 64 + d) mod 64 = d" "((b - 0xF0) * 64 + c) mod 64 = c"
    using assms(4-6) by (simp_all only: mod_mult_self3 mod_less)
  moreover have "?v div 262144 = b - 0xF0" "?v div 4096 = (b - 0xF0) * 64 + c" "?v div 64 = ((b - 0xF0) * 64 + c) * 64 + d"
    using assms by simp_all
  moreover have "\<not> ?v < 0x10000"
  proof (cases "b = 0xF0")
    case True
    with assms(3) show ?thesis by simp
  next
    case False
    with assms(1) have "1 \<le> b - 0xF0" by simp
    then show ?thesis by simp
  qed
  ultimately show ?thesis using assms by (simp add: encode_rune_def)
qed

lemma encode_decode:
  assumes "s \<noteq> []" and "\<not> rune_bad s"
  shows "encode_rune (fst (decode_rune s)) = take (rune_size s) s"
proof -
  obtain c cs where s: "s = c # cs" using assms(1) by (cases s) auto
  show ?thesis
  proof (cases "byte c < 0x80")
    case True
    then show ?thesis by (simp add: s encode_rune_def)
  next
    case False
    with assms(2) s obtain n lo hi where k: "utf8_class (byte c) = (n, lo, hi)" and ok: "seq_ok n lo hi cs"
      and d: "decode_rune (c # cs) = (seq_value n (byte c) cs, Suc n)" by (auto elim: rune_multibyte)
    have cont: "0x80 \<le> lo" "hi \<le> 0xBF" "n \<noteq> 0" using ok k utf8_class_cont [OF k] by (auto simp: seq_ok_def)
    from utf8_class_cases [OF k cont(3)] consider
        "n = 1" "0xC2 \<le> byte c" "byte c \<le> 0xDF"
      | "n = 2" "0xE0 \<le> byte c" "byte c \<le> 0xEF" "byte c = 0xE0 \<longrightarrow> lo = 0xA0"
      | "n = 3" "0xF0 \<le> byte c" "byte c \<le> 0xF4" "byte c = 0xF0 \<longrightarrow> lo = 0x90" by blast
    then show ?thesis
    proof cases
      case 1
      with ok obtain x xs where cs: "cs = x # xs" "0x80 \<le> byte x" "byte x \<le> 0xBF"
        using cont by (cases cs) (auto simp: seq_ok_def byte_between_def)
      with encode_2 [OF 1(2,3), of "byte x - 0x80"] show ?thesis
        unfolding s d 1(1) by (simp add: seq_value_def lead_bits_def)
    next
      case 2
      with ok obtain x y xs where cs: "cs = x # y # xs" "lo \<le> byte x" "byte x \<le> 0xBF" "0x80 \<le> byte y" "byte y \<le> 0xBF"
        using cont by (cases cs; cases "tl cs") (auto simp: seq_ok_def byte_between_def)
      then have "byte c = 0xE0 \<Longrightarrow> 0x20 \<le> byte x - 0x80" "byte x - 0x80 < 64" "byte y - 0x80 < 64" using 2(4) by auto
      from encode_3 [OF 2(2,3) this] cs cont show ?thesis
        unfolding s d 2(1) by (simp add: seq_value_def lead_bits_def)
    next
      case 3
      with ok obtain x y z xs where cs: "cs = x # y # z # xs" "lo \<le> byte x" "byte x \<le> 0xBF" "0x80 \<le> byte y" "byte y \<le> 0xBF"
        "0x80 \<le> byte z" "byte z \<le> 0xBF"
        using cont by (cases cs; cases "tl cs"; cases "tl (tl cs)") (auto simp: seq_ok_def byte_between_def)
      then have "byte c = 0xF0 \<Longrightarrow> 0x10 \<le> byte x - 0x80" "byte x - 0x80 < 64" "byte y - 0x80 < 64" "byte z - 0x80 < 64"
        using 3(4) by auto
      from encode_4 [OF 3(2,3) this] cs cont show ?thesis
        unfolding s d 3(1) by (simp add: seq_value_def lead_bits_def)
    qed
  qed
qed
end
