(* ===== verification/Wire_Json.thy ===== *)
theory Wire_Json
  imports Utf8
begin

text \<open>
  The question serialiser's JSON layer, \<open>internal/wire/json.go\<close>: strings written as JSON
  (\<open>AppendString\<close>), and JSON text checked and compacted (\<open>AppendJSON\<close>) by an iterative
  scanner with an explicit stack of open containers. The scanners walk the suffix of the
  input from the offset the code holds; an error's \<open>Offset\<close> is the input's length \<open>n\<close> less
  the length of the suffix. The second half relates the scanner to the grammar of JSON text.
\<close>

section \<open>Errors\<close>

text \<open>The messages of a \<open>SyntaxError\<close>, one constructor per message of the source.\<close>

datatype syntax_msg =
    EndWantValue | UnexpectedWantValue char
  | UnexpectedAfterValue char
  | EndWantClose | UnexpectedWantClose char
  | EndWantName | UnexpectedWantName char | WantColon
  | UnterminatedEscape | InvalidUEscape | InvalidEscape char
  | RawControlChar char | InvalidUtf8Char | UnterminatedString
  | InvalidLiteral bytes
  | NumberWantDigit | NumberWantFraction | NumberWantExponent

datatype json_error =
    ErrInvalidUTF8
  | ErrContentShape
  | SyntaxError (se_offset: nat) (se_msg: syntax_msg)

type_synonym 'a jres = "json_error + 'a"

section \<open>Writing a string\<close>

text \<open>\<open>hexDigits\<close>: the lower-case hexadecimal digit of a nibble.\<close>

definition hex_digit :: "nat \<Rightarrow> char" where
  "hex_digit d = (if d < 10 then char_of (48 + d) else char_of (87 + d))"

text \<open>The escape the switch of \<open>AppendString\<close> writes for a byte that needs one.\<close>

definition escape_byte :: "char \<Rightarrow> bytes" where
  "escape_byte c =
     (if c = quote_char \<or> c = backslash then [backslash, c]
      else if byte c = 8 then [backslash, CHR ''b'']
      else if byte c = 9 then [backslash, CHR ''t'']
      else if byte c = 10 then [backslash, CHR ''n'']
      else if byte c = 12 then [backslash, CHR ''f'']
      else if byte c = 13 then [backslash, CHR ''r'']
      else [backslash, CHR ''u'', CHR ''0'', CHR ''0'', hex_digit (byte c div 16), hex_digit (byte c mod 16)])"

text \<open>The loop of \<open>AppendString\<close>: \<open>seg\<close> is the segment \<open>s[start:i]\<close> not written yet, and
  \<open>s\<close> the string from \<open>i\<close> on.\<close>

function append_string_loop :: "bytes \<Rightarrow> bytes \<Rightarrow> bytes \<Rightarrow> bytes jres" where
  "append_string_loop dst seg s =
     (case s of
        [] \<Rightarrow> Inr (dst @ seg @ [quote_char])
      | c # cs \<Rightarrow>
          if 0x80 \<le> byte c then
            if rune_bad s then Inl ErrInvalidUTF8
            else append_string_loop dst (seg @ take (rune_size s) s) (drop (rune_size s) s)
          else if 0x20 \<le> byte c \<and> c \<noteq> quote_char \<and> c \<noteq> backslash then
            append_string_loop dst (seg @ [c]) cs
          else append_string_loop (dst @ seg @ escape_byte c) [] cs)"
  by pat_completeness auto
termination
  by (relation "measure (\<lambda>(dst, seg, s). length s)")
     (simp_all add: drop_rune_shorter_Cons del: length_drop decode_rune.simps)

declare append_string_loop.simps [simp del]

definition append_string :: "bytes \<Rightarrow> bytes \<Rightarrow> bytes jres" where
  "append_string dst s = append_string_loop (dst @ [quote_char]) [] s"

section \<open>Scanning tokens\<close>

definition is_space :: "char \<Rightarrow> bool" where
  "is_space c \<longleftrightarrow> c = CHR '' '' \<or> byte c = 9 \<or> byte c = 10 \<or> byte c = 13"

fun skip_space :: "bytes \<Rightarrow> bytes" where
  "skip_space [] = []"
| "skip_space (c # cs) = (if is_space c then skip_space cs else c # cs)"

text \<open>The bytes between two suffixes of the input, the slice \<open>raw[i:j]\<close>.\<close>

definition slice_to :: "bytes \<Rightarrow> bytes \<Rightarrow> bytes" where
  "slice_to r r' = take (length r - length r') r"

lemma drop_4_le: "length (drop 4 ds) < Suc (Suc (length ds))"
  by simp

text \<open>\<open>appendStringToken\<close> from the byte after the opening quote on: the suffix past the
  closing quote.\<close>

function scan_string :: "nat \<Rightarrow> bytes \<Rightarrow> bytes jres" where
  "scan_string n r =
     (case r of
        [] \<Rightarrow> Inl (SyntaxError n UnterminatedString)
      | c # cs \<Rightarrow>
          if c = quote_char then Inr cs
          else if c = backslash then
            (case cs of
               [] \<Rightarrow> Inl (SyntaxError (n - length r) UnterminatedEscape)
             | d # ds \<Rightarrow>
                 if d \<in> {quote_char, backslash, CHR ''/'', CHR ''b'', CHR ''f'', CHR ''n'', CHR ''r'', CHR ''t''}
                 then scan_string n ds
                 else if d = CHR ''u'' then
                   if length ds < 4 \<or> \<not> list_all is_hex (take 4 ds)
                   then Inl (SyntaxError (n - length r) InvalidUEscape)
                   else scan_string n (drop 4 ds)
                 else Inl (SyntaxError (n - length r) (InvalidEscape d)))
          else if byte c < 0x20 then Inl (SyntaxError (n - length r) (RawControlChar c))
          else if byte c < 0x80 then scan_string n cs
          else if rune_bad r then Inl (SyntaxError (n - length r) InvalidUtf8Char)
          else scan_string n (drop (rune_size r) r))"
  by pat_completeness auto
termination
  by (relation "measure (\<lambda>(n, r). length r)")
     (simp_all add: drop_rune_shorter_Cons drop_4_le del: length_drop decode_rune.simps)

declare scan_string.simps [simp del]

definition append_string_token :: "nat \<Rightarrow> bytes \<Rightarrow> bytes \<Rightarrow> (bytes \<times> bytes) jres" where
  "append_string_token n dst r = rmap (\<lambda>r'. (dst @ slice_to r r', r')) (scan_string n (tl r))"

definition append_literal :: "nat \<Rightarrow> bytes \<Rightarrow> bytes \<Rightarrow> bytes \<Rightarrow> (bytes \<times> bytes) jres" where
  "append_literal n dst r lit =
     (if length r < length lit \<or> take (length lit) r \<noteq> lit
      then Inl (SyntaxError (n - length r) (InvalidLiteral lit))
      else Inr (dst @ lit, drop (length lit) r))"

fun skip_digits :: "bytes \<Rightarrow> bytes" where
  "skip_digits [] = []"
| "skip_digits (c # cs) = (if is_digit c then skip_digits cs else c # cs)"

text \<open>\<open>appendNumber\<close>, its three steps in the source's order: the sign and the integer part,
  the fraction, the exponent. Each takes the suffix it starts at and returns the one it ends
  at.\<close>

definition scan_integer :: "nat \<Rightarrow> bytes \<Rightarrow> bytes jres" where
  "scan_integer n r =
     (let j = (case r of c # cs \<Rightarrow> if c = CHR ''-'' then cs else r | [] \<Rightarrow> r) in
      case j of
        [] \<Rightarrow> Inl (SyntaxError (n - length j) NumberWantDigit)
      | c # cs \<Rightarrow>
          if c = CHR ''0'' then Inr cs
          else if byte_between 49 57 c then Inr (skip_digits cs)
          else Inl (SyntaxError (n - length j) NumberWantDigit))"

definition scan_fraction :: "nat \<Rightarrow> bytes \<Rightarrow> bytes jres" where
  "scan_fraction n j =
     (case j of
        [] \<Rightarrow> Inr j
      | c # cs \<Rightarrow>
          if c = CHR ''.'' then
            let k = skip_digits cs in
            if length k = length cs then Inl (SyntaxError (n - length k) NumberWantFraction) else Inr k
          else Inr j)"

definition scan_exponent :: "nat \<Rightarrow> bytes \<Rightarrow> bytes jres" where
  "scan_exponent n j =
     (case j of
        [] \<Rightarrow> Inr j
      | c # cs \<Rightarrow>
          if c = CHR ''e'' \<or> c = CHR ''E'' then
            let s = (case cs of d # ds \<Rightarrow> if d = CHR ''+'' \<or> d = CHR ''-'' then ds else cs | [] \<Rightarrow> cs);
                k = skip_digits s in
            if length k = length s then Inl (SyntaxError (n - length k) NumberWantExponent) else Inr k
          else Inr j)"

definition scan_number :: "nat \<Rightarrow> bytes \<Rightarrow> bytes jres" where
  "scan_number n r = rbind (scan_integer n r) (\<lambda>j. rbind (scan_fraction n j) (scan_exponent n))"

definition append_number :: "nat \<Rightarrow> bytes \<Rightarrow> bytes \<Rightarrow> (bytes \<times> bytes) jres" where
  "append_number n dst r = rmap (\<lambda>r'. (dst @ slice_to r r', r')) (scan_number n r)"

definition append_member_name :: "nat \<Rightarrow> bytes \<Rightarrow> bytes \<Rightarrow> (bytes \<times> bytes) jres" where
  "append_member_name n dst r =
     (case r of
        [] \<Rightarrow> Inl (SyntaxError (n - length r) EndWantName)
      | c # cs \<Rightarrow>
          if c \<noteq> quote_char then Inl (SyntaxError (n - length r) (UnexpectedWantName c))
          else case append_string_token n dst r of
            Inl e \<Rightarrow> Inl e
          | Inr (dst', r') \<Rightarrow>
              (let s = skip_space r' in
               case s of
                 [] \<Rightarrow> Inl (SyntaxError (n - length s) WantColon)
               | d # ds \<Rightarrow>
                   if d \<noteq> CHR '':'' then Inl (SyntaxError (n - length s) WantColon)
                   else Inr (dst' @ [CHR '':''], skip_space ds)))"

section \<open>The stack machine\<close>

text \<open>The closing bracket of an open container.\<close>

definition closer :: "char \<Rightarrow> char" where
  "closer c = (if c = CHR ''['' then CHR '']'' else CHR ''}'')"

text \<open>The scanners return a suffix of what they were given.\<close>

lemma skip_space_length: "length (skip_space r) \<le> length r"
  by (induction r) auto

lemma skip_digits_length: "length (skip_digits r) \<le> length r"
  by (induction r) auto

lemma scan_string_length: "scan_string n r = Inr r' \<Longrightarrow> length r' < length r"
proof (induction n r rule: scan_string.induct)
  case (1 n r)
  show ?case
  proof (cases r)
    case Nil
    with "1.prems" show ?thesis by (simp add: scan_string.simps)
  next
    case (Cons c cs)
    consider (close) "c = quote_char" | (esc) "c = backslash" "c \<noteq> quote_char"
      | (low) "c \<noteq> quote_char" "c \<noteq> backslash" "byte c < 0x80"
      | (high) "c \<noteq> quote_char" "c \<noteq> backslash" "\<not> byte c < 0x80" by blast
    then show ?thesis
    proof cases
      case close
      with Cons "1.prems" show ?thesis by (simp add: scan_string.simps)
    next
      case esc
      with Cons "1.prems" "1.IH"(1,2) [OF Cons esc(2,1)] show ?thesis
        by (subst (asm) scan_string.simps) (fastforce split: list.splits if_splits)
    next
      case low
      with Cons "1.prems" "1.IH"(3) [OF Cons low(1,2)] show ?thesis
        by (subst (asm) scan_string.simps) (auto split: if_splits)
    next
      case high
      with Cons "1.prems" "1.IH"(4) [OF Cons high(1,2)] drop_rune_shorter_Cons [of c cs] show ?thesis
        by (subst (asm) scan_string.simps) (fastforce split: if_splits simp del: length_drop decode_rune.simps)
    qed
  qed
qed

lemma scan_number_length:
  assumes "scan_number n r = Inr r'" and "r \<noteq> []"
  shows "length r' < length r"
proof -
  have i: "length j < length r" if "scan_integer n r = Inr j" for j
    using that skip_digits_length
    by (auto simp: scan_integer_def Let_def less_Suc_eq_le le_SucI split: list.splits if_splits)
  have f: "length k \<le> length j" if "scan_fraction n j = Inr k" for j k
    using that skip_digits_length [of "tl j"]
    by (auto simp: scan_fraction_def Let_def split: list.splits if_splits)
  have e: "length k \<le> length j" if "scan_exponent n j = Inr k" for j k
    using that skip_digits_length
    by (auto simp: scan_exponent_def Let_def le_SucI split: list.splits if_splits)
  from assms(1) obtain j k where "scan_integer n r = Inr j" "scan_fraction n j = Inr k"
    "scan_exponent n k = Inr r'"
    by (auto simp: scan_number_def res_simps)
  with i f e show ?thesis by (meson le_less_trans order_trans)
qed

lemma append_string_token_length:
  "append_string_token n dst r = Inr (d, r') \<Longrightarrow> r \<noteq> [] \<Longrightarrow> length r' < length r"
  by (auto simp: append_string_token_def res_simps dest!: scan_string_length)

lemma append_number_length:
  "append_number n dst r = Inr (d, r') \<Longrightarrow> r \<noteq> [] \<Longrightarrow> length r' < length r"
  by (auto simp: append_number_def res_simps dest!: scan_number_length)

lemma append_literal_length:
  "append_literal n dst r lit = Inr (d, r') \<Longrightarrow> lit \<noteq> [] \<Longrightarrow> r \<noteq> [] \<Longrightarrow> length r' < length r"
  by (auto simp: append_literal_def split: if_splits)

lemma append_member_name_length:
  assumes "append_member_name n dst r = Inr (d, r')"
  shows "length r' < length r"
proof -
  from assms obtain d1 r1 where t: "append_string_token n dst r = Inr (d1, r1)" and ne: "r \<noteq> []"
    and r': "length r' \<le> length (tl (skip_space r1))"
    using skip_space_length
    by (auto simp: append_member_name_def Let_def split: list.splits if_splits sum.splits prod.splits)
  from append_string_token_length [OF t ne] r' skip_space_length [of r1] show ?thesis
    by simp
qed

text \<open>The scalar cases of the switch of \<open>AppendJSON\<close>, for the first byte \<open>c\<close> of \<open>rest\<close>.\<close>

definition json_token :: "nat \<Rightarrow> bytes \<Rightarrow> char \<Rightarrow> bytes \<Rightarrow> (bytes \<times> bytes) jres" where
  "json_token n dst c rest =
     (if c = quote_char then append_string_token n dst rest
      else if c = CHR ''t'' then append_literal n dst rest ''true''
      else if c = CHR ''f'' then append_literal n dst rest ''false''
      else if c = CHR ''n'' then append_literal n dst rest ''null''
      else if c = CHR ''-'' \<or> is_digit c then append_number n dst rest
      else Inl (SyntaxError (n - length rest) (UnexpectedWantValue c)))"

lemma json_token_length: "json_token n dst c rest = Inr (d, r) \<Longrightarrow> rest \<noteq> [] \<Longrightarrow> length r < length rest"
  unfolding json_token_def
  by (simp split: if_split_asm add: append_string_token_length append_number_length)
    (simp_all add: append_literal_length)

text \<open>\<open>AppendJSON\<close>: \<open>json_value\<close> is the outer loop, where a value starts, and \<open>json_after\<close> the
  inner one, where a value has ended. \<open>st\<close> is the stack of open containers, its top first.\<close>

function json_value :: "nat \<Rightarrow> bytes \<Rightarrow> bytes \<Rightarrow> bytes \<Rightarrow> bytes jres"
  and json_after :: "nat \<Rightarrow> bytes \<Rightarrow> bytes \<Rightarrow> bytes \<Rightarrow> bytes jres"
where
  "json_value n dst st rest =
     (case rest of
        [] \<Rightarrow> Inl (SyntaxError n EndWantValue)
      | c # cs \<Rightarrow>
          if c = CHR ''{'' \<or> c = CHR ''['' then
            if skip_space cs \<noteq> [] \<and> hd (skip_space cs) = closer c
            then json_after n (dst @ [c, closer c]) st (tl (skip_space cs))
            else if c = CHR ''['' then json_value n (dst @ [c]) (c # st) (skip_space cs)
            else (case append_member_name n (dst @ [c]) (skip_space cs) of
                    Inl e \<Rightarrow> Inl e
                  | Inr (dst', r) \<Rightarrow> json_value n dst' (c # st) r)
          else
            (case json_token n dst c rest of
               Inl e \<Rightarrow> Inl e
             | Inr (dst', r) \<Rightarrow> json_after n dst' st r))"
| "json_after n dst st rest =
     (case skip_space rest of
        [] \<Rightarrow> (case st of [] \<Rightarrow> Inr dst | tp # st' \<Rightarrow> Inl (SyntaxError n EndWantClose))
      | c # cs \<Rightarrow>
          (case st of
             [] \<Rightarrow> Inl (SyntaxError (n - Suc (length cs)) (UnexpectedAfterValue c))
           | tp # st' \<Rightarrow>
               if c = CHR '','' then
                 if tp = CHR ''{'' then
                   (case append_member_name n (dst @ [c]) (skip_space cs) of
                      Inl e \<Rightarrow> Inl e
                    | Inr (dst', r) \<Rightarrow> json_value n dst' st r)
                 else json_value n (dst @ [c]) st (skip_space cs)
               else if c = closer tp then json_after n (dst @ [c]) st' cs
               else Inl (SyntaxError (n - Suc (length cs)) (UnexpectedWantClose c))))"
  by pat_completeness auto
termination
proof (relation "measure (\<lambda>x. case x of Inl (n, dst, st, rest) \<Rightarrow> length rest | Inr (n, dst, st, rest) \<Rightarrow> length rest)",
       goal_cases)
  case 1
  then show ?case by simp
next
  case (2 n dst st rest c cs)
  then show ?case using skip_space_length [of cs] by auto
next
  case (3 n dst st rest c cs)
  then show ?case using skip_space_length [of cs] by auto
next
  case (4 n dst st rest c cs p dst' r)
  then show ?case using skip_space_length [of cs] by (auto dest!: append_member_name_length)
next
  case (5 n dst st rest c cs p dst' r)
  then show ?case by (auto dest: json_token_length)
next
  case (6 n dst st rest c cs tp st' p dst' r)
  then show ?case
    using skip_space_length [of cs] skip_space_length [of rest] by (auto dest!: append_member_name_length)
next
  case (7 n dst st rest c cs tp st')
  then show ?case using skip_space_length [of cs] skip_space_length [of rest] by auto
next
  case (8 n dst st rest c cs tp st')
  then show ?case using skip_space_length [of rest] by auto
qed

declare json_value.simps [simp del] json_after.simps [simp del]

definition append_json :: "bytes \<Rightarrow> bytes \<Rightarrow> bytes jres" where
  "append_json dst raw = json_value (length raw) dst [] (skip_space raw)"

section \<open>The grammar of JSON text\<close>

text \<open>RFC 8259 as inductive predicates. \<open>str_chars p\<close>: \<open>p\<close> is what may stand between the
  quotes of a string; \<open>num_tok p\<close>: \<open>p\<close> is a number.\<close>

definition rune_tok :: "bytes \<Rightarrow> bool" where
  "rune_tok p \<longleftrightarrow> p \<noteq> [] \<and> \<not> byte (hd p) < 0x80 \<and> \<not> rune_bad p \<and> rune_size p = length p"

definition plain_char :: "char \<Rightarrow> bool" where
  "plain_char c \<longleftrightarrow> byte_between 0x20 0x7F c \<and> c \<noteq> quote_char \<and> c \<noteq> backslash"

definition short_escape :: "char \<Rightarrow> bool" where
  "short_escape d \<longleftrightarrow>
     d \<in> {quote_char, backslash, CHR ''/'', CHR ''b'', CHR ''f'', CHR ''n'', CHR ''r'', CHR ''t''}"

inductive str_chars :: "bytes \<Rightarrow> bool" where
  Sc_Nil: "str_chars []"
| Sc_plain: "plain_char c \<Longrightarrow> str_chars p \<Longrightarrow> str_chars (c # p)"
| Sc_short: "short_escape d \<Longrightarrow> str_chars p \<Longrightarrow> str_chars (backslash # d # p)"
| Sc_hex: "length h = 4 \<Longrightarrow> list_all is_hex h \<Longrightarrow> str_chars p \<Longrightarrow> str_chars (backslash # CHR ''u'' # h @ p)"
| Sc_rune: "rune_tok u \<Longrightarrow> str_chars p \<Longrightarrow> str_chars (u @ p)"

definition int_tok :: "bytes \<Rightarrow> bool" where
  "int_tok i \<longleftrightarrow> i = ''0'' \<or> (i \<noteq> [] \<and> byte_between 49 57 (hd i) \<and> list_all is_digit (tl i))"

definition frac_tok :: "bytes \<Rightarrow> bool" where
  "frac_tok f \<longleftrightarrow> f = [] \<or> (\<exists>ds. f = CHR ''.'' # ds \<and> ds \<noteq> [] \<and> list_all is_digit ds)"

definition exp_tok :: "bytes \<Rightarrow> bool" where
  "exp_tok e \<longleftrightarrow> e = [] \<or> (\<exists>c s ds. e = c # s @ ds \<and> c \<in> {CHR ''e'', CHR ''E''} \<and>
     s \<in> {[], ''+'', ''-''} \<and> ds \<noteq> [] \<and> list_all is_digit ds)"

definition num_tok :: "bytes \<Rightarrow> bool" where
  "num_tok p \<longleftrightarrow> (\<exists>s i f e. p = s @ i @ f @ e \<and> s \<in> {[], ''-''} \<and> int_tok i \<and> frac_tok f \<and> exp_tok e)"

text \<open>\<open>jval c t\<close>: \<open>t\<close> spells a JSON value whose compact form is \<open>c\<close>; \<open>jelems\<close> and
  \<open>jmembers\<close> are what follows the first element of an array, the first member of an
  object, up to the closing bracket.\<close>

abbreviation ws :: "bytes \<Rightarrow> bool" where
  "ws \<equiv> list_all is_space"

definition str_tok :: "bytes \<Rightarrow> bool" where
  "str_tok t \<longleftrightarrow> (\<exists>p. t = quote_char # p @ [quote_char] \<and> str_chars p)"

inductive jval :: "bytes \<Rightarrow> bytes \<Rightarrow> bool"
  and jelems :: "bytes \<Rightarrow> bytes \<Rightarrow> bool"
  and jmembers :: "bytes \<Rightarrow> bytes \<Rightarrow> bool"
where
  J_str: "str_tok t \<Longrightarrow> jval t t"
| J_num: "num_tok t \<Longrightarrow> jval t t"
| J_lit: "t \<in> {''true'', ''false'', ''null''} \<Longrightarrow> jval t t"
| J_arr0: "ws w \<Longrightarrow> jval ''[]'' (CHR ''['' # w @ '']'')"
| J_arr: "ws w \<Longrightarrow> jval c t \<Longrightarrow> jelems ce te \<Longrightarrow>
    jval (CHR ''['' # c @ ce @ '']'') (CHR ''['' # w @ t @ te @ '']'')"
| J_obj0: "ws w \<Longrightarrow> jval [CHR ''{'', CHR ''}''] (CHR ''{'' # w @ [CHR ''}''])"
| J_obj: "ws w \<Longrightarrow> str_tok k \<Longrightarrow> ws w1 \<Longrightarrow> ws w2 \<Longrightarrow> jval c t \<Longrightarrow> jmembers ce te \<Longrightarrow>
    jval (CHR ''{'' # k @ CHR '':'' # c @ ce @ [CHR ''}''])
      (CHR ''{'' # w @ k @ w1 @ CHR '':'' # w2 @ t @ te @ [CHR ''}''])"
| J_elems0: "ws w \<Longrightarrow> jelems [] w"
| J_elems: "ws w \<Longrightarrow> ws w1 \<Longrightarrow> jval c t \<Longrightarrow> jelems ce te \<Longrightarrow>
    jelems (CHR '','' # c @ ce) (w @ CHR '','' # w1 @ t @ te)"
| J_members0: "ws w \<Longrightarrow> jmembers [] w"
| J_members: "ws w0 \<Longrightarrow> ws w \<Longrightarrow> str_tok k \<Longrightarrow> ws w1 \<Longrightarrow> ws w2 \<Longrightarrow> jval c t \<Longrightarrow> jmembers ce te \<Longrightarrow>
    jmembers (CHR '','' # k @ CHR '':'' # c @ ce)
      (w0 @ CHR '','' # w @ k @ w1 @ CHR '':'' # w2 @ t @ te)"

subsection \<open>Tokens\<close>

lemma skip_space_split: "\<exists>w. ws w \<and> r = w @ skip_space r"
proof (induction r)
  case (Cons c cs)
  then obtain w where "ws w" "cs = w @ skip_space cs" by blast
  then show ?case by (cases "is_space c") (auto intro: exI [of _ "c # w"])
qed simp

lemma skip_space_head: "skip_space r = c # cs \<Longrightarrow> \<not> is_space c"
  by (induction r) (auto split: if_splits)

lemma skip_space_ws [simp]: "ws w \<Longrightarrow> skip_space (w @ r) = skip_space r"
  by (induction w) auto

lemma skip_space_ws_all [simp]: "ws w \<Longrightarrow> skip_space w = []"
  using skip_space_ws [of w "[]"] by simp

lemma skip_digits_split: "\<exists>ds. list_all is_digit ds \<and> r = ds @ skip_digits r"
proof (induction r)
  case (Cons c cs)
  then obtain ds where "list_all is_digit ds" "cs = ds @ skip_digits cs" by blast
  then show ?case by (cases "is_digit c") (auto intro: exI [of _ "c # ds"])
qed simp

lemma skip_digits_app [simp]: "list_all is_digit ds \<Longrightarrow> skip_digits (ds @ r) = skip_digits r"
  by (induction ds) auto

lemma skip_digits_stop: "r = [] \<or> \<not> is_digit (hd r) \<Longrightarrow> skip_digits r = r"
  by (cases r) auto

lemma slice_to_split [simp]: "slice_to (p @ r) r = p"
  by (simp add: slice_to_def)

lemma scan_string_Nil: "scan_string n [] = Inl (SyntaxError n UnterminatedString)"
  by (simp add: scan_string.simps)

lemma scan_string_quote [simp]: "scan_string n (quote_char # cs) = Inr cs"
  by (subst scan_string.simps) simp

lemma scan_string_plain: "plain_char c \<Longrightarrow> scan_string n (c # cs) = scan_string n cs"
  by (subst scan_string.simps) (simp add: plain_char_def byte_between_def)

lemma scan_string_short: "short_escape d \<Longrightarrow> scan_string n (backslash # d # cs) = scan_string n cs"
  by (subst scan_string.simps) (simp add: short_escape_def)

lemma scan_string_hex:
  "length h = 4 \<Longrightarrow> list_all is_hex h \<Longrightarrow> scan_string n (backslash # CHR ''u'' # h @ cs) = scan_string n cs"
  by (subst scan_string.simps) simp

lemma rune_tok_head:
  assumes "rune_tok u"
  obtains c cs where "u = c # cs" and "\<not> byte c < 0x80" and "c \<noteq> quote_char" and "c \<noteq> backslash"
proof -
  from assms obtain c cs where u: "u = c # cs" and c: "\<not> byte c < 0x80"
    by (cases u) (auto simp: rune_tok_def)
  from c have "c \<noteq> quote_char" and "c \<noteq> backslash" by auto
  with u c that show thesis by blast
qed

lemma rune_tok_append:
  "rune_tok u \<Longrightarrow> \<not> rune_bad (u @ r) \<and> rune_size (u @ r) = length u"
  using rune_bad_append [of u r] decode_rune_append [of u r] by (auto simp: rune_tok_def)

lemma rune_tok_take:
  assumes "\<not> rune_bad (c # cs)" and "\<not> byte c < 0x80"
  shows "rune_tok (take (rune_size (c # cs)) (c # cs))"
proof -
  have "0 < rune_size (c # cs)" by (rule rune_size_pos) simp
  moreover have "decode_rune (take (rune_size (c # cs)) (c # cs)) = decode_rune (c # cs)"
    by (rule decode_rune_take) (use assms in simp_all)
  moreover have "rune_size (c # cs) \<le> length (c # cs)" by (rule rune_size_le)
  ultimately show ?thesis
    using assms unfolding rune_tok_def rune_bad_def by (simp del: decode_rune.simps)
qed

lemma scan_string_rune:
  assumes "rune_tok u"
  shows "scan_string n (u @ cs) = scan_string n cs"
proof -
  from assms obtain c r where u: "u = c # r" and c: "\<not> byte c < 0x80" "c \<noteq> quote_char" "c \<noteq> backslash"
    by (rule rune_tok_head)
  from rune_tok_append [OF assms, of cs] u have "\<not> rune_bad (c # r @ cs)"
    and "rune_size (c # r @ cs) = Suc (length r)" by simp_all
  with u c show ?thesis
    by (subst scan_string.simps) (simp del: decode_rune.simps)
qed

lemma scan_string_complete: "str_chars p \<Longrightarrow> scan_string n (p @ quote_char # r) = Inr r"
  by (induction rule: str_chars.induct)
    (simp_all add: scan_string_plain scan_string_short scan_string_hex scan_string_rune)

lemma scan_string_sound:
  "scan_string n r = Inr r' \<Longrightarrow> \<exists>p. r = p @ quote_char # r' \<and> str_chars p"
proof (induction n r rule: scan_string.induct)
  case (1 n r)
  show ?case
  proof (cases r)
    case Nil
    with "1.prems" show ?thesis by (simp add: scan_string_Nil)
  next
    case (Cons c cs)
    have step: "\<exists>p. r = p @ quote_char # r' \<and> str_chars p"
      if "r = t @ r1" and "\<And>p. str_chars p \<Longrightarrow> str_chars (t @ p)"
        and "\<exists>p. r1 = p @ quote_char # r' \<and> str_chars p" for t r1
      using that by (metis append.assoc)
    consider (close) "c = quote_char" | (esc) "c = backslash" "c \<noteq> quote_char"
      | (low) "c \<noteq> quote_char" "c \<noteq> backslash" "byte c < 0x80"
      | (high) "c \<noteq> quote_char" "c \<noteq> backslash" "\<not> byte c < 0x80" by blast
    then show ?thesis
    proof cases
      case close
      with Cons "1.prems" show ?thesis by (auto intro: exI [of _ "[]"] Sc_Nil)
    next
      case esc
      with Cons "1.prems" obtain d ds where cs: "cs = d # ds" by (cases cs) (auto simp: scan_string.simps)
      show ?thesis
      proof (cases "short_escape d")
        case True
        with "1.prems" Cons esc cs have "scan_string n ds = Inr r'" by (simp add: scan_string_short)
        with "1.IH"(1) [OF Cons esc(2,1) cs] True Cons esc cs show ?thesis
          by (intro step [of "[backslash, d]" ds]) (auto simp: short_escape_def Sc_short)
      next
        case False
        then have nd: "d \<notin> {quote_char, backslash, CHR ''/'', CHR ''b'', CHR ''f'', CHR ''n'', CHR ''r'', CHR ''t''}"
          by (simp add: short_escape_def)
        from "1.prems" Cons esc cs nd have u: "d = CHR ''u''" and h: "\<not> (length ds < 4 \<or> \<not> list_all is_hex (take 4 ds))"
          and r': "scan_string n (drop 4 ds) = Inr r'"
          by (subst (asm) scan_string.simps, simp split: if_split_asm)+
        from "1.IH"(2) [OF Cons esc(2,1) cs nd u h r'] u h Cons esc cs show ?thesis
          by (intro step [of "backslash # CHR ''u'' # take 4 ds" "drop 4 ds"]) (auto simp: Sc_hex)
      qed
    next
      case low
      with "1.prems" Cons have "0x20 \<le> byte c" "scan_string n cs = Inr r'"
        by (subst (asm) scan_string.simps, simp split: if_split_asm)+
      with "1.IH"(3) [OF Cons low(1,2)] low Cons show ?thesis
        by (intro step [of "[c]" cs]) (auto simp: plain_char_def byte_between_def Sc_plain)
    next
      case high
      with "1.prems" Cons have nb: "\<not> rune_bad r" "scan_string n (drop (rune_size r) r) = Inr r'"
        by (subst (asm) scan_string.simps, simp split: if_split_asm del: decode_rune.simps)+
      with "1.IH"(4) [OF Cons high(1,2)] high Cons rune_tok_take [of c cs] show ?thesis
        by (intro step [of "take (rune_size r) r" "drop (rune_size r) r"])
          (auto simp: Sc_rune simp del: decode_rune.simps)
    qed
  qed
qed

lemma append_string_token_sound:
  assumes "append_string_token n dst (quote_char # cs) = Inr (d, r)"
  shows "\<exists>t. quote_char # cs = t @ r \<and> str_tok t \<and> d = dst @ t"
proof -
  from assms have "scan_string n cs = Inr r" and d: "d = dst @ slice_to (quote_char # cs) r"
    by (auto simp: append_string_token_def res_simps)
  then obtain p where "cs = p @ quote_char # r" "str_chars p" by (auto dest: scan_string_sound)
  then have "quote_char # cs = (quote_char # p @ [quote_char]) @ r" "str_tok (quote_char # p @ [quote_char])"
    by (auto simp: str_tok_def)
  with d show ?thesis by (metis slice_to_split)
qed

lemma append_string_token_complete:
  assumes "str_tok t"
  shows "append_string_token n dst (t @ r) = Inr (dst @ t, r)"
proof -
  from assms obtain p where t: "t = quote_char # p @ [quote_char]" and p: "str_chars p"
    by (auto simp: str_tok_def)
  from scan_string_complete [OF p, of n r] slice_to_split [of t r] t show ?thesis
    by (simp add: append_string_token_def)
qed

lemma str_tok_Cons: "str_tok t \<Longrightarrow> \<exists>cs. t = quote_char # cs"
  by (auto simp: str_tok_def)

subsection \<open>Numbers\<close>

lemma int_digit: "byte_between 49 57 c \<Longrightarrow> is_digit c \<and> c \<noteq> CHR ''0'' \<and> c \<noteq> CHR ''-''"
  by (auto simp: byte_between_def is_digit_def)

lemma scan_integer_sound:
  assumes "scan_integer n r = Inr j"
  shows "\<exists>s i. r = s @ i @ j \<and> s \<in> {[], ''-''} \<and> int_tok i"
proof -
  define m where "m = (case r of c # cs \<Rightarrow> if c = CHR ''-'' then cs else r | [] \<Rightarrow> r)"
  have s: "\<exists>s. r = s @ m \<and> s \<in> {[], ''-''}" by (cases r) (auto simp: m_def)
  from assms obtain c cs where m: "m = c # cs"
    and j: "c = CHR ''0'' \<and> j = cs \<or> byte_between 49 57 c \<and> j = skip_digits cs"
    by (cases m) (auto simp: scan_integer_def m_def [symmetric] split: if_splits)
  have "\<exists>i. m = i @ j \<and> int_tok i"
    using j
  proof
    assume "c = CHR ''0'' \<and> j = cs"
    with m show ?thesis by (auto simp: int_tok_def intro: exI [of _ "''0''"])
  next
    assume a: "byte_between 49 57 c \<and> j = skip_digits cs"
    from skip_digits_split [of cs] obtain ds where "list_all is_digit ds" "cs = ds @ skip_digits cs" by blast
    with a m show ?thesis by (auto simp: int_tok_def intro!: exI [of _ "c # ds"])
  qed
  with s show ?thesis by auto
qed

lemma scan_fraction_sound:
  assumes "scan_fraction n r = Inr j"
  shows "\<exists>f. r = f @ j \<and> frac_tok f"
proof (cases "\<exists>cs. r = CHR ''.'' # cs")
  case True
  then obtain cs where r: "r = CHR ''.'' # cs" by blast
  from assms r have j: "j = skip_digits cs" "length j \<noteq> length cs"
    by (auto simp: scan_fraction_def Let_def split: if_splits)
  from skip_digits_split [of cs] j(1) obtain ds where ds: "list_all is_digit ds" "cs = ds @ j" by blast
  with j(2) r show ?thesis by (auto simp: frac_tok_def intro!: exI [of _ "CHR ''.'' # ds"])
next
  case False
  with assms show ?thesis by (auto simp: scan_fraction_def frac_tok_def split: list.splits if_splits)
qed

lemma scan_exponent_sound:
  assumes "scan_exponent n r = Inr j"
  shows "\<exists>e. r = e @ j \<and> exp_tok e"
proof (cases "\<exists>c cs. r = c # cs \<and> c \<in> {CHR ''e'', CHR ''E''}")
  case True
  then obtain c cs where r: "r = c # cs" and c: "c \<in> {CHR ''e'', CHR ''E''}" by blast
  define m where "m = (case cs of d # ds \<Rightarrow> if d = CHR ''+'' \<or> d = CHR ''-'' then ds else cs | [] \<Rightarrow> cs)"
  have s: "\<exists>s. cs = s @ m \<and> s \<in> {[], ''+'', ''-''}" by (cases cs) (auto simp: m_def)
  from assms r c have j: "j = skip_digits m" "length j \<noteq> length m"
    by (auto simp: scan_exponent_def Let_def m_def [symmetric] split: if_splits)
  from skip_digits_split [of m] j(1) obtain ds where ds: "list_all is_digit ds" "m = ds @ j" by blast
  with j(2) have "ds \<noteq> []" by auto
  from s obtain s where s: "cs = s @ m" "s \<in> {[], ''+'', ''-''}" by blast
  from r s(1) ds(2) have "r = (c # s @ ds) @ j" by simp
  moreover from c s(2) ds(1) \<open>ds \<noteq> []\<close> have "exp_tok (c # s @ ds)" unfolding exp_tok_def by blast
  ultimately show ?thesis by blast
next
  case False
  with assms show ?thesis by (auto simp: scan_exponent_def exp_tok_def split: list.splits if_splits)
qed

lemma scan_number_sound:
  assumes "scan_number n r = Inr j"
  shows "\<exists>p. r = p @ j \<and> num_tok p"
proof -
  from assms obtain j1 j2 where i: "scan_integer n r = Inr j1" and f: "scan_fraction n j1 = Inr j2"
    and e: "scan_exponent n j2 = Inr j" by (auto simp: scan_number_def res_simps)
  from scan_integer_sound [OF i] scan_fraction_sound [OF f] scan_exponent_sound [OF e]
  obtain s t u v where "r = (s @ t @ u @ v) @ j" "s \<in> {[], ''-''}" "int_tok t" "frac_tok u" "exp_tok v"
    by auto
  then show ?thesis unfolding num_tok_def by blast
qed

text \<open>A number ends where none of its parts can go on.\<close>

definition num_stop :: "bytes \<Rightarrow> bool" where
  "num_stop r \<longleftrightarrow> r = [] \<or> \<not> (is_digit (hd r) \<or> hd r \<in> {CHR ''.'', CHR ''e'', CHR ''E''})"

lemma not_digit [simp]: "\<not> is_digit CHR ''.''" "\<not> is_digit CHR ''e''" "\<not> is_digit CHR ''E''"
  "\<not> is_digit CHR ''+''" "\<not> is_digit CHR ''-''"
  by (simp_all add: is_digit_def byte_between_def)

lemma digit_start: "is_digit c \<Longrightarrow> c \<notin> {CHR '']'', quote_char, CHR ''t'', CHR ''f'', CHR ''n'', CHR ''{'', CHR ''[''} \<and> \<not> is_space c"
  by (auto simp: is_digit_def byte_between_def is_space_def)

lemma scan_integer_complete:
  assumes "int_tok i" and "s \<in> {[], ''-''}" and "j = [] \<or> \<not> is_digit (hd j)"
  shows "scan_integer n (s @ i @ j) = Inr j"
proof (cases "i = ''0''")
  case True
  with assms(2) show ?thesis by (auto simp: scan_integer_def)
next
  case False
  with assms(1) obtain c ds where i: "i = c # ds" "byte_between 49 57 c" "list_all is_digit ds"
    by (cases i) (auto simp: int_tok_def)
  from i assms(2) int_digit [OF i(2)] show ?thesis
    by (auto simp: scan_integer_def skip_digits_stop [OF assms(3)])
qed

lemma scan_fraction_complete:
  assumes "frac_tok f" and "j = [] \<or> \<not> is_digit (hd j) \<and> hd j \<noteq> CHR ''.''"
  shows "scan_fraction n (f @ j) = Inr j"
proof (cases "f = []")
  case True
  with assms(2) show ?thesis by (cases j) (auto simp: scan_fraction_def)
next
  case False
  with assms(1) obtain ds where f: "f = CHR ''.'' # ds" "ds \<noteq> []" "list_all is_digit ds"
    by (auto simp: frac_tok_def)
  from assms(2) have "skip_digits j = j" by (auto intro: skip_digits_stop)
  with f show ?thesis by (simp add: scan_fraction_def)
qed

lemma scan_exponent_complete:
  assumes "exp_tok e" and "num_stop j"
  shows "scan_exponent n (e @ j) = Inr j"
proof (cases "e = []")
  case True
  with assms(2) show ?thesis by (cases j) (auto simp: scan_exponent_def num_stop_def)
next
  case False
  with assms(1) obtain c s ds where e: "e = c # s @ ds" "c \<in> {CHR ''e'', CHR ''E''}"
    "s \<in> {[], ''+'', ''-''}" "ds \<noteq> []" "list_all is_digit ds" by (auto simp: exp_tok_def)
  from assms(2) have st: "skip_digits j = j" by (auto intro: skip_digits_stop simp: num_stop_def)
  have cs: "(case s @ ds @ j of d # ds' \<Rightarrow> if d = CHR ''+'' \<or> d = CHR ''-'' then ds' else s @ ds @ j
      | [] \<Rightarrow> s @ ds @ j) = ds @ j"
    using e(3-5) by (cases ds) auto
  from e(1,2,4,5) st show ?thesis
    by (auto simp: scan_exponent_def Let_def cs)
qed

lemma scan_number_complete:
  assumes "num_tok p" and "num_stop r"
  shows "scan_number n (p @ r) = Inr r"
proof -
  from assms(1) obtain s i f e where p: "p = s @ i @ f @ e" and t: "s \<in> {[], ''-''}" "int_tok i"
    "frac_tok f" "exp_tok e" by (auto simp: num_tok_def)
  have ef: "e @ r = [] \<or> \<not> is_digit (hd (e @ r)) \<and> hd (e @ r) \<noteq> CHR ''.''"
    using t(4) assms(2) by (auto simp: exp_tok_def num_stop_def)
  then have ff: "f @ e @ r = [] \<or> \<not> is_digit (hd (f @ e @ r))"
    using t(3) by (auto simp: frac_tok_def)
  show ?thesis
    using scan_integer_complete [OF t(2,1) ff] scan_fraction_complete [OF t(3) ef]
      scan_exponent_complete [OF t(4) assms(2)]
    by (simp add: scan_number_def p)
qed

lemma int_tok_Cons: "int_tok i \<Longrightarrow> \<exists>c cs. i = c # cs \<and> is_digit c"
  by (cases i) (auto simp: int_tok_def is_digit_def byte_between_def)

lemma num_tok_Cons: "num_tok t \<Longrightarrow> \<exists>c cs. t = c # cs \<and> (c = CHR ''-'' \<or> is_digit c)"
  unfolding num_tok_def by (fastforce dest: int_tok_Cons)

subsection \<open>Scalars and member names\<close>

definition scalar_tok :: "bytes \<Rightarrow> bool" where
  "scalar_tok t \<longleftrightarrow> str_tok t \<or> num_tok t \<or> t \<in> {''true'', ''false'', ''null''}"

lemma append_literal_sound:
  "append_literal n dst r lit = Inr (d, r') \<Longrightarrow> r = lit @ r' \<and> d = dst @ lit"
  by (auto simp: append_literal_def split: if_splits) (metis append_take_drop_id)

lemma append_literal_complete [simp]: "append_literal n dst (lit @ r) lit = Inr (dst @ lit, r)"
  by (simp add: append_literal_def)

lemma append_number_sound:
  "append_number n dst r = Inr (d, r') \<Longrightarrow> \<exists>t. r = t @ r' \<and> num_tok t \<and> d = dst @ t"
  by (auto simp: append_number_def res_simps dest!: scan_number_sound)

lemma json_token_sound:
  assumes "json_token n dst c (c # cs) = Inr (d, r)"
  shows "\<exists>t. c # cs = t @ r \<and> scalar_tok t \<and> d = dst @ t"
proof -
  consider "c = quote_char" | l where "append_literal n dst (c # cs) l = Inr (d, r)"
      "l \<in> {''true'', ''false'', ''null''}" | "append_number n dst (c # cs) = Inr (d, r)"
    using assms by (fastforce simp: json_token_def split: if_split_asm)
  then show ?thesis
  proof cases
    case 1
    with assms append_string_token_sound [of n dst cs d r] show ?thesis
      by (auto simp: json_token_def scalar_tok_def)
  next
    case 2
    then show ?thesis by (auto simp: scalar_tok_def dest: append_literal_sound)
  next
    case 3
    then show ?thesis by (auto simp: scalar_tok_def dest: append_number_sound)
  qed
qed

lemma json_token_complete:
  assumes "scalar_tok t" and "num_stop r"
  obtains c cs where "t = c # cs" and "c \<noteq> CHR ''{''" and "c \<noteq> CHR ''[''" and "\<not> is_space c"
    and "json_token n dst c (t @ r) = Inr (dst @ t, r)"
proof -
  consider "str_tok t" | "num_tok t" | "t \<in> {''true'', ''false'', ''null''}"
    using assms(1) by (auto simp: scalar_tok_def)
  then show thesis
  proof cases
    case 1
    with str_tok_Cons [OF 1] append_string_token_complete [OF 1] that show thesis
      by (auto simp: json_token_def is_space_def)
  next
    case 2
    with num_tok_Cons obtain c cs where t: "t = c # cs" "c = CHR ''-'' \<or> is_digit c" by blast
    have "append_number n dst (t @ r) = Inr (dst @ t, r)"
      using scan_number_complete [OF 2 assms(2)] by (simp add: append_number_def)
    with t(1) have "json_token n dst c (t @ r) = Inr (dst @ t, r)"
      using t(2) digit_start [of c] by (auto simp: json_token_def)
    with t that [of c cs] digit_start [of c] show thesis by (auto simp: is_space_def)
  next
    case 3
    then have "json_token n dst (hd t) (t @ r) = append_literal n dst (t @ r) t"
      by (elim insertE) (simp_all add: json_token_def)
    then have "json_token n dst (hd t) (t @ r) = Inr (dst @ t, r)" by simp
    moreover from 3 have "t = hd t # tl t" "hd t \<noteq> CHR ''{''" "hd t \<noteq> CHR ''[''" "\<not> is_space (hd t)"
      by (auto simp: is_space_def)
    ultimately show thesis by (rule that [rotated 4])
  qed
qed

lemma append_member_name_sound:
  assumes "append_member_name n dst r = Inr (d, r')"
  shows "\<exists>k w1 w2. r = k @ w1 @ CHR '':'' # w2 @ r' \<and> str_tok k \<and> ws w1 \<and> ws w2 \<and> d = dst @ k @ '':''"
proof -
  from assms obtain cs d1 r1 ds where r: "r = quote_char # cs"
    and t: "append_string_token n dst r = Inr (d1, r1)" and s: "skip_space r1 = CHR '':'' # ds"
    and d: "d = d1 @ '':''" "r' = skip_space ds"
    by (auto simp: append_member_name_def Let_def split: list.splits if_splits sum.splits prod.splits)
  from t r obtain k where k: "r = k @ r1" "str_tok k" "d1 = dst @ k"
    using append_string_token_sound by blast
  from skip_space_split [of r1] s obtain w1 where w1: "ws w1" "r1 = w1 @ CHR '':'' # ds" by auto
  from skip_space_split [of ds] d(2) obtain w2 where w2: "ws w2" "ds = w2 @ r'" by auto
  from k w1 w2 d(1) show ?thesis by auto
qed

lemma append_member_name_complete:
  assumes "str_tok k" and "ws w1" and "ws w2"
  shows "append_member_name n dst (k @ w1 @ CHR '':'' # w2 @ r) = Inr (dst @ k @ '':'', skip_space r)"
proof -
  from str_tok_Cons [OF assms(1)] obtain cs where "k = quote_char # cs" by blast
  with append_string_token_complete [OF assms(1)] assms(2,3) show ?thesis
    by (simp add: append_member_name_def is_space_def)
qed

subsection \<open>The machine reads the grammar\<close>

text \<open>What is left to read when the containers of the stack are open: the rest of each of
  them, its closing bracket, and white space after the last.\<close>

inductive jrest :: "bytes \<Rightarrow> bytes \<Rightarrow> bytes \<Rightarrow> bool" where
  R_end: "ws w \<Longrightarrow> jrest [] [] w"
| R_arr: "jelems ce te \<Longrightarrow> jrest st c t \<Longrightarrow> jrest (CHR ''['' # st) (ce @ CHR '']'' # c) (te @ CHR '']'' # t)"
| R_obj: "jmembers ce te \<Longrightarrow> jrest st c t \<Longrightarrow> jrest (CHR ''{'' # st) (ce @ CHR ''}'' # c) (te @ CHR ''}'' # t)"

inductive_cases jrest_arrE: "jrest (CHR ''['' # st) c t"
inductive_cases jrest_objE: "jrest (CHR ''{'' # st) c t"

definition brackets :: "bytes \<Rightarrow> bool" where
  "brackets st \<longleftrightarrow> set st \<subseteq> {CHR ''['', CHR ''{''}"

lemma brackets_Nil [simp]: "brackets []"
  by (simp add: brackets_def)

lemma brackets_Cons [simp]: "brackets (c # st) \<longleftrightarrow> (c = CHR ''['' \<or> c = CHR ''{'') \<and> brackets st"
  by (auto simp: brackets_def)

lemma closer_simps [simp]: "closer CHR ''['' = CHR '']''" "closer CHR ''{'' = CHR ''}''"
  by (simp_all add: closer_def)

lemma is_space_simps [simp]:
  "\<not> is_space CHR '',''" "\<not> is_space CHR '']''" "\<not> is_space CHR ''}''"
  "\<not> is_space CHR ''[''" "\<not> is_space CHR ''{''" "\<not> is_space CHR '':''" "\<not> is_space quote_char"
  "\<not> is_space CHR ''-''" "\<not> is_space CHR ''.''" "\<not> is_space CHR ''e''" "\<not> is_space CHR ''E''"
  by (simp_all add: is_space_def)

lemma scalar_jval: "scalar_tok t \<Longrightarrow> jval t t"
  by (auto simp: scalar_tok_def intro: J_str J_num J_lit)

text \<open>One step of the rest of a container, in front of a value that has been read.\<close>

lemma jrest_more_arr:
  assumes "ws w" and "ws w1" and "jval c t" and "jrest (CHR ''['' # st) cr r"
  shows "jrest (CHR ''['' # st) (CHR '','' # c @ cr) (w @ CHR '','' # w1 @ t @ r)"
proof -
  from assms(4) obtain ce te c' t' where "cr = ce @ CHR '']'' # c'" "r = te @ CHR '']'' # t'"
    "jelems ce te" "jrest st c' t'" by (rule jrest_arrE)
  with J_elems [OF assms(1-3)] R_arr [of "CHR '','' # c @ ce" "w @ CHR '','' # w1 @ t @ te" st c' t']
  show ?thesis by simp
qed

lemma jrest_more_obj:
  assumes "ws w0" and "ws w" and "str_tok k" and "ws w1" and "ws w2" and "jval c t"
    and "jrest (CHR ''{'' # st) cr r"
  shows "jrest (CHR ''{'' # st) (CHR '','' # k @ CHR '':'' # c @ cr)
    (w0 @ CHR '','' # w @ k @ w1 @ CHR '':'' # w2 @ t @ r)"
proof -
  from assms(7) obtain ce te c' t' where "cr = ce @ CHR ''}'' # c'" "r = te @ CHR ''}'' # t'"
    "jmembers ce te" "jrest st c' t'" by (rule jrest_objE)
  with J_members [OF assms(1-6)] R_obj [of "CHR '','' # k @ CHR '':'' # c @ ce"
      "w0 @ CHR '','' # w @ k @ w1 @ CHR '':'' # w2 @ t @ te" st c' t']
  show ?thesis by simp
qed

text \<open>A container opened, its first value read, its rest to come.\<close>

definition json_split :: "bytes \<Rightarrow> bytes \<Rightarrow> bytes \<Rightarrow> bytes \<Rightarrow> bool" where
  "json_split dst st rest out \<longleftrightarrow>
     (\<exists>c v cr r. rest = v @ r \<and> jval c v \<and> jrest st cr r \<and> out = dst @ c @ cr)"

lemma json_split_arr0:
  assumes "ws w" and "jrest st cr r" and "out = dst @ ''[]'' @ cr"
  shows "json_split dst st (CHR ''['' # w @ CHR '']'' # r) out"
  unfolding json_split_def using J_arr0 [OF assms(1)] assms(2,3)
  by (intro exI [of _ "''[]''"] exI [of _ "CHR ''['' # w @ '']''"] exI [of _ cr] exI [of _ r]) simp

lemma json_split_obj0:
  assumes "ws w" and "jrest st cr r" and "out = dst @ [CHR ''{'', CHR ''}''] @ cr"
  shows "json_split dst st (CHR ''{'' # w @ CHR ''}'' # r) out"
  unfolding json_split_def using J_obj0 [OF assms(1)] assms(2,3)
  by (intro exI [of _ "[CHR ''{'', CHR ''}'']"] exI [of _ "CHR ''{'' # w @ [CHR ''}'']"] exI [of _ cr]
      exI [of _ r]) simp

lemma json_split_arr:
  assumes "ws w" and "json_split (dst @ ''['') (CHR ''['' # st) rest out"
  shows "json_split dst st (CHR ''['' # w @ rest) out"
proof -
  from assms(2) obtain c v cr r where s: "rest = v @ r" "jval c v" "jrest (CHR ''['' # st) cr r"
    "out = dst @ ''['' @ c @ cr" by (auto simp: json_split_def)
  from s(3) obtain ce te c' t' where e: "cr = ce @ CHR '']'' # c'" "r = te @ CHR '']'' # t'"
    "jelems ce te" "jrest st c' t'" by (rule jrest_arrE)
  show ?thesis
    unfolding json_split_def using J_arr [OF assms(1) s(2) e(3)] s e
    by (intro exI [of _ "CHR ''['' # c @ ce @ '']''"] exI [of _ "CHR ''['' # w @ v @ te @ '']''"]
        exI [of _ c'] exI [of _ t']) simp
qed

lemma json_split_obj:
  assumes "ws w" and "str_tok k" and "ws w1" and "ws w2"
    and "json_split (dst @ CHR ''{'' # k @ '':'') (CHR ''{'' # st) rest out"
  shows "json_split dst st (CHR ''{'' # w @ k @ w1 @ CHR '':'' # w2 @ rest) out"
proof -
  from assms(5) obtain c v cr r where s: "rest = v @ r" "jval c v" "jrest (CHR ''{'' # st) cr r"
    "out = dst @ CHR ''{'' # k @ CHR '':'' # c @ cr" by (auto simp: json_split_def)
  from s(3) obtain ce te c' t' where e: "cr = ce @ CHR ''}'' # c'" "r = te @ CHR ''}'' # t'"
    "jmembers ce te" "jrest st c' t'" by (rule jrest_objE)
  show ?thesis
    unfolding json_split_def using J_obj [OF assms(1-4) s(2) e(3)] s e
    by (intro exI [of _ "CHR ''{'' # k @ CHR '':'' # c @ ce @ [CHR ''}'']"]
        exI [of _ "CHR ''{'' # w @ k @ w1 @ CHR '':'' # w2 @ v @ te @ [CHR ''}'']"]
        exI [of _ c'] exI [of _ t']) simp
qed

lemma json_machine_sound:
  "json_value n dst st rest = Inr out \<Longrightarrow> brackets st \<Longrightarrow> json_split dst st rest out"
  "json_after n dst st rest = Inr out \<Longrightarrow> brackets st \<Longrightarrow> \<exists>cr. jrest st cr rest \<and> out = dst @ cr"
proof (induction n dst st rest and n dst st rest rule: json_value_json_after.induct)
  case (1 n dst st rest)
  from "1.prems"(1) obtain c cs where r: "rest = c # cs"
    by (cases rest) (auto simp: json_value.simps)
  from skip_space_split [of cs] obtain w where w: "ws w" "cs = w @ skip_space cs" by blast
  show ?case
  proof (cases "c = CHR ''{'' \<or> c = CHR ''[''")
    case opn: True
    show ?thesis
    proof (cases "skip_space cs \<noteq> [] \<and> hd (skip_space cs) = closer c")
      case True
      with "1.prems"(1) r opn have "json_after n (dst @ [c, closer c]) st (tl (skip_space cs)) = Inr out"
        by (subst (asm) json_value.simps) simp
      with "1.IH"(1) [OF r opn True] "1.prems"(2) obtain cr where
        cr: "jrest st cr (tl (skip_space cs))" "out = dst @ [c, closer c] @ cr" by auto
      from True w(2) have cs: "cs = w @ closer c # tl (skip_space cs)" by (metis list.collapse)
      from opn show ?thesis
      proof
        assume "c = CHR ''{''"
        with r cs cr json_split_obj0 [OF w(1) cr(1), of out dst] show ?thesis by simp
      next
        assume "c = CHR ''[''"
        with r cs cr json_split_arr0 [OF w(1) cr(1), of out dst] show ?thesis by simp
      qed
    next
      case False
      show ?thesis
      proof (cases "c = CHR ''[''")
        case True
        with "1.prems"(1) r opn False have "json_value n (dst @ [c]) (c # st) (skip_space cs) = Inr out"
          by (subst (asm) json_value.simps) (auto split: if_split_asm)
        from "1.IH"(2) [OF r opn False True this] "1.prems"(2) True
        have "json_split (dst @ ''['') (CHR ''['' # st) (skip_space cs) out" by simp
        from json_split_arr [OF w(1) this] r True w(2) show ?thesis by simp
      next
        case obj: False
        with "1.prems"(1) r opn False obtain d' r' where
          m: "append_member_name n (dst @ [c]) (skip_space cs) = Inr (d', r')"
          and v: "json_value n d' (c # st) r' = Inr out"
          by (subst (asm) json_value.simps) (auto split: sum.splits)
        from append_member_name_sound [OF m] obtain k w1 w2 where
          k: "skip_space cs = k @ w1 @ CHR '':'' # w2 @ r'" "str_tok k" "ws w1" "ws w2"
          "d' = (dst @ [c]) @ k @ '':''" by blast
        from "1.IH"(3) [OF r opn False obj m refl v] "1.prems"(2) opn
        have "json_split d' (c # st) r' out" by auto
        with json_split_obj [OF w(1) k(2-4), of dst st r' out] obj opn k(1,5) w r
        show ?thesis by simp
      qed
    qed
  next
    case scalar: False
    with "1.prems"(1) r obtain d' r' where t: "json_token n dst c rest = Inr (d', r')"
      and a: "json_after n d' st r' = Inr out"
      by (subst (asm) json_value.simps) (auto split: sum.splits)
    from "1.IH"(4) [OF r scalar t refl a "1.prems"(2)] json_token_sound [of n dst c cs d' r'] t r
    show ?thesis unfolding json_split_def using scalar_jval by fastforce
  qed
next
  case (2 n dst st rest)
  from skip_space_split [of rest] obtain w where w: "ws w" "rest = w @ skip_space rest" by blast
  show ?case
  proof (cases "skip_space rest")
    case Nil
    with "2.prems" w show ?thesis
      by (auto simp: json_after.simps split: list.splits intro: R_end)
  next
    case (Cons c cs)
    with "2.prems" obtain b st' where st: "st = b # st'" and b: "b = CHR ''['' \<or> b = CHR ''{''"
      by (cases st) (auto simp: json_after.simps)
    from skip_space_split [of cs] obtain w1 where w1: "ws w1" "cs = w1 @ skip_space cs" by blast
    show ?thesis
    proof (cases "c = CHR '',''")
      case True
      show ?thesis
      proof (cases "b = CHR ''{''")
        case obj: True
        with "2.prems"(1) Cons st True obtain d' r' where
          m: "append_member_name n (dst @ [c]) (skip_space cs) = Inr (d', r')"
          and v: "json_value n d' st r' = Inr out"
          by (subst (asm) json_after.simps) (auto split: sum.splits)
        from append_member_name_sound [OF m] obtain k u1 u2 where
          k: "skip_space cs = k @ u1 @ CHR '':'' # u2 @ r'" "str_tok k" "ws u1" "ws u2"
          "d' = (dst @ [c]) @ k @ '':''" by blast
        from "2.IH"(1) [OF Cons st True obj m refl v "2.prems"(2)]
        obtain c1 v1 cr r where "r' = v1 @ r" "jval c1 v1" "jrest st cr r" "out = d' @ c1 @ cr"
          by (auto simp: json_split_def)
        with jrest_more_obj [OF w(1) w1(1) k(2-4), of c1 v1 st' cr r] obj st k True w w1 Cons
        show ?thesis by (intro exI [of _ "CHR '','' # k @ CHR '':'' # c1 @ cr"]) simp
      next
        case arr: False
        with "2.prems"(1) Cons st True have "json_value n (dst @ [c]) st (skip_space cs) = Inr out"
          by (subst (asm) json_after.simps) simp
        from "2.IH"(2) [OF Cons st True arr this "2.prems"(2)]
        obtain c1 v1 cr r where "skip_space cs = v1 @ r" "jval c1 v1" "jrest st cr r"
          "out = dst @ c # c1 @ cr" by (auto simp: json_split_def)
        with jrest_more_arr [OF w(1) w1(1), of c1 v1 st' cr r] arr b st True w w1 Cons
        show ?thesis by (intro exI [of _ "CHR '','' # c1 @ cr"]) simp
      qed
    next
      case False
      with "2.prems"(1) Cons st have c: "c = closer b" and a: "json_after n (dst @ [c]) st' cs = Inr out"
        by (subst (asm) json_after.simps, simp split: if_split_asm)+
      from "2.IH"(3) [OF Cons st False c a] "2.prems"(2) st obtain cr where
        "jrest st' cr cs" "out = dst @ c # cr" by auto
      with R_arr [OF J_elems0 [OF w(1)], of st' cr cs] R_obj [OF J_members0 [OF w(1)], of st' cr cs]
        b c st w Cons show ?thesis by (intro exI [of _ "c # cr"]) auto
    qed
  qed
qed

lemma num_stop_space: "is_space c \<Longrightarrow> num_stop (c # r)"
  using digit_start [of c] by (auto simp: num_stop_def)

lemma num_stop_ws: "ws w \<Longrightarrow> num_stop r \<Longrightarrow> num_stop (w @ r)"
  by (cases w) (auto simp: num_stop_space)

lemma num_stop_simps [simp]:
  "num_stop []" "num_stop (CHR '','' # r)" "num_stop (CHR '']'' # r)" "num_stop (CHR ''}'' # r)"
  by (auto simp: num_stop_def is_digit_def byte_between_def)

lemma jelems_stop: "jelems ce te \<Longrightarrow> num_stop (te @ CHR '']'' # r)"
  by (erule jelems.cases) (auto intro: num_stop_ws)

lemma jmembers_stop: "jmembers ce te \<Longrightarrow> num_stop (te @ CHR ''}'' # r)"
  by (erule jmembers.cases) (auto intro: num_stop_ws)

lemma scalar_head:
  assumes "scalar_tok t"
  shows "\<exists>a b. t = a # b \<and> \<not> is_space a \<and> a \<noteq> CHR '']''"
proof -
  consider "str_tok t" | "num_tok t" | "t \<in> {''true'', ''false'', ''null''}"
    using assms by (auto simp: scalar_tok_def)
  then show ?thesis
  proof cases
    case 1
    then show ?thesis by (auto dest: str_tok_Cons)
  next
    case 2
    then obtain c cs where "t = c # cs" "c = CHR ''-'' \<or> is_digit c" by (auto dest: num_tok_Cons)
    then show ?thesis using digit_start [of c] by auto
  next
    case 3
    then show ?thesis by (elim insertE) (simp_all add: is_space_def)
  qed
qed

lemma jval_head: "jval c t \<Longrightarrow> \<exists>a b. t = a # b \<and> \<not> is_space a \<and> a \<noteq> CHR '']''"
proof (erule jval.cases, goal_cases)
  case (1 t')
  then show ?case using scalar_head [of t] by (simp add: scalar_tok_def)
next
  case (2 t')
  then show ?case using scalar_head [of t] by (simp add: scalar_tok_def)
next
  case (3 t')
  then show ?case using scalar_head [of t] by (simp add: scalar_tok_def)
qed simp_all

lemma jval_skip: "jval c t \<Longrightarrow> skip_space (t @ r) = t @ r"
  by (auto dest!: jval_head)

lemma json_value_scalar:
  assumes "scalar_tok t" and "num_stop r"
  shows "json_value n dst st (t @ r) = json_after n (dst @ t) st r"
proof -
  from assms obtain c cs where "t = c # cs" "c \<noteq> CHR ''{''" "c \<noteq> CHR ''[''"
    "json_token n dst c (t @ r) = Inr (dst @ t, r)" by (rule json_token_complete)
  then show ?thesis by (subst json_value.simps) simp
qed

lemma json_value_arr0:
  "ws w \<Longrightarrow> json_value n dst st (CHR ''['' # w @ CHR '']'' # r) = json_after n (dst @ ''[]'') st r"
  by (subst json_value.simps) simp

lemma json_value_obj0:
  "ws w \<Longrightarrow> json_value n dst st (CHR ''{'' # w @ CHR ''}'' # r) =
     json_after n (dst @ [CHR ''{'', CHR ''}'']) st r"
  by (subst json_value.simps) simp

lemma json_value_arr:
  assumes "ws w" and "jval c t"
  shows "json_value n dst st (CHR ''['' # w @ t @ r) =
    json_value n (dst @ ''['') (CHR ''['' # st) (t @ r)"
  using assms jval_head [OF assms(2)]
  by (subst json_value.simps) (auto simp: jval_skip)

lemma json_value_obj:
  assumes "ws w" and "str_tok k" and "ws w1" and "ws w2" and "jval c t"
  shows "json_value n dst st (CHR ''{'' # w @ k @ w1 @ CHR '':'' # w2 @ t @ r) =
    json_value n (dst @ CHR ''{'' # k @ '':'') (CHR ''{'' # st) (t @ r)"
proof -
  from str_tok_Cons [OF assms(2)] obtain cs where "k = quote_char # cs" by blast
  with assms(1) append_member_name_complete [OF assms(2-4), of n "dst @ [CHR ''{'']" "t @ r"] show ?thesis
    by (subst json_value.simps) (simp add: jval_skip [OF assms(5)])
qed

lemma json_after_close:
  assumes "ws w" and "b = CHR ''['' \<or> b = CHR ''{''"
  shows "json_after n dst (b # st) (w @ closer b # r) = json_after n (dst @ [closer b]) st r"
  using assms by (subst json_after.simps) auto

lemma json_after_more_arr:
  assumes "ws w" and "ws w1" and "jval c t"
  shows "json_after n dst (CHR ''['' # st) (w @ CHR '','' # w1 @ t @ r) =
    json_value n (dst @ '','') (CHR ''['' # st) (t @ r)"
  using assms by (subst json_after.simps) (simp add: jval_skip)

lemma json_after_more_obj:
  assumes "ws w0" and "ws w" and "str_tok k" and "ws w1" and "ws w2" and "jval c t"
  shows "json_after n dst (CHR ''{'' # st) (w0 @ CHR '','' # w @ k @ w1 @ CHR '':'' # w2 @ t @ r) =
    json_value n (dst @ CHR '','' # k @ '':'') (CHR ''{'' # st) (t @ r)"
proof -
  from str_tok_Cons [OF assms(3)] obtain cs where "k = quote_char # cs" by blast
  with assms(1,2) append_member_name_complete [OF assms(3-5), of n "dst @ [CHR '','']" "t @ r"] show ?thesis
    by (subst json_after.simps) (simp add: jval_skip [OF assms(6)])
qed

lemma json_machine_complete:
  "jval c t \<Longrightarrow> num_stop r \<Longrightarrow> json_value n dst st (t @ r) = json_after n (dst @ c) st r"
  "jelems ce te \<Longrightarrow>
     json_after n dst (CHR ''['' # st) (te @ CHR '']'' # r) = json_after n (dst @ ce @ '']'') st r"
  "jmembers ce te \<Longrightarrow>
     json_after n dst (CHR ''{'' # st) (te @ CHR ''}'' # r) = json_after n (dst @ ce @ [CHR ''}'']) st r"
proof (induction arbitrary: dst st r and dst st r and dst st r rule: jval_jelems_jmembers.inducts)
  case (J_str t)
  then show ?case by (simp add: json_value_scalar scalar_tok_def)
next
  case (J_num t)
  then show ?case by (simp add: json_value_scalar scalar_tok_def)
next
  case (J_lit t)
  then show ?case by (simp add: json_value_scalar scalar_tok_def)
next
  case (J_arr0 w)
  then show ?case by (simp add: json_value_arr0)
next
  case (J_arr w c t ce te)
  then show ?case by (simp add: json_value_arr jelems_stop)
next
  case (J_obj0 w)
  then show ?case by (simp add: json_value_obj0)
next
  case (J_obj w k w1 w2 c t ce te)
  then show ?case by (simp add: json_value_obj jmembers_stop)
next
  case (J_elems0 w)
  then show ?case using json_after_close [of w "CHR ''[''"] by simp
next
  case (J_elems w w1 c t ce te)
  then show ?case by (simp add: json_after_more_arr jelems_stop)
next
  case (J_members0 w)
  then show ?case using json_after_close [of w "CHR ''{''"] by simp
next
  case (J_members w0 w k w1 w2 c t ce te)
  then show ?case by (simp add: json_after_more_obj jmembers_stop)
qed

text \<open>\<open>append_json\<close> accepts exactly the JSON texts and appends their compact form.\<close>

lemma append_json_iff:
  "append_json dst raw = Inr out \<longleftrightarrow>
     (\<exists>w t w' c. raw = w @ t @ w' \<and> ws w \<and> ws w' \<and> jval c t \<and> out = dst @ c)"
proof
  assume "append_json dst raw = Inr out"
  then have "json_split dst [] (skip_space raw) out"
    unfolding append_json_def by (rule json_machine_sound) simp
  then obtain c v cr r where s: "skip_space raw = v @ r" "jval c v" "jrest [] cr r" "out = dst @ c @ cr"
    by (auto simp: json_split_def)
  from s(3) have "ws r" "cr = []" by (auto elim: jrest.cases)
  with s skip_space_split [of raw] show "\<exists>w t w' c. raw = w @ t @ w' \<and> ws w \<and> ws w' \<and> jval c t \<and> out = dst @ c"
    by (metis append_Nil2)
next
  assume "\<exists>w t w' c. raw = w @ t @ w' \<and> ws w \<and> ws w' \<and> jval c t \<and> out = dst @ c"
  then obtain w t w' c where r: "raw = w @ t @ w'" "ws w" "ws w'" "jval c t" "out = dst @ c" by blast
  from num_stop_ws [OF r(3), of "[]"] have "num_stop w'" by simp
  with r json_machine_complete(1) [OF r(4), of w' "length raw" dst "[]"]
  show "append_json dst raw = Inr out"
    by (simp add: append_json_def jval_skip json_after.simps)
qed

lemma jval_compact:
  "jval c t \<Longrightarrow> jval c c" "jelems ce te \<Longrightarrow> jelems ce ce" "jmembers ce te \<Longrightarrow> jmembers ce ce"
proof (induction rule: jval_jelems_jmembers.inducts)
  case (J_arr w c t ce te)
  then show ?case using jval_jelems_jmembers.J_arr [of "[]" c c ce ce] by simp
next
  case (J_obj w k w1 w2 c t ce te)
  then show ?case using jval_jelems_jmembers.J_obj [of "[]" k "[]" "[]" c c ce ce] by simp
next
  case (J_elems w w1 c t ce te)
  then show ?case using jval_jelems_jmembers.J_elems [of "[]" "[]" c c ce ce] by simp
next
  case (J_members w0 w k w1 w2 c t ce te)
  then show ?case using jval_jelems_jmembers.J_members [of "[]" "[]" k "[]" "[]" c c ce ce] by simp
qed (use J_str J_num J_lit J_arr0 [of "[]"] J_obj0 [of "[]"] J_elems0 [of "[]"] J_members0 [of "[]"] in simp_all)

section \<open>Strings byte by byte\<close>

text \<open>What the segmented loop of \<open>AppendString\<close> amounts to: each byte of a valid string on
  its own, escaped or copied.\<close>

definition escape_char :: "char \<Rightarrow> bytes" where
  "escape_char c = (if 0x20 \<le> byte c \<and> c \<noteq> quote_char \<and> c \<noteq> backslash then [c] else escape_byte c)"

definition escape :: "bytes \<Rightarrow> bytes" where
  "escape s = concat (map escape_char s)"

lemma escape_simps [simp]: "escape [] = []" "escape (c # cs) = escape_char c @ escape cs"
  "escape (a @ b) = escape a @ escape b"
  by (simp_all add: escape_def)

lemma escape_high: "\<forall>c\<in>set s. 0x80 \<le> byte c \<Longrightarrow> escape s = s"
  by (induction s) (auto simp: escape_char_def)

lemma escape_rune:
  assumes "\<not> rune_bad (c # cs)" and "\<not> byte c < 0x80"
  shows "escape (take (rune_size (c # cs)) (c # cs)) = take (rune_size (c # cs)) (c # cs)"
  using assms rune_cont_bytes by (blast intro: escape_high)

lemma append_string_loop_eq:
  "append_string_loop dst seg s =
     (if valid_utf8 s then Inr (dst @ seg @ escape s @ [quote_char]) else Inl ErrInvalidUTF8)"
proof (induction dst seg s rule: append_string_loop.induct)
  case (1 dst seg s)
  show ?case
  proof (cases s)
    case Nil
    then show ?thesis by (simp add: append_string_loop.simps)
  next
    case (Cons c cs)
    consider (bad) "\<not> byte c < 0x80" "rune_bad s" | (rune) "\<not> byte c < 0x80" "\<not> rune_bad s"
      | (plain) "byte c < 0x80" "0x20 \<le> byte c \<and> c \<noteq> quote_char \<and> c \<noteq> backslash"
      | (esc) "byte c < 0x80" "\<not> (0x20 \<le> byte c \<and> c \<noteq> quote_char \<and> c \<noteq> backslash)" by blast
    then show ?thesis
    proof cases
      case bad
      with Cons show ?thesis
        by (subst append_string_loop.simps) (simp add: valid_utf8_bad del: decode_rune.simps)
    next
      case rune
      let ?u = "take (rune_size s) s" and ?r = "drop (rune_size s) s"
      have "append_string_loop dst seg s = append_string_loop dst (seg @ ?u) ?r"
        using rune Cons by (subst append_string_loop.simps) (simp del: decode_rune.simps)
      moreover have "escape s = ?u @ escape ?r"
        using escape_rune [of c cs] rune Cons escape_simps(3) [of ?u ?r] by (simp del: decode_rune.simps)
      moreover have "valid_utf8 s \<longleftrightarrow> valid_utf8 ?r"
        using rune Cons by (simp add: valid_utf8_step del: decode_rune.simps)
      ultimately show ?thesis
        using "1.IH"(1) [OF Cons] rune by simp
    next
      case plain
      with Cons "1.IH"(2) [OF Cons] show ?thesis
        by (subst append_string_loop.simps) (simp add: escape_char_def)
    next
      case esc
      with Cons "1.IH"(3) [OF Cons] show ?thesis
        by (subst append_string_loop.simps) (auto simp: escape_char_def)
    qed
  qed
qed

lemma append_string_eq:
  "append_string dst s =
     (if valid_utf8 s then Inr (dst @ quote_char # escape s @ [quote_char]) else Inl ErrInvalidUTF8)"
  by (simp add: append_string_def append_string_loop_eq)

text \<open>Reading a string back (RFC 8259, section 7): \<open>unescape\<close> is the content that the
  characters between the quotes denote.\<close>

definition hex_val :: "char \<Rightarrow> nat" where
  "hex_val c = (if byte_between 48 57 c then byte c - 48
     else if byte_between 97 102 c then byte c - 87 else byte c - 55)"

definition hex4 :: "bytes \<Rightarrow> nat" where
  "hex4 h = foldl (\<lambda>v c. v * 16 + hex_val c) 0 (take 4 h)"

definition unescape_short :: "char \<Rightarrow> char" where
  "unescape_short d =
     (if d = CHR ''b'' then CHR 0x08 else if d = CHR ''t'' then CHR 0x09
      else if d = CHR ''n'' then CHR 0x0A else if d = CHR ''f'' then CHR 0x0C
      else if d = CHR ''r'' then CHR 0x0D else d)"

definition surrogate_pair :: "nat \<Rightarrow> bytes \<Rightarrow> bool" where
  "surrogate_pair v r \<longleftrightarrow> 0xD800 \<le> v \<and> v < 0xDC00 \<and> 6 \<le> length r \<and>
     take 2 r = [backslash, CHR ''u''] \<and> 0xDC00 \<le> hex4 (drop 2 r) \<and> hex4 (drop 2 r) < 0xE000"

function unescape :: "bytes \<Rightarrow> bytes option" where
  "unescape s =
     (case s of
        [] \<Rightarrow> Some []
      | c # cs \<Rightarrow>
          if c \<noteq> backslash then map_option ((#) c) (unescape cs)
          else (case cs of
                  [] \<Rightarrow> None
                | d # ds \<Rightarrow>
                    if d \<noteq> CHR ''u'' then map_option ((#) (unescape_short d)) (unescape ds)
                    else if surrogate_pair (hex4 ds) (drop 4 ds) then
                      map_option ((@) (encode_rune
                        (0x10000 + (hex4 ds - 0xD800) * 1024 + (hex4 (drop 6 ds) - 0xDC00))))
                        (unescape (drop 10 ds))
                    else if 0xD800 \<le> hex4 ds \<and> hex4 ds < 0xE000 then None
                    else map_option ((@) (encode_rune (hex4 ds))) (unescape (drop 4 ds))))"
  by pat_completeness auto
termination
  by (relation "measure length") auto

declare unescape.simps [simp del]

lemma hex_val_digit:
  assumes "d < 16"
  shows "hex_val (hex_digit d) = d"
proof -
  have "byte (hex_digit d) = (if d < 10 then 48 + d else 87 + d)"
    using assms by (simp add: hex_digit_def)
  with assms show ?thesis by (auto simp: hex_val_def byte_between_def)
qed

lemma unescape_plain: "c \<noteq> backslash \<Longrightarrow> unescape (c # s) = map_option ((#) c) (unescape s)"
  by (subst unescape.simps) simp

lemma unescape_short_step:
  "d \<noteq> CHR ''u'' \<Longrightarrow> unescape (backslash # d # s) = map_option ((#) (unescape_short d)) (unescape s)"
  by (subst unescape.simps) simp

lemma unescape_u00:
  assumes "byte c < 0x20"
  shows "unescape (backslash # CHR ''u'' # CHR ''0'' # CHR ''0'' # hex_digit (byte c div 16) #
    hex_digit (byte c mod 16) # s) = map_option ((#) c) (unescape s)"
proof -
  have "hex4 (CHR ''0'' # CHR ''0'' # hex_digit (byte c div 16) # hex_digit (byte c mod 16) # s) = byte c"
    using assms by (simp add: hex4_def hex_val_digit) (simp add: hex_val_def byte_between_def)
  moreover have "(@) [c] = (#) c" by auto
  ultimately show ?thesis
    using assms by (subst unescape.simps) (simp add: surrogate_pair_def encode_rune_def)
qed

text \<open>The three kinds of escape \<open>escape_byte\<close> writes.\<close>

lemma escape_char_cases:
  obtains (copy) "escape_char c = [c]" "0x20 \<le> byte c" "c \<noteq> quote_char" "c \<noteq> backslash"
  | (short) d where "escape_char c = [backslash, d]" "short_escape d" "d \<noteq> CHR ''u''" "unescape_short d = c"
  | (hex) "escape_char c = [backslash, CHR ''u'', CHR ''0'', CHR ''0'', hex_digit (byte c div 16), hex_digit (byte c mod 16)]"
      "byte c < 0x20"
proof (cases "0x20 \<le> byte c \<and> c \<noteq> quote_char \<and> c \<noteq> backslash")
  case True
  with copy show thesis by (simp add: escape_char_def)
next
  case False
  then have e: "escape_char c = escape_byte c" unfolding escape_char_def by (rule if_not_P)
  consider "c = quote_char \<or> c = backslash" | "c = CHR 0x08" | "c = CHR 0x09" | "c = CHR 0x0A"
    | "c = CHR 0x0C" | "c = CHR 0x0D"
    | "\<not> (c = quote_char \<or> c = backslash)" "c \<notin> {CHR 0x08, CHR 0x09, CHR 0x0A, CHR 0x0C, CHR 0x0D}"
    by blast
  then show thesis
  proof cases
    case 1
    with e short [of c] show thesis
      by (auto simp: escape_byte_def short_escape_def unescape_short_def)
  next
    case 2
    with e short [of "CHR ''b''"] show thesis by (simp add: escape_byte_def short_escape_def unescape_short_def)
  next
    case 3
    with e short [of "CHR ''t''"] show thesis by (simp add: escape_byte_def short_escape_def unescape_short_def)
  next
    case 4
    with e short [of "CHR ''n''"] show thesis by (simp add: escape_byte_def short_escape_def unescape_short_def)
  next
    case 5
    with e short [of "CHR ''f''"] show thesis by (simp add: escape_byte_def short_escape_def unescape_short_def)
  next
    case 6
    with e short [of "CHR ''r''"] show thesis by (simp add: escape_byte_def short_escape_def unescape_short_def)
  next
    case 7
    have "byte c = byte d \<longleftrightarrow> c = d" for d by (rule of_char_eq_iff)
    from this [of "CHR 0x08"] this [of "CHR 0x09"] this [of "CHR 0x0A"] this [of "CHR 0x0C"]
      this [of "CHR 0x0D"] 7 False e hex show thesis by (simp add: escape_byte_def)
  qed
qed

lemma unescape_char: "unescape (escape_char c @ s) = map_option ((#) c) (unescape s)"
  by (cases c rule: escape_char_cases) (simp_all add: unescape_plain unescape_short_step unescape_u00)

lemma unescape_escape: "unescape (escape s) = Some s"
  by (induction s) (simp_all add: unescape_char unescape.simps [of "[]"])

lemma is_hex_digit: "d < 16 \<Longrightarrow> is_hex (hex_digit d)"
  by (auto simp: is_hex_def is_digit_def byte_between_def hex_digit_def)

lemma escape_char_str:
  assumes "byte c < 0x80" and "str_chars p"
  shows "str_chars (escape_char c @ p)"
proof (cases c rule: escape_char_cases)
  case copy
  with assms show ?thesis by (simp add: Sc_plain plain_char_def byte_between_def)
next
  case (short d)
  with assms show ?thesis by (simp add: Sc_short)
next
  case hex
  let ?h = "[CHR ''0'', CHR ''0'', hex_digit (byte c div 16), hex_digit (byte c mod 16)]"
  from hex(2) have "list_all is_hex ?h"
    by (simp add: is_hex_digit) (simp add: is_hex_def is_digit_def byte_between_def)
  with Sc_hex [of ?h p] assms(2) hex(1) show ?thesis by simp
qed

lemma escape_str_chars: "valid_utf8 s \<Longrightarrow> str_chars (escape s)"
proof (induction s rule: valid_utf8.induct)
  case (1 s)
  show ?case
  proof (cases s)
    case Nil
    then show ?thesis by (simp add: Sc_Nil)
  next
    case (Cons c cs)
    then have ok: "\<not> rune_bad s" "valid_utf8 (drop (rune_size s) s)"
      using "1.prems" valid_utf8_unfold [of s] by blast+
    show ?thesis
    proof (cases "byte c < 0x80")
      case True
      with Cons ok(2) "1.IH" [OF _ ok] show ?thesis by (simp add: escape_char_str)
    next
      case False
      let ?u = "take (rune_size s) s" and ?r = "drop (rune_size s) s"
      have "escape s = ?u @ escape ?r"
        using escape_rune [of c cs] ok False Cons escape_simps(3) [of ?u ?r] by (simp del: decode_rune.simps)
      with Sc_rune [OF rune_tok_take [of c cs]] ok False Cons "1.IH" [OF _ ok] show ?thesis
        by (simp del: decode_rune.simps)
    qed
  qed
qed

end
