(* ===== verification/Wire_Content.thy ===== *)
theory Wire_Content
  imports Wire_Json "HOL-Library.Sublist"
begin

text \<open>
  Content, \<open>internal/wire/content.go\<close> and \<open>AppendContent\<close> of \<open>internal/wire/json.go\<close>: text, or
  the bytes of a JSON object or array. The theory instantiates the interface of the appenders
  with the three writers of the wire layer, says where a syntax error points, and closes with
  the properties of the JSON layer.
\<close>

section \<open>Content\<close>

text \<open>\<open>Content\<close>: \<open>cjson\<close> is \<open>None\<close> where the Go field is nil.\<close>

record content =
  ctext :: bytes
  cjson :: "bytes option"

definition empty_content :: content where
  "empty_content = \<lparr>ctext = [], cjson = None\<rparr>"

definition text_content :: "bytes \<Rightarrow> content" where
  "text_content s = \<lparr>ctext = s, cjson = None\<rparr>"

definition is_json :: "content \<Rightarrow> bool" where
  "is_json c \<longleftrightarrow> cjson c \<noteq> None"

definition append_content :: "bytes \<Rightarrow> content \<Rightarrow> bytes jres" where
  "append_content dst c =
     (case cjson c of
        None \<Rightarrow> append_string dst (ctext c)
      | Some j \<Rightarrow>
          (case skip_space j of
             [] \<Rightarrow> Inl ErrContentShape
           | b # bs \<Rightarrow> if b \<noteq> CHR ''{'' \<and> b \<noteq> CHR ''['' then Inl ErrContentShape else append_json dst j))"

section \<open>The writers are appenders\<close>

text \<open>Every step of the JSON scanner only extends its buffer, and fails whatever the buffer
  holds.\<close>

lemma append_string_token_pre:
  "append_string_token n (pre @ dst) r = rmap (apfst ((@) pre)) (append_string_token n dst r)"
  by (simp add: append_string_token_def comp_def)

lemma append_number_pre: "append_number n (pre @ dst) r = rmap (apfst ((@) pre)) (append_number n dst r)"
  by (simp add: append_number_def comp_def)

lemma append_literal_pre:
  "append_literal n (pre @ dst) r l = rmap (apfst ((@) pre)) (append_literal n dst r l)"
  by (simp add: append_literal_def)

lemma json_token_pre: "json_token n (pre @ dst) c r = rmap (apfst ((@) pre)) (json_token n dst c r)"
  by (simp add: json_token_def append_string_token_pre append_number_pre append_literal_pre)

lemma append_member_name_pre:
  "append_member_name n (pre @ dst) r = rmap (apfst ((@) pre)) (append_member_name n dst r)"
  by (cases "append_string_token n dst r")
    (auto simp: append_member_name_def append_string_token_pre Let_def split: list.splits)

lemma json_machine_pre:
  "json_value n (pre @ dst) st rest = rmap ((@) pre) (json_value n dst st rest)"
  "json_after n (pre @ dst) st rest = rmap ((@) pre) (json_after n dst st rest)"
proof (induction n dst st rest and n dst st rest rule: json_value_json_after.induct)
  case (1 n dst st rest)
  show ?case
  proof (cases rest)
    case (Cons c cs)
    show ?thesis
    proof (cases "c = CHR ''{'' \<or> c = CHR ''[''")
      case True
      show ?thesis
        using "1.IH"(1) [OF Cons True] "1.IH"(2) [OF Cons True] "1.IH"(3) [OF Cons True]
          append_member_name_pre [of n pre "dst @ [c]"]
        by (subst (1 2) json_value.simps)
          (auto simp: Cons True split: sum.split)
    next
      case False
      show ?thesis
        using "1.IH"(4) [OF Cons False] json_token_pre [of n pre dst c rest]
        by (subst (1 2) json_value.simps)
          (auto simp: Cons False simp del: de_Morgan_disj split: sum.split)
    qed
  qed (simp add: json_value.simps)
next
  case (2 n dst st rest)
  show ?case
    using 2 append_member_name_pre [of n pre "dst @ [CHR '','']"]
    by (subst (1 2) json_after.simps)
      (auto split: list.split sum.split)
qed

lemma append_json_rmap: "append_json dst raw = rmap (\<lambda>s. dst @ s) (append_json [] raw)"
  using json_machine_pre(1) [of "length raw" dst "[]"] by (simp add: append_json_def)

lemma append_string_rmap: "append_string dst x = rmap (\<lambda>s. dst @ s) (append_string [] x)"
  by (simp add: append_string_eq)

lemma append_content_rmap: "append_content dst c = rmap (\<lambda>s. dst @ s) (append_content [] c)"
  using append_string_rmap [of dst "ctext c"] append_json_rmap [of dst "the (cjson c)"]
  by (auto simp: append_content_def split: option.split list.split)

interpretation str_app: appender append_string "append_string []"
  by unfold_locales (rule append_string_rmap)

interpretation json_app: appender append_json "append_json []"
  by unfold_locales (rule append_json_rmap)

interpretation content_app: appender append_content "append_content []"
  by unfold_locales (rule append_content_rmap)

section \<open>Where a syntax error points\<close>

text \<open>What a message says of the input from the error's offset on.\<close>

definition no_digit :: "bytes \<Rightarrow> bool" where
  "no_digit s \<longleftrightarrow> s = [] \<or> \<not> is_digit (hd s)"

definition starts :: "char \<Rightarrow> bytes \<Rightarrow> bool" where
  "starts c s \<longleftrightarrow> s \<noteq> [] \<and> hd s = c"

fun msg_ok :: "syntax_msg \<Rightarrow> bytes \<Rightarrow> bool" where
  "msg_ok EndWantValue s = (s = [])"
| "msg_ok (UnexpectedWantValue c) s =
     (starts c s \<and> c \<notin> {CHR ''{'', CHR ''['', quote_char, CHR ''t'', CHR ''f'', CHR ''n'', CHR ''-''} \<and> \<not> is_digit c)"
| "msg_ok (UnexpectedAfterValue c) s = (starts c s \<and> \<not> is_space c)"
| "msg_ok EndWantClose s = (s = [])"
| "msg_ok (UnexpectedWantClose c) s = (starts c s \<and> c \<noteq> CHR '','' \<and> \<not> is_space c)"
| "msg_ok EndWantName s = (s = [])"
| "msg_ok (UnexpectedWantName c) s = (starts c s \<and> c \<noteq> quote_char)"
| "msg_ok WantColon s = (\<not> starts CHR '':'' s)"
| "msg_ok UnterminatedEscape s = (s = [backslash])"
| "msg_ok InvalidUEscape s =
     (take 2 s = [backslash, CHR ''u''] \<and> \<not> (6 \<le> length s \<and> list_all is_hex (take 4 (drop 2 s))))"
| "msg_ok (InvalidEscape d) s = (take 2 s = [backslash, d] \<and> \<not> short_escape d \<and> d \<noteq> CHR ''u'')"
| "msg_ok (RawControlChar c) s = (starts c s \<and> byte c < 0x20)"
| "msg_ok InvalidUtf8Char s = rune_bad s"
| "msg_ok UnterminatedString s = (s = [])"
| "msg_ok (InvalidLiteral l) s = (take (length l) s \<noteq> l)"
| "msg_ok NumberWantDigit s = no_digit s"
| "msg_ok NumberWantFraction s = no_digit s"
| "msg_ok NumberWantExponent s = no_digit s"

text \<open>\<open>err_in n r e\<close>: the error \<open>e\<close> of an input of \<open>n\<close> bytes points into its suffix \<open>r\<close>.\<close>

definition err_in :: "nat \<Rightarrow> bytes \<Rightarrow> json_error \<Rightarrow> bool" where
  "err_in n r e \<longleftrightarrow> (\<exists>m s. e = SyntaxError (n - length s) m \<and> suffix s r \<and> msg_ok m s)"

lemma err_inI: "suffix s r \<Longrightarrow> msg_ok m s \<Longrightarrow> err_in n r (SyntaxError (n - length s) m)"
  by (auto simp: err_in_def)

lemma err_in_here: "e = SyntaxError (n - length r) m \<Longrightarrow> msg_ok m r \<Longrightarrow> err_in n r e"
  using err_inI [of r r m n] by simp

lemma err_in_end: "msg_ok m [] \<Longrightarrow> err_in n r (SyntaxError n m)"
  using err_inI [of "[]" r m n] by simp

lemma err_in_suffix: "err_in n s e \<Longrightarrow> suffix s r \<Longrightarrow> err_in n r e"
  unfolding err_in_def using suffix_order.order_trans by blast

lemma suffix_skip_space: "suffix (skip_space r) r"
  using skip_space_split [of r] by (auto simp: suffix_def)

lemma suffix_skip_digits: "suffix (skip_digits r) r"
  using skip_digits_split [of r] by (auto simp: suffix_def)

lemma skip_digits_no: "no_digit (skip_digits r)"
  by (induction r) (auto simp: no_digit_def)

lemma scan_string_err: "scan_string n r = Inl e \<Longrightarrow> err_in n r e"
proof (induction n r rule: scan_string.induct)
  case (1 n r)
  show ?case
  proof (cases r)
    case Nil
    with "1.prems" show ?thesis by (auto simp: scan_string_Nil intro: err_in_end)
  next
    case (Cons c cs)
    consider (close) "c = quote_char" | (esc) "c = backslash" "c \<noteq> quote_char"
      | (low) "c \<noteq> quote_char" "c \<noteq> backslash" "byte c < 0x80"
      | (high) "c \<noteq> quote_char" "c \<noteq> backslash" "\<not> byte c < 0x80" by blast
    then show ?thesis
    proof cases
      case close
      with Cons "1.prems" show ?thesis by simp
    next
      case esc
      show ?thesis
      proof (cases cs)
        case Nil
        with "1.prems" Cons esc have "e = SyntaxError (n - length r) UnterminatedEscape"
          by (subst (asm) scan_string.simps) simp
        then show ?thesis by (rule err_in_here) (use Cons Nil esc in simp)
      next
        case d: (Cons d ds)
        show ?thesis
        proof (cases "short_escape d")
          case True
          with "1.prems" Cons esc d have "scan_string n ds = Inl e" by (simp add: scan_string_short)
          with "1.IH"(1) [OF Cons esc(2,1) d] True Cons d show ?thesis
            by (auto simp: short_escape_def intro: err_in_suffix suffix_ConsI)
        next
          case False
          then have nd: "d \<notin> {quote_char, backslash, CHR ''/'', CHR ''b'', CHR ''f'', CHR ''n'', CHR ''r'', CHR ''t''}"
            by (simp add: short_escape_def)
          let ?bad = "length ds < 4 \<or> \<not> list_all is_hex (take 4 ds)"
          consider "d \<noteq> CHR ''u''" | "d = CHR ''u''" "?bad" | "d = CHR ''u''" "\<not> ?bad" by blast
          then show ?thesis
          proof cases
            case 1
            with "1.prems" Cons esc d nd have "e = SyntaxError (n - length r) (InvalidEscape d)"
              by (subst (asm) scan_string.simps) simp
            then show ?thesis by (rule err_in_here) (use Cons d esc False 1 in simp)
          next
            case 2
            with "1.prems" Cons esc d nd have "e = SyntaxError (n - length r) InvalidUEscape"
              by (subst (asm) scan_string.simps) simp
            then show ?thesis by (rule err_in_here) (use Cons d esc 2 in auto)
          next
            case 3
            with "1.prems" Cons esc d nd have "scan_string n (drop 4 ds) = Inl e"
              by (subst (asm) scan_string.simps) simp
            with "1.IH"(2) [OF Cons esc(2,1) d nd 3] Cons d show ?thesis
              by (auto intro: err_in_suffix suffix_ConsI suffix_drop)
          qed
        qed
      qed
    next
      case low
      show ?thesis
      proof (cases "byte c < 0x20")
        case True
        with "1.prems" Cons low have "e = SyntaxError (n - length r) (RawControlChar c)"
          by (subst (asm) scan_string.simps) simp
        then show ?thesis by (rule err_in_here) (use True Cons in \<open>simp add: starts_def\<close>)
      next
        case False
        with "1.prems" Cons low have "scan_string n cs = Inl e"
          by (subst (asm) scan_string.simps) simp
        with "1.IH"(3) [OF Cons low(1,2) False low(3)] Cons show ?thesis
          by (auto intro: err_in_suffix suffix_ConsI)
      qed
    next
      case high
      then have ge: "\<not> byte c < 0x20" by simp
      show ?thesis
      proof (cases "rune_bad r")
        case True
        with "1.prems" Cons high ge have "e = SyntaxError (n - length r) InvalidUtf8Char"
          by (subst (asm) scan_string.simps) simp
        then show ?thesis by (rule err_in_here) (use True in simp)
      next
        case False
        with "1.prems" Cons high ge have "scan_string n (drop (rune_size r) r) = Inl e"
          by (subst (asm) scan_string.simps) (simp del: decode_rune.simps)
        with "1.IH"(4) [OF Cons high(1,2) ge high(3) False] show ?thesis
          by (auto intro: err_in_suffix suffix_drop)
      qed
    qed
  qed
qed

lemma not_zero_digit:
  assumes "c \<noteq> CHR ''0''" and "is_digit c"
  shows "byte_between 49 57 c"
proof -
  have "byte c = byte CHR ''0'' \<longleftrightarrow> c = CHR ''0''" by (rule of_char_eq_iff)
  with assms show ?thesis by (auto simp: is_digit_def byte_between_def)
qed

lemma scan_integer_err:
  assumes "scan_integer n r = Inl e"
  shows "err_in n r e"
proof -
  let ?j = "case r of c # cs \<Rightarrow> if c = CHR ''-'' then cs else r | [] \<Rightarrow> r"
  have "suffix ?j r" by (cases r) (auto intro: suffix_ConsI)
  moreover from assms have "e = SyntaxError (n - length ?j) NumberWantDigit \<and> no_digit ?j"
    using not_zero_digit
    by (cases ?j) (auto simp: scan_integer_def Let_def no_digit_def split: if_splits)
  ultimately show ?thesis by (auto intro!: err_inI)
qed

lemma scan_fraction_err:
  assumes "scan_fraction n r = Inl e"
  shows "err_in n r e"
proof (cases r)
  case (Cons c cs)
  with assms have "e = SyntaxError (n - length (skip_digits cs)) NumberWantFraction"
    by (auto simp: scan_fraction_def Let_def split: if_splits)
  with Cons suffix_skip_digits [of cs] skip_digits_no [of cs] show ?thesis
    by (auto intro!: err_inI suffix_ConsI)
qed (use assms in \<open>simp add: scan_fraction_def\<close>)

lemma scan_exponent_err:
  assumes "scan_exponent n r = Inl e"
  shows "err_in n r e"
proof (cases r)
  case (Cons c cs)
  let ?m = "case cs of d # ds \<Rightarrow> if d = CHR ''+'' \<or> d = CHR ''-'' then ds else cs | [] \<Rightarrow> cs"
  have "suffix ?m cs" by (cases cs) (auto intro: suffix_ConsI)
  then have "suffix (skip_digits ?m) r"
    using suffix_skip_digits [of ?m] Cons by (auto intro!: suffix_ConsI intro: suffix_order.order_trans)
  moreover from assms Cons have "e = SyntaxError (n - length (skip_digits ?m)) NumberWantExponent"
    by (auto simp: scan_exponent_def Let_def split: if_splits)
  ultimately show ?thesis using skip_digits_no [of ?m] by (auto intro!: err_inI)
qed (use assms in \<open>simp add: scan_exponent_def\<close>)

lemma scan_number_err: "scan_number n r = Inl e \<Longrightarrow> err_in n r e"
  by (auto simp: scan_number_def res_simps suffix_def
      dest!: scan_integer_err scan_fraction_err scan_exponent_err scan_integer_sound scan_fraction_sound
      intro: err_in_suffix)

lemma json_token_err:
  assumes "json_token n dst c (c # cs) = Inl e" and "c \<noteq> CHR ''{''" and "c \<noteq> CHR ''[''"
  shows "err_in n (c # cs) e"
proof -
  consider "scan_string n cs = Inl e" | l where "append_literal n dst (c # cs) l = Inl e"
    | "scan_number n (c # cs) = Inl e"
    | "e = SyntaxError (n - length (c # cs)) (UnexpectedWantValue c)"
      "c \<notin> {quote_char, CHR ''t'', CHR ''f'', CHR ''n'', CHR ''-''}" "\<not> is_digit c"
    using assms(1)
    by (auto simp: json_token_def append_string_token_def append_number_def res_simps split: if_split_asm)
  then show ?thesis
  proof cases
    case 1
    then show ?thesis by (auto dest!: scan_string_err intro: err_in_suffix suffix_ConsI)
  next
    case 2
    then have "e = SyntaxError (n - length (c # cs)) (InvalidLiteral l)" "take (length l) (c # cs) \<noteq> l"
      by (auto simp: append_literal_def split: if_split_asm)
    then show ?thesis by (auto intro: err_in_here)
  next
    case 3
    then show ?thesis by (rule scan_number_err)
  next
    case 4
    from 4(1) show ?thesis by (rule err_in_here) (use 4 assms(2,3) in \<open>simp add: starts_def\<close>)
  qed
qed

lemma append_member_name_err:
  assumes "append_member_name n dst r = Inl e"
  shows "err_in n r e"
proof (cases r)
  case Nil
  with assms show ?thesis by (auto simp: append_member_name_def intro!: err_in_end)
next
  case (Cons c cs)
  consider "c \<noteq> quote_char" "e = SyntaxError (n - length r) (UnexpectedWantName c)"
    | "scan_string n cs = Inl e"
    | r' where "c = quote_char" "scan_string n cs = Inr r'" "\<not> starts CHR '':'' (skip_space r')"
      "e = SyntaxError (n - length (skip_space r')) WantColon"
    using assms Cons
    by (auto simp: append_member_name_def append_string_token_def starts_def Let_def res_simps
        split: if_split_asm sum.splits list.splits)
  then show ?thesis
  proof cases
    case 1
    from 1(2) show ?thesis by (rule err_in_here) (use 1 Cons in \<open>simp add: starts_def\<close>)
  next
    case 2
    with Cons show ?thesis by (auto dest!: scan_string_err intro: err_in_suffix suffix_ConsI)
  next
    case 3
    then have "suffix r' r"
      using Cons by (auto dest!: scan_string_sound simp: suffix_def)
    with 3 suffix_skip_space [of r'] show ?thesis
      by (auto intro!: err_inI intro: suffix_order.order_trans)
  qed
qed

lemma append_member_name_suffix: "append_member_name n dst r = Inr (d, r') \<Longrightarrow> suffix r' r"
  by (auto simp: suffix_def dest!: append_member_name_sound)

lemma json_token_suffix: "json_token n dst c (c # cs) = Inr (d, r) \<Longrightarrow> suffix r (c # cs)"
  by (auto simp: suffix_def dest!: json_token_sound)

lemma json_machine_err:
  "json_value n dst st rest = Inl e \<Longrightarrow> brackets st \<Longrightarrow> err_in n rest e"
  "json_after n dst st rest = Inl e \<Longrightarrow> brackets st \<Longrightarrow> err_in n rest e"
proof (induction n dst st rest and n dst st rest rule: json_value_json_after.induct)
  case (1 n dst st rest)
  show ?case
  proof (cases rest)
    case Nil
    with "1.prems" show ?thesis by (auto simp: json_value.simps intro: err_in_end)
  next
    case (Cons c cs)
    have sp: "suffix (skip_space cs) rest"
      using Cons suffix_skip_space by (auto intro: suffix_ConsI)
    show ?thesis
    proof (cases "c = CHR ''{'' \<or> c = CHR ''[''")
      case opn: True
      then have br: "brackets (c # st)" using "1.prems"(2) by auto
      show ?thesis
      proof (cases "skip_space cs \<noteq> [] \<and> hd (skip_space cs) = closer c")
        case True
        with "1.prems"(1) Cons opn have "json_after n (dst @ [c, closer c]) st (tl (skip_space cs)) = Inl e"
          by (subst (asm) json_value.simps) simp
        from "1.IH"(1) [OF Cons opn True this "1.prems"(2)] sp show ?thesis
          by (blast intro: err_in_suffix suffix_order.order_trans suffix_tl)
      next
        case False
        show ?thesis
        proof (cases "c = CHR ''[''")
          case True
          with "1.prems"(1) Cons opn False have "json_value n (dst @ [c]) (c # st) (skip_space cs) = Inl e"
            by (subst (asm) json_value.simps) (auto split: if_split_asm)
          from "1.IH"(2) [OF Cons opn False True this br] sp show ?thesis by (rule err_in_suffix)
        next
          case obj: False
          with "1.prems"(1) Cons opn False consider
              "append_member_name n (dst @ [c]) (skip_space cs) = Inl e"
            | d r where "append_member_name n (dst @ [c]) (skip_space cs) = Inr (d, r)"
                "json_value n d (c # st) r = Inl e"
            by (subst (asm) json_value.simps) (auto split: sum.splits)
          then show ?thesis
          proof cases
            case 1
            with sp show ?thesis by (blast dest: append_member_name_err intro: err_in_suffix)
          next
            case (2 d r)
            from "1.IH"(3) [OF Cons opn False obj 2(1) refl 2(2) br] append_member_name_suffix [OF 2(1)] sp
            show ?thesis by (blast intro: err_in_suffix suffix_order.order_trans)
          qed
        qed
      qed
    next
      case scalar: False
      with "1.prems"(1) Cons consider "json_token n dst c rest = Inl e"
        | d r where "json_token n dst c rest = Inr (d, r)" "json_after n d st r = Inl e"
        by (subst (asm) json_value.simps) (auto split: sum.splits)
      then show ?thesis
      proof cases
        case 1
        with scalar Cons show ?thesis by (auto intro: json_token_err)
      next
        case (2 d r)
        from "1.IH"(4) [OF Cons scalar 2(1) refl 2(2) "1.prems"(2)] json_token_suffix 2(1) Cons
        show ?thesis by (blast intro: err_in_suffix)
      qed
    qed
  qed
next
  case (2 n dst st rest)
  have sp: "suffix (skip_space rest) rest" by (rule suffix_skip_space)
  show ?case
  proof (cases "skip_space rest")
    case Nil
    with "2.prems" show ?thesis by (auto simp: json_after.simps split: list.splits intro: err_in_end)
  next
    case (Cons c cs)
    have nsp: "\<not> is_space c" using Cons by (rule skip_space_head)
    have here: ?thesis if "e = SyntaxError (n - length (c # cs)) m" "msg_ok m (c # cs)" for m
      using err_in_suffix [OF err_in_here [OF that]] sp Cons by simp
    have sp': "suffix (skip_space cs) rest"
      using Cons sp suffix_skip_space [of cs] suffix_ConsD suffix_order.order_trans by metis
    show ?thesis
    proof (cases st)
      case Nil
      with "2.prems"(1) Cons have "e = SyntaxError (n - length (c # cs)) (UnexpectedAfterValue c)"
        by (simp add: json_after.simps)
      then show ?thesis by (rule here) (simp add: starts_def nsp)
    next
      case st: (Cons b st')
      show ?thesis
      proof (cases "c = CHR '',''")
        case comma: True
        show ?thesis
        proof (cases "b = CHR ''{''")
          case True
          with "2.prems"(1) Cons st comma consider
              "append_member_name n (dst @ [c]) (skip_space cs) = Inl e"
            | d r where "append_member_name n (dst @ [c]) (skip_space cs) = Inr (d, r)"
                "json_value n d st r = Inl e"
            by (subst (asm) json_after.simps) (auto split: sum.splits)
          then show ?thesis
          proof cases
            case 1
            with sp' show ?thesis by (blast dest: append_member_name_err intro: err_in_suffix)
          next
            case (2 d r)
            from "2.IH"(1) [OF Cons st comma True 2(1) refl 2(2) "2.prems"(2)]
              append_member_name_suffix [OF 2(1)] sp'
            show ?thesis by (blast intro: err_in_suffix suffix_order.order_trans)
          qed
        next
          case False
          with "2.prems"(1) Cons st comma have "json_value n (dst @ [c]) st (skip_space cs) = Inl e"
            by (subst (asm) json_after.simps) simp
          from "2.IH"(2) [OF Cons st comma False this "2.prems"(2)] sp' show ?thesis
            by (rule err_in_suffix)
        qed
      next
        case False
        show ?thesis
        proof (cases "c = closer b")
          case True
          with "2.prems"(1) Cons st False have "json_after n (dst @ [c]) st' cs = Inl e"
            by (subst (asm) json_after.simps) simp
          from "2.IH"(3) [OF Cons st False True this] "2.prems"(2) st have "err_in n cs e" by simp
          with sp Cons show ?thesis by (metis err_in_suffix suffix_ConsD)
        next
          case ncl: False
          with "2.prems"(1) Cons st False have "e = SyntaxError (n - length (c # cs)) (UnexpectedWantClose c)"
            by (subst (asm) json_after.simps) simp
          then show ?thesis by (rule here) (use False nsp in \<open>simp add: starts_def\<close>)
        qed
      qed
    qed
  qed
qed

section \<open>Properties\<close>

text \<open>C1: \<open>AppendJSON\<close> accepts exactly the texts that the grammar of RFC 8259 derives (one
  value, white space around it), and what it appends is the value's compact form: the same
  tokens byte for byte with no white space between them. The iterative scanner with its
  stack of open containers is a parser of the recursive grammar.\<close>

theorem append_json_grammar:
  "append_json dst raw = Inr out \<longleftrightarrow>
     (\<exists>w t w' c. raw = w @ t @ w' \<and> ws w \<and> ws w' \<and> jval c t \<and> out = dst @ c)"
  by (rule append_json_iff)

text \<open>where \<open>AppendJSON\<close> rejects a text, its error is a \<open>SyntaxError\<close> whose offset lies in
  the text (or at its end) and whose message is true of the bytes there: the byte it quotes
  is the one at the offset, an escape it calls invalid is one, a rune it calls invalid does
  not decode.\<close>

theorem append_json_error:
  assumes "append_json dst raw = Inl e"
  shows "\<exists>off m. e = SyntaxError off m \<and> off \<le> length raw \<and> msg_ok m (drop off raw)"
proof -
  from assms have "err_in (length raw) (skip_space raw) e"
    unfolding append_json_def by (rule json_machine_err) simp
  then obtain m s where e: "e = SyntaxError (length raw - length s) m" "suffix s raw" "msg_ok m s"
    unfolding err_in_def using suffix_skip_space suffix_order.order_trans by blast
  then show ?thesis by (auto simp: suffix_def)
qed

theorem append_json_error_witness:
  "\<exists>m. append_json [] ''[1, x]'' = Inl (SyntaxError 4 m) \<and> msg_ok m (drop 4 ''[1, x]'')"
proof -
  have r: "append_json [] ''[1, x]'' = Inl (SyntaxError 4 (UnexpectedWantValue CHR ''x''))"
    by code_simp
  obtain off m where e: "SyntaxError 4 (UnexpectedWantValue CHR ''x'') = SyntaxError off m"
    and m: "msg_ok m (drop off ''[1, x]'')"
    using append_json_error [OF r] by blast
  from e have "off = 4" "m = UnexpectedWantValue CHR ''x''" by (simp_all only: json_error.inject)
  with r m show ?thesis by blast
qed

text \<open>compacting is idempotent: what \<open>AppendJSON\<close> has written is accepted again and
  written unchanged.\<close>

theorem append_json_idempotent:
  assumes "append_json [] raw = Inr out"
  shows "append_json dst out = Inr (dst @ out)"
proof -
  from assms obtain t where "jval out t" unfolding append_json_iff by auto
  then have "jval out out" by (rule jval_compact)
  then show ?thesis
    unfolding append_json_iff by (intro exI [of _ "[]"] exI [of _ out]) simp
qed

theorem append_json_idempotent_witness:
  "append_json [] '' { } '' = Inr [CHR ''{'', CHR ''}''] \<and>
   append_json ''x'' [CHR ''{'', CHR ''}''] = Inr (''x'' @ [CHR ''{'', CHR ''}''])"
proof -
  have "append_json [] '' { } '' = Inr [CHR ''{'', CHR ''}'']" by code_simp
  with append_json_idempotent [OF this, of "''x''"] show ?thesis by blast
qed

text \<open>\<open>AppendString\<close> succeeds exactly on valid UTF-8, and what it appends is a JSON
  string: \<open>AppendJSON\<close> copies it byte for byte, and a JSON reader gets the string back.\<close>

theorem append_string_roundtrip:
  "(valid_utf8 s \<longrightarrow>
      (\<exists>p. append_string dst s = Inr (dst @ quote_char # p @ [quote_char]) \<and> unescape p = Some s \<and>
           append_json [] (quote_char # p @ [quote_char]) = Inr (quote_char # p @ [quote_char]))) \<and>
   (\<not> valid_utf8 s \<longrightarrow> append_string dst s = Inl ErrInvalidUTF8)"
proof (intro conjI impI)
  assume v: "valid_utf8 s"
  let ?q = "quote_char # escape s @ [quote_char]"
  from v have "str_tok ?q" unfolding str_tok_def by (auto dest: escape_str_chars)
  then have "jval ?q ?q" by (rule J_str)
  then have "append_json [] ?q = Inr ?q"
    unfolding append_json_iff by (intro exI [of _ "[]"] exI [of _ ?q]) simp
  with v unescape_escape show "\<exists>p. append_string dst s = Inr (dst @ quote_char # p @ [quote_char]) \<and>
      unescape p = Some s \<and> append_json [] (quote_char # p @ [quote_char]) = Inr (quote_char # p @ [quote_char])"
    by (auto simp: append_string_eq)
qed (simp add: append_string_eq)

theorem append_string_roundtrip_witness:
  "(\<exists>p. append_string ''a'' [CHR 0x0A] = Inr (''a'' @ quote_char # p @ [quote_char]) \<and>
        unescape p = Some [CHR 0x0A]) \<and> append_string [] [CHR 0xFF] = Inl ErrInvalidUTF8"
proof -
  have "rune_bad [CHR 0xFF]" by (simp add: rune_bad_def utf8_class_def seq_ok_def)
  then have "valid_utf8 [CHR 0x0A]" "\<not> valid_utf8 [CHR 0xFF]" by (simp_all add: valid_utf8_bad)
  with append_string_roundtrip [of "[CHR 0x0A]" "''a''"] append_string_roundtrip [of "[CHR 0xFF]" "[]"]
  show ?thesis by blast
qed

end
