(* ===== verification/Float64.thy ===== *)
theory Float64
  imports Prelude "HOL-Library.Word"
begin

text \<open>
  What the code uses of Go's floating point: a \<open>float64\<close> is its 64 bits (IEEE 754 binary64),
  and \<open>strconv.AppendFloat\<close> with format \<open>e\<close> and precision \<open>-1\<close> writes the shortest decimal that
  rounds back to the float. Magnitudes are exact fractions \<open>p / q\<close> of natural numbers, and
  \<open>round_bits\<close> is the correctly rounded (nearest, ties to even) bit pattern of a fraction in a
  binary format with \<open>mb\<close> mantissa bits and least exponent \<open>em\<close>: 52 and \<open>-1074\<close> for
  \<open>float64\<close>, 23 and \<open>-149\<close> for \<open>float32\<close>.
\<close>

unbundle bit_operations_syntax

type_synonym float64 = "64 word"

section \<open>The bits of a float\<close>

definition f64_neg :: "float64 \<Rightarrow> bool" where
  "f64_neg w \<longleftrightarrow> bit w 63"

definition f64_exp :: "float64 \<Rightarrow> nat" where
  "f64_exp w = unat (drop_bit 52 w AND 0x7FF)"

definition f64_frac :: "float64 \<Rightarrow> nat" where
  "f64_frac w = unat (w AND 0xFFFFFFFFFFFFF)"

definition is_nan :: "float64 \<Rightarrow> bool" where
  "is_nan w \<longleftrightarrow> f64_exp w = 0x7FF \<and> f64_frac w \<noteq> 0"

definition is_inf :: "float64 \<Rightarrow> bool" where
  "is_inf w \<longleftrightarrow> f64_exp w = 0x7FF \<and> f64_frac w = 0"

definition is_zero :: "float64 \<Rightarrow> bool" where
  "is_zero w \<longleftrightarrow> f64_exp w = 0 \<and> f64_frac w = 0"

text \<open>The magnitude of a finite float as a fraction.\<close>

definition f64_mant :: "float64 \<Rightarrow> nat" where
  "f64_mant w = (if f64_exp w = 0 then f64_frac w else 2 ^ 52 + f64_frac w)"

definition f64_ratio :: "float64 \<Rightarrow> nat \<times> nat" where
  "f64_ratio w =
     (let x = int (max 1 (f64_exp w)) - 1075 in
      if 0 \<le> x then (f64_mant w * 2 ^ nat x, 1) else (f64_mant w, 2 ^ nat (- x)))"

section \<open>Rounding\<close>

fun bit_len :: "nat \<Rightarrow> nat" where
  "bit_len n = (if n = 0 then 0 else Suc (bit_len (n div 2)))"

declare bit_len.simps [simp del]

text \<open>\<open>scale b p q x\<close> is the fraction \<open>p / q * b ^ x\<close>.\<close>

definition scale :: "nat \<Rightarrow> nat \<Rightarrow> nat \<Rightarrow> int \<Rightarrow> nat \<times> nat" where
  "scale b p q x = (if 0 \<le> x then (p * b ^ nat x, q) else (p, q * b ^ nat (- x)))"

definition at_least :: "nat \<Rightarrow> nat \<Rightarrow> nat \<Rightarrow> int \<Rightarrow> bool" where
  "at_least b p q x \<longleftrightarrow> (case scale b p q (- x) of (p', q') \<Rightarrow> q' \<le> p')"

definition log2_floor :: "nat \<Rightarrow> nat \<Rightarrow> int" where
  "log2_floor p q =
     (let a = int (bit_len p) - int (bit_len q) in if at_least 2 p q a then a else a - 1)"

definition round_even :: "nat \<Rightarrow> nat \<Rightarrow> nat" where
  "round_even p q =
     (let d = p div q; r = p mod q in
      if 2 * r < q \<or> (2 * r = q \<and> even d) then d else Suc d)"

definition round_bits :: "nat \<Rightarrow> int \<Rightarrow> nat \<Rightarrow> nat \<Rightarrow> nat" where
  "round_bits mb em p q =
     (if p = 0 then 0
      else let x = max em (log2_floor p q - int mb); (p', q') = scale 2 p q (- x) in
           round_even p' q' + nat (x - em) * 2 ^ mb)"

text \<open>The float nearest to an integer (the conversion \<open>float64(n)\<close>).\<close>

definition f64_of_int :: "int \<Rightarrow> float64" where
  "f64_of_int n =
     of_nat (round_bits 52 (-1074) (nat \<bar>n\<bar>) 1) OR (if n < 0 then 2 ^ 63 else 0)"

section \<open>The shortest decimal\<close>

text \<open>The exponent of the first decimal digit.\<close>

definition dec_exp :: "nat \<Rightarrow> nat \<Rightarrow> int" where
  "dec_exp p q =
     (let a = int (length (show_nat p)) - int (length (show_nat q)) in
      if at_least 10 p q a then a else a - 1)"

text \<open>The decimals with \<open>n\<close> digits next to \<open>p / q\<close>, the nearer first, as numbers scaled by
  \<open>10 ^ (E - n + 1)\<close> with \<open>E\<close> the exponent of the first digit.\<close>

definition neighbours :: "nat \<Rightarrow> nat \<Rightarrow> int \<Rightarrow> nat \<Rightarrow> nat list" where
  "neighbours p q E n =
     (case scale 10 p q (int n - 1 - E) of (p', q') \<Rightarrow>
        let d = p' div q'; r = p' mod q' in
        if 2 * r < q' \<or> (2 * r = q' \<and> even d) then [d, Suc d] else [Suc d, d])"

definition reads_back :: "nat \<Rightarrow> int \<Rightarrow> nat \<Rightarrow> nat \<Rightarrow> int \<Rightarrow> nat \<Rightarrow> nat \<Rightarrow> bool" where
  "reads_back mb em p q E n d \<longleftrightarrow>
     (case scale 10 d 1 (E - int n + 1) of (p', q') \<Rightarrow>
        round_bits mb em p' q' = round_bits mb em p q)"

fun strip_zeros :: "nat \<Rightarrow> nat" where
  "strip_zeros d = (if d = 0 \<or> d mod 10 \<noteq> 0 then d else strip_zeros (d div 10))"

declare strip_zeros.simps [simp del]

text \<open>The search for the least number of digits; 17 are enough for binary64. The result is
  the digits and the exponent of the first one.\<close>

function shortest_from :: "nat \<Rightarrow> int \<Rightarrow> nat \<Rightarrow> nat \<Rightarrow> int \<Rightarrow> nat \<Rightarrow> bytes \<times> int" where
  "shortest_from mb em p q E n =
     (case List.find (reads_back mb em p q E n) (neighbours p q E n) of
        Some d \<Rightarrow> (show_nat (strip_zeros d), E + int (length (show_nat d)) - int n)
      | None \<Rightarrow>
          if n < 17 then shortest_from mb em p q E (Suc n)
          else (show_nat (strip_zeros (hd (neighbours p q E n))),
                E + int (length (show_nat (hd (neighbours p q E n)))) - int n))"
  by pat_completeness auto
termination
  by (relation "measure (\<lambda>(mb, em, p, q, E, n). 17 - n)") auto

declare shortest_from.simps [simp del]

definition shortest :: "nat \<Rightarrow> int \<Rightarrow> nat \<Rightarrow> nat \<Rightarrow> bytes \<times> int" where
  "shortest mb em p q = shortest_from mb em p q (dec_exp p q) 1"

text \<open>\<open>strconv.AppendFloat(nil, f, 'e', -1, bits)\<close> of a finite float that is not zero.\<close>

definition format_e :: "float64 \<Rightarrow> nat \<Rightarrow> bytes" where
  "format_e f bits =
     (case f64_ratio f of (p, q) \<Rightarrow>
        (case shortest (if bits = 32 then 23 else 52) (if bits = 32 then -149 else -1074) p q of
           (ds, x) \<Rightarrow>
             (if f64_neg f then ''-'' else []) @ [hd ds] @ (if tl ds = [] then [] else CHR ''.'' # tl ds) @
             [CHR ''e'', if x < 0 then CHR ''-'' else CHR ''+''] @
             (if \<bar>x\<bar> < 10 then ''0'' else []) @ show_nat (nat \<bar>x\<bar>)))"

lemma at_least_nonneg: "0 \<le> x \<Longrightarrow> at_least b p q x \<longleftrightarrow> q * b ^ nat x \<le> p"
  by (cases "x = 0") (simp_all add: at_least_def scale_def)

lemma at_least_neg: "x \<le> 0 \<Longrightarrow> at_least b p q x \<longleftrightarrow> q \<le> p * b ^ nat (- x)"
  by (cases "x = 0") (simp_all add: at_least_def scale_def)

section \<open>The shortest decimal starts with a non-zero digit\<close>

lemma show_nat_bounds:
  "0 < n \<Longrightarrow> 10 ^ (length (show_nat n) - 1) \<le> n \<and> n < 10 ^ length (show_nat n)"
proof (induction n rule: show_nat.induct)
  case (1 n)
  show ?case
  proof (cases "n < 10")
    case True
    with "1.prems" show ?thesis by (subst (1 2) show_nat.simps) simp
  next
    case False
    let ?l = "length (show_nat (n div 10))"
    from False "1.IH" have IH: "10 ^ (?l - 1) \<le> n div 10" "n div 10 < 10 ^ ?l" by auto
    have l: "length (show_nat n) = Suc ?l" using False by (subst show_nat.simps) simp
    have "0 < ?l" by simp
    then obtain k where k: "?l = Suc k" by (cases ?l) auto
    from IH k have "10 * 10 ^ k \<le> n" "n < 10 * 10 ^ ?l" by auto
    with l k show ?thesis by simp
  qed
qed

lemma show_nat_hd: "0 < n \<Longrightarrow> byte_between 49 57 (hd (show_nat n))"
proof (induction n rule: show_nat.induct)
  case (1 n)
  show ?case
  proof (cases "n < 10")
    case True
    with "1.prems" show ?thesis
      by (subst show_nat.simps) (auto simp: digit_char_def byte_between_def)
  next
    case False
    with "1.IH" show ?thesis by (subst show_nat.simps) simp
  qed
qed

lemma strip_zeros_pos: "0 < d \<Longrightarrow> 0 < strip_zeros d"
proof (induction d rule: strip_zeros.induct)
  case (1 d)
  show ?case
  proof (cases "d mod 10 = 0")
    case True
    with "1.prems" have "0 < d div 10" by presburger
    with True "1.IH" "1.prems" show ?thesis by (subst strip_zeros.simps) simp
  next
    case False
    with "1.prems" show ?thesis by (subst strip_zeros.simps) simp
  qed
qed

lemma at_least_scale:
  assumes "at_least 10 p q E" and "0 \<le> k" and "0 < q" and "scale 10 p q (k - E) = (p', q')"
  shows "0 < q' \<and> q' \<le> p'"
proof (cases "0 \<le> E")
  case True
  with assms(1) have le: "q * 10 ^ nat E \<le> p"
    by (auto simp: at_least_def scale_def split: if_splits)
  show ?thesis
  proof (cases "E \<le> k")
    case True
    have "q * 1 \<le> q * 10 ^ nat E" by (intro mult_le_mono) simp_all
    also note le
    also have "p * 1 \<le> p * 10 ^ nat (k - E)" by (intro mult_le_mono) simp_all
    finally show ?thesis using assms(3,4) True by (auto simp: scale_def)
  next
    case False
    have "q * 10 ^ nat (E - k) \<le> q * 10 ^ nat E"
      using assms(2) by (intro mult_le_mono power_increasing) auto
    with le False assms(3,4) show ?thesis by (auto simp: scale_def)
  qed
next
  case False
  with assms(1) have le: "q \<le> p * 10 ^ nat (- E)"
    by (auto simp: at_least_def scale_def split: if_splits)
  have "p * 10 ^ nat (- E) \<le> p * 10 ^ nat (k - E)"
    using assms(2) by (intro mult_le_mono power_increasing) auto
  with le False assms(2-4) show ?thesis by (auto simp: scale_def)
qed

lemma dec_exp_at_least:
  assumes "0 < p" and "0 < q"
  shows "at_least 10 p q (dec_exp p q)"
proof -
  let ?lp = "length (show_nat p)" and ?lq = "length (show_nat q)"
  let ?a = "int ?lp - int ?lq"
  have "at_least 10 p q (?a - 1)"
  proof (cases "0 \<le> ?a - 1")
    case True
    then have e: "?lq + nat (?a - 1) = ?lp - 1" by simp
    have "q * 10 ^ nat (?a - 1) \<le> 10 ^ ?lq * 10 ^ nat (?a - 1)"
      using show_nat_bounds [OF assms(2)] by (intro mult_le_mono) auto
    also have "\<dots> = 10 ^ (?lp - 1)" by (simp only: power_add [symmetric] e)
    also have "\<dots> \<le> p" using show_nat_bounds [OF assms(1)] by blast
    finally show ?thesis using True by (auto simp: at_least_def scale_def)
  next
    case False
    have "0 < ?lp" by simp
    with False have e: "?lp - 1 + nat (1 - ?a) = ?lq" by linarith
    have "q \<le> 10 ^ ?lq" using show_nat_bounds [OF assms(2)] by auto
    also have "\<dots> = 10 ^ (?lp - 1) * 10 ^ nat (1 - ?a)" by (simp only: power_add [symmetric] e)
    also have "\<dots> \<le> p * 10 ^ nat (1 - ?a)"
      using show_nat_bounds [OF assms(1)] by (intro mult_le_mono) auto
    finally show ?thesis using False by (auto simp: at_least_def scale_def)
  qed
  then show ?thesis by (simp add: dec_exp_def Let_def)
qed

lemma neighbours_pos:
  assumes "0 < p" and "0 < q" and "1 \<le> n" and "d \<in> set (neighbours p q (dec_exp p q) n)"
  shows "0 < d"
proof -
  obtain p' q' where s: "scale 10 p q (int n - 1 - dec_exp p q) = (p', q')" by fastforce
  with at_least_scale [OF dec_exp_at_least [OF assms(1,2)] _ assms(2), of "int n - 1" p' q'] assms(3)
  have "0 < p' div q'" by (auto simp: div_greater_zero_iff)
  with assms(4) s show ?thesis by (auto simp: neighbours_def Let_def split: if_splits)
qed

lemma shortest_from_digits:
  assumes "0 < p" and "0 < q" and "E = dec_exp p q" and "1 \<le> n"
  shows "\<exists>d x. 0 < d \<and> shortest_from mb em p q E n = (show_nat d, x)"
  using assms
proof (induction mb em p q E n rule: shortest_from.induct)
  case (1 mb em p q E n)
  have ne: "neighbours p q E n \<noteq> []" by (simp add: neighbours_def Let_def split: prod.split)
  then have "hd (neighbours p q E n) \<in> set (neighbours p q E n)" by simp
  with neighbours_pos [OF "1.prems"(1,2,4)] "1.prems"(3) have h: "0 < hd (neighbours p q E n)" by blast
  show ?case
  proof (cases "List.find (reads_back mb em p q E n) (neighbours p q E n)")
    case None
    with "1.IH" "1.prems" h strip_zeros_pos show ?thesis
      by (subst shortest_from.simps) auto
  next
    case (Some d)
    then have "d \<in> set (neighbours p q E n)" by (auto simp: find_Some_iff)
    with neighbours_pos [OF "1.prems"(1,2,4)] "1.prems"(3) have "0 < d" by blast
    with Some strip_zeros_pos show ?thesis by (subst shortest_from.simps) auto
  qed
qed

lemma f64_ratio_pos:
  assumes "\<not> is_zero f" and "f64_ratio f = (p, q)"
  shows "0 < p \<and> 0 < q"
proof -
  have "0 < f64_mant f" using assms(1) by (auto simp: f64_mant_def is_zero_def)
  with assms(2) show ?thesis by (auto simp: f64_ratio_def Let_def split: if_splits)
qed

section \<open>It has at most 17 digits and a small exponent\<close>

lemma not_at_least_scale:
  assumes "\<not> at_least 10 p q (E + 1)" and "0 \<le> k" and "scale 10 p q (k - 1 - E) = (p', q')"
  shows "p' < q' * 10 ^ nat k"
proof (cases "0 \<le> E + 1")
  case True
  with assms(1) at_least_nonneg [of "E + 1" 10 p q] have lt: "p < q * 10 ^ nat (E + 1)"
    by linarith
  show ?thesis
  proof (cases "E + 1 \<le> k")
    case t: True
    then have e: "nat (E + 1) + nat (k - 1 - E) = nat k" using True by linarith
    have "p * 10 ^ nat (k - 1 - E) < q * 10 ^ nat (E + 1) * 10 ^ nat (k - 1 - E)" using lt by simp
    also have "\<dots> = q * 10 ^ nat k" by (simp only: mult.assoc power_add [symmetric] e)
    finally show ?thesis using assms(3) t by (auto simp: scale_def)
  next
    case False
    then have e: "nat (E + 1 - k) + nat k = nat (E + 1)" using assms(2) by linarith
    have "q * 10 ^ nat (E + 1 - k) * 10 ^ nat k = q * 10 ^ nat (E + 1)"
      by (simp only: mult.assoc power_add [symmetric] e)
    with lt False assms(3) show ?thesis by (auto simp: scale_def algebra_simps)
  qed
next
  case False
  with assms(1) have lt: "p * 10 ^ nat (- E - 1) < q"
    by (auto simp: at_least_def scale_def split: if_splits)
  from False have e: "nat (- E - 1) + nat k = nat (k - 1 - E)" using assms(2) by linarith
  have "p * 10 ^ nat (k - 1 - E) = p * 10 ^ nat (- E - 1) * 10 ^ nat k"
    by (simp only: mult.assoc power_add [symmetric] e)
  also have "\<dots> < q * 10 ^ nat k" using lt by simp
  finally show ?thesis using False assms(2,3) by (auto simp: scale_def)
qed

lemma dec_exp_upper:
  assumes "0 < p" and "0 < q"
  shows "\<not> at_least 10 p q (dec_exp p q + 1)"
proof (cases "at_least 10 p q (int (length (show_nat p)) - int (length (show_nat q)))")
  case False
  then show ?thesis by (simp add: dec_exp_def Let_def)
next
  case True
  let ?lp = "length (show_nat p)" and ?lq = "length (show_nat q)"
  let ?a = "int ?lp - int ?lq"
  have lq: "0 < ?lq" by simp
  have "\<not> at_least 10 p q (?a + 1)"
  proof (cases "0 \<le> ?a + 1")
    case t: True
    then have e: "?lq - 1 + nat (?a + 1) = ?lp" using lq by linarith
    have "p < 10 ^ ?lp" using show_nat_bounds [OF assms(1)] by blast
    also have "\<dots> = 10 ^ (?lq - 1) * 10 ^ nat (?a + 1)" by (simp only: power_add [symmetric] e)
    also have "\<dots> \<le> q * 10 ^ nat (?a + 1)"
      using show_nat_bounds [OF assms(2)] by (intro mult_le_mono) auto
    finally show ?thesis using at_least_nonneg [OF t, of 10 p q] by linarith
  next
    case False
    then have e: "?lp + nat (- ?a - 1) = ?lq - 1" by linarith
    have "p * 10 ^ nat (- ?a - 1) < 10 ^ ?lp * 10 ^ nat (- ?a - 1)"
      using show_nat_bounds [OF assms(1)] by simp
    also have "\<dots> = 10 ^ (?lq - 1)" by (simp only: power_add [symmetric] e)
    also have "\<dots> \<le> q" using show_nat_bounds [OF assms(2)] by blast
    finally show ?thesis using False by (auto simp: at_least_def scale_def)
  qed
  with True show ?thesis by (simp add: dec_exp_def Let_def)
qed

lemma neighbours_le:
  assumes "0 < p" and "0 < q" and "d \<in> set (neighbours p q (dec_exp p q) n)"
  shows "d \<le> 10 ^ n"
proof -
  obtain p' q' where s: "scale 10 p q (int n - 1 - dec_exp p q) = (p', q')" by fastforce
  from not_at_least_scale [OF dec_exp_upper [OF assms(1,2)] _ s] have "p' < q' * 10 ^ n" by simp
  then have "p' div q' < 10 ^ n" by (simp add: less_mult_imp_div_less mult.commute)
  with assms(3) s show ?thesis by (auto simp: neighbours_def Let_def split: if_splits)
qed

lemma strip_zeros_le: "strip_zeros d \<le> d"
proof (induction d rule: strip_zeros.induct)
  case (1 d)
  show ?case
  proof (cases "d = 0 \<or> d mod 10 \<noteq> 0")
    case True
    then show ?thesis by (subst strip_zeros.simps) simp
  next
    case False
    with "1.IH" have "strip_zeros (d div 10) \<le> d" by (meson div_le_dividend order_trans)
    with False show ?thesis by (subst strip_zeros.simps) simp
  qed
qed

lemma strip_zeros_power: "strip_zeros (10 ^ n) = 1"
proof (induction n)
  case 0
  show ?case by (subst strip_zeros.simps) simp
next
  case (Suc n)
  then show ?case by (subst strip_zeros.simps) simp
qed

lemma strip_zeros_length:
  assumes "d \<le> 10 ^ n" and "1 \<le> n"
  shows "length (show_nat (strip_zeros d)) \<le> n"
proof (cases "d = 10 ^ n")
  case True
  moreover have "length (show_nat 1) = 1" by (subst show_nat.simps) simp
  ultimately show ?thesis using assms(2) strip_zeros_power by simp
next
  case False
  with assms(1) strip_zeros_le [of d] have "strip_zeros d < 10 ^ n" by linarith
  then show ?thesis by (rule show_nat_length) (use assms(2) in simp)
qed

lemma shortest_from_bounds:
  assumes "0 < p" and "0 < q" and "E = dec_exp p q" and "1 \<le> n" and "n \<le> 17"
  shows "\<exists>d x. shortest_from mb em p q E n = (show_nat d, x) \<and> length (show_nat d) \<le> 17 \<and> \<bar>x\<bar> \<le> \<bar>E\<bar> + 17"
  using assms
proof (induction mb em p q E n rule: shortest_from.induct)
  case (1 mb em p q E n)
  have b: "length (show_nat (strip_zeros d)) \<le> 17 \<and> \<bar>E + int (length (show_nat d)) - int n\<bar> \<le> \<bar>E\<bar> + 17"
    if "d \<in> set (neighbours p q E n)" for d
  proof -
    have d: "d \<le> 10 ^ n" using neighbours_le [OF "1.prems"(1,2)] that "1.prems"(3) by blast
    have "(10::nat) ^ n < 10 ^ Suc n" by (rule power_strict_increasing) simp_all
    with d have "d < 10 ^ Suc n" by (rule order.strict_trans1)
    then have "length (show_nat d) \<le> Suc n" by (rule show_nat_length) simp
    moreover have "0 < length (show_nat d)" by simp
    ultimately show ?thesis
      using strip_zeros_length [OF d "1.prems"(4)] "1.prems"(4,5) by linarith
  qed
  have ne: "neighbours p q E n \<noteq> []" by (simp add: neighbours_def Let_def split: prod.split)
  show ?case
  proof (cases "List.find (reads_back mb em p q E n) (neighbours p q E n)")
    case None
    show ?thesis
    proof (cases "n < 17")
      case True
      with None "1.IH" [OF None True] "1.prems" show ?thesis by (subst shortest_from.simps) auto
    next
      case False
      with None b [of "hd (neighbours p q E n)"] ne show ?thesis by (subst shortest_from.simps) auto
    qed
  next
    case (Some d)
    then have "d \<in> set (neighbours p q E n)" by (auto simp: find_Some_iff)
    with Some b show ?thesis by (subst shortest_from.simps) auto
  qed
qed

lemma f64_bounds: "f64_exp w < 2048" "f64_frac w < 2 ^ 52"
proof -
  have "unat (drop_bit 52 w AND 0x7FF) \<le> unat (0x7FF :: float64)"
    by (simp only: word_le_nat_alt [symmetric] word_and_le1)
  then show "f64_exp w < 2048" by (simp add: f64_exp_def)
  have "unat (w AND 0xFFFFFFFFFFFFF) \<le> unat (0xFFFFFFFFFFFFF :: float64)"
    by (simp only: word_le_nat_alt [symmetric] word_and_le1)
  then show "f64_frac w < 2 ^ 52" by (simp add: f64_frac_def)
qed

lemma f64_ratio_bounds:
  assumes "f64_ratio w = (p, q)"
  shows "p < 10 ^ 310 \<and> q < 10 ^ 325"
proof -
  have m: "f64_mant w < 2 ^ 53" using f64_bounds(2) [of w] by (simp add: f64_mant_def)
  show ?thesis
  proof (cases "1075 \<le> f64_exp w")
    case True
    then have pq: "p = f64_mant w * 2 ^ (f64_exp w - 1075)" "q = 1"
      using assms by (auto simp: f64_ratio_def Let_def nat_diff_distrib)
    have "p < 2 ^ 53 * 2 ^ (f64_exp w - 1075)"
      unfolding pq(1) by (rule mult_strict_right_mono [OF m]) simp
    also have "\<dots> \<le> 2 ^ 53 * 2 ^ 972"
      using f64_bounds(1) [of w] by (intro mult_le_mono power_increasing) auto
    also have "\<dots> \<le> 10 ^ 310" by simp
    finally show ?thesis using pq(2) by simp
  next
    case False
    then have x: "\<not> 0 \<le> int (max 1 (f64_exp w)) - 1075" by simp
    have e: "nat (- (int (max 1 (f64_exp w)) - 1075)) = 1075 - max 1 (f64_exp w)" by linarith
    from assms have pq: "p = f64_mant w" "q = 2 ^ (1075 - max 1 (f64_exp w))"
      unfolding f64_ratio_def Let_def if_not_P [OF x] e by simp_all
    have "q \<le> 2 ^ 1074" unfolding pq(2) by (intro power_increasing) auto
    also have "\<dots> < 10 ^ 325" by simp
    finally have "q < 10 ^ 325" .
    moreover have "p < 10 ^ 310"
    proof -
      have "p < 2 ^ 53" using m pq(1) by simp
      also have "\<dots> \<le> 10 ^ 310" by simp
      finally show ?thesis .
    qed
    ultimately show ?thesis by blast
  qed
qed

lemma dec_exp_bound:
  assumes "p < 10 ^ 310" and "q < 10 ^ 325"
  shows "\<bar>dec_exp p q\<bar> \<le> 325"
proof -
  have "length (show_nat p) \<le> 310" by (rule show_nat_length) (use assms(1) in simp_all)
  moreover have "length (show_nat q) \<le> 325" by (rule show_nat_length) (use assms(2) in simp_all)
  moreover have "1 \<le> length (show_nat p)" "1 \<le> length (show_nat q)"
    by (simp_all add: Suc_le_eq)
  ultimately show ?thesis unfolding dec_exp_def Let_def by (simp split: if_split) linarith
qed

text \<open>The shape of what \<open>strconv\<close> writes: a digit from 1 to 9, a fraction, an exponent, within
  the bounds.\<close>

lemma format_e_shape:
  assumes "\<not> is_zero f"
  obtains d ds sg x where "format_e f bits =
      (if f64_neg f then ''-'' else []) @ d # (if ds = [] then [] else CHR ''.'' # ds) @ CHR ''e'' # sg # x"
    and "byte_between 49 57 d" and "list_all is_digit ds" and "list_all is_digit x" and "sg \<noteq> CHR ''e''"
    and "length ds \<le> 16" and "length x \<le> 3"
proof -
  obtain p q where r: "f64_ratio f = (p, q)" by fastforce
  define mb em where "mb = (if bits = 32 then 23 else 52 :: nat)"
    and "em = (if bits = 32 then -149 else -1074 :: int)"
  from f64_ratio_pos [OF assms r] have pq: "0 < p" "0 < q" by auto
  from shortest_from_digits [OF pq refl, of 1 mb em] obtain n e where
    n: "0 < n" "shortest mb em p q = (show_nat n, e)" by (auto simp: shortest_def)
  from shortest_from_bounds [OF pq refl, of 1 mb em] n(2) dec_exp_bound [of p q] f64_ratio_bounds [OF r]
  have len: "length (show_nat n) \<le> 17" "\<bar>e\<bar> \<le> 342" by (auto simp: shortest_def)
  have "length (show_nat (nat \<bar>e\<bar>)) \<le> (if \<bar>e\<bar> < 10 then 1 else 3)"
    by (cases "\<bar>e\<bar> < 10") (use len(2) in \<open>auto intro!: show_nat_length\<close>)
  then have x: "length ((if \<bar>e\<bar> < 10 then ''0'' else []) @ show_nat (nat \<bar>e\<bar>)) \<le> 3"
    by (auto split: if_splits)
  have z: "is_digit CHR ''0''" by (simp add: is_digit_def byte_between_def)
  show thesis
  proof (rule that [of "hd (show_nat n)" "tl (show_nat n)" "if e < 0 then CHR ''-'' else CHR ''+''"
        "(if \<bar>e\<bar> < 10 then ''0'' else []) @ show_nat (nat \<bar>e\<bar>)"])
    show "list_all is_digit (tl (show_nat n))"
      using show_nat_digits [of n] by (cases "show_nat n") auto
    show "length (tl (show_nat n)) \<le> 16" using len(1) by simp
  qed (use n r x show_nat_hd [OF n(1)] show_nat_digits z in
      \<open>simp_all add: format_e_def mb_def em_def Let_def\<close>)
qed

end
