(* ===== verification/Wire_Answers.thy ===== *)
theory Wire_Answers
  imports Wire_Content Float64
begin

text \<open>
  The decoded answers of a response, \<open>internal/wire/answers.go\<close> and \<open>response.go\<close>: kinds, the
  values of the three answer types, and \<open>Answers\<close>, the set of answers keyed by question name
  that hashes the names once it outgrows \<open>linearLimit\<close>. The set is an interpretation of the
  keyed list and refines Python's insertion-ordered dictionary..
\<close>



section \<open>Kinds\<close>

datatype kind = KindUnknown | KindNoul | KindChoice | KindScore

definition parse_kind :: "bytes \<Rightarrow> kind" where
  "parse_kind typ =
     (if typ = ''noul'' then KindNoul else if typ = ''choice'' then KindChoice
      else if typ = ''score'' then KindScore else KindUnknown)"

fun kind_string :: "kind \<Rightarrow> bytes" where
  "kind_string KindNoul = ''noul''"
| "kind_string KindChoice = ''choice''"
| "kind_string KindScore = ''score''"
| "kind_string KindUnknown = ''unknown''"

section \<open>Answer values\<close>

record label_probability =
  lp_label :: bytes
  lp_probability :: float64

record legend_entry =
  le_level :: "32 word"
  le_description :: content

record level_probability =
  vp_level :: "32 word"
  vp_probability :: float64

record noul_answer =
  noul :: float64

record choice_answer =
  choice :: bytes
  choice_confidence :: float64
  choice_probabilities :: "label_probability list"

record score_answer =
  score :: float64
  score_confidence :: float64
  legend :: "legend_entry list"
  score_probabilities :: "level_probability list"

record answer =
  ans_kind :: kind
  ans_noul :: noul_answer
  ans_choice :: choice_answer
  ans_score :: score_answer

definition zero_answer :: answer where
  "zero_answer =
     \<lparr>ans_kind = KindUnknown, ans_noul = \<lparr>noul = 0\<rparr>,
      ans_choice = \<lparr>choice = [], choice_confidence = 0, choice_probabilities = []\<rparr>,
      ans_score = \<lparr>score = 0, score_confidence = 0, legend = [], score_probabilities = []\<rparr>\<rparr>"

text \<open>The lookups of a choice or score answer scan its tables.\<close>

definition scan_key :: "('a \<Rightarrow> 'k) \<Rightarrow> ('a \<Rightarrow> 'v) \<Rightarrow> 'a list \<Rightarrow> 'k \<Rightarrow> 'v option" where
  "scan_key key val xs k = map_option (\<lambda>i. val (xs ! i)) (find_index (\<lambda>x. key x = k) xs)"

definition choice_probability :: "choice_answer \<Rightarrow> bytes \<Rightarrow> float64 option" where
  "choice_probability a l = scan_key lp_label lp_probability (choice_probabilities a) l"

definition score_description :: "score_answer \<Rightarrow> 32 word \<Rightarrow> content option" where
  "score_description a l = scan_key le_level le_description (legend a) l"

definition score_probability :: "score_answer \<Rightarrow> 32 word \<Rightarrow> float64 option" where
  "score_probability a l = scan_key vp_level vp_probability (score_probabilities a) l"

section \<open>The answer set\<close>

record answer_entry =
  ae_name :: bytes
  ae_answer :: answer

definition linear_limit :: nat where
  "linear_limit = 8"

record answers =
  as_entries :: "answer_entry list"
  as_index :: "(bytes \<rightharpoonup> nat) option"

definition empty_answers :: answers where
  "empty_answers = \<lparr>as_entries = [], as_index = None\<rparr>"

definition answers_find :: "answers \<Rightarrow> bytes \<Rightarrow> nat option" where
  "answers_find s name =
     (case as_index s of
        Some m \<Rightarrow> m name
      | None \<Rightarrow> find_index (\<lambda>e. ae_name e = name) (as_entries s))"

definition answers_get :: "answers \<Rightarrow> bytes \<Rightarrow> answer option" where
  "answers_get s name = map_option (\<lambda>i. ae_answer (as_entries s ! i)) (answers_find s name)"

definition answers_put :: "answers \<Rightarrow> bytes \<Rightarrow> answer \<Rightarrow> answers" where
  "answers_put s name a =
     (case answers_find s name of
        Some i \<Rightarrow> s\<lparr>as_entries := (as_entries s)[i := (as_entries s ! i)\<lparr>ae_answer := a\<rparr>]\<rparr>
      | None \<Rightarrow>
          (let es = as_entries s @ [\<lparr>ae_name = name, ae_answer = a\<rparr>] in
           case as_index s of
             Some m \<Rightarrow> s\<lparr>as_entries := es, as_index := Some (m(name \<mapsto> length es - 1))\<rparr>
           | None \<Rightarrow>
               if linear_limit < length es
               then s\<lparr>as_entries := es, as_index := Some (index_of ae_name es)\<rparr>
               else s\<lparr>as_entries := es\<rparr>))"

section \<open>Responses\<close>

record usage =
  u_input :: "64 word"
  u_output :: "64 word"
  u_has_input :: bool
  u_has_output :: bool

definition zero_usage :: usage where
  "zero_usage = \<lparr>u_input = 0, u_output = 0, u_has_input = False, u_has_output = False\<rparr>"

record system_one_result =
  so_model :: bytes
  so_usage :: usage
  so_answers :: answers

record model_card =
  mc_name :: bytes
  mc_description :: bytes
  mc_release_date :: bytes

text \<open>A header is the list of its fields in order, each canonical name with its values.\<close>

record response_meta =
  rm_status :: int
  rm_header :: header
  rm_body :: bytes

fun join :: "bytes \<Rightarrow> bytes list \<Rightarrow> bytes" where
  "join sep [] = []"
| "join sep [x] = x"
| "join sep (x # y # ys) = x @ sep @ join sep (y # ys)"

definition request_id_header :: bytes where
  "request_id_header = ''X-Typesafe-Request-Id''"

definition request_id :: "response_meta \<Rightarrow> bytes option" where
  "request_id m =
     (case map_of (rm_header m) request_id_header of
        None \<Rightarrow> None
      | Some vs \<Rightarrow> if vs = [] then None else Some (join '', '' vs))"

section \<open>The set is a keyed list\<close>

definition answers_inv :: "answers \<Rightarrow> bool" where
  "answers_inv s \<longleftrightarrow>
     distinct (map ae_name (as_entries s)) \<and>
     (case as_index s of
        None \<Rightarrow> length (as_entries s) \<le> linear_limit
      | Some m \<Rightarrow> index_ok ae_name (as_entries s) m \<and> linear_limit < length (as_entries s))"

lemma answers_find_scan:
  "answers_inv s \<Longrightarrow> answers_find s name = find_index (\<lambda>e. ae_name e = name) (as_entries s)"
  by (auto simp: answers_inv_def answers_find_def index_ok_def split: option.splits)

interpretation ans: keyed_list as_entries ae_name answers_find answers_inv
  by unfold_locales (auto simp: answers_find_scan, auto simp: answers_inv_def)

lemma answers_inv_empty: "answers_inv empty_answers"
  by (simp add: answers_inv_def empty_answers_def)

lemma answers_put_old:
  assumes "answers_inv s" and "answers_find s name = Some i"
  shows "answers_inv (answers_put s name a) \<and> as_index (answers_put s name a) = as_index s"
proof -
  let ?e = "(as_entries s ! i)\<lparr>ae_answer := a\<rparr>"
  from ans.search_bound [OF assms] have i: "i < length (as_entries s)" by blast
  then have "map ae_name ((as_entries s)[i := ?e]) = map ae_name (as_entries s)"
    by (metis answer_entry.select_convs(1) answer_entry.surjective answer_entry.update_convs(2)
        list_update_id map_update nth_map)
  moreover have "index_ok ae_name ((as_entries s)[i := ?e]) m" if "index_ok ae_name (as_entries s) m" for m
    using that i by (rule index_ok_update) simp
  ultimately show ?thesis
    using assms by (auto simp: answers_put_def answers_inv_def split: option.splits)
qed

lemma answers_put_new:
  assumes "answers_inv s" and "answers_find s name = None"
  shows "answers_inv (answers_put s name a) \<and>
    as_entries (answers_put s name a) = as_entries s @ [\<lparr>ae_name = name, ae_answer = a\<rparr>]"
proof -
  let ?e = "\<lparr>ae_name = name, ae_answer = a\<rparr>"
  from ans.search_None [OF assms(1)] assms(2) have new: "name \<notin> ae_name ` set (as_entries s)" by blast
  with assms(1) have d: "distinct (map ae_name (as_entries s @ [?e]))"
    by (simp add: answers_inv_def)
  have "index_ok ae_name (as_entries s @ [?e]) (m(name \<mapsto> length (as_entries s)))"
    if "as_index s = Some m" for m
    using index_ok_append [of ae_name "as_entries s" m ?e] that assms
    by (simp add: answers_inv_def answers_find_def)
  with d assms index_of_ok [OF d] show ?thesis
    by (auto simp: answers_put_def answers_inv_def Let_def simp del: fun_upd_apply split: option.splits)
qed

lemma answers_put_inv: "answers_inv s \<Longrightarrow> answers_inv (answers_put s name a)"
  by (cases "answers_find s name") (auto dest: answers_put_new answers_put_old)

subsection \<open>Refinement of the insertion-ordered dictionary\<close>

definition answers_dict :: "answers \<Rightarrow> (bytes \<times> answer) list" where
  "answers_dict s = map (\<lambda>e. (ae_name e, ae_answer e)) (as_entries s)"

lemma find_index_update:
  assumes "find_index (\<lambda>e. ae_name e = k) es = Some i"
  shows "map (\<lambda>e. (ae_name e, ae_answer e)) (es[i := (es ! i)\<lparr>ae_answer := a\<rparr>]) =
    AList.update k a (map (\<lambda>e. (ae_name e, ae_answer e)) es)"
  using assms
proof (induction es arbitrary: i)
  case (Cons e es)
  then show ?case by (cases i) (auto split: if_splits)
qed simp

lemma answers_put_dict:
  assumes "answers_inv s"
  shows "answers_dict (answers_put s name a) = AList.update name a (answers_dict s)"
proof (cases "answers_find s name")
  case None
  with ans.search_None [OF assms] have "name \<notin> fst ` set (answers_dict s)"
    by (auto simp: answers_dict_def)
  with answers_put_new [OF assms None] show ?thesis
    by (simp add: answers_dict_def update_append_new)
next
  case (Some i)
  with find_index_update answers_find_scan [OF assms] show ?thesis
    by (simp add: answers_dict_def answers_put_def)
qed

lemma map_of_find_index:
  "map_of (map (\<lambda>x. (key x, val x)) xs) k = map_option (\<lambda>i. val (xs ! i)) (find_index (\<lambda>x. key x = k) xs)"
  by (induction xs) (auto simp: option.map_comp comp_def)

lemma scan_key_map_of: "scan_key key val xs k = map_of (map (\<lambda>x. (key x, val x)) xs) k"
  by (simp add: scan_key_def map_of_find_index)

lemma answers_get_dict: "answers_inv s \<Longrightarrow> answers_get s name = map_of (answers_dict s) name"
  by (simp add: answers_get_def answers_dict_def answers_find_scan map_of_find_index)

definition answers_of :: "(bytes \<times> answer) list \<Rightarrow> answers" where
  "answers_of kvs = foldl (\<lambda>s (k, a). answers_put s k a) empty_answers kvs"

lemma answers_of_snoc [simp]: "answers_of (kvs @ [(k, a)]) = answers_put (answers_of kvs) k a"
  by (simp add: answers_of_def)

lemma answers_of_inv: "answers_inv (answers_of kvs)"
proof (induction kvs rule: rev_induct)
  case Nil
  show ?case by (simp add: answers_of_def answers_inv_empty)
next
  case (snoc kv kvs)
  then show ?case by (cases kv) (simp add: answers_put_inv)
qed

lemma answers_of_dict: "answers_dict (answers_of kvs) = pydict kvs"
proof (induction kvs rule: rev_induct)
  case Nil
  show ?case by (simp add: answers_of_def answers_dict_def empty_answers_def)
next
  case (snoc kv kvs)
  then show ?case by (cases kv) (simp add: answers_put_dict answers_of_inv)
qed

section \<open>Properties\<close>

text \<open>C2: a set of answers built by \<open>Put\<close> is Python's dictionary of the members put: its
  entries are the dictionary's items in order (first position, last value), and \<open>Get\<close> finds
  the last value of a name, whether the set scans its entries or has built its index.\<close>

theorem answers_refine_dict:
  "answers_dict (answers_of kvs) = pydict kvs \<and>
   answers_get (answers_of kvs) name = map_of (rev kvs) name"
  by (simp add: answers_of_dict answers_get_dict answers_of_inv pydict_map_of)

end
