(* ===== verification/Wire_Value.thy ===== *)
theory Wire_Value
  imports Wire_Content Float64 "HOL-Library.Multiset"
begin

text \<open>
  Raw question field values, the second half of \<open>internal/wire/json.go\<close>: \<open>appendFloat\<close>,
  \<open>appendValue\<close> and \<open>sortedKeys\<close>. A value is a datatype with one constructor per case of the type
  switch; a Go map is the list of its members, whose keys are distinct, in any order. What
  \<open>appendValue\<close> writes is shown to be a JSON value.
\<close>

section \<open>Errors\<close>

text \<open>\<open>WireErr\<close> wraps an error of the string and JSON writers; the other three are the ways a
  value is unsupported (\<open>ErrUnsupportedValue\<close>).\<close>

datatype raw_error = WireErr json_error | UnsupportedDepth | UnsupportedFloat | UnsupportedType

record value_error =
  ve_path :: bytes
  ve_err :: raw_error

definition value_error :: "raw_error \<Rightarrow> value_error" where
  "value_error e = \<lparr>ve_path = [], ve_err = e\<rparr>"

definition at_path :: "bytes \<Rightarrow> value_error \<Rightarrow> value_error" where
  "at_path p e = e\<lparr>ve_path := p @ ve_path e\<rparr>"

section \<open>Floats\<close>

text \<open>The parts \<open>appendFloat\<close> reads off the text of \<open>strconv\<close>: the mantissa before the last
  \<open>e\<close>, and the exponent after it.\<close>

definition sci_mant :: "bytes \<Rightarrow> bytes" where
  "sci_mant s = rev (tl (dropWhile (\<lambda>c. c \<noteq> CHR ''e'') (rev s)))"

definition sci_exp :: "bytes \<Rightarrow> int" where
  "sci_exp s =
     (let t = rev (takeWhile (\<lambda>c. c \<noteq> CHR ''e'') (rev s)); x = int (nat_of_digits (tl t)) in
      if hd t = CHR ''-'' then - x else x)"

definition layout :: "bytes \<Rightarrow> bytes \<Rightarrow> int \<Rightarrow> bytes" where
  "layout dst mant exp =
     (let frac = (if 1 < length mant then drop 2 mant else []) in
      if exp < -5 \<or> 15 < exp then
        dst @ mant @ [CHR ''e'', if exp < 0 then CHR ''-'' else CHR ''+''] @ show_int \<bar>exp\<bar>
      else if exp < 0 then
        dst @ ''0.'' @ replicate (nat (- exp - 1)) CHR ''0'' @ [hd mant] @ frac
      else if int (length frac) \<le> exp then
        dst @ [hd mant] @ frac @ replicate (nat exp - length frac) CHR ''0'' @ ''.0''
      else dst @ [hd mant] @ take (nat exp) frac @ ''.'' @ drop (nat exp) frac)"

definition append_float :: "bytes \<Rightarrow> float64 \<Rightarrow> nat \<Rightarrow> raw_error + bytes" where
  "append_float dst f bits =
     (if is_nan f \<or> is_inf f then Inl UnsupportedFloat
      else if is_zero f then Inr (dst @ (if f64_neg f then ''-'' else []) @ ''0.0'')
      else
        let sci = format_e f bits in
        if hd sci = CHR ''-'' then Inr (layout (dst @ ''-'') (sci_mant (tl sci)) (sci_exp (tl sci)))
        else Inr (layout dst (sci_mant sci) (sci_exp sci)))"

section \<open>Values\<close>

datatype 'a gval =
    VNil
  | VBool bool
  | VString bytes
  | VInt "64 word"
  | VUint "64 word"
  | VFloat32 float64
  | VFloat64 float64
  | VList "'a gval list"
  | VStrings "bytes list"
  | VMap "(bytes \<times> 'a gval) list"
  | VStrMap "(bytes \<times> bytes) list"
  | VOther 'a

text \<open>A \<open>Leaf\<close> returns the buffer, whether it knew the value, and its error.\<close>

type_synonym 'a leaf = "bytes \<Rightarrow> 'a \<Rightarrow> bytes \<times> bool \<times> json_error option"

definition max_value_depth :: nat where
  "max_value_depth = 1000"

text \<open>\<open>sortedKeys\<close>: the members in the order of their keys.\<close>

definition sorted_members :: "(bytes \<times> 'v) list \<Rightarrow> (bytes \<times> 'v) list" where
  "sorted_members m = sort_key fst m"

definition index_path :: "nat \<Rightarrow> bytes" where
  "index_path i = ''['' @ show_nat i @ '']''"

definition comma :: "nat \<Rightarrow> bytes \<Rightarrow> bytes" where
  "comma i dst = (if 0 < i then dst @ '','' else dst)"

fun append_strings :: "bytes \<Rightarrow> nat \<Rightarrow> bytes list \<Rightarrow> value_error + bytes" where
  "append_strings dst i [] = Inr (dst @ '']'')"
| "append_strings dst i (e # es) =
     (case append_string (comma i dst) e of
        Inl err \<Rightarrow> Inl (at_path (index_path i) (value_error (WireErr err)))
      | Inr dst' \<Rightarrow> append_strings dst' (Suc i) es)"

fun append_string_members :: "bytes \<Rightarrow> nat \<Rightarrow> (bytes \<times> bytes) list \<Rightarrow> value_error + bytes" where
  "append_string_members dst i [] = Inr (dst @ [CHR ''}''])"
| "append_string_members dst i ((k, v) # m) =
     (case append_string (comma i dst) k of
        Inl err \<Rightarrow> Inl (at_path (''.'' @ k) (value_error (WireErr err)))
      | Inr d1 \<Rightarrow>
          (case append_string (d1 @ '':'') v of
             Inl err \<Rightarrow> Inl (at_path (''.'' @ k) (value_error (WireErr err)))
           | Inr d2 \<Rightarrow> append_string_members d2 (Suc i) m))"

lemma size_sorted_members [simp]: "size_list f (sorted_members m) = size_list f m"
proof -
  have "mset (map f (sorted_members m)) = mset (map f m)"
    by (metis sorted_members_def mset_map mset_sort)
  then have "sum_list (map f (sorted_members m)) = sum_list (map f m)"
    by (metis sum_mset_sum_list)
  moreover have "length (sorted_members m) = length m" by (simp add: sorted_members_def)
  ultimately show ?thesis by (simp add: size_list_conv_sum_list)
qed

lemma size_members_snd: "size_list (\<lambda>p. size (snd p)) m \<le> size_list (size_prod (\<lambda>_. 0) size) m"
  by (induction m) (auto simp: size_prod_def split: prod.splits)

function append_value :: "'a leaf option \<Rightarrow> bytes \<Rightarrow> 'a gval \<Rightarrow> nat \<Rightarrow> value_error + bytes"
  and append_elems :: "'a leaf option \<Rightarrow> bytes \<Rightarrow> nat \<Rightarrow> 'a gval list \<Rightarrow> nat \<Rightarrow> value_error + bytes"
  and append_members :: "'a leaf option \<Rightarrow> bytes \<Rightarrow> nat \<Rightarrow> (bytes \<times> 'a gval) list \<Rightarrow> nat \<Rightarrow> value_error + bytes"
where
  "append_value leaf dst v depth =
     (if max_value_depth < depth then Inl (value_error UnsupportedDepth)
      else case v of
        VNil \<Rightarrow> Inr (dst @ ''null'')
      | VBool b \<Rightarrow> Inr (dst @ (if b then ''true'' else ''false''))
      | VString s \<Rightarrow> rmap_err (\<lambda>e. value_error (WireErr e)) (append_string dst s)
      | VInt n \<Rightarrow> Inr (dst @ show_int (sint n))
      | VUint n \<Rightarrow> Inr (dst @ show_nat (unat n))
      | VFloat32 f \<Rightarrow> rmap_err value_error (append_float dst f 32)
      | VFloat64 f \<Rightarrow> rmap_err value_error (append_float dst f 64)
      | VList vs \<Rightarrow> append_elems leaf (dst @ ''['') 0 vs (Suc depth)
      | VStrings ss \<Rightarrow> append_strings (dst @ ''['') 0 ss
      | VMap m \<Rightarrow> append_members leaf (dst @ [CHR ''{'']) 0 (sorted_members m) (Suc depth)
      | VStrMap m \<Rightarrow> append_string_members (dst @ [CHR ''{'']) 0 (sorted_members m)
      | VOther x \<Rightarrow>
          (case leaf of
             None \<Rightarrow> Inl (value_error UnsupportedType)
           | Some l \<Rightarrow>
               (case l dst x of (dst', ok, err) \<Rightarrow>
                  if \<not> ok then Inl (value_error UnsupportedType)
                  else case err of
                    Some e \<Rightarrow> Inl (value_error (WireErr e))
                  | None \<Rightarrow> Inr dst')))"
| "append_elems leaf dst i vs depth =
     (case vs of
        [] \<Rightarrow> Inr (dst @ '']'')
      | e # es \<Rightarrow>
          (case append_value leaf (comma i dst) e depth of
             Inl err \<Rightarrow> Inl (at_path (index_path i) err)
           | Inr dst' \<Rightarrow> append_elems leaf dst' (Suc i) es depth))"
| "append_members leaf dst i m depth =
     (case m of
        [] \<Rightarrow> Inr (dst @ [CHR ''}''])
      | (k, v) # m' \<Rightarrow>
          (case append_string (comma i dst) k of
             Inl err \<Rightarrow> Inl (at_path (''.'' @ k) (value_error (WireErr err)))
           | Inr d1 \<Rightarrow>
               (case append_value leaf (d1 @ '':'') v depth of
                  Inl err \<Rightarrow> Inl (at_path (''.'' @ k) err)
                | Inr d2 \<Rightarrow> append_members leaf d2 (Suc i) m' depth)))"
  by pat_completeness auto
termination
  by (relation "measure (\<lambda>x. case x of
      Inl (leaf, dst, v, depth) \<Rightarrow> size v
    | Inr (Inl (leaf, dst, i, vs, depth)) \<Rightarrow> size_list size vs
    | Inr (Inr (leaf, dst, i, m, depth)) \<Rightarrow> size_list (\<lambda>p. size (snd p)) m)")
    (auto simp: le_imp_less_Suc size_members_snd)

declare append_value.simps [simp del] append_elems.simps [simp del] append_members.simps [simp del]

section \<open>What is written is JSON\<close>

lemma sci_mant_split: "CHR ''e'' \<notin> set t \<Longrightarrow> sci_mant (m @ CHR ''e'' # t) = m"
  by (simp add: sci_mant_def dropWhile_append)

lemma digits_not_e: "list_all is_digit x \<Longrightarrow> CHR ''e'' \<notin> set x"
  by (auto simp: list_all_iff)

lemma digit_zero: "is_digit CHR ''0''"
  by (simp add: is_digit_def byte_between_def)

lemma digits_replicate: "list_all is_digit (replicate n CHR ''0'')"
  by (simp add: list_all_iff digit_zero)

lemma digits_take_drop: "list_all is_digit ds \<Longrightarrow> list_all is_digit (take n ds) \<and> list_all is_digit (drop n ds)"
  by (auto simp: list_all_iff dest: in_set_takeD in_set_dropD)

lemma num_tokI:
  "s \<in> {[], ''-''} \<Longrightarrow> int_tok i \<Longrightarrow> frac_tok f \<Longrightarrow> exp_tok e \<Longrightarrow> num_tok (s @ i @ f @ e)"
  unfolding num_tok_def by blast

lemma int_tok_lead: "byte_between 49 57 d \<Longrightarrow> list_all is_digit ds \<Longrightarrow> int_tok (d # ds)"
  by (simp add: int_tok_def)

lemma exp_tokI:
  "c \<in> {CHR ''e'', CHR ''E''} \<Longrightarrow> s \<in> {[], ''+'', ''-''} \<Longrightarrow> ds \<noteq> [] \<Longrightarrow> list_all is_digit ds \<Longrightarrow>
    exp_tok (c # s @ ds)"
  unfolding exp_tok_def by blast

text \<open>The layout of a float: the buffer, then an integer part, a fraction and an exponent.\<close>

lemma layout_token:
  assumes d: "byte_between 49 57 d" and ds: "list_all is_digit ds" and s: "s \<in> {[], ''-''}"
  shows "\<exists>t. layout (dst @ s) (d # (if ds = [] then [] else CHR ''.'' # ds)) x = dst @ t \<and> num_tok t"
proof -
  let ?m = "d # (if ds = [] then [] else CHR ''.'' # ds)"
  have frac: "(if 1 < length ?m then drop 2 ?m else []) = ds" by simp
  have i1: "int_tok [d]" and i2: "int_tok ''0''" using d by (simp_all add: int_tok_def)
  have e0: "exp_tok []" by (simp add: exp_tok_def)
  consider (exp) "x < -5 \<or> 15 < x" | (small) "-5 \<le> x" "x < 0"
    | (int) "0 \<le> x" "x \<le> 15" "int (length ds) \<le> x" | (mid) "0 \<le> x" "x \<le> 15" "x < int (length ds)"
    by linarith
  then show ?thesis
  proof cases
    case exp
    let ?f = "if ds = [] then [] else CHR ''.'' # ds"
    let ?e = "CHR ''e'' # [if x < 0 then CHR ''-'' else CHR ''+''] @ show_nat (nat \<bar>x\<bar>)"
    have "frac_tok ?f" using ds by (simp add: frac_tok_def)
    moreover have "exp_tok ?e"
      by (rule exp_tokI) (auto simp: show_nat_digits)
    ultimately have "num_tok (s @ [d] @ ?f @ ?e)" by (intro num_tokI s i1)
    moreover have "layout (dst @ s) ?m x = dst @ s @ [d] @ ?f @ ?e"
      using exp by (auto simp: layout_def Let_def show_int_def)
    ultimately show ?thesis by blast
  next
    case small
    let ?f = "CHR ''.'' # replicate (nat (- x - 1)) CHR ''0'' @ d # ds"
    have "frac_tok ?f" using d ds digits_replicate by (simp add: frac_tok_def int_digit)
    then have "num_tok (s @ ''0'' @ ?f @ [])" by (intro num_tokI s i2 e0)
    moreover have "layout (dst @ s) ?m x = dst @ s @ ''0'' @ ?f @ []"
      using small frac by (auto simp: layout_def Let_def)
    ultimately show ?thesis by blast
  next
    case int
    let ?i = "d # ds @ replicate (nat x - length ds) CHR ''0''"
    have "int_tok ?i" using d ds digits_replicate by (simp add: int_tok_def)
    moreover have "frac_tok ''.0''" by (simp add: frac_tok_def digit_zero)
    ultimately have "num_tok (s @ ?i @ ''.0'' @ [])" by (intro num_tokI s e0)
    moreover have "layout (dst @ s) ?m x = dst @ s @ ?i @ ''.0'' @ []"
      using int frac by (auto simp: layout_def Let_def)
    ultimately show ?thesis by blast
  next
    case mid
    let ?i = "d # take (nat x) ds" and ?f = "CHR ''.'' # drop (nat x) ds"
    have "int_tok ?i" using d digits_take_drop [OF ds] by (simp add: int_tok_def)
    moreover have "frac_tok ?f" using mid digits_take_drop [OF ds] by (simp add: frac_tok_def)
    ultimately have "num_tok (s @ ?i @ ?f @ [])" by (intro num_tokI s e0)
    moreover have "layout (dst @ s) ?m x = dst @ s @ ?i @ ?f @ []"
      using mid frac by (auto simp: layout_def Let_def)
    ultimately show ?thesis by blast
  qed
qed

lemma append_float_token:
  assumes "append_float dst f bits = Inr out"
  shows "\<exists>t. out = dst @ t \<and> num_tok t"
proof (cases "is_zero f")
  case True
  with assms have "out = dst @ (if f64_neg f then ''-'' else []) @ ''0'' @ ''.0'' @ []"
    by (auto simp: append_float_def split: if_splits)
  moreover have "num_tok ((if f64_neg f then ''-'' else []) @ ''0'' @ ''.0'' @ [])"
    by (rule num_tokI) (auto simp: int_tok_def frac_tok_def exp_tok_def digit_zero)
  ultimately show ?thesis by blast
next
  case False
  then obtain d ds sg x where f: "format_e f bits =
      (if f64_neg f then ''-'' else []) @ d # (if ds = [] then [] else CHR ''.'' # ds) @ CHR ''e'' # sg # x"
    and d: "byte_between 49 57 d" and ds: "list_all is_digit ds" "list_all is_digit x" "sg \<noteq> CHR ''e''"
    by (rule format_e_shape)
  let ?m = "d # (if ds = [] then [] else CHR ''.'' # ds)"
  have m: "sci_mant (?m @ CHR ''e'' # sg # x) = ?m"
    using digits_not_e [OF ds(2)] ds(3) by (intro sci_mant_split) auto
  have "d \<noteq> CHR ''-''" using d int_digit by blast
  with assms False f m have "out = layout (dst @ (if f64_neg f then ''-'' else [])) ?m (sci_exp (?m @ CHR ''e'' # sg # x))"
    by (cases "f64_neg f") (auto simp: append_float_def Let_def split: if_splits)
  moreover have "(if f64_neg f then ''-'' else []) \<in> {[], ''-''}" by simp
  ultimately show ?thesis using layout_token [OF d ds(1)] by blast
qed

text \<open>The longest float text, \<open>maxFloatLen\<close>.\<close>

definition max_float_len :: nat where
  "max_float_len = 24"

lemma digit_val_bound: "is_digit c \<Longrightarrow> digit_val c \<le> 9"
  unfolding is_digit_def byte_between_def digit_val_def by linarith

lemma nat_of_digits_bound: "list_all is_digit x \<Longrightarrow> nat_of_digits x < 10 ^ length x"
proof (induction x rule: rev_induct)
  case Nil
  show ?case by (simp add: nat_of_digits_def)
next
  case (snoc c x)
  then have "nat_of_digits x + 1 \<le> 10 ^ length x" "digit_val c \<le> 9" by (auto intro: digit_val_bound)
  then have "nat_of_digits x * 10 + digit_val c < 10 * 10 ^ length x" by linarith
  then show ?case by (simp add: nat_of_digits_snoc)
qed

lemma layout_length:
  assumes "length ds \<le> 16" and "\<bar>x\<bar> < 1000"
  shows "length (layout dst (d # (if ds = [] then [] else CHR ''.'' # ds)) x) \<le> length dst + 23"
proof -
  let ?m = "d # (if ds = [] then [] else CHR ''.'' # ds)"
  have frac: "(if 1 < length ?m then drop 2 ?m else []) = ds" by simp
  have "nat \<bar>x\<bar> < 10 ^ 3" using assms(2) by simp
  then have "length (show_nat (nat \<bar>x\<bar>)) \<le> 3" by (rule show_nat_length) simp
  then have i: "length (show_int \<bar>x\<bar>) \<le> 3" by (simp add: show_int_def)
  have m: "length ?m \<le> 18" using assms(1) by simp
  consider (exp) "x < -5 \<or> 15 < x" | (small) "-5 \<le> x" "x < 0"
    | (int) "0 \<le> x" "x \<le> 15" "int (length ds) \<le> x" | (mid) "0 \<le> x" "x \<le> 15" "x < int (length ds)"
    by linarith
  then show ?thesis
  proof cases
    case exp
    then have "layout dst ?m x = dst @ ?m @ [CHR ''e'', if x < 0 then CHR ''-'' else CHR ''+''] @ show_int \<bar>x\<bar>"
      by (simp add: layout_def Let_def)
    with i m show ?thesis by (simp only: length_append) simp
  next
    case small
    then have "layout dst ?m x = dst @ ''0.'' @ replicate (nat (- x - 1)) CHR ''0'' @ [d] @ ds"
      unfolding layout_def Let_def frac by simp
    with assms(1) small show ?thesis by simp
  next
    case int
    then have "layout dst ?m x = dst @ [d] @ ds @ replicate (nat x - length ds) CHR ''0'' @ ''.0''"
      unfolding layout_def Let_def frac by simp
    with assms(1) int show ?thesis by simp
  next
    case mid
    then have "layout dst ?m x = dst @ [d] @ take (nat x) ds @ ''.'' @ drop (nat x) ds"
      unfolding layout_def Let_def frac by simp
    with assms(1) mid show ?thesis by simp
  qed
qed

lemma sci_exp_bound:
  assumes "list_all is_digit x" and "length x \<le> 3" and "sg \<noteq> CHR ''e''"
  shows "\<bar>sci_exp (m @ CHR ''e'' # sg # x)\<bar> < 1000"
proof -
  have "CHR ''e'' \<notin> set (sg # x)" using digits_not_e [OF assms(1)] assms(3) by auto
  then have "rev (takeWhile (\<lambda>c. c \<noteq> CHR ''e'') (rev (m @ CHR ''e'' # sg # x))) = sg # x"
    using assms(3) by (simp add: takeWhile_append eq_commute [of _ sg])
  moreover have "nat_of_digits x < 10 ^ length x" by (rule nat_of_digits_bound [OF assms(1)])
  moreover have "(10::nat) ^ length x \<le> 10 ^ 3" using assms(2) by (intro power_increasing) auto
  ultimately show ?thesis by (simp add: sci_exp_def Let_def)
qed

lemma append_float_length:
  assumes "append_float dst f bits = Inr out"
  shows "length out \<le> length dst + max_float_len"
proof (cases "is_zero f")
  case True
  with assms show ?thesis by (auto simp: append_float_def max_float_len_def split: if_splits)
next
  case False
  then obtain d ds sg x where f: "format_e f bits =
      (if f64_neg f then ''-'' else []) @ d # (if ds = [] then [] else CHR ''.'' # ds) @ CHR ''e'' # sg # x"
    and d: "byte_between 49 57 d" and ds: "list_all is_digit ds" "list_all is_digit x" "sg \<noteq> CHR ''e''"
      "length ds \<le> 16" "length x \<le> 3"
    by (rule format_e_shape)
  let ?m = "d # (if ds = [] then [] else CHR ''.'' # ds)"
  have m: "sci_mant (?m @ CHR ''e'' # sg # x) = ?m"
    using digits_not_e [OF ds(2)] ds(3) by (intro sci_mant_split) auto
  have "d \<noteq> CHR ''-''" using d int_digit by blast
  with assms False f m have "out = layout (dst @ (if f64_neg f then ''-'' else [])) ?m (sci_exp (?m @ CHR ''e'' # sg # x))"
    by (cases "f64_neg f") (auto simp: append_float_def Let_def split: if_splits)
  moreover have "\<bar>sci_exp (?m @ CHR ''e'' # sg # x)\<bar> < 1000" by (rule sci_exp_bound [OF ds(2,5,3)])
  then have "length (layout (dst @ (if f64_neg f then ''-'' else [])) ?m (sci_exp (?m @ CHR ''e'' # sg # x))) \<le>
      length (dst @ (if f64_neg f then ''-'' else [])) + 23" by (rule layout_length [OF ds(4)])
  ultimately show ?thesis by (auto simp: max_float_len_def split: if_splits)
qed

lemma show_nat_token: "s \<in> {[], ''-''} \<Longrightarrow> num_tok (s @ show_nat n)"
proof -
  assume s: "s \<in> {[], ''-''}"
  have "int_tok (show_nat n)"
  proof (cases "n = 0")
    case True
    then show ?thesis by (subst show_nat.simps) (simp add: int_tok_def digit_char_def char_of_def bit_simps bit_nat_def)
  next
    case False
    with show_nat_hd [of n] show_nat_digits [of n] show ?thesis
      by (cases "show_nat n") (auto simp: int_tok_def)
  qed
  then have "num_tok (s @ show_nat n @ [] @ [])"
    by (intro num_tokI s) (simp_all add: frac_tok_def exp_tok_def)
  then show ?thesis by simp
qed

lemma show_int_token: "num_tok (show_int i)"
  using show_nat_token [of "''-''"] show_nat_token [of "[]"] by (simp add: show_int_def)

lemma append_string_str_tok: "append_string dst s = Inr out \<Longrightarrow> \<exists>t. out = dst @ t \<and> str_tok t"
  by (auto simp: append_string_eq str_tok_def dest: escape_str_chars split: if_splits)

lemma comma_eq: "comma i dst = dst @ (if 0 < i then '','' else [])"
  by (simp add: comma_def)

text \<open>The elements written so far: after the first one each comes with its comma.\<close>

definition elems_tail :: "nat \<Rightarrow> bytes \<Rightarrow> bool" where
  "elems_tail i t \<longleftrightarrow> (if 0 < i then \<exists>ce. t = ce @ '']'' \<and> jelems ce ce else jval (CHR ''['' # t) (CHR ''['' # t))"

definition members_tail :: "nat \<Rightarrow> bytes \<Rightarrow> bool" where
  "members_tail i t \<longleftrightarrow>
     (if 0 < i then \<exists>ce. t = ce @ [CHR ''}''] \<and> jmembers ce ce else jval (CHR ''{'' # t) (CHR ''{'' # t))"

lemma elems_tail_Nil: "elems_tail i '']''"
  using J_arr0 [of "[]"] J_elems0 [of "[]"] by (auto simp: elems_tail_def)

lemma elems_tail_Cons:
  assumes "jval c c" and "elems_tail (Suc i) t"
  shows "elems_tail i ((if 0 < i then '','' else []) @ c @ t)"
proof -
  from assms(2) obtain ce where t: "t = ce @ '']''" "jelems ce ce" by (auto simp: elems_tail_def)
  show ?thesis
    using J_elems [of "[]" "[]" c c, OF _ _ assms(1) t(2)] J_arr [of "[]" c c, OF _ assms(1) t(2)] t(1)
    by (auto simp: elems_tail_def)
qed

lemma members_tail_Nil: "members_tail i [CHR ''}'']"
  using J_obj0 [of "[]"] J_members0 [of "[]"] by (auto simp: members_tail_def)

lemma members_tail_Cons:
  assumes "str_tok k" and "jval c c" and "members_tail (Suc i) t"
  shows "members_tail i ((if 0 < i then '','' else []) @ k @ CHR '':'' # c @ t)"
proof -
  from assms(3) obtain ce where t: "t = ce @ [CHR ''}'']" "jmembers ce ce" by (auto simp: members_tail_def)
  show ?thesis
    using J_members [of "[]" "[]" k "[]" "[]" c c, OF _ _ assms(1) _ _ assms(2) t(2)]
      J_obj [of "[]" k "[]" "[]" c c, OF _ assms(1) _ _ assms(2) t(2)] t(1)
    by (auto simp: members_tail_def)
qed

lemma append_strings_tail: "append_strings dst i es = Inr out \<Longrightarrow> \<exists>t. out = dst @ t \<and> elems_tail i t"
proof (induction es arbitrary: dst i)
  case Nil
  then show ?case using elems_tail_Nil by auto
next
  case (Cons e es)
  then obtain d where d: "append_string (comma i dst) e = Inr d" "append_strings d (Suc i) es = Inr out"
    by (auto split: sum.splits)
  from Cons.IH [OF d(2)] obtain t where t: "out = d @ t" "elems_tail (Suc i) t" by blast
  from append_string_str_tok [OF d(1)] obtain u where "d = comma i dst @ u" "str_tok u" by blast
  with t elems_tail_Cons [OF J_str t(2)] show ?case by (auto simp: comma_eq)
qed

lemma append_string_members_tail:
  "append_string_members dst i m = Inr out \<Longrightarrow> \<exists>t. out = dst @ t \<and> members_tail i t"
proof (induction m arbitrary: dst i)
  case Nil
  then show ?case using members_tail_Nil by auto
next
  case (Cons kv m)
  obtain k v where kv: "kv = (k, v)" by fastforce
  with Cons.prems obtain d1 d2 where d: "append_string (comma i dst) k = Inr d1"
    "append_string (d1 @ '':'') v = Inr d2" "append_string_members d2 (Suc i) m = Inr out"
    by (auto split: sum.splits)
  from Cons.IH [OF d(3)] obtain t where t: "out = d2 @ t" "members_tail (Suc i) t" by blast
  from append_string_str_tok [OF d(1)] append_string_str_tok [OF d(2)] obtain u w where
    "d1 = comma i dst @ u" "str_tok u" "d2 = (d1 @ '':'') @ w" "str_tok w" by blast
  with t members_tail_Cons [OF _ J_str t(2), of u w] show ?case by (auto simp: comma_eq)
qed

definition leaf_ok :: "'a leaf option \<Rightarrow> bool" where
  "leaf_ok leaf \<longleftrightarrow>
     (\<forall>l dst x dst'. leaf = Some l \<longrightarrow> l dst x = (dst', True, None) \<longrightarrow> (\<exists>c. dst' = dst @ c \<and> jval c c))"

lemma append_value_jval:
  "append_value leaf dst v depth = Inr out \<Longrightarrow> leaf_ok leaf \<Longrightarrow> \<exists>c. out = dst @ c \<and> jval c c"
  "append_elems leaf dst i vs depth = Inr out \<Longrightarrow> leaf_ok leaf \<Longrightarrow> \<exists>t. out = dst @ t \<and> elems_tail i t"
  "append_members leaf dst i m depth = Inr out \<Longrightarrow> leaf_ok leaf \<Longrightarrow> \<exists>t. out = dst @ t \<and> members_tail i t"
proof (induction leaf dst v depth and leaf dst i vs depth and leaf dst i m depth
    arbitrary: out and out and out rule: append_value_append_elems_append_members.induct)
  case (1 leaf dst v depth)
  have nd: "\<not> max_value_depth < depth"
    using "1.prems"(1) by (auto simp: append_value.simps)
  have eq: "append_value leaf dst v depth = Inr out" by fact
  show ?case
  proof (cases v)
    case VNil
    with eq nd show ?thesis by (auto simp: append_value.simps intro: J_lit)
  next
    case (VBool b)
    with eq nd show ?thesis by (cases b) (auto simp: append_value.simps intro: J_lit)
  next
    case (VString s)
    with eq nd show ?thesis
      by (auto simp: append_value.simps res_simps dest!: append_string_str_tok intro: J_str)
  next
    case (VInt n)
    with eq nd show_int_token show ?thesis by (auto simp: append_value.simps intro: J_num)
  next
    case (VUint n)
    with eq nd show_nat_token [of "[]"] show ?thesis by (auto simp: append_value.simps intro: J_num)
  next
    case (VFloat32 f)
    with eq nd show ?thesis
      by (auto simp: append_value.simps res_simps dest!: append_float_token intro: J_num)
  next
    case (VFloat64 f)
    with eq nd show ?thesis
      by (auto simp: append_value.simps res_simps dest!: append_float_token intro: J_num)
  next
    case (VList vs)
    with eq nd have "append_elems leaf (dst @ ''['') 0 vs (Suc depth) = Inr out"
      by (simp add: append_value.simps)
    with "1.IH"(1) [OF nd VList this "1.prems"(2)] show ?thesis by (auto simp: elems_tail_def)
  next
    case (VStrings ss)
    with eq nd have "append_strings (dst @ ''['') 0 ss = Inr out" by (simp add: append_value.simps)
    then show ?thesis by (auto simp: elems_tail_def dest!: append_strings_tail)
  next
    case (VMap m)
    with eq nd have "append_members leaf (dst @ [CHR ''{'']) 0 (sorted_members m) (Suc depth) = Inr out"
      by (simp add: append_value.simps)
    with "1.IH"(2) [OF nd VMap this "1.prems"(2)] show ?thesis by (auto simp: members_tail_def)
  next
    case (VStrMap m)
    with eq nd have "append_string_members (dst @ [CHR ''{'']) 0 (sorted_members m) = Inr out"
      by (simp add: append_value.simps)
    then show ?thesis by (auto simp: members_tail_def dest!: append_string_members_tail)
  next
    case (VOther x)
    with eq nd obtain l where l: "leaf = Some l" "l dst x = (out, True, None)"
      by (auto simp: append_value.simps split: option.splits prod.splits if_splits)
    with "1.prems"(2) show ?thesis unfolding leaf_ok_def by blast
  qed
next
  case (2 leaf dst i vs depth)
  show ?case
  proof (cases vs)
    case Nil
    with "2.prems" elems_tail_Nil [of i] show ?thesis by (auto simp: append_elems.simps)
  next
    case (Cons e es)
    with "2.prems" obtain d where d: "append_value leaf (comma i dst) e depth = Inr d"
      "append_elems leaf d (Suc i) es depth = Inr out"
      by (auto simp: append_elems.simps [of _ _ _ "e # es"] split: sum.splits)
    from "2.IH"(1) [OF Cons d(1) "2.prems"(2)] obtain c where c: "d = comma i dst @ c" "jval c c" by blast
    from "2.IH"(2) [OF Cons d(1) d(2) "2.prems"(2)] obtain t where "out = d @ t" "elems_tail (Suc i) t" by blast
    with c elems_tail_Cons [OF c(2)] show ?thesis by (auto simp: comma_eq)
  qed
next
  case (3 leaf dst i m depth)
  show ?case
  proof (cases m)
    case Nil
    with "3.prems" members_tail_Nil [of i] show ?thesis by (auto simp: append_members.simps)
  next
    case (Cons kv m')
    obtain k v where kv: "kv = (k, v)" by fastforce
    with "3.prems" Cons obtain d1 d2 where d: "append_string (comma i dst) k = Inr d1"
      "append_value leaf (d1 @ '':'') v depth = Inr d2" "append_members leaf d2 (Suc i) m' depth = Inr out"
      by (auto simp: append_members.simps [of _ _ _ "(k, v) # m'"] split: sum.splits)
    from append_string_str_tok [OF d(1)] obtain u where u: "d1 = comma i dst @ u" "str_tok u" by blast
    from "3.IH"(1) [OF Cons kv [symmetric] d(1) d(2) "3.prems"(2)] obtain c
      where c: "d2 = (d1 @ '':'') @ c" "jval c c" by blast
    from "3.IH"(2) [OF Cons kv [symmetric] d(1) d(2) d(3) "3.prems"(2)] obtain t
      where "out = d2 @ t" "members_tail (Suc i) t" by blast
    with u c members_tail_Cons [OF u(2) c(2)] show ?thesis by (auto simp: comma_eq)
  qed
qed

lemma sorted_members_perm:
  assumes "mset m = mset m'" and "distinct (map fst m)"
  shows "sorted_members m = sorted_members m'"
  unfolding sorted_members_def
proof (rule sort_key_inj_key_eq)
  show "mset m = mset (sort_key fst m')" using assms(1) by simp
  show "inj_on fst (set m)" using assms(2) by (simp add: distinct_map)
qed simp

section \<open>Properties\<close>

text \<open>what \<open>appendValue\<close> writes for a raw field value, floats laid out as the Python SDK
  lays them out included, is one JSON value in compact form (\<open>AppendJSON\<close> copies it byte for
  byte), provided the caller's leaf writes such values.\<close>

theorem append_value_json:
  assumes "append_value leaf dst v depth = Inr out" and "leaf_ok leaf"
  shows "\<exists>c. out = dst @ c \<and> append_json [] c = Inr c"
proof -
  from append_value_jval(1) [OF assms] obtain c where "out = dst @ c" "jval c c" by blast
  then show ?thesis
    unfolding append_json_iff by (intro exI [of _ c] conjI exI [of _ "[]"]) simp_all
qed

theorem append_value_json_witness:
  "\<exists>c. append_value None [] (VMap [(''b'', VInt 1), (''a'', VList [VNil, VBool True])] :: unit gval) 0 = Inr c \<and>
    append_json [] c = Inr c"
proof -
  let ?v = "VMap [(''b'', VInt 1), (''a'', VList [VNil, VBool True])] :: unit gval"
  obtain out where r: "append_value None [] ?v 0 = Inr out"
    by (simp add: append_value.simps append_elems.simps append_members.simps max_value_depth_def
        sorted_members_def append_string_eq less_le_not_le)
  have "leaf_ok (None :: unit leaf option)" by (simp add: leaf_ok_def)
  with append_value_json [OF r] r show ?thesis by auto
qed

text \<open>the order in which Go iterates a map does not show: the members are written in the
  order of their keys, so two orders of the same members give the same bytes, or the same
  error.\<close>

theorem append_value_map_order:
  assumes "mset m = mset m'" and "distinct (map fst m)"
  shows "append_value leaf dst (VMap m) depth = append_value leaf dst (VMap m') depth"
  using sorted_members_perm [OF assms] by (simp add: append_value.simps)

theorem append_value_map_order_witness:
  "append_value None [] (VMap [(''b'', VNil), (''a'', VBool True)] :: unit gval) 0 =
   append_value None [] (VMap [(''a'', VBool True), (''b'', VNil :: unit gval)]) 0"
  using append_value_map_order [of "[(''b'', VNil), (''a'', VBool True)]"
      "[(''a'', VBool True), (''b'', VNil :: unit gval)]" None "[]" 0] by simp

end
