(* ===== verification/Wire_Prepared.thy ===== *)
theory Wire_Prepared
  imports Wire_Answers Wire_Value
begin

text \<open>
  Prepared question sets, \<open>internal/wire/prepared.go\<close>: the \<open>Builder\<close> that serialises one question
  at a time into the compact \<open>questions\<close> object and records the tables of the set, \<open>Finish\<close>, and
  the lookup of a question by name. A set whose names are distinct is a keyed list.
\<close>

section \<open>Prepared sets\<close>

record prepared_question =
  pq_name :: bytes
  pq_kind :: kind
  pq_options :: "bytes list"
  pq_levels :: "content list"

record prepared =
  p_questions :: bytes
  p_entries :: "prepared_question list"
  p_index :: "(bytes \<rightharpoonup> nat) option"

definition prepared_init :: "bytes \<Rightarrow> prepared_question list \<Rightarrow> prepared" where
  "prepared_init questions entries =
     \<lparr>p_questions = questions, p_entries = entries,
      p_index = (if linear_limit < length entries then Some (index_of pq_name entries) else None)\<rparr>"

definition prepared_find :: "prepared \<Rightarrow> bytes \<Rightarrow> nat option" where
  "prepared_find p name =
     (case p_index p of
        Some m \<Rightarrow> m name
      | None \<Rightarrow> find_index (\<lambda>q. pq_name q = name) (p_entries p))"

definition prepared_lookup :: "prepared \<Rightarrow> bytes \<Rightarrow> prepared_question option" where
  "prepared_lookup p name = map_option (\<lambda>i. p_entries p ! i) (prepared_find p name)"

section \<open>The builder\<close>

datatype member_cause = WireCause json_error | ValueCause raw_error | TypeField

datatype build_error = NameError json_error | MemberError bytes member_cause

record level_span =
  sp_entry :: nat
  sp_level :: nat
  sp_start :: nat
  sp_end :: nat

record builder =
  b_buf :: bytes
  b_entries :: "prepared_question list"
  b_spans :: "level_span list"

type_synonym build_res = "build_error + builder"

definition empty_builder :: builder where
  "empty_builder = \<lparr>b_buf = [], b_entries = [], b_spans = []\<rparr>"

definition put_bytes :: "bytes \<Rightarrow> builder \<Rightarrow> builder" where
  "put_bytes s b = b\<lparr>b_buf := b_buf b @ s\<rparr>"

definition put_string :: "bytes \<Rightarrow> (json_error \<Rightarrow> build_error) \<Rightarrow> builder \<Rightarrow> build_res" where
  "put_string s err b =
     (case append_string (b_buf b) s of Inl e \<Rightarrow> Inl (err e) | Inr buf \<Rightarrow> Inr (b\<lparr>b_buf := buf\<rparr>))"

definition put_content :: "bytes \<Rightarrow> content \<Rightarrow> builder \<Rightarrow> build_res" where
  "put_content path c b =
     (case append_content (b_buf b) c of
        Inl e \<Rightarrow> Inl (MemberError path (WireCause e))
      | Inr buf \<Rightarrow> Inr (b\<lparr>b_buf := buf\<rparr>))"

text \<open>The quoted names and separators the source writes as Go literals.\<close>

definition quoted :: "bytes \<Rightarrow> bytes" where
  "quoted k = quote_char # k @ [quote_char]"

definition name_literal :: "bytes \<Rightarrow> bytes" where
  "name_literal k = quoted k @ '':''"

definition type_open :: bytes where
  "type_open = CHR '':'' # CHR ''{'' # name_literal ''type''"

definition criteria_open :: "char \<Rightarrow> bytes" where
  "criteria_open c = CHR '','' # name_literal ''criteria'' @ [c]"

definition begin_question :: "bytes \<Rightarrow> bytes \<Rightarrow> kind \<Rightarrow> builder \<Rightarrow> build_res" where
  "begin_question name typ k b =
     rbind (put_string name NameError (put_bytes (if b_buf b = [] then [CHR ''{''] else '','') b)) (\<lambda>b.
     rbind (put_string typ (\<lambda>e. MemberError ''type'' (WireCause e)) (put_bytes type_open b)) (\<lambda>b.
     Inr (b\<lparr>b_entries := b_entries b @ [\<lparr>pq_name = name, pq_kind = k, pq_options = [], pq_levels = []\<rparr>]\<rparr>)))"

definition put_member :: "bytes \<Rightarrow> content option \<Rightarrow> builder \<Rightarrow> build_res" where
  "put_member key c b =
     (case c of None \<Rightarrow> Inr b
      | Some c \<Rightarrow> put_content key c (put_bytes (CHR '','' # name_literal key) b))"

definition set_last_entry :: "(prepared_question \<Rightarrow> prepared_question) \<Rightarrow> builder \<Rightarrow> builder" where
  "set_last_entry f b =
     b\<lparr>b_entries := (b_entries b)[length (b_entries b) - 1 := f (b_entries b ! (length (b_entries b) - 1))]\<rparr>"

definition add_noul :: "bytes \<Rightarrow> content option \<Rightarrow> content option \<Rightarrow> content option \<Rightarrow> builder \<Rightarrow> build_res" where
  "add_noul name instructions yes no b =
     rbind (begin_question name ''noul'' KindNoul b) (\<lambda>b.
     rbind (put_member ''instructions'' instructions b) (\<lambda>b.
     rbind
       (if yes \<noteq> None \<or> no \<noteq> None then
          rbind
            (case yes of None \<Rightarrow> Inr (put_bytes (criteria_open CHR ''{'') b)
             | Some y \<Rightarrow>
                 put_content ''criteria.true'' y
                   (put_bytes (name_literal ''true'') (put_bytes (criteria_open CHR ''{'') b))) (\<lambda>b.
          rbind
            (case no of None \<Rightarrow> Inr b
             | Some n \<Rightarrow>
                 put_content ''criteria.false'' n
                   (put_bytes (name_literal ''false'') (put_bytes (if yes \<noteq> None then '','' else []) b))) (\<lambda>b.
          Inr (put_bytes [CHR ''}''] b)))
        else Inr b) (\<lambda>b.
     Inr (put_bytes [CHR ''}''] b))))"

fun put_options :: "nat \<Rightarrow> bytes list \<Rightarrow> (nat \<Rightarrow> content option) \<Rightarrow> builder \<Rightarrow> build_res" where
  "put_options i [] description b = Inr b"
| "put_options i (l # ls) description b =
     rbind (put_string l (\<lambda>e. MemberError (''criteria.'' @ l) (WireCause e))
              (put_bytes (if 0 < i then '','' else []) b)) (\<lambda>b.
     rbind (case description i of
              None \<Rightarrow> Inr (put_bytes ''null'' (put_bytes '':'' b))
            | Some d \<Rightarrow> put_content (''criteria.'' @ l) d (put_bytes '':'' b)) (\<lambda>b.
     put_options (Suc i) ls description b))"

definition add_choice :: "bytes \<Rightarrow> content option \<Rightarrow> bytes list \<Rightarrow> (nat \<Rightarrow> content option) \<Rightarrow> builder \<Rightarrow> build_res" where
  "add_choice name instructions labels description b =
     rbind (begin_question name ''choice'' KindChoice b) (\<lambda>b.
     rbind (put_member ''instructions'' instructions b) (\<lambda>b.
     rbind (put_options 0 labels description (put_bytes (criteria_open CHR ''{'') b)) (\<lambda>b.
     Inr (set_last_entry (\<lambda>q. q\<lparr>pq_options := labels\<rparr>) (put_bytes [CHR ''}'', CHR ''}''] b)))))"

fun put_levels :: "nat \<Rightarrow> nat \<Rightarrow> content list \<Rightarrow> builder \<Rightarrow> build_res" where
  "put_levels entry i [] b = Inr b"
| "put_levels entry i (l # ls) b =
     (let b = put_bytes (if 0 < i then '','' else []) b; start = length (b_buf b) in
      rbind (put_content (''criteria'' @ index_path i) l b) (\<lambda>b.
      put_levels entry (Suc i) ls
        (if is_json l then
           b\<lparr>b_spans := b_spans b @
             [\<lparr>sp_entry = entry, sp_level = i, sp_start = start, sp_end = length (b_buf b)\<rparr>]\<rparr>
         else b)))"

definition add_score :: "bytes \<Rightarrow> content option \<Rightarrow> content list \<Rightarrow> builder \<Rightarrow> build_res" where
  "add_score name instructions levels b =
     rbind (begin_question name ''score'' KindScore b) (\<lambda>b.
     rbind (put_member ''instructions'' instructions b) (\<lambda>b.
     rbind (put_levels (length (b_entries b) - 1) 0 levels (put_bytes (criteria_open CHR ''['') b)) (\<lambda>b.
     Inr (set_last_entry (\<lambda>q. q\<lparr>pq_levels := levels\<rparr>) (put_bytes (CHR '']'' # [CHR ''}'']) b)))))"

fun put_fields :: "'a leaf option \<Rightarrow> (bytes \<times> 'a gval) list \<Rightarrow> builder \<Rightarrow> build_res" where
  "put_fields leaf [] b = Inr b"
| "put_fields leaf ((key, v) # fs) b =
     (if key = ''type'' then Inl (MemberError key TypeField)
      else
        rbind (put_string key (\<lambda>e. MemberError key (WireCause e)) (put_bytes '','' b)) (\<lambda>b.
        case append_value leaf (b_buf (put_bytes '':'' b)) v 0 of
          Inl e \<Rightarrow> Inl (MemberError (key @ ve_path e) (ValueCause (ve_err e)))
        | Inr buf \<Rightarrow> put_fields leaf fs (b\<lparr>b_buf := buf\<rparr>)))"

definition add_raw :: "'a leaf option \<Rightarrow> bytes \<Rightarrow> bytes \<Rightarrow> (bytes \<times> 'a gval) list \<Rightarrow> builder \<Rightarrow> build_res" where
  "add_raw leaf name typ fs b =
     rbind (begin_question name typ (parse_kind typ) b) (\<lambda>b.
     rbind (put_fields leaf (sorted_members fs) b) (\<lambda>b.
     Inr (put_bytes [CHR ''}''] b)))"

definition set_level_json :: "bytes \<Rightarrow> level_span \<Rightarrow> prepared_question list \<Rightarrow> prepared_question list" where
  "set_level_json buf s es =
     (let q = es ! sp_entry s; l = pq_levels q ! sp_level s;
          j = take (sp_end s - sp_start s) (drop (sp_start s) buf) in
      es[sp_entry s := q\<lparr>pq_levels := (pq_levels q)[sp_level s := l\<lparr>cjson := Some j\<rparr>]\<rparr>])"

definition finish :: "builder \<Rightarrow> prepared" where
  "finish b =
     (let buf = (if b_buf b = [] then [CHR ''{''] else b_buf b) @ [CHR ''}''] in
      prepared_init buf (fold (set_level_json buf) (b_spans b) (b_entries b)))"

section \<open>Lookup\<close>

definition prepared_inv :: "prepared \<Rightarrow> bool" where
  "prepared_inv p \<longleftrightarrow>
     distinct (map pq_name (p_entries p)) \<and>
     (\<forall>m. p_index p = Some m \<longrightarrow> index_ok pq_name (p_entries p) m)"

interpretation prep: keyed_list p_entries pq_name prepared_find prepared_inv
  by unfold_locales (auto simp: prepared_inv_def prepared_find_def index_ok_def split: option.splits)

lemma prepared_init_inv: "distinct (map pq_name es) \<Longrightarrow> prepared_inv (prepared_init q es)"
  by (simp add: prepared_inv_def prepared_init_def index_of_ok)

section \<open>Sequences of questions\<close>

text \<open>The calls of a builder's methods, as \<open>Questions.Prepare\<close> makes them.\<close>

datatype 'a question =
    QNoul bytes "content option" "content option" "content option"
  | QChoice bytes "content option" "bytes list" "nat \<Rightarrow> content option"
  | QScore bytes "content option" "content list"
  | QRaw bytes bytes "(bytes \<times> 'a gval) list"

fun question_name :: "'a question \<Rightarrow> bytes" where
  "question_name (QNoul n i y x) = n"
| "question_name (QChoice n i l d) = n"
| "question_name (QScore n i l) = n"
| "question_name (QRaw n t f) = n"

fun add_question :: "'a leaf option \<Rightarrow> 'a question \<Rightarrow> builder \<Rightarrow> build_res" where
  "add_question leaf (QNoul n i yes no) b = add_noul n i yes no b"
| "add_question leaf (QChoice n i ls d) b = add_choice n i ls d b"
| "add_question leaf (QScore n i ls) b = add_score n i ls b"
| "add_question leaf (QRaw n t fs) b = add_raw leaf n t fs b"

definition build :: "'a leaf option \<Rightarrow> 'a question list \<Rightarrow> build_res" where
  "build leaf qs = rfold (add_question leaf) qs empty_builder"

section \<open>What the builder writes\<close>

lemma put_bytes_simps [simp]:
  "b_buf (put_bytes s b) = b_buf b @ s" "b_entries (put_bytes s b) = b_entries b"
  "b_spans (put_bytes s b) = b_spans b"
  by (simp_all add: put_bytes_def)

lemma set_last_entry_simps [simp]:
  "b_buf (set_last_entry f b) = b_buf b" "b_spans (set_last_entry f b) = b_spans b"
  by (simp_all add: set_last_entry_def)

text \<open>\<open>extends b b' s\<close>: a step has written \<open>s\<close> and nothing else.\<close>

definition extends :: "builder \<Rightarrow> builder \<Rightarrow> bytes \<Rightarrow> bool" where
  "extends b b' s \<longleftrightarrow> b' = b\<lparr>b_buf := b_buf b @ s\<rparr>"

lemma extends_buf: "extends b b' s \<Longrightarrow> b_buf b' = b_buf b @ s \<and> b_entries b' = b_entries b \<and> b_spans b' = b_spans b"
  by (simp add: extends_def)

lemma extends_trans: "extends b b' s \<Longrightarrow> extends b' b'' t \<Longrightarrow> extends b b'' (s @ t)"
  by (simp add: extends_def)

lemma extends_put [simp]: "extends b (put_bytes s b) s"
  by (simp add: extends_def put_bytes_def)

lemma extends_put_iff: "extends (put_bytes s b) b' t \<longleftrightarrow> extends b b' (s @ t)"
  by (auto simp: extends_def put_bytes_def)

lemma put_string_ok: "put_string s err b = Inr b' \<Longrightarrow> \<exists>t. str_tok t \<and> extends b b' t"
proof -
  assume a: "put_string s err b = Inr b'"
  then obtain buf where b: "append_string (b_buf b) s = Inr buf" "b' = b\<lparr>b_buf := buf\<rparr>"
    by (auto simp: put_string_def split: sum.splits)
  from append_string_str_tok [OF b(1)] b(2) show ?thesis unfolding extends_def by blast
qed

lemma append_json_jval: "append_json dst raw = Inr out \<Longrightarrow> \<exists>c. out = dst @ c \<and> jval c c \<and> append_json [] raw = Inr c"
  unfolding append_json_iff by (auto dest: jval_compact(1))

lemma append_content_ok:
  assumes "append_content dst c = Inr out"
  shows "\<exists>s. out = dst @ s \<and> jval s s \<and> append_content [] c = Inr s"
proof -
  from content_app.app_extends [OF assms] obtain s where s: "append_content [] c = Inr s" "out = dst @ s"
    by blast
  have "jval s s"
  proof (cases "cjson c")
    case None
    with s(1) have "append_string [] (ctext c) = Inr s" by (simp add: append_content_def)
    then show ?thesis using append_string_str_tok [of "[]"] by (auto intro: J_str)
  next
    case (Some j)
    with s(1) have "append_json [] j = Inr s"
      by (auto simp: append_content_def split: list.splits if_split_asm)
    then show ?thesis by (auto dest: append_json_jval)
  qed
  with s show ?thesis by blast
qed

lemma put_content_ok:
  "put_content path c b = Inr b' \<Longrightarrow> \<exists>s. jval s s \<and> append_content [] c = Inr s \<and> extends b b' s"
proof -
  assume a: "put_content path c b = Inr b'"
  then obtain buf where b: "append_content (b_buf b) c = Inr buf" "b' = b\<lparr>b_buf := buf\<rparr>"
    by (auto simp: put_content_def split: sum.splits)
  from append_content_ok [OF b(1)] b(2) show ?thesis unfolding extends_def by blast
qed

lemma jmembers_ws: "jmembers c t \<Longrightarrow> ws w \<Longrightarrow> jmembers c (w @ t)"
proof (erule jmembers.cases)
  fix v assume "c = []" "t = v" "ws v" "ws w"
  then show ?thesis using J_members0 [of "w @ v"] by simp
next
  fix w0 v k w1 w2 c1 t1 ce te
  assume "c = CHR '','' # k @ CHR '':'' # c1 @ ce" "t = w0 @ CHR '','' # v @ k @ w1 @ CHR '':'' # w2 @ t1 @ te"
    "ws w0" "ws v" "str_tok k" "ws w1" "ws w2" "jval c1 t1" "jmembers ce te" "ws w"
  then show ?thesis using J_members [of "w @ w0" v k w1 w2 c1 t1 ce te] by simp
qed

lemma jmembers_append: "jmembers c t \<Longrightarrow> jmembers c' t' \<Longrightarrow> jmembers (c @ c') (t @ t')"
proof (induction rule: jval_jelems_jmembers.inducts(3) [where ?P1.0 = "\<lambda>_ _. True" and ?P2.0 = "\<lambda>_ _. True"])
  case (J_members0 w)
  then show ?case using jmembers_ws by simp
next
  case (J_members w0 w k w1 w2 c t ce te)
  then show ?case using jval_jelems_jmembers.J_members [of w0 w k w1 w2 c t "ce @ c'" "te @ t'"] by simp
qed simp_all

text \<open>The literal member names the source writes are JSON strings.\<close>

lemma str_tok_plain: "list_all plain_char k \<Longrightarrow> str_tok (quoted k)"
proof -
  assume "list_all plain_char k"
  then have "str_chars k" by (induction k) (auto intro: str_chars.intros)
  then show ?thesis by (auto simp: str_tok_def quoted_def)
qed

lemma literal_names [simp]:
  "str_tok (quoted ''type'')" "str_tok (quoted ''criteria'')" "str_tok (quoted ''instructions'')"
  "str_tok (quoted ''true'')" "str_tok (quoted ''false'')"
  by (rule str_tok_plain, simp add: plain_char_def byte_between_def)+

text \<open>One member after others, and an object made of them.\<close>

lemma member_after:
  assumes "str_tok k" and "jval c c"
  shows "jmembers (CHR '','' # k @ CHR '':'' # c) (CHR '','' # k @ CHR '':'' # c)"
  using J_members [of "[]" "[]" k "[]" "[]" c c "[]" "[]"] assms J_members0 [of "[]"] by simp

lemma object_of:
  assumes "str_tok k" and "jval c c" and "jmembers m m"
  shows "jval (CHR ''{'' # k @ CHR '':'' # c @ m @ [CHR ''}'']) (CHR ''{'' # k @ CHR '':'' # c @ m @ [CHR ''}''])"
  using J_obj [of "[]" k "[]" "[]" c c m m] assms by simp

lemma put_member_ok:
  assumes "put_member key c b = Inr b'" and "str_tok (quoted key)"
  shows "\<exists>m. jmembers m m \<and> extends b b' m"
proof (cases c)
  case None
  with assms(1) have "extends b b' []" by (simp add: put_member_def extends_def)
  then show ?thesis using J_members0 [of "[]"] by auto
next
  case (Some c')
  with assms(1) have "put_content key c' (put_bytes (CHR '','' # name_literal key) b) = Inr b'"
    by (simp add: put_member_def)
  from put_content_ok [OF this] obtain s where s: "jval s s" "extends b b' ((CHR '','' # name_literal key) @ s)"
    by (auto simp: extends_put_iff)
  with member_after [OF assms(2) s(1)] show ?thesis
    by (auto simp: name_literal_def)
qed

lemma begin_question_ok:
  assumes "begin_question name typ k b = Inr b'"
  shows "\<exists>n t. str_tok n \<and> str_tok t \<and>
    b_buf b' = b_buf b @ (if b_buf b = [] then CHR ''{'' else CHR '','') # n @ type_open @ t \<and>
    b_entries b' = b_entries b @ [\<lparr>pq_name = name, pq_kind = k, pq_options = [], pq_levels = []\<rparr>] \<and>
    b_spans b' = b_spans b"
proof -
  let ?b0 = "put_bytes (if b_buf b = [] then [CHR ''{''] else '','') b"
  from assms obtain b1 b2 where s: "put_string name NameError ?b0 = Inr b1"
    "put_string typ (\<lambda>e. MemberError ''type'' (WireCause e)) (put_bytes type_open b1) = Inr b2"
    "b' = b2\<lparr>b_entries := b_entries b2 @ [\<lparr>pq_name = name, pq_kind = k, pq_options = [], pq_levels = []\<rparr>]\<rparr>"
    by (auto simp: begin_question_def res_simps)
  from put_string_ok [OF s(1)] obtain n where n: "str_tok n" "extends ?b0 b1 n" by blast
  from put_string_ok [OF s(2)] obtain t where t: "str_tok t" "extends b1 b2 (type_open @ t)"
    by (auto simp: extends_put_iff)
  from n t s(3) show ?thesis by (auto simp: extends_def)
qed

text \<open>The tables of a question: an object of option labels, an array of levels, an object of
  raw fields.\<close>

lemma put_options_ok:
  "put_options i ls d b = Inr b' \<Longrightarrow> \<exists>s. members_tail i (s @ [CHR ''}'']) \<and> extends b b' s"
proof (induction i ls d b rule: put_options.induct)
  case (1 i d b)
  then have "extends b b' []" by (simp add: extends_def)
  with members_tail_Nil [of i] show ?case by (intro exI [of _ "[]"]) simp
next
  case (2 i l ls d b)
  let ?b0 = "put_bytes (if 0 < i then '','' else []) b"
  from "2.prems" obtain b1 b2 where s: "put_string l (\<lambda>e. MemberError (''criteria.'' @ l) (WireCause e)) ?b0 = Inr b1"
    "(case d i of None \<Rightarrow> Inr (put_bytes ''null'' (put_bytes '':'' b1))
      | Some x \<Rightarrow> put_content (''criteria.'' @ l) x (put_bytes '':'' b1)) = Inr b2"
    "put_options (Suc i) ls d b2 = Inr b'"
    by (auto simp: res_simps)
  from put_string_ok [OF s(1)] obtain k where k: "str_tok k" "extends b b1 ((if 0 < i then '','' else []) @ k)"
    by (auto simp: extends_put_iff)
  have "\<exists>c. jval c c \<and> extends b1 b2 ('':'' @ c)"
  proof (cases "d i")
    case None
    with s(2) have "extends b1 b2 ('':'' @ ''null'')" by (auto simp: extends_def put_bytes_def)
    moreover have "jval ''null'' ''null''" by (simp add: J_lit)
    ultimately show ?thesis by blast
  next
    case (Some x)
    with s(2) put_content_ok show ?thesis by (fastforce simp: extends_put_iff)
  qed
  then obtain c where c: "jval c c" "extends b1 b2 ('':'' @ c)" by blast
  from "2.IH" [OF s(3)] obtain u where u: "members_tail (Suc i) (u @ [CHR ''}''])" "extends b2 b' u" by blast
  from extends_trans [OF extends_trans [OF k(2) c(2)] u(2)] members_tail_Cons [OF k(1) c(1) u(1)]
  show ?case by (metis append.assoc append_Cons append_Nil)
qed

lemma put_fields_ok:
  "put_fields leaf fs b = Inr b' \<Longrightarrow> leaf_ok leaf \<Longrightarrow> \<exists>s. jmembers s s \<and> extends b b' s"
proof (induction leaf fs b rule: put_fields.induct)
  case (1 leaf b)
  then have "extends b b' []" by (simp add: extends_def)
  then show ?case using J_members0 [of "[]"] by auto
next
  case (2 leaf key v fs b)
  then have kt: "key \<noteq> ''type''" by (auto split: if_splits)
  with "2.prems" obtain b1 where s1:
    "put_string key (\<lambda>e. MemberError key (WireCause e)) (put_bytes '','' b) = Inr b1"
    and r: "(case append_value leaf (b_buf b1 @ '':'') v 0 of
          Inl e \<Rightarrow> Inl (MemberError (key @ ve_path e) (ValueCause (ve_err e)))
        | Inr buf \<Rightarrow> put_fields leaf fs (b1\<lparr>b_buf := buf\<rparr>)) = Inr b'"
    by (auto simp: res_simps)
  from r obtain buf where s: "append_value leaf (b_buf b1 @ '':'') v 0 = Inr buf"
    "put_fields leaf fs (b1\<lparr>b_buf := buf\<rparr>) = Inr b'"
    by (cases "append_value leaf (b_buf b1 @ '':'') v 0") auto
  from put_string_ok [OF s1] obtain k where k: "str_tok k" "extends b b1 ('','' @ k)"
    by (auto simp: extends_put_iff)
  from append_value_jval(1) [OF s(1) "2.prems"(2)] obtain c where c: "buf = (b_buf b1 @ '':'') @ c" "jval c c" by blast
  then have e: "extends b1 (b1\<lparr>b_buf := buf\<rparr>) ('':'' @ c)" by (simp add: extends_def)
  have "append_value leaf (b_buf (put_bytes '':'' b1)) v 0 = Inr buf" using s(1) by simp
  from "2.IH" [OF kt this s(2) "2.prems"(2)] obtain u where u: "jmembers u u" "extends (b1\<lparr>b_buf := buf\<rparr>) b' u"
    by blast
  from extends_trans [OF extends_trans [OF k(2) e] u(2)] jmembers_append [OF member_after [OF k(1) c(2)] u(1)]
  show ?case by (metis append.assoc append_Cons append_Nil)
qed

text \<open>A question: its buffer grows by the separator, the name and an object.\<close>

definition adds_member :: "builder \<Rightarrow> builder \<Rightarrow> bool" where
  "adds_member b b' \<longleftrightarrow> (\<exists>k c. str_tok k \<and> jval c c \<and>
     b_buf b' = b_buf b @ (if b_buf b = [] then CHR ''{'' else CHR '','') # k @ CHR '':'' # c)"

lemma begin_then_members:
  assumes "begin_question name typ k b = Inr b1" and "b_buf b' = b_buf b1 @ m @ [CHR ''}'']" and "jmembers m m"
  shows "adds_member b b'"
proof -
  from begin_question_ok [OF assms(1)] obtain n t where n: "str_tok n" "str_tok t"
    "b_buf b1 = b_buf b @ (if b_buf b = [] then CHR ''{'' else CHR '','') # n @ type_open @ t" by blast
  let ?o = "CHR ''{'' # quoted ''type'' @ CHR '':'' # t @ m @ [CHR ''}'']"
  have "jval ?o ?o" by (rule object_of [OF _ J_str [OF n(2)] assms(3)]) simp
  moreover have "b_buf b' = b_buf b @ (if b_buf b = [] then CHR ''{'' else CHR '','') # n @ CHR '':'' # ?o"
    using n(3) assms(2) by (simp add: type_open_def name_literal_def)
  ultimately show ?thesis using n(1) unfolding adds_member_def by blast
qed

lemma criteria_member:
  assumes "jval (c # t) (c # t)"
  shows "jmembers (criteria_open c @ t) (criteria_open c @ t)"
  using member_after [of "quoted ''criteria''", OF _ assms] by (simp add: criteria_open_def name_literal_def)

lemma add_noul_ok:
  assumes "add_noul name i yes no b = Inr b'"
  shows "adds_member b b'"
proof -
  from assms obtain b1 b2 b3 where s: "begin_question name ''noul'' KindNoul b = Inr b1"
    "put_member ''instructions'' i b1 = Inr b2" "b' = put_bytes [CHR ''}''] b3"
    and c: "(if yes \<noteq> None \<or> no \<noteq> None then
          rbind
            (case yes of None \<Rightarrow> Inr (put_bytes (criteria_open CHR ''{'') b2)
             | Some y \<Rightarrow>
                 put_content ''criteria.true'' y
                   (put_bytes (name_literal ''true'') (put_bytes (criteria_open CHR ''{'') b2))) (\<lambda>b.
          rbind
            (case no of None \<Rightarrow> Inr b
             | Some n \<Rightarrow>
                 put_content ''criteria.false'' n
                   (put_bytes (name_literal ''false'') (put_bytes (if yes \<noteq> None then '','' else []) b))) (\<lambda>b.
          Inr (put_bytes [CHR ''}''] b)))
        else Inr b2) = Inr b3"
    by (auto simp: add_noul_def res_simps)
  from put_member_ok [OF s(2)] obtain m1 where m1: "jmembers m1 m1" "extends b1 b2 m1" by auto
  have "\<exists>m. jmembers m m \<and> b_buf b3 = b_buf b2 @ m"
  proof (cases "yes \<noteq> None \<or> no \<noteq> None")
    case False
    with c show ?thesis using J_members0 [of "[]"] by auto
  next
    case True
    let ?t = "\<lambda>y. quoted ''true'' @ CHR '':'' # y" and ?f = "\<lambda>n. quoted ''false'' @ CHR '':'' # n"
    have "\<exists>u. jval (CHR ''{'' # u) (CHR ''{'' # u) \<and> b_buf b3 = b_buf b2 @ criteria_open CHR ''{'' @ u"
    proof (cases yes)
      case None
      with True c obtain n where "put_content ''criteria.false'' n (put_bytes (name_literal ''false'')
          (put_bytes [] (put_bytes (criteria_open CHR ''{'') b2))) = Inr (b3\<lparr>b_buf := butlast (b_buf b3)\<rparr>)"
          "b_buf b3 = butlast (b_buf b3) @ [CHR ''}'']"
        by (auto simp: res_simps put_bytes_def)
      then obtain n1 where "jval n1 n1" "b_buf b3 = b_buf b2 @ criteria_open CHR ''{'' @ ?f n1 @ [CHR ''}'']"
        by (auto dest!: put_content_ok extends_buf simp: name_literal_def)
      moreover from object_of [of "quoted ''false''" n1 "[]"] this(1) J_members0 [of "[]"]
      have "jval (CHR ''{'' # ?f n1 @ [CHR ''}'']) (CHR ''{'' # ?f n1 @ [CHR ''}''])" by simp
      ultimately show ?thesis by blast
    next
      case (Some y)
      with c obtain b4 where y: "put_content ''criteria.true'' y
          (put_bytes (name_literal ''true'') (put_bytes (criteria_open CHR ''{'') b2)) = Inr b4"
        and r: "rbind (case no of None \<Rightarrow> Inr b4 | Some n \<Rightarrow> put_content ''criteria.false'' n
            (put_bytes (name_literal ''false'') (put_bytes (if Some y \<noteq> None then '','' else []) b4)))
            (\<lambda>b. Inr (put_bytes [CHR ''}''] b)) = Inr b3"
        unfolding Some by (simp add: rbind_Inr) blast
      from y obtain y1 where y1: "jval y1 y1" "b_buf b4 = b_buf b2 @ criteria_open CHR ''{'' @ ?t y1"
        by (auto dest!: put_content_ok extends_buf simp: name_literal_def)
      have "\<exists>m. jmembers m m \<and> b_buf b3 = b_buf b4 @ m @ [CHR ''}'']"
      proof (cases no)
        case None
        with r J_members0 [of "[]"] show ?thesis by auto
      next
        case (Some n)
        with r obtain b5 where "put_content ''criteria.false'' n
            (put_bytes (name_literal ''false'') (put_bytes '','' b4)) = Inr b5" "b3 = put_bytes [CHR ''}''] b5"
          by (auto simp: res_simps)
        then obtain n1 where "jval n1 n1" "b_buf b3 = b_buf b4 @ ('','' @ ?f n1) @ [CHR ''}'']"
          by (auto dest!: put_content_ok extends_buf simp: name_literal_def)
        with member_after [of "quoted ''false''" n1] show ?thesis by (metis append_Cons append_Nil literal_names(5))
      qed
      then obtain m where m: "jmembers m m" "b_buf b3 = b_buf b4 @ m @ [CHR ''}'']" by blast
      from object_of [of "quoted ''true''" y1 m] y1(1) m(1)
      have "jval (CHR ''{'' # ?t y1 @ m @ [CHR ''}'']) (CHR ''{'' # ?t y1 @ m @ [CHR ''}''])" by simp
      with m(2) y1(2) show ?thesis by (intro exI [of _ "?t y1 @ m @ [CHR ''}'']"]) simp
    qed
    then show ?thesis using criteria_member by metis
  qed
  then obtain m2 where m2: "jmembers m2 m2" "b_buf b3 = b_buf b2 @ m2" by blast
  from begin_then_members [OF s(1), of b' "m1 @ m2"] m1 m2 s(3) extends_buf [OF m1(2)] show ?thesis
    by (simp add: jmembers_append)
qed

lemma add_choice_ok:
  assumes "add_choice name i ls d b = Inr b'"
  shows "adds_member b b'"
proof -
  from assms obtain b1 b2 b3 where s: "begin_question name ''choice'' KindChoice b = Inr b1"
    "put_member ''instructions'' i b1 = Inr b2"
    "put_options 0 ls d (put_bytes (criteria_open CHR ''{'') b2) = Inr b3"
    "b_buf b' = b_buf b3 @ [CHR ''}'', CHR ''}'']"
    by (auto simp: add_choice_def res_simps)
  from put_member_ok [OF s(2)] obtain m1 where m1: "jmembers m1 m1" "extends b1 b2 m1" by auto
  from put_options_ok [OF s(3)] obtain u where "members_tail 0 (u @ [CHR ''}''])"
    and u: "extends b2 b3 (criteria_open CHR ''{'' @ u)" by (auto simp: extends_put_iff)
  then have "jmembers (criteria_open CHR ''{'' @ u @ [CHR ''}'']) (criteria_open CHR ''{'' @ u @ [CHR ''}''])"
    by (auto simp: members_tail_def intro: criteria_member)
  from begin_then_members [OF s(1) _ jmembers_append [OF m1(1) this]] s(4) extends_buf [OF m1(2)]
    extends_buf [OF u] show ?thesis by simp
qed

lemma put_levels_ok:
  "put_levels e i ls b = Inr b' \<Longrightarrow> \<exists>s. elems_tail i (s @ '']'') \<and> b_buf b' = b_buf b @ s \<and> b_entries b' = b_entries b"
proof (induction e i ls b rule: put_levels.induct)
  case (1 e i b)
  with elems_tail_Nil [of i] show ?case by (intro exI [of _ "[]"]) simp
next
  case (2 e i l ls b)
  let ?b0 = "put_bytes (if 0 < i then '','' else []) b"
  from "2.prems" obtain b1 b2 where s: "put_content (''criteria'' @ index_path i) l ?b0 = Inr b1"
    "put_levels e (Suc i) ls b2 = Inr b'" "b_buf b2 = b_buf b1" "b_entries b2 = b_entries b1"
    and b2: "b2 = (if is_json l then
           b1\<lparr>b_spans := b_spans b1 @
             [\<lparr>sp_entry = e, sp_level = i, sp_start = length (b_buf ?b0), sp_end = length (b_buf b1)\<rparr>]\<rparr>
         else b1)"
    by (auto simp: Let_def res_simps)
  from put_content_ok [OF s(1)] obtain c where c: "jval c c"
    "b_buf b1 = b_buf b @ (if 0 < i then '','' else []) @ c" "b_entries b1 = b_entries b"
    by (auto dest!: extends_buf)
  from "2.IH" [OF refl refl] s(2) b2 obtain u where "elems_tail (Suc i) (u @ '']'')" "b_buf b' = b_buf b2 @ u"
    "b_entries b' = b_entries b2" by blast
  with elems_tail_Cons [OF c(1)] c(2,3) s(3,4) show ?case
    by (intro exI [of _ "(if 0 < i then '','' else []) @ c @ u"]) simp
qed

lemma add_score_ok:
  assumes "add_score name i ls b = Inr b'"
  shows "adds_member b b'"
proof -
  from assms obtain b1 b2 b3 where s: "begin_question name ''score'' KindScore b = Inr b1"
    "put_member ''instructions'' i b1 = Inr b2"
    "put_levels (length (b_entries b2) - 1) 0 ls (put_bytes (criteria_open CHR ''['') b2) = Inr b3"
    "b_buf b' = b_buf b3 @ CHR '']'' # [CHR ''}'']"
    by (auto simp: add_score_def res_simps)
  from put_member_ok [OF s(2)] obtain m1 where m1: "jmembers m1 m1" "extends b1 b2 m1" by auto
  from put_levels_ok [OF s(3)] obtain u where "elems_tail 0 (u @ '']'')"
    and u: "b_buf b3 = b_buf b2 @ criteria_open CHR ''['' @ u" by auto
  then have "jmembers (criteria_open CHR ''['' @ u @ '']'') (criteria_open CHR ''['' @ u @ '']'')"
    by (auto simp: elems_tail_def intro: criteria_member)
  from begin_then_members [OF s(1) _ jmembers_append [OF m1(1) this]] s(4) extends_buf [OF m1(2)] u
  show ?thesis by simp
qed

lemma add_raw_ok:
  assumes "add_raw leaf name typ fs b = Inr b'" and "leaf_ok leaf"
  shows "adds_member b b'"
proof -
  from assms(1) obtain b1 b2 where s: "begin_question name typ (parse_kind typ) b = Inr b1"
    "put_fields leaf (sorted_members fs) b1 = Inr b2" "b' = put_bytes [CHR ''}''] b2"
    by (auto simp: add_raw_def res_simps)
  from put_fields_ok [OF s(2) assms(2)] obtain m where "jmembers m m" "extends b1 b2 m" by blast
  with begin_then_members [OF s(1), of b' m] s(3) extends_buf show ?thesis by fastforce
qed

lemma add_question_ok: "add_question leaf q b = Inr b' \<Longrightarrow> leaf_ok leaf \<Longrightarrow> adds_member b b'"
  by (cases q) (auto intro: add_noul_ok add_choice_ok add_score_ok add_raw_ok)

text \<open>The buffer of a builder: empty, or an object that lacks its closing brace.\<close>

definition buf_inv :: "bytes \<Rightarrow> bool" where
  "buf_inv buf \<longleftrightarrow> buf = [] \<or> (\<exists>k c m. str_tok k \<and> jval c c \<and> jmembers m m \<and> buf = CHR ''{'' # k @ CHR '':'' # c @ m)"

lemma adds_member_inv:
  assumes "buf_inv (b_buf b)" and "adds_member b b'"
  shows "buf_inv (b_buf b')"
proof -
  from assms(2) obtain k c where k: "str_tok k" "jval c c"
    "b_buf b' = b_buf b @ (if b_buf b = [] then CHR ''{'' else CHR '','') # k @ CHR '':'' # c"
    by (auto simp: adds_member_def)
  show ?thesis
  proof (cases "b_buf b = []")
    case True
    with k J_members0 [of "[]"] show ?thesis
      unfolding buf_inv_def by (intro disjI2 exI [of _ k] exI [of _ c] exI [of _ "[]"]) simp
  next
    case False
    with assms(1) obtain k' c' m where m: "str_tok k'" "jval c' c'" "jmembers m m"
      "b_buf b = CHR ''{'' # k' @ CHR '':'' # c' @ m" by (auto simp: buf_inv_def)
    from jmembers_append [OF m(3) member_after [OF k(1,2)]] m k(3) show ?thesis
      unfolding buf_inv_def
      by (intro disjI2 exI [of _ k'] exI [of _ c'] exI [of _ "m @ CHR '','' # k @ CHR '':'' # c"]) simp
  qed
qed

lemma rfold_add_inv:
  "rfold (add_question leaf) qs b = Inr b' \<Longrightarrow> leaf_ok leaf \<Longrightarrow> buf_inv (b_buf b) \<Longrightarrow> buf_inv (b_buf b')"
proof (induction qs arbitrary: b)
  case (Cons q qs)
  then show ?case by (auto simp: res_simps dest: add_question_ok adds_member_inv)
qed simp

lemma build_inv: "build leaf qs = Inr b \<Longrightarrow> leaf_ok leaf \<Longrightarrow> buf_inv (b_buf b)"
  unfolding build_def by (erule rfold_add_inv) (simp_all add: buf_inv_def empty_builder_def)

lemma finish_jval:
  assumes "buf_inv (b_buf b)"
  shows "jval (p_questions (finish b)) (p_questions (finish b))"
proof (cases "b_buf b = []")
  case True
  then show ?thesis using J_obj0 [of "[]"] by (simp add: finish_def prepared_init_def Let_def)
next
  case False
  with assms obtain k c m where "str_tok k" "jval c c" "jmembers m m"
    "b_buf b = CHR ''{'' # k @ CHR '':'' # c @ m" by (auto simp: buf_inv_def)
  with object_of [of k c m] show ?thesis by (simp add: finish_def prepared_init_def Let_def)
qed

section \<open>The tables the builder records\<close>

text \<open>What a question's entry must be in the finished set: a JSON level holds its compact
  bytes, everything else is as it was given.\<close>

definition compact_level :: "content \<Rightarrow> content" where
  "compact_level l =
     (if is_json l then
        l\<lparr>cjson := (case append_content [] l of Inr c \<Rightarrow> Some c | Inl _ \<Rightarrow> None)\<rparr>
      else l)"

fun expected_entry :: "'a question \<Rightarrow> prepared_question" where
  "expected_entry (QNoul n i y x) = \<lparr>pq_name = n, pq_kind = KindNoul, pq_options = [], pq_levels = []\<rparr>"
| "expected_entry (QChoice n i ls d) = \<lparr>pq_name = n, pq_kind = KindChoice, pq_options = ls, pq_levels = []\<rparr>"
| "expected_entry (QScore n i ls) =
     \<lparr>pq_name = n, pq_kind = KindScore, pq_options = [], pq_levels = map compact_level ls\<rparr>"
| "expected_entry (QRaw n t fs) = \<lparr>pq_name = n, pq_kind = parse_kind t, pq_options = [], pq_levels = []\<rparr>"

lemma set_level_json_append:
  "sp_entry s < length es \<Longrightarrow> set_level_json buf s (es @ [q]) = set_level_json buf s es @ [q]"
  by (simp add: set_level_json_def Let_def nth_append list_update_append)

lemma set_level_json_length [simp]: "length (set_level_json buf s es) = length es"
  by (simp add: set_level_json_def Let_def)

lemma fold_set_level_append:
  "\<forall>s \<in> set ss. sp_entry s < length es \<Longrightarrow>
     fold (set_level_json buf) ss (es @ [q]) = fold (set_level_json buf) ss es @ [q]"
  by (induction ss arbitrary: es) (simp_all add: set_level_json_append)

lemma put_levels_spans:
  "put_levels (length es) i ls b = Inr b' \<Longrightarrow>
   \<exists>new. b_spans b' = b_spans b @ new \<and> (\<forall>s \<in> set new. sp_entry s = length es) \<and>
     (\<forall>t pre q. length pre = i \<longrightarrow> pq_levels q = pre @ ls \<longrightarrow>
        fold (set_level_json (b_buf b' @ t)) new (es @ [q]) =
        es @ [q\<lparr>pq_levels := pre @ map compact_level ls\<rparr>])"
proof (induction ls arbitrary: i b)
  case Nil
  then show ?case by (intro exI [of _ "[]"]) (auto simp: prepared_question.defs)
next
  case (Cons l ls)
  let ?b0 = "put_bytes (if 0 < i then '','' else []) b"
  let ?sp = "\<lambda>b1. \<lparr>sp_entry = length es, sp_level = i, sp_start = length (b_buf ?b0), sp_end = length (b_buf b1)\<rparr>"
  from Cons.prems obtain b1 b2 where s: "put_content (''criteria'' @ index_path i) l ?b0 = Inr b1"
    "put_levels (length es) (Suc i) ls b2 = Inr b'" "b_buf b2 = b_buf b1"
    and b2: "b_spans b2 = b_spans b1 @ (if is_json l then [?sp b1] else [])"
    by (auto simp: Let_def res_simps)
  from put_content_ok [OF s(1)] obtain c where c: "append_content [] l = Inr c"
    "b_buf b1 = b_buf ?b0 @ c" "b_spans b1 = b_spans b" by (auto dest!: extends_buf)
  from put_levels_ok [OF s(2)] obtain u where u: "b_buf b' = b_buf b1 @ u" using s(3) by auto
  from Cons.IH [OF s(2)] obtain new where n: "b_spans b' = b_spans b2 @ new"
    "\<forall>s \<in> set new. sp_entry s = length es"
    "\<And>t pre q. length pre = Suc i \<Longrightarrow> pq_levels q = pre @ ls \<Longrightarrow>
        fold (set_level_json (b_buf b' @ t)) new (es @ [q]) =
        es @ [q\<lparr>pq_levels := pre @ map compact_level ls\<rparr>]" by blast
  have "fold (set_level_json (b_buf b' @ t)) ((if is_json l then [?sp b1] else []) @ new) (es @ [q]) =
      es @ [q\<lparr>pq_levels := pre @ map compact_level (l # ls)\<rparr>]"
    if p: "length pre = i" "pq_levels q = pre @ l # ls" for t pre q
  proof -
    let ?q = "q\<lparr>pq_levels := (pre @ [compact_level l]) @ ls\<rparr>"
    have "fold (set_level_json (b_buf b' @ t)) (if is_json l then [?sp b1] else []) (es @ [q]) = es @ [?q]"
    proof (cases "is_json l")
      case True
      have "take (length c) (drop (length (b_buf ?b0)) (b_buf b' @ t)) = c"
        using u c(2) by simp
      then show ?thesis
        using True p c(1,2) by (simp add: set_level_json_def Let_def compact_level_def nth_append list_update_append)
    next
      case False
      with p show ?thesis by (simp add: compact_level_def)
    qed
    with n(3) [of "pre @ [compact_level l]" ?q t] p show ?thesis by simp
  qed
  with n(1,2) b2 c(3) show ?case
    by (intro exI [of _ "(if is_json l then [?sp b1] else []) @ new"]) auto
qed

text \<open>The entries of a builder, once the spans are resolved against its buffer.\<close>

definition tables :: "builder \<Rightarrow> prepared_question list \<Rightarrow> bool" where
  "tables b es \<longleftrightarrow> length es = length (b_entries b) \<and> (\<forall>s \<in> set (b_spans b). sp_entry s < length es) \<and>
     (\<forall>t. fold (set_level_json (b_buf b @ t)) (b_spans b) (b_entries b) = es)"

lemma tables_add:
  assumes t: "tables b es" and b': "b_entries b' = b_entries b @ [q]" "b_buf b' = b_buf b @ s"
    "b_spans b' = b_spans b @ new" "\<forall>x \<in> set new. sp_entry x = length es"
    and f: "\<And>u. fold (set_level_json (b_buf b' @ u)) new (es @ [q]) = es @ [q']"
  shows "tables b' (es @ [q'])"
proof -
  have "fold (set_level_json (b_buf b' @ u)) (b_spans b') (b_entries b') = es @ [q']" for u
  proof -
    from t have "fold (set_level_json (b_buf b' @ u)) (b_spans b) (b_entries b @ [q]) = es @ [q]"
      unfolding b'(2) by (subst fold_set_level_append) (auto simp: tables_def)
    then show ?thesis using b'(1,3) f [of u] by simp
  qed
  with t b' show ?thesis by (auto simp: tables_def less_Suc_eq)
qed

lemma add_question_tables:
  assumes a: "add_question leaf q b = Inr b'" and t: "tables b es" and lf: "leaf_ok leaf"
  shows "tables b' (es @ [expected_entry q])"
proof (cases q)
  case (QNoul n i y x)
  with a obtain b1 where b1: "begin_question n ''noul'' KindNoul b = Inr b1"
    "\<exists>m. b_buf b' = b_buf b1 @ m" "b_entries b' = b_entries b1" "b_spans b' = b_spans b1"
    by (auto simp: add_noul_def put_member_def res_simps dest!: put_content_ok extends_buf
        split: option.splits if_splits)
  from begin_question_ok [OF b1(1)] b1(2-4) QNoul show ?thesis
    by (auto intro!: tables_add [OF t])
next
  case (QChoice n i ls d)
  with a obtain b1 b2 b3 where b1: "begin_question n ''choice'' KindChoice b = Inr b1"
    "put_member ''instructions'' i b1 = Inr b2"
    "put_options 0 ls d (put_bytes (criteria_open CHR ''{'') b2) = Inr b3"
    "b' = set_last_entry (\<lambda>q. q\<lparr>pq_options := ls\<rparr>) (put_bytes [CHR ''}'', CHR ''}''] b3)"
    by (auto simp: add_choice_def res_simps)
  from put_member_ok [OF b1(2)] put_options_ok [OF b1(3)] obtain m where
    b3: "b_buf b3 = b_buf b1 @ m" "b_entries b3 = b_entries b1" "b_spans b3 = b_spans b1"
    by (auto simp: extends_put_iff dest!: extends_buf)
  from begin_question_ok [OF b1(1)] b1(4) b3 QChoice show ?thesis
    by (auto intro!: tables_add [OF t] simp: set_last_entry_def)
next
  case (QScore n i ls)
  with a obtain b1 b2 b3 where b1: "begin_question n ''score'' KindScore b = Inr b1"
    "put_member ''instructions'' i b1 = Inr b2"
    "put_levels (length (b_entries b2) - 1) 0 ls (put_bytes (criteria_open CHR ''['') b2) = Inr b3"
    "b' = set_last_entry (\<lambda>q. q\<lparr>pq_levels := ls\<rparr>) (put_bytes (CHR '']'' # [CHR ''}'']) b3)"
    by (auto simp: add_score_def res_simps)
  from put_member_ok [OF b1(2)] obtain m where
    b2: "b_buf b2 = b_buf b1 @ m" "b_entries b2 = b_entries b1" "b_spans b2 = b_spans b1"
    by (auto dest!: extends_buf)
  from begin_question_ok [OF b1(1)] obtain u where
    b: "b_buf b1 = b_buf b @ u" "b_spans b1 = b_spans b"
      "b_entries b1 = b_entries b @ [\<lparr>pq_name = n, pq_kind = KindScore, pq_options = [], pq_levels = []\<rparr>]"
    by auto
  let ?q = "\<lparr>pq_name = n, pq_kind = KindScore, pq_options = [], pq_levels = ls\<rparr>"
  from t have len: "length (b_entries b2) - 1 = length es" using b2(2) b(3) by (simp add: tables_def)
  from put_levels_ok [OF b1(3)] obtain v where v: "b_buf b3 = b_buf b2 @ v" "b_entries b3 = b_entries b2" by auto
  from put_levels_spans [OF b1(3) [unfolded len]] obtain new where
    new: "b_spans b3 = b_spans b2 @ new" "\<forall>s \<in> set new. sp_entry s = length es"
      "\<And>t. fold (set_level_json (b_buf b3 @ t)) new (es @ [?q]) = es @ [?q\<lparr>pq_levels := map compact_level ls\<rparr>]"
    by fastforce
  show ?thesis
  proof (rule tables_add [OF t, where s = "u @ m @ v @ CHR '']'' # [CHR ''}'']" and new = new and q = ?q])
    show "b_entries b' = b_entries b @ [?q]" using b1(4) v(2) b2(2) b(3) by (simp add: set_last_entry_def)
    show "b_buf b' = b_buf b @ u @ m @ v @ CHR '']'' # [CHR ''}'']" using b1(4) v(1) b2(1) b(1) by simp
    show "b_spans b' = b_spans b @ new" using b1(4) new(1) b2(3) b(2) by simp
    show "\<forall>x \<in> set new. sp_entry x = length es" by (rule new(2))
    show "fold (set_level_json (b_buf b' @ w)) new (es @ [?q]) = es @ [expected_entry q]" for w
      using new(3) [of "CHR '']'' # CHR ''}'' # w"] b1(4) QScore by simp
  qed
next
  case (QRaw n ty fs)
  with a obtain b1 b2 where s: "begin_question n ty (parse_kind ty) b = Inr b1"
    "put_fields leaf (sorted_members fs) b1 = Inr b2" "b' = put_bytes [CHR ''}''] b2"
    by (auto simp: add_raw_def res_simps)
  from put_fields_ok [OF s(2) lf] obtain m where "extends b1 b2 m" by blast
  with s(3) have "b_buf b' = b_buf b1 @ m @ [CHR ''}'']" "b_entries b' = b_entries b1" "b_spans b' = b_spans b1"
    by (auto dest!: extends_buf)
  with begin_question_ok [OF s(1)] QRaw show ?thesis by (auto intro!: tables_add [OF t])
qed

lemma rfold_add_tables:
  "rfold (add_question leaf) qs b = Inr b' \<Longrightarrow> leaf_ok leaf \<Longrightarrow> tables b es \<Longrightarrow>
     tables b' (es @ map expected_entry qs)"
proof (induction qs arbitrary: b es)
  case (Cons q qs)
  from Cons.prems(1) obtain b1 where b1: "add_question leaf q b = Inr b1"
    "rfold (add_question leaf) qs b1 = Inr b'" by (auto simp: res_simps)
  from Cons.IH [OF b1(2) Cons.prems(2) add_question_tables [OF b1(1) Cons.prems(3,2)]] show ?case by simp
qed simp

lemma build_tables:
  assumes "build leaf qs = Inr b" and "leaf_ok leaf"
  shows "p_entries (finish b) = map expected_entry qs"
proof -
  have "tables empty_builder []" by (simp add: tables_def empty_builder_def)
  from rfold_add_tables [OF assms(1) [unfolded build_def] assms(2) this]
  have t: "tables b (map expected_entry qs)" by simp
  show ?thesis
  proof (cases "b_buf b = []")
    case True
    with t have "fold (set_level_json ([] @ [CHR ''{'', CHR ''}''])) (b_spans b) (b_entries b) = map expected_entry qs"
      unfolding tables_def by metis
    with True show ?thesis by (simp add: finish_def prepared_init_def Let_def)
  next
    case False
    with t show ?thesis by (simp add: finish_def prepared_init_def tables_def Let_def)
  qed
qed

section \<open>Properties\<close>

text \<open>whatever questions are added, in whatever order and of whatever kind, the finished
  \<open>questions\<close> member is one compact JSON object that \<open>AppendJSON\<close> accepts and copies byte for
  byte.\<close>

theorem build_questions_json:
  assumes "build leaf qs = Inr b" and "leaf_ok leaf"
  shows "append_json [] (p_questions (finish b)) = Inr (p_questions (finish b))"
proof -
  have "jval (p_questions (finish b)) (p_questions (finish b))"
    using finish_jval [OF build_inv [OF assms]] .
  then show ?thesis
    unfolding append_json_iff by (intro exI [of _ "[]"] exI [of _ "p_questions (finish b)"]) simp
qed

theorem build_questions_json_witness:
  "\<exists>b. build (None :: unit leaf option) [QNoul ''q'' None None None] = Inr b \<and>
    append_json [] (p_questions (finish b)) = Inr (p_questions (finish b))"
proof -
  let ?qs = "[QNoul ''q'' None None None] :: unit question list"
  obtain b where b: "build None ?qs = Inr b"
    by (simp add: build_def empty_builder_def add_noul_def begin_question_def put_string_def
        append_string_eq put_member_def put_bytes_def)
  have "leaf_ok (None :: unit leaf option)" by (simp add: leaf_ok_def)
  with build_questions_json [OF b] b show ?thesis by blast
qed

text \<open>the tables of the finished set are those of the questions in order: each question
  has its name, kind, option labels and levels, and every structured level has become its
  compact JSON, the slice of the serialised form the builder's spans point at.\<close>

theorem build_tables_expected:
  assumes "build leaf qs = Inr b" and "leaf_ok leaf"
  shows "p_entries (finish b) = map expected_entry qs"
  by (rule build_tables [OF assms])

theorem build_tables_expected_witness:
  "\<exists>b. build (None :: unit leaf option) [QNoul ''q'' None None None, QChoice ''c'' None [''x''] (\<lambda>_. None)] = Inr b \<and>
    p_entries (finish b) =
      [\<lparr>pq_name = ''q'', pq_kind = KindNoul, pq_options = [], pq_levels = []\<rparr>,
       \<lparr>pq_name = ''c'', pq_kind = KindChoice, pq_options = [''x''], pq_levels = []\<rparr>]"
proof -
  let ?qs = "[QNoul ''q'' None None None, QChoice ''c'' None [''x''] (\<lambda>_. None)] :: unit question list"
  obtain b where b: "build None ?qs = Inr b"
    by (simp add: build_def empty_builder_def add_noul_def add_choice_def begin_question_def
        put_string_def append_string_eq put_member_def put_bytes_def)
  have "leaf_ok (None :: unit leaf option)" by (simp add: leaf_ok_def)
  with build_tables_expected [OF b] b show ?thesis by simp
qed

text \<open>a lookup in a prepared set whose question names are distinct finds exactly the
  question of that name, with the index of a large set or without it.\<close>

theorem prepared_lookup_correct:
  assumes "distinct (map pq_name es)"
  shows "prepared_lookup (prepared_init q es) name = map_of (map (\<lambda>e. (pq_name e, e)) es) name"
  using prep.search_scan [OF prepared_init_inv [OF assms], of q name]
  by (simp add: prepared_lookup_def map_of_find_index prepared_init_def)

theorem prepared_lookup_correct_witness:
  "prepared_lookup (prepared_init [] [expected_entry (QNoul ''a'' None None None)]) ''a'' =
   Some (expected_entry (QNoul ''a'' None None None))"
  using prepared_lookup_correct [of "[expected_entry (QNoul ''a'' None None None)]" "[]" "''a''"] by simp

end
