(* ===== verification/Wire_Payload.thy ===== *)
theory Wire_Payload
  imports Wire_Answers Wire_Value Wire_Prepared
begin

text \<open>
  The payload writer, \<open>internal/wire/payload.go\<close>: decoded values written back as JSON in the
  layout of the Python SDK's models, and the sizes its buffers are grown to. Whatever is
  written is one JSON value, provided the structured legend levels hold JSON.
\<close>

section \<open>The fixed text\<close>

text \<open>A member name as it stands in a payload: quoted, with its colon.\<close>

definition open_member :: "bytes \<Rightarrow> bytes" where
  "open_member k = CHR ''{'' # name_literal k"

definition next_member :: "bytes \<Rightarrow> bytes" where
  "next_member k = CHR '','' # name_literal k"

definition type_prefix :: "bytes \<Rightarrow> bytes \<Rightarrow> bytes" where
  "type_prefix typ k = open_member ''type'' @ quoted typ @ next_member k"

section \<open>The writers\<close>

type_synonym payload_res = "raw_error + bytes"

definition put_str :: "bytes \<Rightarrow> bytes \<Rightarrow> payload_res" where
  "put_str dst s = rmap_err WireErr (append_string dst s)"

definition append_count :: "bytes \<Rightarrow> 64 word \<Rightarrow> bool \<Rightarrow> bytes" where
  "append_count dst n present = dst @ (if present then show_nat (unat n) else ''null'')"

definition append_usage :: "bytes \<Rightarrow> usage \<Rightarrow> bytes" where
  "append_usage dst u =
     append_count (append_count (dst @ open_member ''input_tokens'') (u_input u) (u_has_input u) @
       next_member ''output_tokens'') (u_output u) (u_has_output u) @ [CHR ''}'']"

definition append_model_card :: "bytes \<Rightarrow> model_card \<Rightarrow> payload_res" where
  "append_model_card dst c =
     rbind (put_str (dst @ open_member ''name'') (mc_name c)) (\<lambda>dst.
     rbind (put_str (dst @ next_member ''description'') (mc_description c)) (\<lambda>dst.
     rbind (put_str (dst @ next_member ''release_date'') (mc_release_date c)) (\<lambda>dst.
     Inr (dst @ [CHR ''}'']))))"

definition append_noul :: "bytes \<Rightarrow> noul_answer \<Rightarrow> payload_res" where
  "append_noul dst a =
     rbind (append_float (dst @ type_prefix ''noul'' ''noul'') (noul a) 64) (\<lambda>dst.
     Inr (dst @ [CHR ''}'']))"

fun append_label_probs :: "nat \<Rightarrow> label_probability list \<Rightarrow> bytes \<Rightarrow> payload_res" where
  "append_label_probs i [] dst = Inr dst"
| "append_label_probs i (p # ps) dst =
     rbind (put_str (comma i dst) (lp_label p)) (\<lambda>dst.
     rbind (append_float (dst @ '':'') (lp_probability p) 64) (append_label_probs (Suc i) ps))"

definition append_choice :: "bytes \<Rightarrow> choice_answer \<Rightarrow> payload_res" where
  "append_choice dst a =
     rbind (put_str (dst @ type_prefix ''choice'' ''choice'') (choice a)) (\<lambda>dst.
     rbind (append_float (dst @ next_member ''confidence'') (choice_confidence a) 64) (\<lambda>dst.
     rbind (append_label_probs 0 (choice_probabilities a)
              (dst @ next_member ''probabilities'' @ [CHR ''{''])) (\<lambda>dst.
     Inr (dst @ [CHR ''}'', CHR ''}'']))))"

definition append_level :: "bytes \<Rightarrow> 32 word \<Rightarrow> bytes" where
  "append_level dst l = dst @ name_literal (show_nat (unat l))"

fun append_legend :: "nat \<Rightarrow> legend_entry list \<Rightarrow> bytes \<Rightarrow> payload_res" where
  "append_legend i [] dst = Inr dst"
| "append_legend i (e # es) dst =
     (let dst = append_level (comma i dst) (le_level e) in
      case cjson (le_description e) of
        None \<Rightarrow> rbind (put_str dst (ctext (le_description e))) (append_legend (Suc i) es)
      | Some j \<Rightarrow> if j = [] then Inl (WireErr ErrContentShape) else append_legend (Suc i) es (dst @ j))"

fun append_level_probs :: "nat \<Rightarrow> level_probability list \<Rightarrow> bytes \<Rightarrow> payload_res" where
  "append_level_probs i [] dst = Inr dst"
| "append_level_probs i (p # ps) dst =
     rbind (append_float (append_level (comma i dst) (vp_level p)) (vp_probability p) 64)
       (append_level_probs (Suc i) ps)"

definition append_score :: "bytes \<Rightarrow> score_answer \<Rightarrow> payload_res" where
  "append_score dst a =
     rbind (append_float (dst @ type_prefix ''score'' ''score'') (score a) 64) (\<lambda>dst.
     rbind (append_float (dst @ next_member ''confidence'') (score_confidence a) 64) (\<lambda>dst.
     rbind (append_legend 0 (legend a) (dst @ next_member ''legend'' @ [CHR ''{''])) (\<lambda>dst.
     rbind (append_level_probs 0 (score_probabilities a)
              (dst @ [CHR ''}''] @ next_member ''probabilities'' @ [CHR ''{''])) (\<lambda>dst.
     Inr (dst @ [CHR ''}'', CHR ''}''])))))"

definition append_answer :: "bytes \<Rightarrow> answer \<Rightarrow> payload_res" where
  "append_answer dst a =
     (case ans_kind a of
        KindNoul \<Rightarrow> append_noul dst (ans_noul a)
      | KindChoice \<Rightarrow> append_choice dst (ans_choice a)
      | KindScore \<Rightarrow> append_score dst (ans_score a)
      | KindUnknown \<Rightarrow> Inr (dst @ ''null''))"

fun append_entries :: "bool \<Rightarrow> answer_entry list \<Rightarrow> bytes \<Rightarrow> payload_res" where
  "append_entries first [] dst = Inr dst"
| "append_entries first (e # es) dst =
     (if ans_kind (ae_answer e) = KindUnknown then append_entries first es dst
      else
        rbind (put_str (if first then dst else dst @ '','') (ae_name e)) (\<lambda>dst.
        rbind (append_answer (dst @ '':'') (ae_answer e)) (append_entries False es)))"

definition entries_or_nil :: "answers option \<Rightarrow> answer_entry list" where
  "entries_or_nil s = (case s of None \<Rightarrow> [] | Some s \<Rightarrow> as_entries s)"

definition append_answers :: "bytes \<Rightarrow> answers option \<Rightarrow> payload_res" where
  "append_answers dst s =
     rbind (append_entries True (entries_or_nil s) (dst @ [CHR ''{''])) (\<lambda>dst. Inr (dst @ [CHR ''}'']))"

definition append_system_one_result :: "bytes \<Rightarrow> system_one_result \<Rightarrow> payload_res" where
  "append_system_one_result dst r =
     rbind (put_str (dst @ open_member ''model'') (so_model r)) (\<lambda>dst.
     rbind (append_answers (append_usage (dst @ next_member ''usage'') (so_usage r) @ next_member ''answers'')
              (Some (so_answers r))) (\<lambda>dst.
     Inr (dst @ [CHR ''}''])))"

fun append_cards :: "nat \<Rightarrow> model_card list \<Rightarrow> bytes \<Rightarrow> payload_res" where
  "append_cards i [] dst = Inr dst"
| "append_cards i (c # cs) dst = rbind (append_model_card (comma i dst) c) (append_cards (Suc i) cs)"

definition append_model_list :: "bytes \<Rightarrow> model_card list \<Rightarrow> payload_res" where
  "append_model_list dst cards =
     rbind (append_cards 0 cards (dst @ open_member ''models'' @ ''['')) (\<lambda>dst. Inr (dst @ CHR '']'' # [CHR ''}'']))"

section \<open>Objects built member by member\<close>

text \<open>\<open>json_text t\<close>: \<open>t\<close> spells one JSON value; \<open>more_members\<close>: members after the first, each
  with its comma.\<close>

definition json_text :: "bytes \<Rightarrow> bool" where
  "json_text t \<longleftrightarrow> (\<exists>c. jval c t)"

definition more_members :: "bytes \<Rightarrow> bool" where
  "more_members t \<longleftrightarrow> (\<exists>c. jmembers c t)"

definition more_elems :: "bytes \<Rightarrow> bool" where
  "more_elems t \<longleftrightarrow> (\<exists>c. jelems c t)"

lemma json_text_str: "str_tok t \<Longrightarrow> json_text t"
  by (auto simp: json_text_def intro: J_str)

lemma json_text_num: "num_tok t \<Longrightarrow> json_text t"
  by (auto simp: json_text_def intro: J_num)

lemma more_members_Nil [simp]: "more_members []"
  using J_members0 [of "[]"] by (auto simp: more_members_def)

lemma more_members_Cons:
  "str_tok k \<Longrightarrow> json_text v \<Longrightarrow> more_members t \<Longrightarrow> more_members (CHR '','' # k @ CHR '':'' # v @ t)"
  unfolding more_members_def json_text_def
  using J_members [of "[]" "[]" k "[]" "[]"] by fastforce

lemma object_text:
  "str_tok k \<Longrightarrow> json_text v \<Longrightarrow> more_members t \<Longrightarrow> json_text (CHR ''{'' # k @ CHR '':'' # v @ t @ [CHR ''}''])"
  unfolding more_members_def json_text_def
  using J_obj [of "[]" k "[]" "[]"] by fastforce

lemma empty_object_text: "json_text [CHR ''{'', CHR ''}'']"
  using J_obj0 [of "[]"] by (auto simp: json_text_def)

lemma more_elems_Nil [simp]: "more_elems []"
  using J_elems0 [of "[]"] by (auto simp: more_elems_def)

lemma more_elems_Cons: "json_text v \<Longrightarrow> more_elems t \<Longrightarrow> more_elems (CHR '','' # v @ t)"
  unfolding more_elems_def json_text_def using J_elems [of "[]" "[]"] by fastforce

lemma array_text: "json_text v \<Longrightarrow> more_elems t \<Longrightarrow> json_text (CHR ''['' # v @ t @ '']'')"
  unfolding more_elems_def json_text_def using J_arr [of "[]"] by fastforce

lemma empty_array_text: "json_text ''[]''"
  using J_arr0 [of "[]"] by (auto simp: json_text_def)

text \<open>The members a loop writes from its \<open>i\<close>-th on.\<close>

definition loop_members :: "bool \<Rightarrow> bytes \<Rightarrow> bool" where
  "loop_members first t \<longleftrightarrow> (if first then json_text (CHR ''{'' # t @ [CHR ''}'']) else more_members t)"

lemma loop_members_Nil [simp]: "loop_members first []"
  by (simp add: loop_members_def empty_object_text)

lemma loop_members_Cons:
  "str_tok k \<Longrightarrow> json_text v \<Longrightarrow> loop_members False t \<Longrightarrow>
     loop_members first ((if first then [] else '','') @ k @ CHR '':'' # v @ t)"
  using object_text [of k v t] more_members_Cons [of k v t] by (auto simp: loop_members_def)

definition loop_elems :: "bool \<Rightarrow> bytes \<Rightarrow> bool" where
  "loop_elems first t \<longleftrightarrow> (if first then json_text (CHR ''['' # t @ '']'') else more_elems t)"

lemma loop_elems_Nil [simp]: "loop_elems first []"
  by (simp add: loop_elems_def empty_array_text)

lemma loop_elems_Cons:
  "json_text v \<Longrightarrow> loop_elems False t \<Longrightarrow> loop_elems first ((if first then [] else '','') @ v @ t)"
  using array_text [of v t] more_elems_Cons [of v t] by (auto simp: loop_elems_def)

lemma put_str_ok: "put_str dst s = Inr out \<Longrightarrow> \<exists>t. out = dst @ t \<and> str_tok t"
  by (auto simp: put_str_def res_simps dest: append_string_str_tok)

lemma digits_plain: "list_all is_digit ds \<Longrightarrow> list_all plain_char ds"
  by (induction ds) (auto simp: plain_char_def is_digit_def byte_between_def)

lemma level_name: "str_tok (quoted (show_nat n))"
  by (intro str_tok_plain digits_plain show_nat_digits)

lemma payload_names [simp]:
  "str_tok (quoted ''noul'')" "str_tok (quoted ''choice'')" "str_tok (quoted ''score'')"
  "str_tok (quoted ''confidence'')" "str_tok (quoted ''probabilities'')" "str_tok (quoted ''legend'')"
  "str_tok (quoted ''model'')" "str_tok (quoted ''usage'')" "str_tok (quoted ''answers'')"
  "str_tok (quoted ''input_tokens'')" "str_tok (quoted ''output_tokens'')" "str_tok (quoted ''models'')"
  "str_tok (quoted ''name'')" "str_tok (quoted ''description'')" "str_tok (quoted ''release_date'')"
  by (rule str_tok_plain, simp add: plain_char_def byte_between_def)+

section \<open>Each writer writes a JSON value\<close>

lemma append_count_num: "\<exists>t. append_count dst n p = dst @ t \<and> json_text t"
  using show_nat_token [of "[]" "unat n"]
  by (cases p) (auto simp: append_count_def json_text_def intro: J_num J_lit)

lemma append_usage_text: "\<exists>t. append_usage dst u = dst @ t \<and> json_text t"
proof -
  obtain a where a: "append_count (dst @ open_member ''input_tokens'') (u_input u) (u_has_input u) =
      (dst @ open_member ''input_tokens'') @ a" "json_text a" using append_count_num by blast
  obtain b where b: "append_count (((dst @ open_member ''input_tokens'') @ a) @ next_member ''output_tokens'')
      (u_output u) (u_has_output u) =
      (((dst @ open_member ''input_tokens'') @ a) @ next_member ''output_tokens'') @ b" "json_text b"
    using append_count_num by blast
  from object_text [OF payload_names(10) a(2) more_members_Cons [OF payload_names(11) b(2) more_members_Nil]]
  show ?thesis
    unfolding append_usage_def a(1) b(1) by (auto simp: open_member_def next_member_def name_literal_def)
qed

lemma append_model_card_text:
  assumes "append_model_card dst c = Inr out"
  shows "\<exists>t. out = dst @ t \<and> json_text t"
proof -
  from assms obtain d1 d2 d3 where d: "put_str (dst @ open_member ''name'') (mc_name c) = Inr d1"
    "put_str (d1 @ next_member ''description'') (mc_description c) = Inr d2"
    "put_str (d2 @ next_member ''release_date'') (mc_release_date c) = Inr d3" "out = d3 @ [CHR ''}'']"
    by (auto simp: append_model_card_def res_simps)
  from d(1-3)[THEN put_str_ok] obtain x y z where t: "d1 = (dst @ open_member ''name'') @ x" "str_tok x"
    "d2 = (d1 @ next_member ''description'') @ y" "str_tok y"
    "d3 = (d2 @ next_member ''release_date'') @ z" "str_tok z" by blast
  note t(2,4,6)[THEN json_text_str]
  from object_text [OF payload_names(13) this(1) more_members_Cons [OF payload_names(14) this(2)
        more_members_Cons [OF payload_names(15) this(3) more_members_Nil]]]
  show ?thesis using t d(4) by (auto simp: open_member_def next_member_def name_literal_def)
qed

lemma append_noul_text:
  assumes "append_noul dst a = Inr out"
  shows "\<exists>t. out = dst @ t \<and> json_text t"
proof -
  from assms obtain d where d: "append_float (dst @ type_prefix ''noul'' ''noul'') (noul a) 64 = Inr d"
    "out = d @ [CHR ''}'']" by (auto simp: append_noul_def res_simps)
  from append_float_token [OF d(1)] obtain t where t: "d = (dst @ type_prefix ''noul'' ''noul'') @ t" "num_tok t"
    by blast
  from object_text [OF literal_names(1) json_text_str [OF payload_names(1)]
      more_members_Cons [OF payload_names(1) json_text_num [OF t(2)] more_members_Nil]]
  show ?thesis using t d(2) by (auto simp: type_prefix_def open_member_def next_member_def name_literal_def)
qed

lemma comma_first: "comma i dst = dst @ (if i = 0 then [] else '','')"
  by (simp add: comma_def)

lemma append_label_probs_text:
  "append_label_probs i ps dst = Inr out \<Longrightarrow> \<exists>t. out = dst @ t \<and> loop_members (i = 0) t"
proof (induction i ps dst rule: append_label_probs.induct)
  case (2 i p ps dst)
  from "2.prems" obtain d1 d2 where d: "put_str (comma i dst) (lp_label p) = Inr d1"
    "append_float (d1 @ '':'') (lp_probability p) 64 = Inr d2" "append_label_probs (Suc i) ps d2 = Inr out"
    by (auto simp: res_simps)
  from put_str_ok [OF d(1)] append_float_token [OF d(2)] obtain k v where
    k: "d1 = comma i dst @ k" "str_tok k" "d2 = (d1 @ '':'') @ v" "num_tok v" by blast
  from "2.IH" [OF d(3)] obtain t where "out = d2 @ t" "loop_members False t" by auto
  with k loop_members_Cons [OF k(2) json_text_num [OF k(4)], of t "i = 0"] show ?case
    by (auto simp: comma_first)
qed simp

lemma type_prefix_object:
  assumes "str_tok (quoted typ)" and "str_tok (quoted k)" and "json_text v" and "more_members m"
  shows "json_text (type_prefix typ k @ v @ m @ [CHR ''}''])"
  using object_text [OF literal_names(1) json_text_str [OF assms(1)] more_members_Cons [OF assms(2-4)]]
  by (simp add: type_prefix_def open_member_def next_member_def name_literal_def)

lemma next_member_more:
  "str_tok (quoted k) \<Longrightarrow> json_text v \<Longrightarrow> more_members m \<Longrightarrow> more_members (next_member k @ v @ m)"
  using more_members_Cons [of "quoted k" v m] by (simp add: next_member_def name_literal_def)

lemma next_member_object:
  "str_tok (quoted k) \<Longrightarrow> loop_members True t \<Longrightarrow> more_members m \<Longrightarrow>
     more_members (next_member k @ CHR ''{'' # t @ CHR ''}'' # m)"
  using next_member_more [of k "CHR ''{'' # t @ [CHR ''}'']" m] by (simp add: loop_members_def)

lemma append_choice_text:
  assumes "append_choice dst a = Inr out"
  shows "\<exists>t. out = dst @ t \<and> json_text t"
proof -
  from assms obtain d1 d2 d3 where d: "put_str (dst @ type_prefix ''choice'' ''choice'') (choice a) = Inr d1"
    "append_float (d1 @ next_member ''confidence'') (choice_confidence a) 64 = Inr d2"
    "append_label_probs 0 (choice_probabilities a) (d2 @ next_member ''probabilities'' @ [CHR ''{'']) = Inr d3"
    "out = d3 @ [CHR ''}'', CHR ''}'']" by (auto simp: append_choice_def res_simps)
  from put_str_ok [OF d(1)] append_float_token [OF d(2)] append_label_probs_text [OF d(3)]
  obtain x y t where t: "d1 = (dst @ type_prefix ''choice'' ''choice'') @ x" "str_tok x"
    "d2 = (d1 @ next_member ''confidence'') @ y" "num_tok y"
    "d3 = (d2 @ next_member ''probabilities'' @ [CHR ''{'']) @ t" "loop_members True t" by auto
  from type_prefix_object [OF payload_names(2) payload_names(2) json_text_str [OF t(2)]
      next_member_more [OF payload_names(4) json_text_num [OF t(4)]
        next_member_object [OF payload_names(5) t(6) more_members_Nil]]]
  show ?thesis using t(1,3,5) d(4) by auto
qed

definition legend_texts :: "legend_entry list \<Rightarrow> bool" where
  "legend_texts es \<longleftrightarrow> (\<forall>e \<in> set es. \<forall>j. cjson (le_description e) = Some j \<longrightarrow> j \<noteq> [] \<longrightarrow> json_text j)"

lemma append_level_eq: "append_level dst l = dst @ quoted (show_nat (unat l)) @ '':''"
  by (simp add: append_level_def name_literal_def)

lemma append_legend_text:
  "append_legend i es dst = Inr out \<Longrightarrow> legend_texts es \<Longrightarrow> \<exists>t. out = dst @ t \<and> loop_members (i = 0) t"
proof (induction i es dst rule: append_legend.induct)
  case (2 i e es dst)
  let ?d = "append_level (comma i dst) (le_level e)"
  have "\<exists>v t. json_text v \<and> out = (?d @ v) @ t \<and> loop_members False t"
  proof (cases "cjson (le_description e)")
    case None
    with "2.prems"(1) obtain d2 where d2: "put_str ?d (ctext (le_description e)) = Inr d2"
      "append_legend (Suc i) es d2 = Inr out" by (auto simp: Let_def res_simps)
    from "2.IH"(1) [OF refl None d2(2)] "2.prems"(2) obtain t where "out = d2 @ t" "loop_members False t"
      by (auto simp: legend_texts_def)
    with put_str_ok [OF d2(1)] json_text_str show ?thesis by blast
  next
    case (Some j)
    with "2.prems" have j: "j \<noteq> []" "append_legend (Suc i) es (?d @ j) = Inr out" "json_text j"
      by (auto simp: Let_def legend_texts_def split: if_splits)
    from "2.IH"(2) [OF refl Some j(1,2)] "2.prems"(2) obtain t where "out = (?d @ j) @ t" "loop_members False t"
      by (auto simp: legend_texts_def)
    with j(3) show ?thesis by blast
  qed
  then obtain v t where v: "json_text v" "out = (?d @ v) @ t" "loop_members False t" by blast
  with loop_members_Cons [OF level_name v(1,3), of "i = 0" "unat (le_level e)"] show ?case
    by (auto simp: comma_first append_level_eq)
qed simp

lemma append_level_probs_text:
  "append_level_probs i ps dst = Inr out \<Longrightarrow> \<exists>t. out = dst @ t \<and> loop_members (i = 0) t"
proof (induction i ps dst rule: append_level_probs.induct)
  case (2 i p ps dst)
  let ?d = "append_level (comma i dst) (vp_level p)"
  from "2.prems" obtain d2 where d: "append_float ?d (vp_probability p) 64 = Inr d2"
    "append_level_probs (Suc i) ps d2 = Inr out" by (auto simp: res_simps)
  from append_float_token [OF d(1)] obtain v where v: "d2 = ?d @ v" "num_tok v" by blast
  from "2.IH" [OF d(2)] obtain t where "out = d2 @ t" "loop_members False t" by auto
  with v loop_members_Cons [OF level_name json_text_num [OF v(2)], of t "i = 0" "unat (vp_level p)"] show ?case
    by (auto simp: comma_first append_level_eq)
qed simp

lemma append_score_text:
  assumes "append_score dst a = Inr out" and "legend_texts (legend a)"
  shows "\<exists>t. out = dst @ t \<and> json_text t"
proof -
  from assms(1) obtain d1 d2 d3 d4 where d: "append_float (dst @ type_prefix ''score'' ''score'') (score a) 64 = Inr d1"
    "append_float (d1 @ next_member ''confidence'') (score_confidence a) 64 = Inr d2"
    "append_legend 0 (legend a) (d2 @ next_member ''legend'' @ [CHR ''{'']) = Inr d3"
    "append_level_probs 0 (score_probabilities a)
      (d3 @ [CHR ''}''] @ next_member ''probabilities'' @ [CHR ''{'']) = Inr d4"
    "out = d4 @ [CHR ''}'', CHR ''}'']" by (auto simp: append_score_def res_simps)
  from append_float_token [OF d(1)] append_float_token [OF d(2)] append_legend_text [OF d(3) assms(2)]
    append_level_probs_text [OF d(4)]
  obtain x y t u where t: "d1 = (dst @ type_prefix ''score'' ''score'') @ x" "num_tok x"
    "d2 = (d1 @ next_member ''confidence'') @ y" "num_tok y"
    "d3 = (d2 @ next_member ''legend'' @ [CHR ''{'']) @ t" "loop_members True t"
    "d4 = (d3 @ [CHR ''}''] @ next_member ''probabilities'' @ [CHR ''{'']) @ u" "loop_members True u" by auto
  from type_prefix_object [OF payload_names(3) payload_names(3) json_text_num [OF t(2)]
      next_member_more [OF payload_names(4) json_text_num [OF t(4)]
        next_member_object [OF payload_names(6) t(6)
          next_member_object [OF payload_names(5) t(8) more_members_Nil]]]]
  show ?thesis using t(1,3,5,7) d(5) by auto
qed

definition answer_texts :: "answer \<Rightarrow> bool" where
  "answer_texts a \<longleftrightarrow> (ans_kind a = KindScore \<longrightarrow> legend_texts (legend (ans_score a)))"

lemma append_answer_text:
  assumes "append_answer dst a = Inr out" and "answer_texts a"
  shows "\<exists>t. out = dst @ t \<and> json_text t"
proof (cases "ans_kind a")
  case KindUnknown
  moreover have "json_text ''null''" by (auto simp: json_text_def intro: J_lit)
  ultimately show ?thesis using assms(1) by (auto simp: append_answer_def)
qed (use assms in \<open>auto simp: append_answer_def answer_texts_def
    intro: append_noul_text append_choice_text append_score_text\<close>)

lemma append_entries_text:
  "append_entries b es dst = Inr out \<Longrightarrow> \<forall>e \<in> set es. answer_texts (ae_answer e) \<Longrightarrow>
     \<exists>t. out = dst @ t \<and> loop_members b t"
proof (induction b es dst rule: append_entries.induct)
  case (2 b e es dst)
  show ?case
  proof (cases "ans_kind (ae_answer e) = KindUnknown")
    case True
    with "2.IH"(1) [OF True] "2.prems" show ?thesis by simp
  next
    case False
    with "2.prems"(1) obtain d1 d2 where d: "put_str (if b then dst else dst @ '','') (ae_name e) = Inr d1"
      "append_answer (d1 @ '':'') (ae_answer e) = Inr d2" "append_entries False es d2 = Inr out"
      by (auto simp: res_simps)
    from put_str_ok [OF d(1)] append_answer_text [OF d(2)] "2.prems"(2) obtain k v where
      k: "d1 = (if b then dst else dst @ '','') @ k" "str_tok k" "d2 = (d1 @ '':'') @ v" "json_text v" by auto
    from "2.IH"(2) [OF False d(3)] "2.prems"(2) obtain t where "out = d2 @ t" "loop_members False t" by auto
    with k loop_members_Cons [OF k(2,4), of t b] show ?thesis by auto
  qed
qed simp

lemma append_answers_text:
  assumes "append_answers dst s = Inr out" and "\<forall>e \<in> set (entries_or_nil s). answer_texts (ae_answer e)"
  shows "\<exists>t. out = dst @ t \<and> json_text t"
  using assms by (auto simp: append_answers_def res_simps loop_members_def dest!: append_entries_text)

lemma append_cards_text: "append_cards i cs dst = Inr out \<Longrightarrow> \<exists>t. out = dst @ t \<and> loop_elems (i = 0) t"
proof (induction i cs dst rule: append_cards.induct)
  case (2 i c cs dst)
  from "2.prems" obtain d where d: "append_model_card (comma i dst) c = Inr d" "append_cards (Suc i) cs d = Inr out"
    by (auto simp: res_simps)
  from append_model_card_text [OF d(1)] obtain v where v: "d = comma i dst @ v" "json_text v" by blast
  from "2.IH" [OF d(2)] obtain t where "out = d @ t" "loop_elems False t" by auto
  with v loop_elems_Cons [OF v(2), of t "i = 0"] show ?case by (auto simp: comma_first)
qed simp

lemma open_member_object:
  "str_tok (quoted k) \<Longrightarrow> json_text v \<Longrightarrow> more_members m \<Longrightarrow> json_text (open_member k @ v @ m @ [CHR ''}''])"
  using object_text [of "quoted k" v m] by (simp add: open_member_def name_literal_def)

lemma append_model_list_text:
  assumes "append_model_list dst cards = Inr out"
  shows "\<exists>t. out = dst @ t \<and> json_text t"
proof -
  from assms obtain d where d: "append_cards 0 cards (dst @ open_member ''models'' @ ''['') = Inr d"
    "out = d @ CHR '']'' # [CHR ''}'']" by (auto simp: append_model_list_def res_simps)
  from append_cards_text [OF d(1)] obtain t where t: "d = (dst @ open_member ''models'' @ ''['') @ t"
    "json_text (CHR ''['' # t @ '']'')" by (auto simp: loop_elems_def)
  from open_member_object [OF payload_names(12) t(2) more_members_Nil] t(1) d(2) show ?thesis by auto
qed

lemma append_system_one_result_text:
  assumes "append_system_one_result dst r = Inr out"
    and "\<forall>e \<in> set (as_entries (so_answers r)). answer_texts (ae_answer e)"
  shows "\<exists>t. out = dst @ t \<and> json_text t"
proof -
  from assms(1) obtain d1 d2 where d: "put_str (dst @ open_member ''model'') (so_model r) = Inr d1"
    "append_answers (append_usage (d1 @ next_member ''usage'') (so_usage r) @ next_member ''answers'')
              (Some (so_answers r)) = Inr d2" "out = d2 @ [CHR ''}'']"
    by (auto simp: append_system_one_result_def res_simps)
  from put_str_ok [OF d(1)] obtain k where k: "d1 = (dst @ open_member ''model'') @ k" "str_tok k" by blast
  obtain u where u: "append_usage (d1 @ next_member ''usage'') (so_usage r) = (d1 @ next_member ''usage'') @ u"
    "json_text u" using append_usage_text by blast
  from append_answers_text [OF d(2)] assms(2) obtain a where
    a: "d2 = (append_usage (d1 @ next_member ''usage'') (so_usage r) @ next_member ''answers'') @ a" "json_text a"
    by (auto simp: entries_or_nil_def)
  from open_member_object [OF payload_names(7) json_text_str [OF k(2)]
      next_member_more [OF payload_names(8) u(2) next_member_more [OF payload_names(9) a(2) more_members_Nil]]]
  show ?thesis using k(1) u(1) a(1) d(3) by auto
qed

section \<open>The sizes the buffers grow to\<close>

definition max_count_len :: nat where
  "max_count_len = 20"

definition max_level_len :: nat where
  "max_level_len = 12"

definition noul_size :: nat where
  "noul_size = length (type_prefix ''noul'' ''noul'') + max_float_len + 1"

definition usage_size :: nat where
  "usage_size = length (open_member ''input_tokens'') + max_count_len +
     length (next_member ''output_tokens'') + max_count_len + 1"

definition string_size :: "bytes \<Rightarrow> nat" where
  "string_size s = length s + 2"

definition model_card_size :: "model_card \<Rightarrow> nat" where
  "model_card_size c = length (open_member ''name'') + string_size (mc_name c) +
     length (next_member ''description'') + string_size (mc_description c) +
     length (next_member ''release_date'') + string_size (mc_release_date c) + 1"

definition model_list_size :: "model_card list \<Rightarrow> nat" where
  "model_list_size cs = length (open_member ''models'') + 1 + 2 + sum_list (map (\<lambda>c. 1 + model_card_size c) cs)"

definition choice_size :: "choice_answer \<Rightarrow> nat" where
  "choice_size a = length (type_prefix ''choice'' ''choice'') + string_size (choice a) +
     length (next_member ''confidence'') + max_float_len + (length (next_member ''probabilities'') + 1) + 2 +
     sum_list (map (\<lambda>p. 1 + string_size (lp_label p) + 1 + max_float_len) (choice_probabilities a))"

definition description_size :: "content \<Rightarrow> nat" where
  "description_size d = (case cjson d of Some j \<Rightarrow> length j | None \<Rightarrow> string_size (ctext d))"

definition score_size :: "score_answer \<Rightarrow> nat" where
  "score_size a = length (type_prefix ''score'' ''score'') + max_float_len +
     length (next_member ''confidence'') + max_float_len + (length (next_member ''legend'') + 1) + 1 +
     (length (next_member ''probabilities'') + 1) + 2 +
     sum_list (map (\<lambda>e. 1 + max_level_len + 1 + description_size (le_description e)) (legend a)) +
     length (score_probabilities a) * (1 + max_level_len + 1 + max_float_len)"

definition answer_size :: "answer \<Rightarrow> nat" where
  "answer_size a =
     (case ans_kind a of
        KindNoul \<Rightarrow> noul_size
      | KindChoice \<Rightarrow> choice_size (ans_choice a)
      | KindScore \<Rightarrow> score_size (ans_score a)
      | KindUnknown \<Rightarrow> 4)"

definition answers_size :: "answers option \<Rightarrow> nat" where
  "answers_size s = 2 + sum_list (map (\<lambda>e. 1 + string_size (ae_name e) + 1 + answer_size (ae_answer e)) (entries_or_nil s))"

definition system_one_result_size :: "system_one_result \<Rightarrow> nat" where
  "system_one_result_size r = length (open_member ''model'') + string_size (so_model r) +
     length (next_member ''usage'') + usage_size + length (next_member ''answers'') +
     answers_size (Some (so_answers r)) + 1"

text \<open>A string that needs no escape, and the values whose strings need none.\<close>

definition no_escape :: "bytes \<Rightarrow> bool" where
  "no_escape s \<longleftrightarrow> escape s = s"

definition no_escape_answer :: "answer \<Rightarrow> bool" where
  "no_escape_answer a \<longleftrightarrow>
     (ans_kind a = KindChoice \<longrightarrow> no_escape (choice (ans_choice a)) \<and>
        (\<forall>p \<in> set (choice_probabilities (ans_choice a)). no_escape (lp_label p))) \<and>
     (ans_kind a = KindScore \<longrightarrow> (\<forall>e \<in> set (legend (ans_score a)). no_escape (ctext (le_description e))))"

lemma put_str_length: "put_str dst s = Inr out \<Longrightarrow> no_escape s \<Longrightarrow> length out = length dst + string_size s"
  by (auto simp: put_str_def append_string_eq string_size_def no_escape_def res_simps split: if_splits)

lemma append_count_length: "length (append_count dst n p) \<le> length dst + max_count_len"
proof -
  have "unat n < 2 ^ LENGTH(64)" by (rule unsigned_less)
  also have "\<dots> < 10 ^ 20" by simp
  finally have "length (show_nat (unat n)) \<le> 20" by (rule show_nat_length) simp
  then show ?thesis by (simp add: append_count_def max_count_len_def)
qed

lemma append_level_length: "length (append_level dst l) \<le> length dst + max_level_len + 1"
proof -
  have "unat l < 2 ^ LENGTH(32)" by (rule unsigned_less)
  also have "\<dots> < 10 ^ 10" by simp
  finally have "length (show_nat (unat l)) \<le> 10" by (rule show_nat_length) simp
  then show ?thesis by (simp add: append_level_eq quoted_def max_level_len_def)
qed

lemma comma_length: "length (comma i dst) \<le> length dst + 1"
  by (simp add: comma_def)

lemma append_usage_length: "length (append_usage dst u) \<le> length dst + usage_size"
proof -
  let ?d = "append_count (dst @ open_member ''input_tokens'') (u_input u) (u_has_input u)"
  have "length ?d \<le> length dst + length (open_member ''input_tokens'') + max_count_len"
    using append_count_length [of "dst @ open_member ''input_tokens''"] by simp
  moreover have "length (append_count (?d @ next_member ''output_tokens'') (u_output u) (u_has_output u)) \<le>
      length ?d + length (next_member ''output_tokens'') + max_count_len"
    using append_count_length [of "?d @ next_member ''output_tokens''"] by simp
  ultimately show ?thesis by (simp add: append_usage_def usage_size_def)
qed

lemma append_model_card_length:
  assumes "append_model_card dst c = Inr out"
    and "no_escape (mc_name c)" and "no_escape (mc_description c)" and "no_escape (mc_release_date c)"
  shows "length out = length dst + model_card_size c"
  using assms by (auto simp: append_model_card_def model_card_size_def res_simps dest!: put_str_length)

lemma append_noul_length: "append_noul dst a = Inr out \<Longrightarrow> length out \<le> length dst + noul_size"
  by (auto simp: append_noul_def noul_size_def res_simps dest!: append_float_length)

lemma append_label_probs_length:
  "append_label_probs i ps dst = Inr out \<Longrightarrow> \<forall>p \<in> set ps. no_escape (lp_label p) \<Longrightarrow>
    length out \<le> length dst + sum_list (map (\<lambda>p. 1 + string_size (lp_label p) + 1 + max_float_len) ps)"
proof (induction i ps dst rule: append_label_probs.induct)
  case (2 i p ps dst)
  from "2.prems"(1) obtain d1 d2 where d: "put_str (comma i dst) (lp_label p) = Inr d1"
    "append_float (d1 @ '':'') (lp_probability p) 64 = Inr d2" "append_label_probs (Suc i) ps d2 = Inr out"
    by (auto simp: res_simps)
  from put_str_length [OF d(1)] append_float_length [OF d(2)] "2.IH" [OF d(3)] "2.prems"(2) comma_length [of i dst]
  show ?case by simp
qed simp

lemma append_choice_length:
  assumes "append_choice dst a = Inr out" and "no_escape (choice a)"
    and "\<forall>p \<in> set (choice_probabilities a). no_escape (lp_label p)"
  shows "length out \<le> length dst + choice_size a"
proof -
  from assms(1) obtain d1 d2 d3 where d: "put_str (dst @ type_prefix ''choice'' ''choice'') (choice a) = Inr d1"
    "append_float (d1 @ next_member ''confidence'') (choice_confidence a) 64 = Inr d2"
    "append_label_probs 0 (choice_probabilities a) (d2 @ next_member ''probabilities'' @ [CHR ''{'']) = Inr d3"
    "out = d3 @ [CHR ''}'', CHR ''}'']" by (auto simp: append_choice_def res_simps)
  from put_str_length [OF d(1) assms(2)] append_float_length [OF d(2)]
    append_label_probs_length [OF d(3) assms(3)] d(4)
  show ?thesis by (simp add: choice_size_def)
qed

lemma append_legend_length:
  "append_legend i es dst = Inr out \<Longrightarrow> \<forall>e \<in> set es. no_escape (ctext (le_description e)) \<Longrightarrow>
    length out \<le> length dst + sum_list (map (\<lambda>e. 1 + max_level_len + 1 + description_size (le_description e)) es)"
proof (induction i es dst rule: append_legend.induct)
  case (2 i e es dst)
  let ?d = "append_level (comma i dst) (le_level e)"
  have l: "length ?d \<le> length dst + 1 + max_level_len + 1"
    using append_level_length [of "comma i dst" "le_level e"] comma_length [of i dst] by linarith
  show ?case
  proof (cases "cjson (le_description e)")
    case None
    with "2.prems"(1) obtain d2 where d2: "put_str ?d (ctext (le_description e)) = Inr d2"
      "append_legend (Suc i) es d2 = Inr out" by (auto simp: Let_def res_simps)
    from "2.IH"(1) [OF refl None d2(2)] put_str_length [OF d2(1)] "2.prems"(2) l None show ?thesis
      by (simp add: description_size_def)
  next
    case (Some j)
    with "2.prems"(1) have j: "j \<noteq> []" "append_legend (Suc i) es (?d @ j) = Inr out"
      by (auto simp: Let_def split: if_splits)
    from "2.IH"(2) [OF refl Some j] "2.prems"(2) l Some show ?thesis
      by (simp add: description_size_def)
  qed
qed simp

lemma append_level_probs_length:
  "append_level_probs i ps dst = Inr out \<Longrightarrow>
    length out \<le> length dst + length ps * (1 + max_level_len + 1 + max_float_len)"
proof (induction i ps dst rule: append_level_probs.induct)
  case (2 i p ps dst)
  let ?d = "append_level (comma i dst) (vp_level p)"
  from "2.prems" obtain d2 where d: "append_float ?d (vp_probability p) 64 = Inr d2"
    "append_level_probs (Suc i) ps d2 = Inr out" by (auto simp: res_simps)
  from append_float_length [OF d(1)] "2.IH" [OF d(2)] append_level_length [of "comma i dst" "vp_level p"]
    comma_length [of i dst]
  show ?case by simp
qed simp

lemma append_score_length:
  assumes "append_score dst a = Inr out" and "\<forall>e \<in> set (legend a). no_escape (ctext (le_description e))"
  shows "length out \<le> length dst + score_size a"
proof -
  from assms(1) obtain d1 d2 d3 d4 where d: "append_float (dst @ type_prefix ''score'' ''score'') (score a) 64 = Inr d1"
    "append_float (d1 @ next_member ''confidence'') (score_confidence a) 64 = Inr d2"
    "append_legend 0 (legend a) (d2 @ next_member ''legend'' @ [CHR ''{'']) = Inr d3"
    "append_level_probs 0 (score_probabilities a)
      (d3 @ [CHR ''}''] @ next_member ''probabilities'' @ [CHR ''{'']) = Inr d4"
    "out = d4 @ [CHR ''}'', CHR ''}'']" by (auto simp: append_score_def res_simps)
  from append_float_length [OF d(1)] append_float_length [OF d(2)] append_legend_length [OF d(3) assms(2)]
    append_level_probs_length [OF d(4)] d(5)
  show ?thesis by (simp add: score_size_def)
qed

lemma append_answer_length:
  assumes "append_answer dst a = Inr out" and "no_escape_answer a"
  shows "length out \<le> length dst + answer_size a"
proof (cases "ans_kind a")
  case KindNoul
  with assms show ?thesis by (auto simp: append_answer_def answer_size_def dest: append_noul_length)
next
  case KindChoice
  with assms show ?thesis
    by (auto simp: append_answer_def answer_size_def no_escape_answer_def intro: append_choice_length)
next
  case KindScore
  with assms show ?thesis
    by (auto simp: append_answer_def answer_size_def no_escape_answer_def intro: append_score_length)
next
  case KindUnknown
  with assms show ?thesis by (auto simp: append_answer_def answer_size_def)
qed

lemma append_entries_length:
  "append_entries b es dst = Inr out \<Longrightarrow>
    \<forall>e \<in> set es. no_escape (ae_name e) \<and> no_escape_answer (ae_answer e) \<Longrightarrow>
    length out \<le> length dst + sum_list (map (\<lambda>e. 1 + string_size (ae_name e) + 1 + answer_size (ae_answer e)) es)"
proof (induction b es dst rule: append_entries.induct)
  case (2 b e es dst)
  show ?case
  proof (cases "ans_kind (ae_answer e) = KindUnknown")
    case True
    with "2.IH"(1) [OF True] "2.prems" show ?thesis by simp
  next
    case False
    with "2.prems"(1) obtain d1 d2 where d: "put_str (if b then dst else dst @ '','') (ae_name e) = Inr d1"
      "append_answer (d1 @ '':'') (ae_answer e) = Inr d2" "append_entries False es d2 = Inr out"
      by (auto simp: res_simps)
    from put_str_length [OF d(1)] append_answer_length [OF d(2)] "2.IH"(2) [OF False d(3)] "2.prems"(2)
    show ?thesis by (simp split: if_splits)
  qed
qed simp

section \<open>Properties\<close>

text \<open>the payload of a System One result is one JSON value, provided the structured legend
  levels hold JSON, as the decoder's do; what \<open>AppendJSON\<close> makes of it shows that it parses.\<close>

theorem system_one_payload_json:
  assumes "append_system_one_result dst r = Inr out"
    and "\<forall>e \<in> set (as_entries (so_answers r)). answer_texts (ae_answer e)"
  shows "\<exists>t c. out = dst @ t \<and> append_json [] t = Inr c"
proof -
  from append_system_one_result_text [OF assms] obtain t c where "out = dst @ t" "jval c t"
    by (auto simp: json_text_def)
  then show ?thesis unfolding append_json_iff by (intro exI [of _ t] exI [of _ c] conjI exI [of _ "[]"]) simp_all
qed

theorem system_one_payload_json_witness:
  "\<exists>t c. append_system_one_result []
      \<lparr>so_model = ''m'', so_usage = zero_usage,
       so_answers = answers_of [(''q'', zero_answer\<lparr>ans_kind := KindNoul\<rparr>)]\<rparr> = Inr t \<and>
    append_json [] t = Inr c"
proof -
  let ?r = "\<lparr>so_model = ''m'', so_usage = zero_usage,
       so_answers = answers_of [(''q'', zero_answer\<lparr>ans_kind := KindNoul\<rparr>)]\<rparr>"
  have z: "is_zero 0" "\<not> is_nan 0" "\<not> is_inf 0" by (simp_all add: is_zero_def is_nan_def is_inf_def f64_exp_def f64_frac_def)
  have e: "as_entries (so_answers ?r) = [\<lparr>ae_name = ''q'', ae_answer = zero_answer\<lparr>ans_kind := KindNoul\<rparr>\<rparr>]"
    by (simp add: answers_of_def answers_put_def answers_find_def empty_answers_def linear_limit_def Let_def)
  obtain out where r: "append_system_one_result [] ?r = Inr out"
    using e z
    by (simp add: append_system_one_result_def put_str_def append_string_eq append_answers_def
        entries_or_nil_def append_answer_def append_noul_def append_float_def zero_answer_def)
  have "\<forall>e \<in> set (as_entries (so_answers ?r)). answer_texts (ae_answer e)"
    unfolding e by (simp add: answer_texts_def)
  from system_one_payload_json [OF r this] r show ?thesis by auto
qed

text \<open>a payload none of whose strings needs an escape fits the size its buffer is grown to
  before it is written, every float and count taken at its longest.\<close>

theorem system_one_payload_size:
  assumes "append_system_one_result dst r = Inr out" and "no_escape (so_model r)"
    and "\<forall>e \<in> set (as_entries (so_answers r)). no_escape (ae_name e) \<and> no_escape_answer (ae_answer e)"
  shows "length out \<le> length dst + system_one_result_size r"
proof -
  from assms(1) obtain d1 d2 where d: "put_str (dst @ open_member ''model'') (so_model r) = Inr d1"
    "append_answers (append_usage (d1 @ next_member ''usage'') (so_usage r) @ next_member ''answers'')
              (Some (so_answers r)) = Inr d2" "out = d2 @ [CHR ''}'']"
    by (auto simp: append_system_one_result_def res_simps)
  let ?u = "append_usage (d1 @ next_member ''usage'') (so_usage r)"
  from d(2) obtain d3 where d3: "append_entries True (as_entries (so_answers r))
      ((?u @ next_member ''answers'') @ [CHR ''{'']) = Inr d3" "d2 = d3 @ [CHR ''}'']"
    by (auto simp: append_answers_def entries_or_nil_def res_simps)
  from append_entries_length [OF d3(1)] assms(3) put_str_length [OF d(1) assms(2)]
    append_usage_length [of "d1 @ next_member ''usage''" "so_usage r"] d(3) d3(2)
  show ?thesis by (simp add: system_one_result_size_def answers_size_def entries_or_nil_def)
qed

theorem system_one_payload_size_witness:
  "\<exists>out. append_system_one_result [] \<lparr>so_model = ''m'', so_usage = zero_usage, so_answers = empty_answers\<rparr> = Inr out \<and>
    length out \<le> system_one_result_size \<lparr>so_model = ''m'', so_usage = zero_usage, so_answers = empty_answers\<rparr>"
proof -
  let ?r = "\<lparr>so_model = ''m'', so_usage = zero_usage, so_answers = empty_answers\<rparr>"
  obtain out where r: "append_system_one_result [] ?r = Inr out"
    by (simp add: append_system_one_result_def put_str_def append_string_eq append_answers_def
        entries_or_nil_def empty_answers_def)
  have "no_escape (so_model ?r)" by (simp add: no_escape_def escape_char_def)
  from system_one_payload_size [OF r this] r show ?thesis by (simp add: empty_answers_def)
qed

end
