(* ===== verification/Engine_Text.thy ===== *)
theory Engine_Text
  imports Utf8
begin

text \<open>
  Text the SDK did not write, \<open>internal/engine/text.go\<close>: names, messages and paths escaped and cut
  before they are printed, the credentials a transport error's text is scrubbed of, and the chain
  of a transport error the SDK keeps or replaces by a stand-in.
\<close>

section \<open>Runes\<close>

text \<open>The characters of a string: a rune, or \<open>None\<close> for a byte that is not UTF-8.\<close>

function runes :: "bytes \<Rightarrow> nat option list" where
  "runes s =
     (if s = [] then []
      else (if rune_bad s then None else Some (fst (decode_rune s))) # runes (drop (rune_size s) s))"
  by pat_completeness auto
termination
  by (relation "measure length") (use drop_rune_shorter in \<open>auto simp del: length_drop\<close>)

declare runes.simps [simp del]

lemma runes_Nil [simp]: "runes [] = []"
  by (subst runes.simps) simp

lemma runes_ascii [simp]: "byte c < 0x80 \<Longrightarrow> runes (c # cs) = Some (byte c) # runes cs"
  by (subst runes.simps) simp

lemma runes_valid: "valid_utf8 s \<longleftrightarrow> None \<notin> set (runes s)"
proof (induction s rule: runes.induct)
  case (1 s)
  show ?case
  proof (cases "s = []")
    case False
    with 1 [OF False] show ?thesis
      by (subst runes.simps) (simp add: valid_utf8_unfold)
  qed simp
qed

lemma runes_append: "valid_utf8 a \<Longrightarrow> runes (a @ b) = runes a @ runes b"
proof (induction a rule: runes.induct)
  case (1 a)
  show ?case
  proof (cases "a = []")
    case False
    with "1.prems" have ok: "\<not> rune_bad a" "valid_utf8 (drop (rune_size a) a)"
      using valid_utf8_unfold [of a] by blast+
    have d: "drop (rune_size a) (a @ b) = drop (rune_size a) a @ b"
      using rune_size_le [of a] by simp
    from False have "runes (a @ b) = (if rune_bad (a @ b) then None else Some (fst (decode_rune (a @ b)))) #
        runes (drop (rune_size (a @ b)) (a @ b))" by (subst runes.simps) simp
    with False ok "1.IH" [OF False ok(2)] show ?thesis
      by (simp add: decode_rune_append rune_bad_append d runes.simps [of a] del: drop_append)
  qed simp
qed

lemma runes_take: "s \<noteq> [] \<Longrightarrow> \<not> rune_bad s \<Longrightarrow> runes (take (rune_size s) s) = [Some (fst (decode_rune s))]"
  using rune_size_pos [of s] rune_size_le [of s]
  by (subst runes.simps) (auto simp: decode_rune_take rune_bad_def)

section \<open>Escaping\<close>

definition max_name_chars :: nat where "max_name_chars = 128"
definition max_message_chars :: nat where "max_message_chars = 200"
definition max_path_chars :: nat where "max_path_chars = 320"
definition max_detail_chars :: nat where "max_detail_chars = 1024"

definition hex_lower :: "nat \<Rightarrow> char" where
  "hex_lower n = ''0123456789abcdef'' ! n"

definition hides_text :: "nat \<Rightarrow> bool" where
  "hides_text r \<longleftrightarrow>
     r = 0x00AD \<or> r = 0x061C \<or> r = 0x180E \<or> r = 0xFEFF \<or>
     0x200B \<le> r \<and> r \<le> 0x200F \<or> 0x2028 \<le> r \<and> r \<le> 0x202E \<or> 0x2060 \<le> r \<and> r \<le> 0x206F \<or>
     0xFFF9 \<le> r \<and> r \<le> 0xFFFB \<or> 0xE0000 \<le> r \<and> r \<le> 0xE007F"

text \<open>\<open>strconv.AppendQuoteRune\<close> of a rune that does not print, without its quotes.\<close>

definition hex_digits :: "nat \<Rightarrow> nat \<Rightarrow> bytes" where
  "hex_digits w r = map (\<lambda>i. hex_lower (r div 16 ^ i mod 16)) (rev [0..<w])"

definition quote_rune :: "nat \<Rightarrow> bytes" where
  "quote_rune r =
     backslash #
     (if r = 7 then ''a'' else if r = 8 then ''b'' else if r = 9 then ''t'' else if r = 10 then ''n''
      else if r = 11 then ''v'' else if r = 12 then ''f'' else if r = 13 then ''r''
      else if r < 0x20 \<or> r = 0x7F then CHR ''x'' # hex_digits 2 r
      else if r < 0x10000 then CHR ''u'' # hex_digits 4 r
      else CHR ''U'' # hex_digits 8 r)"

definition control_rune :: "nat \<Rightarrow> bool" where
  "control_rune r \<longleftrightarrow> r < 0x20 \<or> 0x7F \<le> r \<and> r < 0xA0 \<or> hides_text r"

text \<open>The escape of the first character of a string, if it is written as one.\<close>

definition escape_of :: "bool \<Rightarrow> bytes \<Rightarrow> bytes option" where
  "escape_of double s =
     (let r = fst (decode_rune s) in
      if rune_bad s then Some [backslash, CHR ''x'', hex_lower (byte (hd s) div 16), hex_lower (byte (hd s) mod 16)]
      else if r = byte backslash then (if double then Some [backslash, backslash] else None)
      else if control_rune r then Some (quote_rune r) else None)"

definition piece_of :: "bool \<Rightarrow> bytes \<Rightarrow> bytes" where
  "piece_of double s = (case escape_of double s of Some e \<Rightarrow> e | None \<Rightarrow> take (rune_size s) s)"

definition width_of :: "bool \<Rightarrow> bytes \<Rightarrow> nat" where
  "width_of double s = (case escape_of double s of Some e \<Rightarrow> length e | None \<Rightarrow> 1)"

definition ellipsis :: bytes where
  "ellipsis = encode_rune 0x2026"

function append_safe_from :: "nat \<Rightarrow> bool \<Rightarrow> nat \<Rightarrow> bytes \<Rightarrow> bytes \<Rightarrow> bytes" where
  "append_safe_from limit double n dst s =
     (if s = [] then dst
      else if limit < n + width_of double s then dst @ ellipsis
      else append_safe_from limit double (n + width_of double s) (dst @ piece_of double s) (drop (rune_size s) s))"
  by pat_completeness auto
termination
  by (relation "measure (\<lambda>(limit, double, n, dst, s). length s)") (use drop_rune_shorter in \<open>auto simp del: length_drop\<close>)

declare append_safe_from.simps [simp del]

definition append_safe_text :: "bytes \<Rightarrow> bytes \<Rightarrow> nat \<Rightarrow> bool \<Rightarrow> bytes" where
  "append_safe_text dst s limit double = append_safe_from limit double 0 dst s"

definition quoted_name :: "bytes \<Rightarrow> bytes" where
  "quoted_name name = append_safe_text [CHR 0x22] name max_name_chars True @ [CHR 0x22]"

definition safe_name :: "bytes \<Rightarrow> bytes" where
  "safe_name name = append_safe_text [] name max_name_chars True"

definition safe_message :: "bytes \<Rightarrow> bytes" where
  "safe_message s = append_safe_text [] s max_message_chars False"

section \<open>What is written is safe\<close>

definition safe_rune :: "nat option \<Rightarrow> bool" where
  "safe_rune r \<longleftrightarrow> (case r of None \<Rightarrow> False | Some x \<Rightarrow> \<not> control_rune x)"

definition safe_text :: "bytes \<Rightarrow> bool" where
  "safe_text s \<longleftrightarrow> list_all safe_rune (runes s)"

lemma safe_text_valid: "safe_text s \<Longrightarrow> valid_utf8 s"
  by (auto simp: safe_text_def runes_valid list_all_iff safe_rune_def)

lemma safe_text_append: "safe_text a \<Longrightarrow> safe_text (a @ b) \<longleftrightarrow> safe_text b"
  using safe_text_valid [of a] by (simp add: safe_text_def runes_append)

lemma hex_lower_in: "n < 16 \<Longrightarrow> hex_lower n \<in> set ''0123456789abcdef''"
  unfolding hex_lower_def by (rule nth_mem) simp

lemma hex_lower_byte: "n < 16 \<Longrightarrow> 0x30 \<le> byte (hex_lower n) \<and> byte (hex_lower n) < 0x67"
  using hex_lower_in [of n] by auto

lemma ascii_runes: "list_all (\<lambda>c. byte c < 0x80) s \<Longrightarrow> runes s = map (\<lambda>c. Some (byte c)) s"
  by (induction s) auto

lemma printable_runes: "list_all (\<lambda>c. 0x20 \<le> byte c \<and> byte c < 0x7F) s \<Longrightarrow> safe_text s \<and> length (runes s) = length s"
proof -
  assume s: "list_all (\<lambda>c. 0x20 \<le> byte c \<and> byte c < 0x7F) s"
  then have "runes s = map (\<lambda>c. Some (byte c)) s" by (intro ascii_runes) (auto simp: list_all_iff)
  with s show ?thesis by (auto simp: list_all_iff safe_text_def safe_rune_def control_rune_def hides_text_def)
qed

lemma hex_digits_printable: "list_all (\<lambda>c. 0x20 \<le> byte c \<and> byte c < 0x7F) (hex_digits w r)"
proof -
  have "0x20 \<le> byte (hex_lower (r div 16 ^ i mod 16)) \<and> byte (hex_lower (r div 16 ^ i mod 16)) < 0x7F" for i
    using hex_lower_byte [of "r div 16 ^ i mod 16"] by simp
  then show ?thesis by (auto simp: list_all_iff hex_digits_def)
qed

lemma escape_printable:
  assumes "s \<noteq> []" and "escape_of double s = Some e"
  shows "list_all (\<lambda>c. 0x20 \<le> byte c \<and> byte c < 0x7F) e"
proof -
  have "byte (hd s) div 16 < 16" "byte (hd s) mod 16 < 16" by (simp_all add: less_mult_imp_div_less)
  with hex_lower_byte [of "byte (hd s) div 16"] hex_lower_byte [of "byte (hd s) mod 16"] assms(2) hex_digits_printable
  show ?thesis
    by (auto simp: escape_of_def Let_def quote_rune_def split: if_splits)
qed

lemma piece_runes:
  assumes "s \<noteq> []"
  shows "safe_text (piece_of double s) \<and> length (runes (piece_of double s)) = width_of double s"
proof (cases "escape_of double s")
  case (Some e)
  from printable_runes [OF escape_printable [OF assms Some]] Some show ?thesis by (simp add: piece_of_def width_of_def)
next
  case None
  then have "\<not> rune_bad s" "\<not> control_rune (fst (decode_rune s))"
    by (auto simp: escape_of_def Let_def control_rune_def hides_text_def split: if_splits)
  with None assms show ?thesis
    by (simp add: piece_of_def width_of_def runes_take safe_text_def safe_rune_def)
qed

lemma ellipsis_bytes: "ellipsis = [CHR 0xE2, CHR 0x80, CHR 0xA6]"
  by (simp add: ellipsis_def encode_rune_def char_of_def bit_simps bit_nat_def)

lemma ellipsis_runes: "runes ellipsis = [Some 0x2026]"
proof -
  have d: "decode_rune [CHR 0xE2, CHR 0x80, CHR 0xA6] = (0x2026, 3)"
    by (simp add: utf8_class_def seq_ok_def byte_between_def seq_value_def lead_bits_def)
  show ?thesis
    by (subst runes.simps) (simp add: ellipsis_bytes d rune_bad_def rune_error_def del: decode_rune.simps)
qed

lemma append_safe_from_text:
  "n \<le> limit \<Longrightarrow> \<exists>t. append_safe_from limit double n dst s = dst @ t \<and> safe_text t \<and> n + length (runes t) \<le> Suc limit"
proof (induction limit double n dst s rule: append_safe_from.induct)
  case (1 limit double n dst s)
  show ?case
  proof (cases "s = []")
    case True
    with "1.prems" show ?thesis by (subst append_safe_from.simps) (simp add: safe_text_def)
  next
    case s: False
    show ?thesis
    proof (cases "limit < n + width_of double s")
      case True
      with s "1.prems" ellipsis_runes show ?thesis
        by (subst append_safe_from.simps) (auto simp: safe_text_def safe_rune_def control_rune_def hides_text_def)
    next
      case False
      with "1.IH" [OF s False] obtain t where t: "append_safe_from limit double (n + width_of double s) (dst @ piece_of double s)
          (drop (rune_size s) s) = (dst @ piece_of double s) @ t" "safe_text t"
        "n + width_of double s + length (runes t) \<le> Suc limit" by auto
      from piece_runes [OF s, of double] have p: "safe_text (piece_of double s)"
        "length (runes (piece_of double s)) = width_of double s" by auto
      have "safe_text (piece_of double s @ t) \<and> n + length (runes (piece_of double s @ t)) \<le> Suc limit"
        using t(2,3) p safe_text_append [OF p(1), of t] runes_append [OF safe_text_valid [OF p(1)], of t] by simp
      with s False t(1) show ?thesis
        by (intro exI [of _ "piece_of double s @ t"]) (subst append_safe_from.simps, simp)
    qed
  qed
qed

section \<open>Escaping loses nothing\<close>

text \<open>The characters of two strings whose doubled escapes start the same are the same.\<close>

lemma hex_lower_inject: "m < 16 \<Longrightarrow> n < 16 \<Longrightarrow> hex_lower m = hex_lower n \<longleftrightarrow> m = n"
  unfolding hex_lower_def by (subst nth_eq_iff_index_eq) simp_all

lemma hex_digits_length [simp]: "length (hex_digits w r) = w"
  by (simp add: hex_digits_def)

lemma hex_digits_inject: "hex_digits w r = hex_digits w q \<Longrightarrow> r < 16 ^ w \<Longrightarrow> q < 16 ^ w \<Longrightarrow> r = q"
proof (induction w arbitrary: r q)
  case (Suc w)
  have split: "hex_digits (Suc w) x = hex_digits w (x div 16) @ [hex_lower (x mod 16)]" for x
  proof -
    have "[0..<Suc w] = 0 # map Suc [0..<w]" by (simp add: map_Suc_upt upt_conv_Cons del: upt_Suc)
    then have "rev [0..<Suc w] = map Suc (rev [0..<w]) @ [0]" by (simp add: rev_map del: upt_Suc)
    then show ?thesis by (simp add: hex_digits_def comp_def div_mult2_eq)
  qed
  from Suc.prems(1) have "hex_digits w (r div 16) = hex_digits w (q div 16)" "hex_lower (r mod 16) = hex_lower (q mod 16)"
    by (simp_all add: split)
  moreover have "r div 16 < 16 ^ w" "q div 16 < 16 ^ w" using Suc.prems(2,3) by (simp_all add: less_mult_imp_div_less mult.commute)
  ultimately have "r div 16 = q div 16" "r mod 16 = q mod 16" using Suc.IH hex_lower_inject by auto
  then show ?case by (metis div_mult_mod_eq)
qed simp

definition head_of :: "bytes \<Rightarrow> bytes" where
  "head_of s = take (rune_size s) s"

lemma head_of_bad: "s \<noteq> [] \<Longrightarrow> rune_bad s \<Longrightarrow> head_of s = [hd s]"
  by (cases s) (simp_all add: head_of_def rune_bad_def del: decode_rune.simps)

lemma head_of_good: "s \<noteq> [] \<Longrightarrow> \<not> rune_bad s \<Longrightarrow> head_of s = encode_rune (fst (decode_rune s))"
  by (simp add: head_of_def encode_decode)

lemma bad_byte_high: "s \<noteq> [] \<Longrightarrow> rune_bad s \<Longrightarrow> 0x80 \<le> byte (hd s)"
  by (cases s) (auto intro: leI dest: rune_bad_ascii)

lemma byte_of_nibbles: "byte c div 16 < 16" "byte c mod 16 < 16" "byte c = byte c div 16 * 16 + byte c mod 16"
  using nat_of_char_less_256 [of c] by (simp_all add: less_mult_imp_div_less del: nat_of_char_less_256)

lemma bad_hex_digits: "[hex_lower (byte c div 16), hex_lower (byte c mod 16)] = hex_digits 2 (byte c)"
  using byte_of_nibbles(1) [of c] by (simp add: hex_digits_def upt_rec numeral_2_eq_2)

lemma control_bound: "control_rune r \<Longrightarrow> r < 16 ^ 8"
  by (auto simp: control_rune_def hides_text_def)

definition esc_letter :: "nat \<Rightarrow> char" where
  "esc_letter r =
     (if r = 7 then CHR ''a'' else if r = 8 then CHR ''b'' else if r = 9 then CHR ''t'' else if r = 10 then CHR ''n''
      else if r = 11 then CHR ''v'' else if r = 12 then CHR ''f'' else if r = 13 then CHR ''r''
      else if r < 0x20 \<or> r = 0x7F then CHR ''x'' else if r < 0x10000 then CHR ''u'' else CHR ''U'')"

definition esc_width :: "char \<Rightarrow> nat" where
  "esc_width c = (if c = CHR ''x'' then 2 else if c = CHR ''u'' then 4 else if c = CHR ''U'' then 8 else 0)"

lemma quote_rune_letter: "quote_rune r = backslash # esc_letter r # hex_digits (esc_width (esc_letter r)) r"
  by (simp add: quote_rune_def esc_letter_def esc_width_def hex_digits_def)

lemma esc_letter_bound: "r < 16 ^ 8 \<Longrightarrow> esc_width (esc_letter r) \<noteq> 0 \<Longrightarrow> r < 16 ^ esc_width (esc_letter r)"
  by (auto simp: esc_letter_def esc_width_def split: if_splits)

lemma esc_letter_inject: "esc_letter r = esc_letter q \<Longrightarrow> esc_width (esc_letter r) = 0 \<Longrightarrow> r = q"
  by (auto simp: esc_letter_def esc_width_def split: if_splits)

lemma append_same_length: "length a = length b \<Longrightarrow> a @ u = b @ v \<longleftrightarrow> a = b \<and> u = v"
  by (rule append_eq_append_conv) simp

lemma quote_rune_prefix:
  assumes "r < 16 ^ 8" "q < 16 ^ 8" "quote_rune r @ u = quote_rune q @ v"
  shows "r = q \<and> u = v"
proof -
  from assms(3) have l: "esc_letter r = esc_letter q" by (simp add: quote_rune_letter)
  with assms(3) have "hex_digits (esc_width (esc_letter r)) r = hex_digits (esc_width (esc_letter r)) q" "u = v"
    by (simp_all add: quote_rune_letter append_same_length)
  moreover from this have "r = q"
  proof (cases "esc_width (esc_letter r) = 0")
    case True
    with l show ?thesis by (rule esc_letter_inject)
  next
    case False
    with l assms(1,2) esc_letter_bound [of r] esc_letter_bound [of q] calculation show ?thesis
      using hex_digits_inject by metis
  qed
  ultimately show ?thesis by simp
qed

text \<open>A byte that is not UTF-8 is written as its value, which no control character has.\<close>

lemma bad_not_quote: "0x80 \<le> byte c \<Longrightarrow> backslash # CHR ''x'' # hex_digits 2 (byte c) @ u \<noteq> quote_rune q @ v"
proof
  assume c: "0x80 \<le> byte c" and eq: "backslash # CHR ''x'' # hex_digits 2 (byte c) @ u = quote_rune q @ v"
  then have l: "esc_letter q = CHR ''x''" by (simp add: quote_rune_letter)
  with eq have "hex_digits 2 (byte c) = hex_digits 2 q" by (simp add: quote_rune_letter esc_width_def append_same_length)
  moreover from l have "q < 0x80" by (auto simp: esc_letter_def split: if_splits)
  ultimately have "byte c = q" using hex_digits_inject [of 2 "byte c" q] nat_of_char_less_256 [of c] by simp
  with c \<open>q < 0x80\<close> show False by simp
qed

lemma letter_not_backslash: "esc_letter q \<noteq> backslash"
  by (simp add: esc_letter_def)

lemma head_plain: "s \<noteq> [] \<Longrightarrow> \<not> rune_bad s \<Longrightarrow> fst (decode_rune s) \<noteq> byte backslash \<Longrightarrow>
    \<exists>x xs. head_of s = x # xs \<and> x \<noteq> backslash"
  using rune_size_pos [of s] by (cases s; cases "rune_size s") (auto simp: head_of_def simp del: decode_rune.simps)

lemma piece_cases:
  assumes "s \<noteq> []"
  obtains (bad) "0x80 \<le> byte (hd s)" "head_of s = [hd s]" "piece_of True s = backslash # CHR ''x'' # hex_digits 2 (byte (hd s))"
    | (slash) "head_of s = encode_rune (byte backslash)" "piece_of True s = [backslash, backslash]"
    | (control) r where "r < 16 ^ 8" "head_of s = encode_rune r" "piece_of True s = quote_rune r"
    | (plain) x xs where "\<not> rune_bad s" "head_of s = x # xs" "x \<noteq> backslash" "piece_of True s = head_of s"
proof -
  let ?r = "fst (decode_rune s)"
  show thesis
  proof (cases "rune_bad s")
    case True
    with assms bad_byte_high head_of_bad bad_hex_digits [of "hd s"] show thesis
      by (intro bad) (simp_all add: piece_of_def escape_of_def Let_def)
  next
    case good: False
    note h = head_of_good [OF assms good]
    show thesis
    proof (cases "?r = byte backslash")
      case True
      with good h show thesis by (intro slash) (simp_all add: piece_of_def escape_of_def Let_def)
    next
      case False
      show thesis
      proof (cases "control_rune ?r")
        case True
        with False good h show thesis
          by (intro control [of ?r] control_bound) (simp_all add: piece_of_def escape_of_def Let_def)
      next
        case nc: False
        from head_plain [OF assms good False] obtain x xs where "head_of s = x # xs" "x \<noteq> backslash" by blast
        with good False nc show thesis
          by (intro plain [of x xs]) (simp_all add: piece_of_def escape_of_def Let_def head_of_def)
      qed
    qed
  qed
qed

lemma plain_prefix:
  assumes "s \<noteq> []" "\<not> rune_bad s" "t \<noteq> []" "\<not> rune_bad t" "head_of s @ u = head_of t @ v"
  shows "head_of s = head_of t \<and> u = v"
proof -
  have d: "decode_rune (head_of x @ y) = decode_rune x" if "x \<noteq> []" "\<not> rune_bad x" for x y
  proof -
    have "decode_rune (head_of x) = decode_rune x" unfolding head_of_def using that by (rule decode_rune_take)
    moreover from this that(2) have "\<not> rune_bad (head_of x)" by (simp add: rune_bad_def)
    moreover have "head_of x \<noteq> []" using that(1) rune_size_pos [of x] by (auto simp: head_of_def)
    ultimately show ?thesis by (simp add: decode_rune_append)
  qed
  from d [OF assms(1,2), of u] d [OF assms(3,4), of v] assms(5) have "decode_rune s = decode_rune t" by simp
  then have "length (head_of s) = length (head_of t)"
    using rune_size_le [of s] rune_size_le [of t] by (simp add: head_of_def)
  with assms(5) show ?thesis by (simp add: append_same_length)
qed

lemma piece_prefix:
  assumes "s \<noteq> []" "t \<noteq> []" "piece_of True s @ u = piece_of True t @ v"
  shows "head_of s = head_of t \<and> u = v"
  using assms(1)
proof (cases rule: piece_cases)
  case bad
  from assms(2) show ?thesis
  proof (cases rule: piece_cases)
    case bad': bad
    have "byte (hd s) < 16 ^ 2" "byte (hd t) < 16 ^ 2" using nat_of_char_less_256 by simp_all
    with bad bad' assms(3) hex_digits_inject [of 2 "byte (hd s)" "byte (hd t)"] show ?thesis
      by (simp add: append_same_length)
  next
    case (control r)
    with bad bad_not_quote [OF bad(1), of u r v] assms(3) show ?thesis by simp
  qed (use bad assms(3) in simp_all)
next
  case slash
  from assms(2) show ?thesis
    by (cases rule: piece_cases) (use slash assms(3) letter_not_backslash in \<open>auto simp: quote_rune_letter\<close>)
next
  case (control r)
  from assms(2) show ?thesis
  proof (cases rule: piece_cases)
    case bad
    with control bad_not_quote [OF bad(1), of v r u] assms(3) show ?thesis by simp
  next
    case slash
    with control assms(3) letter_not_backslash [of r] show ?thesis by (simp add: quote_rune_letter)
  next
    case control': (control q)
    from quote_rune_prefix [OF control(1) control'(1), of u v] assms(3) control control' show ?thesis by simp
  qed (use control assms(3) in \<open>simp_all add: quote_rune_letter\<close>)
next
  case (plain x xs)
  from assms(2) show ?thesis
  proof (cases rule: piece_cases)
    case plain': (plain y ys)
    from plain_prefix [OF assms(1) plain(1) assms(2) plain'(1), of u v] assms(3) plain plain' show ?thesis by simp
  qed (use plain assms(3) in \<open>simp_all add: quote_rune_letter\<close>)
qed

text \<open>A text that is not cut.\<close>

function escaped :: "bool \<Rightarrow> bytes \<Rightarrow> bytes" where
  "escaped double s = (if s = [] then [] else piece_of double s @ escaped double (drop (rune_size s) s))"
  by pat_completeness auto
termination
  by (relation "measure (\<lambda>(double, s). length s)") (use drop_rune_shorter in \<open>auto simp del: length_drop\<close>)

declare escaped.simps [simp del]

lemma escaped_Nil [simp]: "escaped double [] = []"
  by (subst escaped.simps) simp

lemma piece_not_Nil: "s \<noteq> [] \<Longrightarrow> piece_of double s \<noteq> []"
  using piece_runes [of s double] rune_size_pos [of s]
  by (auto simp: piece_of_def escape_of_def quote_rune_def Let_def split: option.splits if_splits)

lemma escaped_inject: "escaped True s = escaped True t \<Longrightarrow> s = t"
proof (induction s arbitrary: t rule: runes.induct)
  case (1 s)
  show ?case
  proof (cases "s = [] \<or> t = []")
    case True
    with "1.prems" piece_not_Nil [of s True] piece_not_Nil [of t True] show ?thesis
      by (auto simp: escaped.simps [of True s] escaped.simps [of True t] split: if_splits)
  next
    case False
    with "1.prems" have "piece_of True s @ escaped True (drop (rune_size s) s) = piece_of True t @ escaped True (drop (rune_size t) t)"
      by (simp add: escaped.simps [of True s] escaped.simps [of True t])
    from piece_prefix [OF _ _ this] False have h: "head_of s = head_of t"
      "escaped True (drop (rune_size s) s) = escaped True (drop (rune_size t) t)" by auto
    with "1.IH" [OF _ h(2)] False have "drop (rune_size s) s = drop (rune_size t) t" by simp
    with h(1) show ?thesis unfolding head_of_def by (metis append_take_drop_id)
  qed
qed

lemma hex_encode_length: "0x80 \<le> r \<Longrightarrow> 2 \<le> length (encode_rune r) \<and> (0x10000 \<le> r \<longrightarrow> length (encode_rune r) = 4)"
  by (simp add: encode_rune_def)

lemma width_le: "s \<noteq> [] \<Longrightarrow> width_of double s \<le> 4 * rune_size s"
proof (cases "rune_bad s")
  case True
  then show ?thesis by (auto simp: width_of_def escape_of_def rune_bad_def)
next
  case False
  assume s: "s \<noteq> []"
  from encode_decode [OF s False] have "length (encode_rune (fst (decode_rune s))) = rune_size s"
    using rune_size_le [of s] by simp
  moreover have "control_rune r \<Longrightarrow> \<not> r < 0x20 \<Longrightarrow> r \<noteq> 0x7F \<Longrightarrow> 0x80 \<le> r" for r
    by (auto simp: control_rune_def hides_text_def)
  ultimately show ?thesis using hex_encode_length [of "fst (decode_rune s)"] rune_size_pos [OF s] False
    by (fastforce simp: width_of_def escape_of_def quote_rune_def Let_def split: if_splits)
qed

lemma append_safe_uncut:
  "n + 4 * length s \<le> limit \<Longrightarrow> append_safe_from limit double n dst s = dst @ escaped double s"
proof (induction limit double n dst s rule: append_safe_from.induct)
  case (1 limit double n dst s)
  show ?case
  proof (cases "s = []")
    case s: False
    have le: "width_of double s + 4 * length (drop (rune_size s) s) \<le> 4 * length s"
      using width_le [OF s, of double] rune_size_le [of s] by simp
    with "1.prems" have cut: "\<not> limit < n + width_of double s" by simp
    with "1.IH" [OF s cut] le "1.prems" s show ?thesis
      by (subst append_safe_from.simps) (simp add: escaped.simps [of double s])
  qed (simp add: append_safe_from.simps)
qed

section \<open>Properties of escaping\<close>

text \<open>C7: what is written of a text the SDK did not write is safe to print: valid UTF-8 without a
  control character and without a character that reorders or hides the text around it, and at
  most the limit's characters, escapes counted, and the mark of the cut.\<close>

theorem append_safe_text_safe:
  "\<exists>t. append_safe_text dst s limit double = dst @ t \<and> valid_utf8 t \<and>
     (\<forall>r. Some r \<in> set (runes t) \<longrightarrow> \<not> control_rune r) \<and> length (runes t) \<le> Suc limit"
proof -
  from append_safe_from_text [of 0 limit double dst s] obtain t where
    "append_safe_text dst s limit double = dst @ t" "safe_text t" "length (runes t) \<le> Suc limit"
    by (auto simp: append_safe_text_def)
  moreover from this(2) have "\<forall>r. Some r \<in> set (runes t) \<longrightarrow> \<not> control_rune r"
    by (auto simp: safe_text_def list_all_iff safe_rune_def)
  ultimately show ?thesis using safe_text_valid by blast
qed

theorem append_safe_text_safe_witness:
  "valid_utf8 (append_safe_text [] [CHR 0x1B, CHR 0xFF] 8 True)"
  using append_safe_text_safe [of "[]" "[CHR 0x1B, CHR 0xFF]" 8 True] by auto

text \<open>two names are never written the same, so a name that spells an escape cannot pass for
  one that holds the character: the quoted form tells every two names of up to 32 bytes apart.\<close>

theorem quoted_name_inject:
  assumes "quoted_name a = quoted_name b" "length a \<le> 32" "length b \<le> 32"
  shows "a = b"
  using assms append_safe_uncut [of 0 a max_name_chars True] append_safe_uncut [of 0 b max_name_chars True] escaped_inject [of a b]
  by (simp add: quoted_name_def append_safe_text_def max_name_chars_def)

theorem quoted_name_inject_witness:
  "quoted_name [CHR 0x1B] = quoted_name [CHR 0x1B] \<and> quoted_name [CHR 0x1B] \<noteq> quoted_name (backslash # ''x1b'')"
  using quoted_name_inject [of "[CHR 0x1B]" "backslash # ''x1b''"] by auto

end
