(* ===== verification/Go_Strings.thy ===== *)
theory Go_Strings
  imports Utf8 "HOL-Library.Sublist"
begin

text \<open>
  What the code uses of Go's packages \<open>strings\<close> and \<open>bytes\<close>: searching for a substring, replacing
  every occurrence, trimming and splitting. An index that is not found (-1 in Go) is \<open>None\<close>.
\<close>

section \<open>Searching\<close>

fun sub_index :: "bytes \<Rightarrow> bytes \<Rightarrow> nat option" where
  "sub_index p [] = (if p = [] then Some 0 else None)"
| "sub_index p (c # cs) = (if prefix p (c # cs) then Some 0 else map_option Suc (sub_index p cs))"

definition contains :: "bytes \<Rightarrow> bytes \<Rightarrow> bool" where
  "contains s p \<longleftrightarrow> sub_index p s \<noteq> None"

lemma sub_index_Some: "sub_index p s = Some i \<Longrightarrow> prefix p (drop i s) \<and> i \<le> length s \<and> (\<forall>j < i. \<not> prefix p (drop j s))"
proof (induction s arbitrary: i)
  case (Cons c cs)
  show ?case
  proof (cases "prefix p (c # cs)")
    case False
    with Cons.prems obtain k where k: "sub_index p cs = Some k" "i = Suc k" by auto
    from Cons.IH [OF k(1)] False k(2) show ?thesis by (auto simp: less_Suc_eq_0_disj)
  qed (use Cons.prems in auto)
qed (auto split: if_splits)

lemma sub_index_None: "sub_index p s = None \<longleftrightarrow> (\<forall>i. \<not> prefix p (drop i s))"
proof (induction s)
  case (Cons c cs)
  show ?case
  proof (cases "prefix p (c # cs)")
    case True
    then show ?thesis by (auto intro: exI [of _ 0])
  next
    case False
    with Cons.IH show ?thesis by (auto simp: drop_Cons' dest: spec [of _ "Suc _"])
  qed
qed auto

lemma contains_iff: "contains s p \<longleftrightarrow> (\<exists>i. prefix p (drop i s))"
  by (simp add: contains_def sub_index_None)

lemma contains_sublist: "contains s p \<longleftrightarrow> (\<exists>a b. s = a @ p @ b)"
  by (metis append_take_drop_id append_eq_conv_conj contains_iff prefixE prefixI)

lemma contains_Nil [simp]: "contains [] p \<longleftrightarrow> p = []"
  by (simp add: contains_def)

lemma contains_Cons: "contains (c # cs) p \<longleftrightarrow> prefix p (c # cs) \<or> contains cs p"
  by (simp add: contains_def)

lemma contains_append: "contains b p \<Longrightarrow> contains (a @ b) p"
  by (metis append.assoc contains_sublist)

lemma contains_drop: "contains (drop i s) p \<Longrightarrow> contains s p"
  by (metis append_take_drop_id contains_append)

section \<open>Replacing\<close>

text \<open>\<open>strings.ReplaceAll\<close>, the leftmost occurrence first; an empty pattern is found before every
  character and at the end.\<close>

function replace_from :: "bytes \<Rightarrow> bytes \<Rightarrow> bytes \<Rightarrow> bytes" where
  "replace_from p w s =
     (if s = [] \<or> p = [] then s
      else if prefix p s then w @ replace_from p w (drop (length p) s)
      else hd s # replace_from p w (tl s))"
  by pat_completeness auto
termination
  by (relation "measure (\<lambda>(p, w, s). length s)") auto

declare replace_from.simps [simp del]

function pieces :: "bytes \<Rightarrow> bytes list" where
  "pieces s = (if s = [] then [] else take (rune_size s) s # pieces (drop (rune_size s) s))"
  by pat_completeness auto
termination
  by (relation "measure length") (use drop_rune_shorter in \<open>auto simp del: length_drop\<close>)

declare pieces.simps [simp del]

definition replace_all :: "bytes \<Rightarrow> bytes \<Rightarrow> bytes \<Rightarrow> bytes" where
  "replace_all p w s = (if p = [] then w @ concat (map (\<lambda>q. q @ w) (pieces s)) else replace_from p w s)"

section \<open>Trimming and splitting\<close>

definition trim_left :: "(char \<Rightarrow> bool) \<Rightarrow> bytes \<Rightarrow> bytes" where
  "trim_left f s = dropWhile f s"

definition trim :: "(char \<Rightarrow> bool) \<Rightarrow> bytes \<Rightarrow> bytes" where
  "trim f s = rev (dropWhile f (rev (dropWhile f s)))"

fun split_on :: "char \<Rightarrow> bytes \<Rightarrow> bytes list" where
  "split_on c [] = [[]]"
| "split_on c (x # xs) =
     (if x = c then [] # split_on c xs
      else case split_on c xs of [] \<Rightarrow> [[x]] | y # ys \<Rightarrow> (x # y) # ys)"

fun join_with :: "bytes \<Rightarrow> bytes list \<Rightarrow> bytes" where
  "join_with sep [] = []"
| "join_with sep [x] = x"
| "join_with sep (x # y # xs) = x @ sep @ join_with sep (y # xs)"

lemma join_with_Cons: "join_with sep (x # xs) = x @ concat (map (\<lambda>y. sep @ y) xs)"
  by (induction xs arbitrary: x) auto

lemma join_with_snoc: "ms \<noteq> [] \<Longrightarrow> join_with sep (ms @ [m]) = join_with sep ms @ sep @ m"
  by (induction sep ms rule: join_with.induct) auto

fun last_index :: "char \<Rightarrow> bytes \<Rightarrow> nat option" where
  "last_index c [] = None"
| "last_index c (x # xs) =
     (case last_index c xs of Some i \<Rightarrow> Some (Suc i) | None \<Rightarrow> if x = c then Some 0 else None)"

lemma last_index_None: "last_index c s = None \<longleftrightarrow> c \<notin> set s"
  by (induction s) (auto split: option.splits)

lemma last_index_Some:
  "last_index c s = Some i \<Longrightarrow> i < length s \<and> s ! i = c \<and> c \<notin> set (drop (Suc i) s)"
  by (induction s arbitrary: i) (auto simp: last_index_None split: option.splits if_splits)

text \<open>Letters compared without case, for ASCII.\<close>

definition lower_char :: "char \<Rightarrow> char" where
  "lower_char c = (if byte_between 65 90 c then char_of (byte c + 32) else c)"

definition lower_ascii :: "bytes \<Rightarrow> bytes" where
  "lower_ascii s = map lower_char s"

end
