(* ===== verification/Engine_Redact.thy ===== *)
theory Engine_Redact
  imports Engine_Text Go_Strings "HOL-Library.Product_Lexorder"
begin

text \<open>
  The redaction of credentials, \<open>internal/engine/text.go\<close>, \<open>redact.go\<close> and \<open>proxycreds.go\<close>: which
  header values are credentials, the forms in which a text may repeat one, the text and the
  header a caller sees, the chain of a transport's error, and the set of proxy credentials a
  transport remembers. Go's table of printable runes is the parameter \<open>ip\<close>, and its lower-casing
  of letters beyond ASCII the parameter \<open>lower\<close>.
\<close>

section \<open>Secret headers\<close>

definition redacted :: bytes where
  "redacted = ''***''"

definition secret_header_names :: "bytes list" where
  "secret_header_names =
     [''authorization'', ''proxy-authorization'', ''x-api-key'', ''api-key'', ''cookie'', ''set-cookie'']"

definition contains_fold_ascii :: "bytes \<Rightarrow> bytes \<Rightarrow> bool" where
  "contains_fold_ascii s sub \<longleftrightarrow>
     length sub \<le> length s \<and>
     list_ex (\<lambda>i. list_all (\<lambda>j. lower_char (s ! (i + j)) = sub ! j) [0..<length sub]) [0..<length s - length sub + 1]"

definition equal_fold_ascii :: "bytes \<Rightarrow> bytes \<Rightarrow> bool" where
  "equal_fold_ascii s t \<longleftrightarrow> lower_ascii s = lower_ascii t"

definition is_secret_header :: "(bytes \<Rightarrow> bytes) \<Rightarrow> bytes \<Rightarrow> bool" where
  "is_secret_header lower name \<longleftrightarrow>
     (if list_ex (\<lambda>c. 0x80 \<le> byte c) name then
        (let l = lower name in l \<in> set secret_header_names \<or> contains l ''token'' \<or> contains l ''secret'')
      else list_ex (\<lambda>secret. equal_fold_ascii name secret) secret_header_names \<or>
           contains_fold_ascii name ''token'' \<or> contains_fold_ascii name ''secret'')"

definition min_key_needle_bytes :: nat where
  "min_key_needle_bytes = 8"

definition key_needle :: "bytes \<Rightarrow> bool" where
  "key_needle key \<longleftrightarrow> min_key_needle_bytes \<le> length key"

definition is_credential :: "(bytes \<Rightarrow> bytes) \<Rightarrow> bytes \<Rightarrow> bytes list \<Rightarrow> bytes \<Rightarrow> bool" where
  "is_credential lower name vs key \<longleftrightarrow>
     (if is_secret_header lower name then True else key_needle key \<and> list_ex (\<lambda>v. contains v key) vs)"

section \<open>The forms of a credential\<close>

definition is_blank :: "char \<Rightarrow> bool" where
  "is_blank c \<longleftrightarrow> c = CHR '' '' \<or> byte c = 9"

definition after_scheme :: "bytes \<Rightarrow> bytes option" where
  "after_scheme v =
     (let v = trim_left is_blank v in
      case find_index is_blank v of
        None \<Rightarrow> None
      | Some i \<Rightarrow> (let cred = trim_left is_blank (drop i v) in if cred = [] then None else Some cred))"

text \<open>\<open>strconv.Quote\<close> and \<open>strconv.QuoteToASCII\<close> without their quotes.\<close>

function quoted_form :: "bool \<Rightarrow> (nat \<Rightarrow> bool) \<Rightarrow> bytes \<Rightarrow> bytes" where
  "quoted_form ascii ip s =
     (if s = [] then []
      else
        let r = fst (decode_rune s);
            p = (if rune_bad s then [backslash, CHR ''x'', hex_lower (byte (hd s) div 16), hex_lower (byte (hd s) mod 16)]
                 else if r = byte quote_char \<or> r = byte backslash then [backslash, char_of r]
                 else if (\<not> ascii \<or> r < 0x80) \<and> ip r then take (rune_size s) s
                 else quote_rune r) in
        p @ quoted_form ascii ip (drop (rune_size s) s))"
  by pat_completeness auto
termination
  by (relation "measure (\<lambda>(ascii, ip, s). length s)") (use drop_rune_shorter in \<open>auto simp del: length_drop\<close>)

declare quoted_form.simps [simp del]

function json_form :: "bytes \<Rightarrow> bytes" where
  "json_form v =
     (if v = [] then []
      else
        let r = fst (decode_rune v);
            p = (if \<not> rune_bad v \<and> (r = byte quote_char \<or> r = byte backslash) then [backslash, char_of r]
                 else if r = 10 then [backslash, CHR ''n'']
                 else if r = 13 then [backslash, CHR ''r'']
                 else if r = 9 then [backslash, CHR ''t'']
                 else if rune_bad v then replacement
                 else if r < 0x20 \<or> r = byte CHR ''<'' \<or> r = byte CHR ''>'' \<or> r = byte CHR ''&'' \<or> r = 0x2028 \<or> r = 0x2029
                 then [backslash, CHR ''u''] @ hex_digits 4 r
                 else take (rune_size v) v) in
        p @ json_form (drop (rune_size v) v))"
  by pat_completeness auto
termination
  by (relation "measure length") (use drop_rune_shorter in \<open>auto simp del: length_drop\<close>)

declare json_form.simps [simp del]

definition add_new :: "'a \<Rightarrow> 'a list \<Rightarrow> 'a list" where
  "add_new x xs = (if x \<in> set xs then xs else xs @ [x])"

definition cred_forms :: "(nat \<Rightarrow> bool) \<Rightarrow> bytes \<Rightarrow> bytes list" where
  "cred_forms ip v = [v, quoted_form False ip v, quoted_form True ip v, json_form v]"

definition add_any :: "(nat \<Rightarrow> bool) \<Rightarrow> bytes \<Rightarrow> bytes list \<Rightarrow> bytes list" where
  "add_any ip v c = (if v = [] then c else fold add_new (cred_forms ip v) c)"

definition add_cred :: "(nat \<Rightarrow> bool) \<Rightarrow> bytes \<Rightarrow> bytes list \<Rightarrow> bytes list" where
  "add_cred ip v c = (if key_needle v then add_any ip v c else c)"

text \<open>\<open>longestFirst\<close>: longer before shorter, then in byte order.\<close>

definition longest_key :: "bytes \<Rightarrow> int \<times> bytes" where
  "longest_key v = (- int (length v), v)"

definition sort_longest :: "bytes list \<Rightarrow> bytes list" where
  "sort_longest xs = sort_key longest_key xs"

definition header_creds :: "(bytes \<Rightarrow> bytes) \<Rightarrow> (nat \<Rightarrow> bool) \<Rightarrow> bytes \<times> bytes list \<Rightarrow> bytes list \<Rightarrow> bytes list" where
  "header_creds lower ip nv c =
     (case nv of
        (name, vs) \<Rightarrow>
          if \<not> is_secret_header lower name then c
          else
            fold (\<lambda>v c.
              let c = add_cred ip v c in
              case after_scheme v of
                Some cred \<Rightarrow>
                  if equal_fold_ascii name ''Authorization'' \<or> equal_fold_ascii name ''Proxy-Authorization''
                  then add_cred ip cred c else c
              | None \<Rightarrow> c) vs c)"

definition call_credentials :: "(bytes \<Rightarrow> bytes) \<Rightarrow> (nat \<Rightarrow> bool) \<Rightarrow> header \<Rightarrow> bytes list \<Rightarrow> bytes list" where
  "call_credentials lower ip h proxies = sort_longest (fold add_new proxies (fold (header_creds lower ip) h []))"

definition request_credentials :: "(bytes \<Rightarrow> bytes) \<Rightarrow> (nat \<Rightarrow> bool) \<Rightarrow> header \<Rightarrow> bytes list" where
  "request_credentials lower ip h = call_credentials lower ip h []"

section \<open>Redacted text\<close>

definition ends_authority :: "char \<Rightarrow> bool" where
  "ends_authority c \<longleftrightarrow>
     c = CHR '' '' \<or> byte c = 9 \<or> byte c = 10 \<or> c = quote_char \<or> c = CHR 0x27 \<or> c = CHR ''<'' \<or> c = CHR ''>''"

lemma sub_index_length: "sub_index p s = Some i \<Longrightarrow> i + length p \<le> length s"
  using sub_index_Some [of p s i] by (auto dest: prefix_length_le)

function scrub_from :: "bytes \<Rightarrow> bytes \<times> bool" where
  "scrub_from rest =
     (case sub_index ''://'' rest of
        None \<Rightarrow> (rest, False)
      | Some i \<Rightarrow>
          let r = drop (i + 3) rest in
          (case last_index CHR ''@'' (takeWhile (\<lambda>c. \<not> ends_authority c) r) of
             None \<Rightarrow> (case scrub_from r of (t, b) \<Rightarrow> (take (i + 3) rest @ t, b))
           | Some at \<Rightarrow> (case scrub_from (drop at r) of (t, b) \<Rightarrow> (take (i + 3) rest @ ''***'' @ t, True))))"
  by pat_completeness auto

termination
  by (relation "measure length") (auto dest!: sub_index_length)

declare scrub_from.simps [simp del]

definition scrub_userinfo :: "bytes \<Rightarrow> bytes \<times> bool" where
  "scrub_userinfo s = (case scrub_from s of (t, b) \<Rightarrow> if b then (t, True) else (s, False))"

fun redact_all :: "bytes list \<Rightarrow> bytes \<Rightarrow> bool \<Rightarrow> bytes \<times> bool" where
  "redact_all [] s found = (s, found)"
| "redact_all (v # vs) s found =
     (if contains s v then redact_all vs (replace_all v redacted s) True else redact_all vs s found)"

definition redact :: "bytes list \<Rightarrow> bytes \<Rightarrow> bytes \<times> bool" where
  "redact c s =
     (case redact_all c s False of
        (t, found) \<Rightarrow> (case scrub_userinfo t of (u, True) \<Rightarrow> (u, True) | (u, False) \<Rightarrow> (t, found)))"

section \<open>Nothing new appears\<close>

text \<open>A text with some of its segments replaced by the mark. A word without a star that it holds is in
  the text it was made of.\<close>

inductive masked :: "bytes \<Rightarrow> bytes \<Rightarrow> bool" where
  masked_Nil: "masked [] []"
| masked_keep: "masked s t \<Longrightarrow> masked (c # s) (c # t)"
| masked_hide: "masked s t \<Longrightarrow> masked (x @ s) (''***'' @ t)"

definition star_free :: "bytes \<Rightarrow> bool" where
  "star_free w \<longleftrightarrow> CHR ''*'' \<notin> set w"

lemma masked_refl: "masked s s"
  by (induction s) (auto intro: masked.intros)

lemma masked_same: "masked s t \<Longrightarrow> masked (x @ s) (x @ t)"
  by (induction x) (auto intro: masked_keep)

lemma masked_prefix: "masked s t \<Longrightarrow> star_free w \<Longrightarrow> prefix w t \<Longrightarrow> prefix w s"
proof (induction arbitrary: w rule: masked.induct)
  case (masked_keep s t c)
  then show ?case by (cases w) (auto simp: star_free_def)
next
  case (masked_hide s t x)
  then show ?case by (cases w) (auto simp: star_free_def)
qed simp

lemma masked_contains: "masked s t \<Longrightarrow> star_free w \<Longrightarrow> w \<noteq> [] \<Longrightarrow> contains t w \<Longrightarrow> contains s w"
proof (induction rule: masked.induct)
  case (masked_keep s t c)
  then show ?case using masked_prefix [OF masked.masked_keep [OF masked_keep.hyps]] by (auto simp: contains_Cons)
next
  case (masked_hide s t x)
  have "\<not> prefix w (CHR ''*'' # u)" for u using masked_hide.prems(1,2) by (cases w) (auto simp: star_free_def)
  then have "contains t w" using masked_hide.prems(3) by (auto simp: contains_Cons)
  with masked_hide show ?case by (simp add: contains_append)
qed simp

lemma masked_replace: "p \<noteq> [] \<Longrightarrow> masked s (replace_from p redacted s)"
proof (induction p redacted s rule: replace_from.induct)
  case (1 p s)
  show ?case
  proof (cases "s = []")
    case False
    then obtain c cs where s: "s = c # cs" by (cases s) auto
    show ?thesis
    proof (cases "prefix p s")
      case True
      then obtain r where r: "s = p @ r" by (auto elim: prefixE)
      with 1(1) [OF _ True] False "1.prems" have "masked r (replace_from p redacted r)" by simp
      then have "masked (p @ r) (''***'' @ replace_from p redacted r)" by (rule masked_hide)
      with True False "1.prems" r show ?thesis by (subst replace_from.simps) (simp add: redacted_def)
    next
      case False
      with 1(2) s "1.prems" show ?thesis by (subst replace_from.simps) (simp add: masked_keep)
    qed
  qed (simp add: replace_from.simps masked_Nil)
qed

lemma masked_scrub: "masked s (fst (scrub_from s))"
proof (induction s rule: scrub_from.induct)
  case (1 rest)
  show ?case
  proof (cases "sub_index ''://'' rest")
    case None
    then show ?thesis by (subst scrub_from.simps) (simp add: masked_refl)
  next
    case (Some i)
    let ?r = "drop (i + 3) rest" and ?at = "last_index CHR ''@'' (takeWhile (\<lambda>c. \<not> ends_authority c) (drop (i + 3) rest))"
    have split: "rest = take (i + 3) rest @ ?r" by simp
    show ?thesis
    proof (cases ?at)
      case None
      with "1.IH"(1) [OF Some refl None] Some have "masked ?r (fst (scrub_from ?r))" by simp
      then have "masked (take (i + 3) rest @ ?r) (take (i + 3) rest @ fst (scrub_from ?r))" by (rule masked_same)
      with Some None show ?thesis by (subst scrub_from.simps) (auto simp: Let_def split: prod.splits)
    next
      case at: (Some a)
      with "1.IH"(2) [OF Some refl at] have "masked (drop a ?r) (fst (scrub_from (drop a ?r)))" by simp
      then have "masked (take a ?r @ drop a ?r) (''***'' @ fst (scrub_from (drop a ?r)))" by (rule masked_hide)
      then have "masked ?r (''***'' @ fst (scrub_from (drop a ?r)))" by (simp only: append_take_drop_id)
      then have "masked (take (i + 3) rest @ ?r) (take (i + 3) rest @ ''***'' @ fst (scrub_from (drop a ?r)))"
        by (rule masked_same)
      with Some at show ?thesis by (subst scrub_from.simps) (auto simp: Let_def split: prod.splits)
    qed
  qed
qed

text \<open>A replaced word is gone.\<close>

lemma replace_gone: "p \<noteq> [] \<Longrightarrow> star_free p \<Longrightarrow> \<not> contains (replace_from p redacted s) p"
proof (induction p redacted s rule: replace_from.induct)
  case (1 p s)
  show ?case
  proof (cases "s = []")
    case True
    with "1.prems" show ?thesis by (simp add: replace_from.simps)
  next
    case s: False
    show ?thesis
    proof (cases "prefix p s")
      case True
      with 1(1) [OF _ True] s "1.prems" have "\<not> contains (replace_from p redacted (drop (length p) s)) p" by simp
      moreover have "\<not> prefix p (CHR ''*'' # u)" for u using "1.prems" by (cases p) (auto simp: star_free_def)
      ultimately show ?thesis using True s "1.prems" by (subst replace_from.simps) (simp add: redacted_def contains_Cons)
    next
      case False
      from False s have "\<not> prefix p (replace_from p redacted s)"
        using masked_prefix [OF masked_replace [OF "1.prems"(1)]] "1.prems"(2) by blast
      with 1(2) [OF _ False] s False "1.prems" show ?thesis
        by (subst replace_from.simps, subst (asm) (2) replace_from.simps) (simp add: contains_Cons)
    qed
  qed
qed

lemma redact_all_masked:
  "[] \<notin> set c \<Longrightarrow> star_free w \<Longrightarrow> w \<noteq> [] \<Longrightarrow> contains (fst (redact_all c t b)) w \<Longrightarrow> contains t w"
proof (induction c arbitrary: t b)
  case (Cons v vs)
  let ?t = "if contains t v then replace_all v redacted t else t"
  have m: "masked t ?t" using Cons.prems(1) masked_replace [of v t] masked_refl by (auto simp: replace_all_def)
  have "redact_all (v # vs) t b = redact_all vs ?t (contains t v \<or> b)" by simp
  with Cons have "contains ?t w" by (metis list.set_intros(2))
  with masked_contains [OF m Cons.prems(2,3)] show ?case .
qed simp

lemma redact_all_gone:
  "[] \<notin> set c \<Longrightarrow> v \<in> set c \<Longrightarrow> star_free v \<Longrightarrow> \<not> contains (fst (redact_all c s b)) v"
proof (induction c arbitrary: s b)
  case (Cons x xs)
  let ?t = "if contains s x then replace_all x redacted s else s" and ?b = "contains s x \<or> b"
  have r: "redact_all (x # xs) s b = redact_all xs ?t ?b" by simp
  from Cons.prems have v: "v \<noteq> []" by auto
  show ?case
  proof (cases "v = x")
    case True
    with Cons.prems have "\<not> contains ?t v" by (auto simp: replace_all_def replace_gone)
    with redact_all_masked [OF _ Cons.prems(3) v, of xs ?t ?b] Cons.prems(1) show ?thesis
      unfolding r by auto
  next
    case False
    with Cons show ?thesis unfolding r by simp
  qed
qed simp

lemma redact_gone:
  assumes "[] \<notin> set c" "v \<in> set c" "star_free v"
  shows "\<not> contains (fst (redact c s)) v"
proof -
  obtain t b where t: "redact_all c s False = (t, b)" by fastforce
  with redact_all_gone [OF assms, of s False] have nt: "\<not> contains t v" by simp
  from assms have v: "v \<noteq> []" by auto
  obtain u b' where u: "scrub_from t = (u, b')" by fastforce
  with masked_contains [OF masked_scrub [of t] assms(3) v] nt have "\<not> contains u v" by auto
  with t u nt show ?thesis by (simp add: redact_def scrub_userinfo_def split: if_splits bool.splits)
qed

section \<open>No userinfo is left\<close>

abbreviation authority :: "bytes \<Rightarrow> bytes" where
  "authority s \<equiv> takeWhile (\<lambda>c. \<not> ends_authority c) s"

lemma authority_append: "list_all (\<lambda>c. \<not> ends_authority c) a \<Longrightarrow> authority (a @ b) = a @ authority b"
  by (induction a) auto

lemma scheme_in: "sub_index ''://'' s = Some i \<Longrightarrow> take (i + 3) s = take i s @ ''://'' \<and> s = take i s @ ''://'' @ drop (i + 3) s"
proof -
  assume "sub_index ''://'' s = Some i"
  from sub_index_Some [OF this] obtain r where r: "drop i s = ''://'' @ r" by (auto elim: prefixE)
  then have "drop 3 (drop i s) = r" "take 3 (drop i s) = ''://''" by simp_all
  then have "drop (i + 3) s = r" "take (i + 3) s = take i s @ ''://''" by (simp_all add: take_add add.commute)
  with r show ?thesis by (metis append_take_drop_id)
qed

lemma scrub_some:
  assumes "sub_index ''://'' s = Some i"
  defines "r \<equiv> drop (i + 3) s"
  shows "fst (scrub_from s) = take (i + 3) s @
    (case last_index CHR ''@'' (authority r) of
       None \<Rightarrow> fst (scrub_from r)
     | Some n \<Rightarrow> ''***'' @ fst (scrub_from (drop n r)))"
  using assms by (subst scrub_from.simps) (simp add: Let_def split: prod.splits option.splits)

lemma scrub_none: "sub_index ''://'' s = None \<Longrightarrow> scrub_from s = (s, False)"
  by (subst scrub_from.simps) simp

lemma scrub_skip: "c \<noteq> CHR '':'' \<Longrightarrow> fst (scrub_from (c # y)) = c # fst (scrub_from y)"
proof (cases "sub_index ''://'' y")
  case None
  moreover assume "c \<noteq> CHR '':''"
  ultimately show ?thesis by (simp add: scrub_none)
next
  case (Some i)
  moreover assume "c \<noteq> CHR '':''"
  ultimately have "sub_index ''://'' (c # y) = Some (Suc i)" by simp
  moreover have "drop (Suc i + 3) (c # y) = drop (i + 3) y" "take (Suc i + 3) (c # y) = c # take (i + 3) y"
    by (simp_all only: add_Suc drop_Suc_Cons take_Suc_Cons)
  ultimately show ?thesis using scrub_some [of "c # y" "Suc i"] scrub_some [OF Some] by (simp only: append_Cons)
qed

text \<open>Without an at sign in the authority the scrub leaves the authority as it is.\<close>

lemma scrub_keeps_authority: "CHR ''@'' \<notin> set (authority s) \<Longrightarrow> authority (fst (scrub_from s)) = authority s"
proof (induction s rule: scrub_from.induct)
  case (1 s)
  show ?case
  proof (cases "sub_index ''://'' s")
    case None
    then show ?thesis by (simp add: scrub_none)
  next
    case (Some i)
    let ?r = "drop (i + 3) s"
    note sc = scheme_in [OF Some]
    obtain X where X: "fst (scrub_from s) = take (i + 3) s @ X" using scrub_some [OF Some] by blast
    have s: "s = take (i + 3) s @ ?r" by simp
    show ?thesis
    proof (cases "list_all (\<lambda>c. \<not> ends_authority c) (take (i + 3) s)")
      case True
      have au: "authority s = take (i + 3) s @ authority ?r" using authority_append [OF True, of ?r] by simp
      with "1.prems" have none: "last_index CHR ''@'' (authority ?r) = None" by (simp add: last_index_None)
      with "1.IH"(1) [OF Some refl none] au "1.prems" have "authority (fst (scrub_from ?r)) = authority ?r" by simp
      with scrub_some [OF Some] none au authority_append [OF True] show ?thesis by simp
    next
      case False
      then obtain c where "c \<in> set (take (i + 3) s)" "ends_authority c" by (auto simp: list_all_iff)
      then have "authority (take (i + 3) s @ t) = authority (take (i + 3) s)" for t by (simp add: takeWhile_append1)
      with X s show ?thesis by metis
    qed
  qed
qed

lemma scrub_unchanged: "\<not> snd (scrub_from s) \<Longrightarrow> fst (scrub_from s) = s"
proof (induction s rule: scrub_from.induct)
  case (1 s)
  show ?case
  proof (cases "sub_index ''://'' s")
    case None
    then show ?thesis by (simp add: scrub_none)
  next
    case (Some i)
    let ?at = "last_index CHR ''@'' (authority (drop (i + 3) s))"
    show ?thesis
    proof (cases ?at)
      case None
      with "1.prems" Some have "\<not> snd (scrub_from (drop (i + 3) s))"
        by (subst (asm) scrub_from.simps) (simp add: Let_def split: prod.splits)
      with "1.IH"(1) [OF Some refl None] Some None show ?thesis by (simp add: scrub_some)
    next
      case at: (Some n)
      with "1.prems" Some show ?thesis by (subst (asm) scrub_from.simps) (simp add: Let_def split: prod.splits)
    qed
  qed
qed

definition clean_authority :: "bytes \<Rightarrow> bool" where
  "clean_authority u \<longleftrightarrow> CHR ''@'' \<notin> set u \<or> (\<exists>h. u = ''***@'' @ h \<and> CHR ''@'' \<notin> set h)"

lemma takeWhile_drop: "n \<le> length (takeWhile P xs) \<Longrightarrow> takeWhile P (drop n xs) = drop n (takeWhile P xs)"
  by (induction xs arbitrary: n) (auto simp: drop_Cons' split: if_splits)

text \<open>Two occurrences of the scheme separator do not overlap.\<close>

lemma scheme_disjoint:
  assumes eq: "(t @ ''://'') @ x = (a @ ''://'') @ b"
  obtains (before) z where "t @ ''://'' = (a @ ''://'') @ z" "length a < length t"
    | (same) "a = t" "b = x"
    | (after) z where "a = (t @ ''://'') @ z" "x = z @ ''://'' @ b"
proof -
  consider "length a < length t" | "length a = length t" | "length a = length t + 1" | "length a = length t + 2" | "length t + 3 \<le> length a"
    by linarith
  then show thesis
  proof cases
    case 1
    then have "length (a @ ''://'') \<le> length (t @ ''://'')" by simp
    with eq obtain z where "t @ ''://'' = (a @ ''://'') @ z"
      by (metis append_eq_append_conv_if append_take_drop_id)
    with 1 before show thesis by blast
  next
    case 2
    with eq same show thesis by (simp add: append_eq_append_conv)
  next
    case 3
    with arg_cong [OF eq, of "\<lambda>l. l ! length a"] show thesis by (simp add: nth_append)
  next
    case 4
    with arg_cong [OF eq, of "\<lambda>l. l ! length a"] show thesis by (simp add: nth_append)
  next
    case 5
    define p where "p = t @ ''://''"
    define z where "z = drop (length p) a"
    from 5 have le: "length p \<le> length a" by (simp add: p_def)
    have eq': "p @ x = a @ ''://'' @ b" using eq by (simp add: p_def)
    have "take (length p) (p @ x) = take (length p) (a @ ''://'' @ b)" by (simp only: eq')
    with le have "take (length p) a = p" by simp
    then have az: "a = p @ z" unfolding z_def by (metis append_take_drop_id)
    moreover from eq' az have "x = z @ ''://'' @ b" by simp
    ultimately have "a = (t @ ''://'') @ z" "x = z @ ''://'' @ b" by (simp_all add: p_def)
    with after show thesis by blast
  qed
qed

lemma scrub_clean: "fst (scrub_from s) = a @ ''://'' @ b \<Longrightarrow> clean_authority (authority b)"
proof (induction s arbitrary: a b rule: scrub_from.induct)
  case (1 s)
  show ?case
  proof (cases "sub_index ''://'' s")
    case None
    with "1.prems" have "s = a @ ''://'' @ b" by (simp add: scrub_none)
    then have "contains s ''://''" by (metis contains_sublist)
    with None show ?thesis by (simp add: contains_def)
  next
    case (Some i)
    let ?r = "drop (i + 3) s" and ?t = "take i s"
    let ?at = "last_index CHR ''@'' (authority ?r)"
    define X where "X = (case ?at of None \<Rightarrow> fst (scrub_from ?r) | Some n \<Rightarrow> ''***'' @ fst (scrub_from (drop n ?r)))"
    note sc = scheme_in [OF Some]
    have len: "length ?t = i" using sub_index_length [OF Some] by simp
    have eq: "(?t @ ''://'') @ X = (a @ ''://'') @ b" using "1.prems" scrub_some [OF Some] sc unfolding X_def by simp
    then show ?thesis
    proof (cases rule: scheme_disjoint)
      case (before z)
      from sc have s1: "s = (?t @ ''://'') @ ?r" by simp
      have "s = a @ ''://'' @ z @ ?r" by (subst s1, subst before(1)) simp
      then have "prefix ''://'' (drop (length a) s)" by (metis append_eq_conv_conj prefixI)
      with sub_index_Some [OF Some] before(2) len have False by auto
      then show ?thesis ..
    next
      case same
      show ?thesis
      proof (cases ?at)
        case None
        then have "CHR ''@'' \<notin> set (authority ?r)" by (simp add: last_index_None)
        with None scrub_keeps_authority [OF this] same show ?thesis by (simp add: X_def clean_authority_def)
      next
        case (Some n)
        from last_index_Some [OF this] have n: "n < length (authority ?r)" "authority ?r ! n = CHR ''@''"
          "CHR ''@'' \<notin> set (drop (Suc n) (authority ?r))" by simp_all
        define y where "y = drop (Suc n) ?r"
        have "n < length ?r" using n(1) length_takeWhile_le [of "\<lambda>c. \<not> ends_authority c" ?r] by linarith
        moreover have "?r ! n = CHR ''@''" using n(1,2) takeWhile_nth [of n "\<lambda>c. \<not> ends_authority c" ?r] by simp
        ultimately have d: "drop n ?r = CHR ''@'' # y" unfolding y_def by (metis Cons_nth_drop_Suc)
        have "authority y = drop (Suc n) (authority ?r)" unfolding y_def using n(1) by (intro takeWhile_drop) simp
        with n(3) have y: "CHR ''@'' \<notin> set (authority y)" by simp
        have "X = ''***'' @ CHR ''@'' # fst (scrub_from y)" unfolding X_def Some using d scrub_skip [of "CHR ''@''" y] by simp
        with same scrub_keeps_authority [OF y] y show ?thesis
          by (simp add: clean_authority_def ends_authority_def)
      qed
    next
      case (after z)
      show ?thesis
      proof (cases ?at)
        case None
        with "1.IH"(1) [OF Some refl None, of z b] after(2) show ?thesis by (simp add: X_def)
      next
        case at: (Some n)
        then have "''***'' @ fst (scrub_from (drop n ?r)) = z @ ''://'' @ b" using after(2) by (simp add: X_def)
        then obtain z' where "fst (scrub_from (drop n ?r)) = z' @ ''://'' @ b" by (auto simp: Cons_eq_append_conv)
        with "1.IH"(2) [OF Some refl at] show ?thesis by simp
      qed
    qed
  qed
qed

section \<open>The credentials of a call\<close>

lemma set_add_new [simp]: "set (add_new x xs) = insert x (set xs)"
  by (auto simp: add_new_def)

lemma set_fold_add_new [simp]: "set (fold add_new ys xs) = set xs \<union> set ys"
  by (induction ys arbitrary: xs) auto

lemma distinct_add_new: "distinct xs \<Longrightarrow> distinct (add_new x xs)"
  by (simp add: add_new_def)

lemma distinct_fold_add_new: "distinct xs \<Longrightarrow> distinct (fold add_new ys xs)"
  by (induction ys arbitrary: xs) (simp_all add: distinct_add_new)

lemma set_add_any: "set (add_any ip v c) = set c \<union> (if v = [] then {} else set (cred_forms ip v))"
  by (auto simp: add_any_def)

lemma key_needle_not_Nil: "key_needle v \<Longrightarrow> v \<noteq> []"
  by (auto simp: key_needle_def min_key_needle_bytes_def)

lemma set_add_cred: "set (add_cred ip v c) = set c \<union> (if key_needle v then set (cred_forms ip v) else {})"
  by (auto simp: add_cred_def set_add_any dest: key_needle_not_Nil)

lemma set_sort_longest [simp]: "set (sort_longest xs) = set xs"
  by (simp add: sort_longest_def)

lemma quoted_not_Nil: "v \<noteq> [] \<Longrightarrow> quoted_form ascii ip v \<noteq> []"
  using rune_size_pos [of v] by (subst quoted_form.simps) (auto simp: Let_def quote_rune_def)

lemma replacement_not_Nil [simp]: "replacement \<noteq> []"
  by (simp add: replacement_bytes)

lemma json_not_Nil: "v \<noteq> [] \<Longrightarrow> json_form v \<noteq> []"
  using rune_size_pos [of v] by (subst json_form.simps) (auto simp: Let_def)

lemma forms_not_Nil: "v \<noteq> [] \<Longrightarrow> [] \<notin> set (cred_forms ip v)"
  using quoted_not_Nil json_not_Nil by (auto simp: cred_forms_def dest: sym)

definition value_creds :: "(nat \<Rightarrow> bool) \<Rightarrow> bytes \<Rightarrow> bytes \<Rightarrow> bytes set" where
  "value_creds ip name v =
     {f. key_needle v \<and> f \<in> set (cred_forms ip v)} \<union>
     {f. \<exists>cred. after_scheme v = Some cred \<and> key_needle cred \<and>
        (equal_fold_ascii name ''Authorization'' \<or> equal_fold_ascii name ''Proxy-Authorization'') \<and> f \<in> set (cred_forms ip cred)}"

lemma set_header_creds:
  "set (header_creds lower ip (name, vs) c) =
     set c \<union> (if is_secret_header lower name then (\<Union>v \<in> set vs. value_creds ip name v) else {})"
proof -
  let ?f = "\<lambda>v c. let c = add_cred ip v c in
              case after_scheme v of
                Some cred \<Rightarrow>
                  if equal_fold_ascii name ''Authorization'' \<or> equal_fold_ascii name ''Proxy-Authorization''
                  then add_cred ip cred c else c
              | None \<Rightarrow> c"
  have step: "set (?f v c) = set c \<union> value_creds ip name v" for v c
    by (auto simp: Let_def set_add_cred value_creds_def split: option.splits)
  have "set (fold ?f vs c) = set c \<union> (\<Union>v \<in> set vs. value_creds ip name v)"
    by (induction vs arbitrary: c) (simp_all add: step Un_assoc del: Un_iff)
  then show ?thesis by (simp add: header_creds_def)
qed

lemma set_call_credentials:
  "set (call_credentials lower ip h proxies) = set proxies \<union>
     (\<Union>(name, vs) \<in> set h. if is_secret_header lower name then (\<Union>v \<in> set vs. value_creds ip name v) else {})"
proof -
  have "set (fold (header_creds lower ip) h c) = set c \<union>
      (\<Union>(name, vs) \<in> set h. if is_secret_header lower name then (\<Union>v \<in> set vs. value_creds ip name v) else {})" for c
  proof (induction h arbitrary: c)
    case (Cons nv h)
    obtain name vs where "nv = (name, vs)" by (cases nv)
    then show ?case by (simp add: Cons.IH set_header_creds Un_assoc)
  qed simp
  then show ?thesis by (auto simp: call_credentials_def)
qed

lemma value_creds_not_Nil: "[] \<notin> value_creds ip name v"
  using forms_not_Nil key_needle_not_Nil by (auto simp: value_creds_def)

lemma call_credentials_not_Nil: "[] \<notin> set proxies \<Longrightarrow> [] \<notin> set (call_credentials lower ip h proxies)"
  using value_creds_not_Nil by (auto simp: set_call_credentials split: if_splits)

section \<open>Properties of redacted text\<close>



text \<open>no URL keeps its userinfo. After the scrub, whatever follows a scheme separator up to the
  next white space, quote or bracket has no at sign, or starts with the mark and an at sign and has
  no other, even where URLs nest.\<close>

theorem scrub_userinfo_clean:
  assumes "fst (scrub_userinfo s) = a @ ''://'' @ b"
  shows "clean_authority (authority b)"
proof -
  have "fst (scrub_userinfo s) = fst (scrub_from s)"
    using scrub_unchanged [of s] by (cases "scrub_from s") (auto simp: scrub_userinfo_def)
  with assms scrub_clean show ?thesis by simp
qed

theorem scrub_userinfo_clean_witness:
  "clean_authority (authority ''***@h'')"
  by (rule scrub_userinfo_clean [where s = "''http://u:p@h''" and a = "''http''"]) code_simp

end
