(* ===== verification/Engine_Body.thy ===== *)
theory Engine_Body
  imports Wire_Payload Engine_Redact
begin

text \<open>
  The body of a System One request, \<open>internal/engine/body.go\<close> over \<open>internal/codec/encode.go\<close>, and the
  test for JSON values Python finds false, \<open>internal/engine/falsy.go\<close>. A value of a Go type other
  than the SDK's own is a value of the type variable with what \<open>reflect\<close> says of its type; sonic's
  encoder is a parameter that gives its output or its error's text.
\<close>

section \<open>Values and their types\<close>

text \<open>A type as \<open>reflect\<close> shows it: its name, whether its kind is a slice of bytes, whether it has a
  \<open>MarshalJSON\<close> or \<open>MarshalText\<close> method, and for a pointer the type it points to.\<close>

datatype gtype =
  GType (gt_name: bytes) (gt_byte_slice: bool) (gt_marshals: bool) (gt_elem: "gtype option")

text \<open>An argument of type \<open>any\<close>: the SDK's \<open>RawJSON\<close>, a pointer to one, a \<open>Content\<close> (\<open>None\<close> when
  it was never set), or a value of any other type, with whether it is a nil pointer.\<close>

datatype 'a gvalue =
    Raw bytes
  | RawPtr "bytes option"
  | ContentVal "content option"
  | Other (gv_type: "gtype option") (gv_nil: bool) (gv_value: 'a)

datatype enc_error =
    StateShape bytes
  | PlainBytes bytes
  | RawValue bytes
  | SonicError bytes
  | WireError json_error

definition state_shape_text :: bytes where "state_shape_text = ''not a string, an array or an object''"
definition plain_bytes_text :: bytes where "plain_bytes_text = ''a plain []byte is ambiguous''"
definition raw_value_text :: bytes where "raw_value_text = ''not a JSON value''"

definition state_shape :: "bytes \<Rightarrow> enc_error" where
  "state_shape s = StateShape (s @ '', '' @ state_shape_text)"

definition raw_value :: "bytes \<Rightarrow> enc_error" where
  "raw_value s = RawValue (s @ '', '' @ raw_value_text)"

text \<open>\<open>EncodeError.Error\<close>: sonic's message, without the output of a \<open>MarshalJSON\<close> it quotes.\<close>

definition marshaler_syntax :: bytes where
  "marshaler_syntax = ''invalid Marshaler output json syntax at ''"

definition encode_error_text :: "bytes \<Rightarrow> bytes" where
  "encode_error_text msg =
     (if take (length marshaler_syntax) msg = marshaler_syntax then
        let rest = drop (length marshaler_syntax) msg in
        (case find_index (\<lambda>c. c = CHR '':'') rest of
           None \<Rightarrow> msg
         | Some i \<Rightarrow>
             let pos = take i rest in
             if pos \<noteq> [] \<and> trim is_digit pos = [] then
               ''a MarshalJSON method returned invalid JSON (syntax error at position '' @ pos @ '')''
             else msg)
      else msg)"

definition type_name :: "gtype option \<Rightarrow> bytes" where
  "type_name t = (case t of None \<Rightarrow> ''nil'' | Some t \<Rightarrow> gt_name t)"

text \<open>\<open>strconv.QuoteRune\<close> of an ASCII byte, and the name of a text by its first byte.\<close>

definition quoted_ascii :: "char \<Rightarrow> bytes" where
  "quoted_ascii c =
     CHR 0x27 #
       (if c = CHR 0x27 \<or> c = backslash then [backslash, c]
        else if byte_between 0x20 0x7E c then [c] else quote_rune (byte c)) @ [CHR 0x27]"

definition describe :: "char \<Rightarrow> bytes" where
  "describe c =
     (if c = CHR ''n'' then ''null''
      else if c = CHR ''t'' \<or> c = CHR ''f'' then ''a boolean''
      else if c = CHR ''-'' \<or> is_digit c then ''a number''
      else if byte c < 0x80 then quoted_ascii c
      else ''byte 0x'' @ hex_digits 2 (byte c))"

section \<open>Encoding one value\<close>

definition plain_bytes :: "gtype option \<Rightarrow> bool \<Rightarrow> (bytes \<Rightarrow> enc_error) \<Rightarrow> enc_error option" where
  "plain_bytes t isnil nil_err =
     (case t of
        None \<Rightarrow> None
      | Some t \<Rightarrow>
          if gt_name t = ''[]uint8'' then Some (PlainBytes plain_bytes_text)
          else if gt_marshals t then None
          else if gt_byte_slice t then Some (PlainBytes (plain_bytes_text @ '': '' @ gt_name t @ '' is a byte slice''))
          else
            (case gt_elem t of
               None \<Rightarrow> None
             | Some e \<Rightarrow>
                 if \<not> gt_byte_slice e \<or> gt_marshals e then None
                 else if isnil then Some (nil_err (''nil '' @ gt_name t @ '' holds no value''))
                 else Some (PlainBytes (plain_bytes_text @ '': '' @ gt_name t @ '' points to a byte slice''))))"

definition starts_state :: "char \<Rightarrow> bool" where
  "starts_state c \<longleftrightarrow> c = CHR ''{'' \<or> c = CHR ''['' \<or> c = quote_char"

definition encode_state :: "('a \<Rightarrow> bytes + bytes) \<Rightarrow> gtype option \<Rightarrow> bool \<Rightarrow> 'a \<Rightarrow> bytes \<Rightarrow> enc_error + bytes" where
  "encode_state sonic t isnil v buf =
     (case plain_bytes t isnil state_shape of
        Some e \<Rightarrow> Inl e
      | None \<Rightarrow>
          (case sonic v of
             Inl msg \<Rightarrow> Inl (SonicError (encode_error_text msg))
           | Inr enc \<Rightarrow>
               (case skip_space enc of
                  [] \<Rightarrow> Inl (state_shape (type_name t @ '' encodes as nothing''))
                | c # _ \<Rightarrow>
                    if \<not> starts_state c then Inl (state_shape (type_name t @ '' encodes as '' @ describe c))
                    else if \<not> valid_utf8 enc then Inl (WireError ErrInvalidUTF8)
                    else Inr (buf @ enc))))"

definition encode_value :: "('a \<Rightarrow> bytes + bytes) \<Rightarrow> gtype option \<Rightarrow> bool \<Rightarrow> 'a \<Rightarrow> bytes \<Rightarrow> enc_error + bytes" where
  "encode_value sonic t isnil v buf =
     (case plain_bytes t isnil raw_value of
        Some e \<Rightarrow> Inl e
      | None \<Rightarrow>
          (case sonic v of
             Inl msg \<Rightarrow> Inl (SonicError (encode_error_text msg))
           | Inr enc \<Rightarrow> if \<not> valid_utf8 enc then Inl (WireError ErrInvalidUTF8) else Inr (buf @ enc)))"

definition append_raw_state :: "bytes \<Rightarrow> bytes \<Rightarrow> enc_error + bytes" where
  "append_raw_state raw buf =
     (case skip_space raw of
        [] \<Rightarrow> Inl (state_shape ''raw JSON is empty'')
      | c # _ \<Rightarrow> if \<not> starts_state c then Inl (state_shape (''raw JSON starts with '' @ describe c)) else Inr (buf @ raw))"

definition starts_value :: "char \<Rightarrow> bool" where
  "starts_value c \<longleftrightarrow>
     c = CHR ''{'' \<or> c = CHR ''['' \<or> c = quote_char \<or> c = CHR ''t'' \<or> c = CHR ''f'' \<or> c = CHR ''n'' \<or> c = CHR ''-'' \<or> is_digit c"

definition append_raw_value :: "bytes \<Rightarrow> bytes \<Rightarrow> enc_error + bytes" where
  "append_raw_value raw buf =
     (case skip_space raw of
        [] \<Rightarrow> Inl (raw_value ''raw JSON is empty'')
      | c # _ \<Rightarrow> if \<not> starts_value c then Inl (raw_value (''raw JSON starts with '' @ describe c)) else Inr (buf @ raw))"

fun append_state :: "('a \<Rightarrow> bytes + bytes) \<Rightarrow> 'a gvalue \<Rightarrow> bytes \<Rightarrow> enc_error + bytes" where
  "append_state sonic (Raw v) buf = append_raw_state v buf"
| "append_state sonic (RawPtr None) buf = Inl (state_shape ''nil *RawJSON holds no JSON value'')"
| "append_state sonic (RawPtr (Some v)) buf = append_raw_state v buf"
| "append_state sonic (ContentVal None) buf = Inl (state_shape ''unset Content encodes as null'')"
| "append_state sonic (ContentVal (Some c)) buf = rmap_err WireError (append_content buf c)"
| "append_state sonic (Other t isnil v) buf = encode_state sonic t isnil v buf"

fun append_any :: "('a \<Rightarrow> bytes + bytes) \<Rightarrow> 'a gvalue \<Rightarrow> bytes \<Rightarrow> enc_error + bytes" where
  "append_any sonic (Raw v) buf = append_raw_value v buf"
| "append_any sonic (RawPtr None) buf = Inl (raw_value ''nil *RawJSON holds no JSON value'')"
| "append_any sonic (RawPtr (Some v)) buf = append_raw_value v buf"
| "append_any sonic (ContentVal None) buf = Inr (buf @ ''null'')"
| "append_any sonic (ContentVal (Some c)) buf = rmap_err WireError (append_content buf c)"
| "append_any sonic (Other t isnil v) buf = encode_value sonic t isnil v buf"

section \<open>The body\<close>

datatype failure_kind = FailNoQuestions | FailModel | FailEncode (fk_key: bytes) (fk_extra: bool) (fk_err: enc_error)

type_synonym 'a extra = "(bytes \<times> 'a gvalue) list"

definition repeat_scan_limit :: nat where
  "repeat_scan_limit = 32"

definition built_in :: "bytes \<Rightarrow> bool" where
  "built_in key \<longleftrightarrow> key = ''state'' \<or> key = ''model'' \<or> key = ''questions''"

text \<open>The index of the last extra member with a name.\<close>

definition last_at :: "bytes \<Rightarrow> 'a extra \<Rightarrow> nat option" where
  "last_at key extra = foldl (\<lambda>at i. if fst (extra ! i) = key then Some i else at) None [0..<length extra]"

text \<open>The member the loop writes at index \<open>i\<close>, if any, and the map of the unwritten names.\<close>

definition extra_pick :: "'a extra \<Rightarrow> (bytes \<rightharpoonup> nat) option \<Rightarrow> nat \<Rightarrow> nat option \<times> (bytes \<rightharpoonup> nat) option" where
  "extra_pick extra unw i =
     (let key = fst (extra ! i) in
      if built_in key then (None, unw)
      else
        case unw of
          Some m \<Rightarrow> (case m key of None \<Rightarrow> (None, unw) | Some j \<Rightarrow> (Some j, Some (m(key := None))))
        | None \<Rightarrow>
            if list_ex (\<lambda>k. fst (extra ! k) = key) [0..<i] then (None, unw)
            else (Some (foldl (\<lambda>j k. if fst (extra ! k) = key then k else j) i [i + 1..<length extra]), unw))"

definition extra_step :: "('a \<Rightarrow> bytes + bytes) \<Rightarrow> 'a extra \<Rightarrow> nat \<Rightarrow> bytes \<times> (bytes \<rightharpoonup> nat) option \<Rightarrow>
    failure_kind + bytes \<times> (bytes \<rightharpoonup> nat) option" where
  "extra_step sonic extra i st =
     (case st of
        (buf, unw) \<Rightarrow>
          (case extra_pick extra unw i of
             (None, unw) \<Rightarrow> Inr (buf, unw)
           | (Some j, unw) \<Rightarrow>
               let key = fst (extra ! i) in
               (case append_string (buf @ '','') key of
                  Inl e \<Rightarrow> Inl (FailEncode key True (WireError e))
                | Inr buf \<Rightarrow>
                    (case append_any sonic (snd (extra ! j)) (buf @ '':'') of
                       Inl e \<Rightarrow> Inl (FailEncode key True e)
                     | Inr buf \<Rightarrow> Inr (buf, unw)))))"

definition append_extra :: "('a \<Rightarrow> bytes + bytes) \<Rightarrow> 'a extra \<Rightarrow> bytes \<Rightarrow> failure_kind + bytes" where
  "append_extra sonic extra buf =
     rmap fst (rfold (extra_step sonic extra) [0..<length extra]
       (buf, if repeat_scan_limit < length extra then Some (index_of fst extra) else None))"

definition body_failure :: "bytes \<Rightarrow> bool \<Rightarrow> enc_error + bytes \<Rightarrow> failure_kind + bytes" where
  "body_failure key extra r = rmap_err (FailEncode key extra) r"

definition encode_body :: "('a \<Rightarrow> bytes + bytes) \<Rightarrow> 'a gvalue \<Rightarrow> bytes \<Rightarrow> prepared option \<Rightarrow> 'a extra \<Rightarrow> failure_kind + bytes" where
  "encode_body sonic state model q extra =
     (case q of
        None \<Rightarrow> Inl FailNoQuestions
      | Some q \<Rightarrow>
          if p_entries q = [] then Inl FailNoQuestions
          else if last_at ''model'' extra = None \<and> \<not> valid_utf8 model then Inl FailModel
          else
            let buf = CHR ''{'' # name_literal ''state'' in
            rbind (case last_at ''state'' extra of
                None \<Rightarrow> body_failure ''state'' False (append_state sonic state buf)
              | Some i \<Rightarrow> body_failure ''state'' True (append_state sonic (snd (extra ! i)) buf)) (\<lambda>buf.
            let buf = buf @ CHR '','' # name_literal ''model'' in
            rbind (case last_at ''model'' extra of
                None \<Rightarrow> (case append_string buf model of Inl _ \<Rightarrow> Inr buf | Inr buf \<Rightarrow> Inr buf)
              | Some i \<Rightarrow> body_failure ''model'' True (append_any sonic (snd (extra ! i)) buf)) (\<lambda>buf.
            let buf = buf @ CHR '','' # name_literal ''questions'' in
            rbind (case last_at ''questions'' extra of
                None \<Rightarrow> Inr (buf @ p_questions q)
              | Some i \<Rightarrow> body_failure ''questions'' True (append_any sonic (snd (extra ! i)) buf)) (\<lambda>buf.
            rmap (\<lambda>buf. buf @ ''}'') (append_extra sonic extra buf)))))"

section \<open>Falsy JSON\<close>

fun falsy_number :: "bytes \<Rightarrow> bool" where
  "falsy_number [] = True"
| "falsy_number (c # cs) =
     (if c = CHR ''e'' \<or> c = CHR ''E'' then True else if byte_between 49 57 c then False else falsy_number cs)"

definition maybe_falsy_json :: "bytes \<Rightarrow> bool" where
  "maybe_falsy_json raw =
     (case skip_space raw of
        [] \<Rightarrow> False
      | c # cs \<Rightarrow>
          if c = CHR ''n'' \<or> c = CHR ''f'' then True
          else if c = quote_char then cs \<noteq> [] \<and> hd cs = quote_char
          else if c = CHR ''['' then skip_space cs \<noteq> [] \<and> hd (skip_space cs) = CHR '']''
          else if c = CHR ''{'' then skip_space cs \<noteq> [] \<and> hd (skip_space cs) = CHR ''}''
          else if c = CHR ''-'' \<or> is_digit c then falsy_number (c # cs)
          else False)"

definition falsy_json :: "bytes \<Rightarrow> bool" where
  "falsy_json raw \<longleftrightarrow> maybe_falsy_json raw \<and> is_ok (append_json [] raw)"

section \<open>The reference: a merge of dictionaries\<close>

text \<open>The Python SDK's \<open>{**body, **extra_body}\<close>, and the encoding of a dictionary member by member.\<close>

datatype 'a slot = SlotState "'a gvalue" | SlotModel bytes | SlotQuestions bytes | SlotExtra "'a gvalue"

definition body_dict :: "'a gvalue \<Rightarrow> bytes \<Rightarrow> bytes \<Rightarrow> 'a extra \<Rightarrow> (bytes \<times> 'a slot) list" where
  "body_dict state model questions extra =
     pydict ([(''state'', SlotState state), (''model'', SlotModel model), (''questions'', SlotQuestions questions)] @
       map (map_prod (\<lambda>k. k) SlotExtra) extra)"

fun slot_text :: "('a \<Rightarrow> bytes + bytes) \<Rightarrow> bytes \<Rightarrow> 'a slot \<Rightarrow> failure_kind + bytes" where
  "slot_text sonic k (SlotState v) = body_failure k False (append_state sonic v [])"
| "slot_text sonic k (SlotModel m) = (case append_string [] m of Inl _ \<Rightarrow> Inl FailModel | Inr t \<Rightarrow> Inr t)"
| "slot_text sonic k (SlotQuestions t) = Inr t"
| "slot_text sonic k (SlotExtra v) =
     body_failure k True (if k = ''state'' then append_state sonic v [] else append_any sonic v [])"

definition member_text :: "('a \<Rightarrow> bytes + bytes) \<Rightarrow> bytes \<times> 'a slot \<Rightarrow> failure_kind + bytes" where
  "member_text sonic kv =
     (case kv of (k, slot) \<Rightarrow>
        rbind (rmap_err (\<lambda>e. FailEncode k True (WireError e)) (append_string [] k)) (\<lambda>name.
        rmap (\<lambda>v. name @ CHR '':'' # v) (slot_text sonic k slot)))"

definition dict_text :: "('a \<Rightarrow> bytes + bytes) \<Rightarrow> (bytes \<times> 'a slot) list \<Rightarrow> failure_kind + bytes" where
  "dict_text sonic dict =
     rmap (\<lambda>ms. CHR ''{'' # join_with '','' ms @ ''}'')
       (rfold (\<lambda>kv ms. rmap (\<lambda>m. ms @ [m]) (member_text sonic kv)) dict [])"

section \<open>The merge\<close>

lemma last_at_snoc: "last_at key (extra @ [e]) = (if fst e = key then Some (length extra) else last_at key extra)"
proof -
  have "foldl (\<lambda>at i. if fst ((extra @ [e]) ! i) = key then Some i else at) None [0..<length extra] = last_at key extra"
    unfolding last_at_def by (rule foldl_cong) (auto simp: nth_append)
  then show ?thesis by (simp add: last_at_def)
qed

lemma last_at_Nil [simp]: "last_at key [] = None"
  by (simp add: last_at_def)

lemma last_at_Some: "last_at key extra = Some i \<Longrightarrow> i < length extra \<and> fst (extra ! i) = key"
  by (induction extra rule: rev_induct) (auto simp: last_at_snoc nth_append split: if_splits)

definition last_slot :: "bytes \<Rightarrow> 'a extra \<Rightarrow> 'a slot \<Rightarrow> 'a slot" where
  "last_slot key extra d = (case last_at key extra of None \<Rightarrow> d | Some i \<Rightarrow> SlotExtra (snd (extra ! i)))"

lemma last_slot_Nil [simp]: "last_slot key [] d = d"
  by (simp add: last_slot_def)

lemma last_slot_snoc: "last_slot key (extra @ [e]) d = (if fst e = key then SlotExtra (snd e) else last_slot key extra d)"
  by (auto simp: last_slot_def last_at_snoc nth_append dest: last_at_Some split: option.split)

definition others :: "'a extra \<Rightarrow> (bytes \<times> 'a slot) list" where
  "others extra = pydict (map (map_prod (\<lambda>k. k) SlotExtra) (filter (\<lambda>e. \<not> built_in (fst e)) extra))"

lemma others_keys: "k \<in> fst ` set (others extra) \<Longrightarrow> \<not> built_in k"
  by (auto simp: others_def fst_pydict)

lemma update_tail: "k \<notin> fst ` set al \<Longrightarrow> AList.update k v (al @ bl) = al @ AList.update k v bl"
  by (induction al) auto

lemma body_dict_split:
  "body_dict state model questions extra =
     [(''state'', last_slot ''state'' extra (SlotState state)), (''model'', last_slot ''model'' extra (SlotModel model)),
      (''questions'', last_slot ''questions'' extra (SlotQuestions questions))] @ others extra"
proof (induction extra rule: rev_induct)
  case Nil
  show ?case by (simp add: body_dict_def others_def pydict_def)
next
  case (snoc e extra)
  obtain k v where e: "e = (k, v)" by (cases e)
  have d: "body_dict state model questions (extra @ [e]) = AList.update k (SlotExtra v) (body_dict state model questions extra)"
    using pydict_snoc [of "[(''state'', SlotState state), (''model'', SlotModel model), (''questions'', SlotQuestions questions)] @ map (map_prod (\<lambda>k. k) SlotExtra) extra" k "SlotExtra v"]
    by (simp add: body_dict_def e del: pydict_snoc)
  have o: "others (extra @ [e]) = (if built_in k then others extra else AList.update k (SlotExtra v) (others extra))"
    by (simp add: others_def e)
  show ?case
    unfolding d snoc.IH o using e by (auto simp: last_slot_snoc built_in_def)
qed

section \<open>The loop over the extra members\<close>

lemma index_of_snoc: "index_of key (xs @ [x]) = (index_of key xs)(key x \<mapsto> length xs)"
proof -
  have "index_from key i (xs @ [x]) m = (index_from key i xs m)(key x \<mapsto> i + length xs)" for i m
    by (induction xs arbitrary: i m) auto
  then show ?thesis by (simp add: index_of_def)
qed

lemma index_of_Nil: "index_of key [] = Map.empty"
  by (simp add: index_of_def)

lemma index_of_last_at: "index_of fst extra k = last_at k extra"
  by (induction extra rule: rev_induct) (auto simp: index_of_snoc last_at_snoc index_of_Nil)

text \<open>The loop writes at the first position of a name the value of its last.\<close>

definition first_at :: "'a extra \<Rightarrow> nat \<Rightarrow> bool" where
  "first_at extra i \<longleftrightarrow> \<not> built_in (fst (extra ! i)) \<and> (\<forall>k < i. fst (extra ! k) \<noteq> fst (extra ! i))"

lemma foldl_last_from:
  "foldl (\<lambda>at k. if p k then Some k else at) (Some i) ks = Some (foldl (\<lambda>j k. if p k then k else j) i ks)"
  by (induction ks arbitrary: i) auto

lemma scan_last:
  assumes "i < length extra"
  shows "last_at (fst (extra ! i)) extra =
    Some (foldl (\<lambda>j k. if fst (extra ! k) = fst (extra ! i) then k else j) i [i + 1..<length extra])"
proof -
  have "[0..<length extra] = [0..<i] @ i # [i + 1..<length extra]"
    using assms upt_add_eq_append [of 0 i "length extra - i"] by (simp add: upt_conv_Cons del: upt_Suc)
  then show ?thesis by (simp add: last_at_def foldl_last_from del: upt_Suc)
qed

definition unwritten_ok :: "'a extra \<Rightarrow> nat \<Rightarrow> (bytes \<rightharpoonup> nat) option \<Rightarrow> bool" where
  "unwritten_ok extra i unw \<longleftrightarrow>
     (case unw of
        None \<Rightarrow> True
      | Some m \<Rightarrow> \<forall>key. \<not> built_in key \<longrightarrow>
          m key = (if \<exists>k < i. fst (extra ! k) = key then None else last_at key extra))"

lemma extra_pick_first:
  assumes "unwritten_ok extra i unw" "i < length extra"
  obtains unw' where "unwritten_ok extra (Suc i) unw'"
    "extra_pick extra unw i = (if first_at extra i then last_at (fst (extra ! i)) extra else None, unw')"
proof (cases "built_in (fst (extra ! i))")
  case True
  with assms have "unwritten_ok extra (Suc i) unw"
    by (auto simp: unwritten_ok_def less_Suc_eq split: option.splits)
  with True that show thesis by (simp add: extra_pick_def first_at_def)
next
  case False
  show thesis
  proof (cases unw)
    case None
    with False scan_last [OF assms(2)] have
      "extra_pick extra unw i = (if first_at extra i then last_at (fst (extra ! i)) extra else None, None)"
      by (auto simp: extra_pick_def first_at_def list_ex_iff Let_def)
    moreover have "unwritten_ok extra (Suc i) None" by (simp add: unwritten_ok_def)
    ultimately show thesis using that by blast
  next
    case (Some m)
    have m: "m (fst (extra ! i)) = (if first_at extra i then last_at (fst (extra ! i)) extra else None)"
      using assms(1) Some False by (auto simp: unwritten_ok_def first_at_def)
    have "last_at (fst (extra ! i)) extra \<noteq> None" using scan_last [OF assms(2)] by simp
    with m have pick: "extra_pick extra unw i =
      (if first_at extra i then last_at (fst (extra ! i)) extra else None,
       if first_at extra i then Some (m(fst (extra ! i) := None)) else Some m)"
      using Some False by (auto simp: extra_pick_def Let_def split: option.split)
    have "unwritten_ok extra (Suc i) (if first_at extra i then Some (m(fst (extra ! i) := None)) else Some m)"
      using assms(1) Some False by (auto simp: unwritten_ok_def first_at_def less_Suc_eq)
    with pick that show thesis by blast
  qed
qed

text \<open>One written member.\<close>

definition put_extra :: "('a \<Rightarrow> bytes + bytes) \<Rightarrow> bytes \<times> 'a slot \<Rightarrow> bytes \<Rightarrow> failure_kind + bytes" where
  "put_extra sonic kv buf = rmap (\<lambda>m. buf @ CHR '','' # m) (member_text sonic kv)"

lemma encode_state_rmap: "encode_state sonic t n v buf = rmap (\<lambda>s. buf @ s) (encode_state sonic t n v [])"
  by (simp add: encode_state_def split: list.split option.split sum.split)

lemma encode_value_rmap: "encode_value sonic t n v buf = rmap (\<lambda>s. buf @ s) (encode_value sonic t n v [])"
  by (simp add: encode_value_def split: option.split sum.split)

lemma content_wire_rmap:
  "rmap_err WireError (append_content buf c) = rmap (\<lambda>s. buf @ s) (rmap_err WireError (append_content [] c))"
  unfolding append_content_rmap [of buf c] by (cases "append_content [] c") auto

lemma append_raw_state_rmap: "append_raw_state raw buf = rmap (\<lambda>s. buf @ s) (append_raw_state raw [])"
  by (simp add: append_raw_state_def split: list.split)

lemma append_raw_value_rmap: "append_raw_value raw buf = rmap (\<lambda>s. buf @ s) (append_raw_value raw [])"
  by (simp add: append_raw_value_def split: list.split)

lemma append_state_rmap: "append_state sonic v buf = rmap (\<lambda>s. buf @ s) (append_state sonic v [])"
proof (cases v)
  case (Raw x)
  then show ?thesis using append_raw_state_rmap [of x buf] by simp
next
  case (RawPtr x)
  then show ?thesis using append_raw_state_rmap [of "the x" buf] by (cases x) simp_all
next
  case (ContentVal x)
  then show ?thesis using content_wire_rmap [of buf "the x"] by (cases x) simp_all
next
  case (Other t n x)
  then show ?thesis using encode_state_rmap [of sonic t n x buf] by simp
qed

lemma append_any_rmap: "append_any sonic v buf = rmap (\<lambda>s. buf @ s) (append_any sonic v [])"
proof (cases v)
  case (Raw x)
  then show ?thesis using append_raw_value_rmap [of x buf] by simp
next
  case (RawPtr x)
  then show ?thesis using append_raw_value_rmap [of "the x" buf] by (cases x) simp_all
next
  case (ContentVal x)
  then show ?thesis using content_wire_rmap [of buf "the x"] by (cases x) simp_all
next
  case (Other t n x)
  then show ?thesis using encode_value_rmap [of sonic t n x buf] by simp
qed

text \<open>The two writers of values are appenders.\<close>

interpretation state_app: appender "\<lambda>buf v. append_state sonic v buf" "\<lambda>v. append_state sonic v []" for sonic
  by unfold_locales (rule append_state_rmap)

interpretation any_app: appender "\<lambda>buf v. append_any sonic v buf" "\<lambda>v. append_any sonic v []" for sonic
  by unfold_locales (rule append_any_rmap)

lemma extra_step_first:
  assumes "unwritten_ok extra i unw" "i < length extra"
  obtains unw' where "unwritten_ok extra (Suc i) unw'"
    "extra_step sonic extra i (buf, unw) =
       (if first_at extra i
        then rmap (\<lambda>buf. (buf, unw')) (put_extra sonic (fst (extra ! i), SlotExtra (snd (extra ! the (last_at (fst (extra ! i)) extra)))) buf)
        else Inr (buf, unw'))"
proof -
  obtain unw' where u: "unwritten_ok extra (Suc i) unw'"
    "extra_pick extra unw i = (if first_at extra i then last_at (fst (extra ! i)) extra else None, unw')"
    using extra_pick_first [OF assms] by blast
  let ?k = "fst (extra ! i)"
  obtain j where j: "last_at ?k extra = Some j" using scan_last [OF assms(2)] by simp
  have "?k \<noteq> ''state''" if "first_at extra i" using that by (auto simp: first_at_def built_in_def)
  then have "extra_step sonic extra i (buf, unw) =
       (if first_at extra i
        then rmap (\<lambda>buf. (buf, unw')) (put_extra sonic (?k, SlotExtra (snd (extra ! the (last_at ?k extra)))) buf)
        else Inr (buf, unw'))"
    using u(2) j append_string_rmap [of "buf @ '',''" ?k]
    by (cases "append_string [] ?k"; cases "append_any sonic (snd (extra ! j)) []")
      (simp_all add: extra_step_def put_extra_def member_text_def body_failure_def
        append_any_rmap [of sonic "snd (extra ! j)" "buf @ CHR '','' # x @ '':''" for x])
  with u(1) that show thesis by blast
qed

lemma extra_loop:
  assumes "unwritten_ok extra i unw" "i + n \<le> length extra"
  shows "rmap fst (rfold (extra_step sonic extra) [i..<i + n] (buf, unw)) =
    rfold (put_extra sonic)
      (map (\<lambda>i. (fst (extra ! i), SlotExtra (snd (extra ! the (last_at (fst (extra ! i)) extra))))) (filter (first_at extra) [i..<i + n])) buf"
  using assms
proof (induction n arbitrary: i unw buf)
  case (Suc n)
  obtain unw' where u: "unwritten_ok extra (Suc i) unw'"
    "extra_step sonic extra i (buf, unw) =
       (if first_at extra i
        then rmap (\<lambda>buf. (buf, unw')) (put_extra sonic (fst (extra ! i), SlotExtra (snd (extra ! the (last_at (fst (extra ! i)) extra)))) buf)
        else Inr (buf, unw'))"
    using extra_step_first [OF Suc.prems(1)] Suc.prems(2) by (metis add_Suc_right less_le_trans less_add_Suc1)
  have i: "[i..<i + Suc n] = i # [Suc i..<Suc i + n]" by (simp add: upt_conv_Cons del: upt_Suc)
  from Suc.IH [OF u(1)] Suc.prems(2) show ?case
    unfolding i
    by (cases "put_extra sonic (fst (extra ! i), SlotExtra (snd (extra ! the (last_at (fst (extra ! i)) extra)))) buf")
      (simp_all add: u(2) del: upt_Suc)
qed simp

lemma first_at_append: "i < length extra \<Longrightarrow> first_at (extra @ [e]) i = first_at extra i"
  by (auto simp: first_at_def nth_append)

lemma others_order: "map fst (others extra) = map (\<lambda>i. fst (extra ! i)) (filter (first_at extra) [0..<length extra])"
proof (induction extra rule: rev_induct)
  case (snoc e extra)
  let ?n = "length extra"
  have old: "map (\<lambda>i. fst ((extra @ [e]) ! i)) (filter (first_at (extra @ [e])) [0..<?n]) =
    map (\<lambda>i. fst (extra ! i)) (filter (first_at extra) [0..<?n])"
    by (rule map_cong) (auto simp: first_at_append nth_append intro!: filter_cong)
  have new: "first_at (extra @ [e]) ?n \<longleftrightarrow> \<not> built_in (fst e) \<and> fst e \<notin> fst ` set (others extra)"
    by (auto simp: first_at_def nth_append others_def fst_pydict image_iff in_set_conv_nth map_prod_def)
      (metis prod.collapse)+
  have "map fst (others (extra @ [e])) = map fst (others extra) @ (if first_at (extra @ [e]) ?n then [fst e] else [])"
    unfolding new by (cases e) (auto simp: others_def update_keys fst_pydict image_iff)
  with snoc.IH old show ?case by (simp add: nth_append)
qed (simp add: others_def)

lemma others_value:
  "\<not> built_in k \<Longrightarrow> map_of (others extra) k = map_option (\<lambda>i. SlotExtra (snd (extra ! i))) (last_at k extra)"
proof (induction extra rule: rev_induct)
  case (snoc e extra)
  then show ?case
    by (cases e; cases "last_at k extra") (auto simp: others_def last_at_snoc update_conv' nth_append dest: last_at_Some)
qed (simp add: others_def)

lemma others_list:
  "others extra = map (\<lambda>i. (fst (extra ! i), SlotExtra (snd (extra ! the (last_at (fst (extra ! i)) extra))))) (filter (first_at extra) [0..<length extra])"
    (is "_ = map ?f ?is")
proof (rule nth_equalityI)
  show len: "length (others extra) = length (map ?f ?is)"
    using arg_cong [OF others_order [of extra], of length] by simp
  fix i assume i: "i < length (others extra)"
  obtain k v where kv: "others extra ! i = (k, v)" by fastforce
  have k: "k = fst (extra ! (?is ! i))"
    using arg_cong [OF others_order [of extra], of "\<lambda>l. l ! i"] i len kv by simp
  have "?is ! i \<in> set ?is" using i len by (simp only: length_map nth_mem)
  then have f: "first_at extra (?is ! i)" "?is ! i < length extra" by auto
  have "distinct (map fst (others extra))" by (simp add: others_def pydict_distinct)
  then have "map_of (others extra) k = Some v" using i kv by (metis map_of_is_SomeI nth_mem)
  moreover have "\<not> built_in k" using f k by (simp add: first_at_def)
  ultimately have "v = SlotExtra (snd (extra ! the (last_at k extra)))" by (auto simp: others_value)
  with kv k i len show "others extra ! i = map ?f ?is ! i" by simp
qed

lemma append_extra_others: "append_extra sonic extra buf = rfold (put_extra sonic) (others extra) buf"
proof -
  have "unwritten_ok extra 0 (if repeat_scan_limit < length extra then Some (index_of fst extra) else None)"
    by (simp add: unwritten_ok_def index_of_last_at)
  from extra_loop [OF this, of "length extra"] show ?thesis by (simp add: append_extra_def others_list)
qed

section \<open>The whole body\<close>

lemma rmap_err_rmap: "rmap_err f (rmap g r) = rmap g (rmap_err f r)"
  by (cases r) auto

lemma put_extra_join:
  "ms \<noteq> [] \<Longrightarrow> rfold (put_extra sonic) kvs (CHR ''{'' # join_with '','' ms) =
     rmap (\<lambda>ms. CHR ''{'' # join_with '','' ms) (rfold (\<lambda>kv ms. rmap (\<lambda>m. ms @ [m]) (member_text sonic kv)) kvs ms)"
proof (induction kvs arbitrary: ms)
  case (Cons kv kvs)
  show ?case
  proof (cases "member_text sonic kv")
    case (Inr m)
    with Cons.IH [of "ms @ [m]"] Cons.prems show ?thesis by (simp add: put_extra_def join_with_snoc)
  qed (simp add: put_extra_def)
qed simp

lemma literal_key:
  assumes "k \<in> {''state'', ''model'', ''questions''}"
  shows "append_string [] k = Inr (quoted k)"
  using assms by (elim insertE emptyE) (simp_all add: quoted_def, code_simp+)

lemma name_literal_text: "append_string [] k = Inr (quoted k) \<Longrightarrow>
    member_text sonic (k, s) = rmap (\<lambda>v. name_literal k @ v) (slot_text sonic k s)"
  by (simp add: member_text_def name_literal_def)

lemma encode_state_member:
  "(case last_at ''state'' extra of
      None \<Rightarrow> body_failure ''state'' False (append_state sonic state buf)
    | Some i \<Rightarrow> body_failure ''state'' True (append_state sonic (snd (extra ! i)) buf)) =
   rmap (\<lambda>v. buf @ v) (slot_text sonic ''state'' (last_slot ''state'' extra (SlotState state)))"
  unfolding append_state_rmap [of sonic _ buf]
  by (auto simp: last_slot_def body_failure_def rmap_err_rmap split: option.split)

lemma encode_any_member:
  assumes "k = ''model'' \<or> k = ''questions''" and "last_at k extra = Some i"
  shows "body_failure k True (append_any sonic (snd (extra ! i)) buf) =
    rmap (\<lambda>v. buf @ v) (slot_text sonic k (last_slot k extra d))"
  using assms append_any_rmap [of sonic "snd (extra ! i)" buf]
  by (cases "append_any sonic (snd (extra ! i)) []") (auto simp: last_slot_def body_failure_def)

lemma encode_body_dict_eq:
  "encode_body sonic state model q extra =
     (case q of
        None \<Rightarrow> Inl FailNoQuestions
      | Some q \<Rightarrow>
          if p_entries q = [] then Inl FailNoQuestions
          else if last_at ''model'' extra = None \<and> \<not> valid_utf8 model then Inl FailModel
          else dict_text sonic (body_dict state model (p_questions q) extra))"
proof (cases q)
  case (Some q')
  show ?thesis
  proof (cases "last_at ''model'' extra = None \<and> \<not> valid_utf8 model")
    case False
    note key = name_literal_text [OF literal_key]
    let ?m = "\<lambda>k d. member_text sonic (k, last_slot k extra d)"
    have model: "(case last_at ''model'' extra of
        None \<Rightarrow> (case append_string buf model of Inl _ \<Rightarrow> Inr buf | Inr buf \<Rightarrow> Inr buf)
      | Some i \<Rightarrow> body_failure ''model'' True (append_any sonic (snd (extra ! i)) buf)) =
      rmap (\<lambda>v. buf @ v) (slot_text sonic ''model'' (last_slot ''model'' extra (SlotModel model)))" for buf
      using False append_string_eq [of "[]" model] append_string_rmap [of buf model] encode_any_member [of "''model''" extra _ sonic buf "SlotModel model"]
      by (auto simp: last_slot_def res_simps split: option.split)
    have questions: "(case last_at ''questions'' extra of
        None \<Rightarrow> Inr (buf @ p_questions q')
      | Some i \<Rightarrow> body_failure ''questions'' True (append_any sonic (snd (extra ! i)) buf)) =
      rmap (\<lambda>v. buf @ v) (slot_text sonic ''questions'' (last_slot ''questions'' extra (SlotQuestions (p_questions q'))))" for buf
      using encode_any_member [of "''questions''" extra _ sonic buf "SlotQuestions (p_questions q')"]
      by (auto simp: last_slot_def split: option.split)
    have join: "rfold (put_extra sonic) kvs (CHR ''{'' # a @ CHR '','' # b @ CHR '','' # c) =
      rmap (\<lambda>ms. CHR ''{'' # join_with '','' ms) (rfold (\<lambda>kv ms. rmap (\<lambda>m. ms @ [m]) (member_text sonic kv)) kvs [a, b, c])"
      for kvs a b c using put_extra_join [of "[a, b, c]" sonic kvs] by simp
    let ?S = "slot_text sonic ''state'' (last_slot ''state'' extra (SlotState state))"
    let ?M = "slot_text sonic ''model'' (last_slot ''model'' extra (SlotModel model))"
    let ?Q = "slot_text sonic ''questions'' (last_slot ''questions'' extra (SlotQuestions (p_questions q')))"
    have "?thesis = (p_entries q' = [] \<or>
      rbind ?S (\<lambda>s. rbind ?M (\<lambda>m. rbind ?Q (\<lambda>t. rmap (\<lambda>buf. buf @ ''}'') (rfold (put_extra sonic) (others extra)
        (CHR ''{'' # (name_literal ''state'' @ s) @ CHR '','' # (name_literal ''model'' @ m) @ CHR '','' # name_literal ''questions'' @ t))))) =
      dict_text sonic (body_dict state model (p_questions q') extra))"
      using False unfolding Some encode_body_def option.case encode_state_member model Let_def questions append_extra_others
      by auto
    also have "\<dots>"
      unfolding join dict_text_def body_dict_split
      by (cases ?S; cases ?M; cases ?Q) (simp_all add: key comp_def)
    finally show ?thesis by simp
  qed (simp add: encode_body_def Some)
qed (simp add: encode_body_def)

section \<open>A body is JSON\<close>

definition is_json_text :: "bytes \<Rightarrow> bool" where
  "is_json_text t \<longleftrightarrow> is_ok (append_json [] t)"

lemma is_json_text_iff: "is_json_text t \<longleftrightarrow> (\<exists>w u w' c. t = w @ u @ w' \<and> ws w \<and> ws w' \<and> jval c u)"
  unfolding is_json_text_def is_ok_def append_json_iff by auto

definition member_form :: "bytes \<Rightarrow> bool" where
  "member_form m \<longleftrightarrow> (\<exists>k v. m = k @ CHR '':'' # v \<and> str_tok k \<and> is_json_text v)"

lemma members_form:
  "list_all member_form ms \<Longrightarrow> \<exists>c. jmembers c (concat (map (\<lambda>m. CHR '','' # m) ms))"
proof (induction ms)
  case Nil
  then show ?case using J_members0 [of "[]"] by auto
next
  case (Cons m ms)
  then obtain c where c: "jmembers c (concat (map (\<lambda>m. CHR '','' # m) ms))" by auto
  from Cons.prems obtain k w u w' d where m: "m = k @ CHR '':'' # w @ u @ w'" "str_tok k" "ws w" "ws w'" "jval d u"
    by (auto simp: member_form_def is_json_text_iff)
  from J_members [of "[]" "[]" k "[]" w d u, OF _ _ m(2) _ m(3,5) jmembers_ws [OF c m(4)]] m(1)
  show ?case by auto
qed

lemma object_form:
  assumes "list_all member_form ms" "ms \<noteq> []"
  shows "is_json_text (CHR ''{'' # join_with '','' ms @ ''}'')"
proof -
  obtain m rest where ms: "ms = m # rest" using assms(2) by (cases ms) auto
  obtain c where c: "jmembers c (concat (map (\<lambda>m. CHR '','' # m) rest))" using members_form assms(1) ms by auto
  from assms(1) ms obtain k w u w' d where m: "m = k @ CHR '':'' # w @ u @ w'" "str_tok k" "ws w" "ws w'" "jval d u"
    by (auto simp: member_form_def is_json_text_iff)
  have "join_with '','' ms = m @ concat (map (\<lambda>m. CHR '','' # m) rest)"
    unfolding ms by (simp add: join_with_Cons)
  then have t: "CHR ''{'' # join_with '','' ms @ ''}'' =
      CHR ''{'' # [] @ k @ [] @ CHR '':'' # w @ u @ (w' @ concat (map (\<lambda>m. CHR '','' # m) rest)) @ [CHR ''}'']"
    using m(1) by simp
  have "\<exists>e. jval e (CHR ''{'' # join_with '','' ms @ ''}'')"
    unfolding t using J_obj [of "[]" k "[]" w d u, OF _ m(2) _ m(3,5) jmembers_ws [OF c m(4)]] by auto
  then show ?thesis unfolding is_json_text_iff by (metis append.left_neutral append.right_neutral list.pred_inject(1))
qed

text \<open>What the callers of the encoder promise: raw JSON is JSON, and so is what sonic writes.\<close>

fun value_is_json :: "('a \<Rightarrow> bytes + bytes) \<Rightarrow> 'a gvalue \<Rightarrow> bool" where
  "value_is_json sonic (Raw raw) = is_json_text raw"
| "value_is_json sonic (RawPtr r) = (case r of None \<Rightarrow> True | Some raw \<Rightarrow> is_json_text raw)"
| "value_is_json sonic (ContentVal c) = True"
| "value_is_json sonic (Other t n v) = (case sonic v of Inl _ \<Rightarrow> True | Inr s \<Rightarrow> is_json_text s)"

lemma jval_json_text: "jval c t \<Longrightarrow> is_json_text t"
  unfolding is_json_text_iff by (metis append.left_neutral append.right_neutral list.pred_inject(1))

lemma content_json_text: "append_content [] c = Inr t \<Longrightarrow> is_json_text t"
  using append_content_ok [of "[]" c t] by (auto intro: jval_json_text)

lemma append_state_json: "append_state sonic v [] = Inr t \<Longrightarrow> value_is_json sonic v \<Longrightarrow> is_json_text t"
  by (induction sonic v "[] :: bytes" rule: append_state.induct)
    (auto simp: append_raw_state_def encode_state_def res_simps content_json_text split: list.splits option.splits sum.splits if_splits)

lemma append_any_json: "append_any sonic v [] = Inr t \<Longrightarrow> value_is_json sonic v \<Longrightarrow> is_json_text t"
  using J_lit [of "''null''"]
  by (induction sonic v "[] :: bytes" rule: append_any.induct)
    (auto simp: append_raw_value_def encode_value_def res_simps content_json_text jval_json_text split: list.splits option.splits sum.splits if_splits)

fun slot_is_json :: "('a \<Rightarrow> bytes + bytes) \<Rightarrow> 'a slot \<Rightarrow> bool" where
  "slot_is_json sonic (SlotState v) = value_is_json sonic v"
| "slot_is_json sonic (SlotModel m) = True"
| "slot_is_json sonic (SlotQuestions t) = is_json_text t"
| "slot_is_json sonic (SlotExtra v) = value_is_json sonic v"

lemma str_tok_json_text: "str_tok t \<Longrightarrow> is_json_text t"
  by (rule jval_json_text) (rule J_str)

lemma slot_text_json: "slot_text sonic k s = Inr t \<Longrightarrow> slot_is_json sonic s \<Longrightarrow> is_json_text t"
  using append_string_str_tok [of "[]"]
  by (cases s) (auto simp: body_failure_def res_simps append_state_json append_any_json
      intro: str_tok_json_text split: if_splits sum.splits)

lemma member_text_form: "member_text sonic (k, s) = Inr m \<Longrightarrow> slot_is_json sonic s \<Longrightarrow> member_form m"
  using append_string_str_tok [of "[]" k] slot_text_json [of sonic k s]
  by (auto simp: member_text_def res_simps member_form_def)

lemma dict_members_form:
  "rfold (\<lambda>kv ms. rmap (\<lambda>m. ms @ [m]) (member_text sonic kv)) kvs ms0 = Inr ms \<Longrightarrow>
   \<forall>(k, s) \<in> set kvs. slot_is_json sonic s \<Longrightarrow> list_all member_form ms0 \<Longrightarrow>
   list_all member_form ms \<and> length ms = length ms0 + length kvs"
  by (induction kvs arbitrary: ms0) (fastforce simp: res_simps dest: member_text_form)+

lemma dict_text_json:
  assumes "dict_text sonic kvs = Inr b" "\<forall>(k, s) \<in> set kvs. slot_is_json sonic s" "kvs \<noteq> []"
  shows "is_json_text b"
  using assms dict_members_form [of sonic kvs "[]"] object_form
  by (fastforce simp: dict_text_def res_simps)

lemma pydict_values: "kv \<in> set (pydict kvs) \<Longrightarrow> kv \<in> set kvs"
proof -
  assume "kv \<in> set (pydict kvs)"
  then have "map_of (pydict kvs) (fst kv) = Some (snd kv)" using pydict_distinct [of kvs] by (metis map_of_is_SomeI prod.collapse)
  then show ?thesis by (cases kv) (auto simp: pydict_map_of dest: map_of_SomeD)
qed

text \<open>C13: the body of a request is the Python SDK's merge of dictionaries, encoded member by member
  in the order of their first appearance: a member of the call's extra ones named \<open>state\<close>,
  \<open>model\<close> or \<open>questions\<close> stands where the built-in one stood, with its last value, and the others
  follow; the first member that cannot be encoded is the failure. This holds however many extra
  members there are, whichever of the two ways of finding a repeat the loop uses.\<close>

theorem encode_body_dict:
  "encode_body sonic state model q extra =
     (case q of
        None \<Rightarrow> Inl FailNoQuestions
      | Some q \<Rightarrow>
          if p_entries q = [] then Inl FailNoQuestions
          else if last_at ''model'' extra = None \<and> \<not> valid_utf8 model then Inl FailModel
          else dict_text sonic (body_dict state model (p_questions q) extra))"
  by (rule encode_body_dict_eq)

text \<open>a body is always one JSON text, if the question set's bytes are, and if raw JSON and what
  sonic writes are: the escaping of names, the commas and the places of replaced members never
  break it.\<close>

theorem encode_body_json:
  assumes "encode_body sonic state model (Some q) extra = Inr b"
    and "is_json_text (p_questions q)" and "value_is_json sonic state"
    and "\<forall>(k, v) \<in> set extra. value_is_json sonic v"
  shows "is_json_text b"
proof -
  have "\<forall>(k, s) \<in> set (body_dict state model (p_questions q) extra). slot_is_json sonic s"
    using assms(2-4) unfolding body_dict_def by (fastforce dest!: pydict_values)
  moreover have "dict_text sonic (body_dict state model (p_questions q) extra) = Inr b"
    using assms(1) by (simp add: encode_body_dict_eq split: if_splits)
  ultimately show ?thesis by (intro dict_text_json) (auto simp: body_dict_split)
qed

theorem encode_body_json_witness:
  "is_json_text (CHR ''{'' # join_with '','' [name_literal ''state'' @ ''[]'', name_literal ''model'' @ ''null'', name_literal ''questions'' @ ''{}''] @ ''}'')"
proof -
  let ?q = "\<lparr>p_questions = ''{}'', p_entries = [\<lparr>pq_name = ''a'', pq_kind = KindNoul, pq_options = [], pq_levels = []\<rparr>], p_index = None\<rparr>"
  have e: "encode_body (\<lambda>v :: nat. Inl []) (Raw ''[]'') [] (Some ?q) [(''model'', Raw ''null'')] =
      Inr (CHR ''{'' # join_with '','' [name_literal ''state'' @ ''[]'', name_literal ''model'' @ ''null'', name_literal ''questions'' @ ''{}''] @ ''}'')"
    by (simp add: encode_body_dict_eq last_at_def dict_text_def body_dict_def pydict_def name_literal_text literal_key body_failure_def
        append_raw_state_def append_raw_value_def starts_state_def starts_value_def is_space_def is_digit_def byte_between_def)
  have "is_json_text ''{}''" "is_json_text ''[]''" "is_json_text ''null''"
    using jval_json_text [OF J_obj0 [of "[]"]] jval_json_text [OF J_arr0 [of "[]"]] jval_json_text [OF J_lit [of "''null''"]] by simp_all
  then have "is_json_text (p_questions ?q)" "value_is_json (\<lambda>v :: nat. Inl []) (Raw ''[]'')"
    "\<forall>(k, v) \<in> set [(''model'', Raw ''null'')]. value_is_json (\<lambda>v :: nat. Inl []) v" by simp_all
  from encode_body_json [OF e this] show ?thesis .
qed

section \<open>Falsy values\<close>

text \<open>The reference: the compact JSON texts of the values Python finds false.\<close>

definition zero_number :: "bytes \<Rightarrow> bool" where
  "zero_number t \<longleftrightarrow> list_all (\<lambda>c. \<not> byte_between 49 57 c) (takeWhile (\<lambda>c. c \<noteq> CHR ''e'' \<and> c \<noteq> CHR ''E'') t)"

definition falsy_text :: "bytes \<Rightarrow> bool" where
  "falsy_text c \<longleftrightarrow> c \<in> {''null'', ''false'', [quote_char, quote_char], ''[]'', ''{}''} \<or> num_tok c \<and> zero_number c"

lemma falsy_number_zero: "ws w \<Longrightarrow> falsy_number (t @ w) = zero_number t"
proof (induction t)
  case Nil
  then have "falsy_number w" by (induction w) (auto simp: is_space_def byte_between_def)
  then show ?case by (simp add: zero_number_def)
next
  case (Cons c t)
  then show ?case by (auto simp: zero_number_def byte_between_def)
qed

lemma str_chars_head: "str_chars p \<Longrightarrow> p = [] \<or> hd p \<noteq> quote_char"
  by (erule str_chars.cases) (auto simp: plain_char_def rune_tok_def)

lemma num_not_bracket: "num_tok t \<Longrightarrow> t \<noteq> [] \<and> (hd t = CHR ''-'' \<or> is_digit (hd t))"
  using num_tok_Cons [of t] by auto

lemma not_digit_tokens [simp]:
  "\<not> is_digit quote_char" "\<not> is_digit CHR ''['' " "\<not> is_digit CHR ''{''" "\<not> is_digit CHR ''n''" "\<not> is_digit CHR ''f''" "\<not> is_digit CHR ''t''"
  by (simp_all add: is_digit_def byte_between_def)

lemma maybe_falsy_jval:
  assumes "jval c t" "ws w'"
  shows "maybe_falsy_json (t @ w') = falsy_text c"
  using assms
proof (cases rule: jval.cases)
  case J_str
  then obtain p where p: "t = quote_char # p @ [quote_char]" "str_chars p" by (auto simp: str_tok_def)
  have "\<not> num_tok t" using num_not_bracket [of t] p by auto
  with p J_str str_chars_head [OF p(2)] show ?thesis
    by (cases p) (auto simp: maybe_falsy_json_def falsy_text_def is_space_def)
next
  case J_num
  then obtain a b where t: "t = a # b" "a = CHR ''-'' \<or> is_digit a" using num_tok_Cons by blast
  then have "\<not> is_space a" "a \<notin> {CHR ''n'', CHR ''f'', quote_char, CHR ''['', CHR ''{''}"
    by (auto simp: is_space_def is_digit_def byte_between_def)
  with t have "maybe_falsy_json (t @ w') = falsy_number (t @ w')" by (simp add: maybe_falsy_json_def)
  also have "\<dots> = zero_number t" by (rule falsy_number_zero [OF assms(2)])
  also have "\<dots> = falsy_text c" using J_num t \<open>a \<notin> _\<close> by (auto simp: falsy_text_def)
  finally show ?thesis .
next
  case J_lit
  moreover have "\<not> num_tok ''true''" "\<not> num_tok ''false''" "\<not> num_tok ''null''" 
    using num_not_bracket [of "''true''"] num_not_bracket [of "''false''"] num_not_bracket [of "''null''"] by auto
  moreover have "maybe_falsy_json (''true'' @ w') = False" "maybe_falsy_json (''false'' @ w') = True" "maybe_falsy_json (''null'' @ w') = True"
    by (simp_all add: maybe_falsy_json_def is_space_def)
  ultimately show ?thesis by (elim insertE emptyE) (simp_all add: falsy_text_def)
next
  case (J_arr0 w)
  then show ?thesis by (simp add: maybe_falsy_json_def falsy_text_def is_space_def)
next
  case (J_arr w d u ce te)
  have "\<not> num_tok c" using num_not_bracket [of c] J_arr by auto
  moreover obtain a b where "u = a # b" "\<not> is_space a" "a \<noteq> CHR '']''" using jval_head [OF J_arr(4)] by blast
  moreover have "d \<noteq> []" using jval_compact(1) [OF J_arr(4)] jval_head by blast
  ultimately show ?thesis using J_arr by (auto simp: maybe_falsy_json_def falsy_text_def is_space_def Cons_eq_append_conv)
next
  case (J_obj0 w)
  then show ?thesis by (simp add: maybe_falsy_json_def falsy_text_def is_space_def)
next
  case (J_obj w k w1 w2 d u ce te)
  have "\<not> num_tok c" using num_not_bracket [of c] J_obj by auto
  moreover obtain cs where "k = quote_char # cs" using str_tok_Cons [OF J_obj(4)] by blast
  ultimately show ?thesis using J_obj by (auto simp: maybe_falsy_json_def falsy_text_def is_space_def)
qed

lemma maybe_falsy_skip: "maybe_falsy_json raw = maybe_falsy_json (skip_space raw)"
proof -
  have "skip_space (skip_space raw) = skip_space raw"
    by (cases "skip_space raw") (auto dest: skip_space_head)
  then show ?thesis by (simp add: maybe_falsy_json_def)
qed

text \<open>the value a question's score may not be, one Python finds false, is recognised exactly: a
  valid JSON text whose value is null, false, the empty string, array or object, or a number equal
  to zero. Looking at the first bytes alone is never wrong on valid JSON.\<close>

theorem falsy_json_correct:
  "falsy_json raw \<longleftrightarrow> (\<exists>c. append_json [] raw = Inr c \<and> falsy_text c)"
proof (cases "append_json [] raw")
  case (Inr c)
  then obtain w t w' where r: "raw = w @ t @ w'" "ws w" "ws w'" "jval c t" by (auto simp: append_json_iff)
  then have "skip_space raw = t @ w'" using jval_skip by simp
  with maybe_falsy_jval [OF r(4,3)] have "maybe_falsy_json raw = falsy_text c" by (subst maybe_falsy_skip) simp
  with Inr show ?thesis by (simp add: falsy_json_def)
qed (simp add: falsy_json_def)

end
