(* ===== verification/Engine_Header.thy ===== *)
theory Engine_Header
  imports Engine_Redact Wire_Answers "HOL-Library.Multiset"
begin

text \<open>
  The set of proxy credentials a transport remembers, \<open>internal/engine/proxycreds.go\<close>, and the header
  redactor the error types and the log records use, \<open>internal/engine/redact.go\<close>.
\<close>

section \<open>The forms of a proxy credential\<close>

record userinfo =
  ui_name :: bytes
  ui_password :: "bytes option"

definition b64_char :: "nat \<Rightarrow> char" where
  "b64_char n = ''ABCDEFGHIJKLMNOPQRSTUVWXYZabcdefghijklmnopqrstuvwxyz0123456789+/'' ! n"

fun base64 :: "bytes \<Rightarrow> bytes" where
  "base64 [] = []"
| "base64 [a] = [b64_char (byte a div 4), b64_char (byte a mod 4 * 16), CHR ''='', CHR ''='']"
| "base64 [a, b] =
     [b64_char (byte a div 4), b64_char (byte a mod 4 * 16 + byte b div 16), b64_char (byte b mod 16 * 4), CHR ''='']"
| "base64 (a # b # c # s) =
     b64_char (byte a div 4) # b64_char (byte a mod 4 * 16 + byte b div 16) #
     b64_char (byte b mod 16 * 4 + byte c div 64) # b64_char (byte c mod 64) # base64 s"

text \<open>\<open>url.Userinfo.String\<close> escapes a password so.\<close>

definition url_keeps :: "char \<Rightarrow> bool" where
  "url_keeps c \<longleftrightarrow>
     byte_between 97 122 c \<or> byte_between 65 90 c \<or> byte_between 48 57 c \<or>
     c \<in> set ''-_.~'' \<or> c \<in> set ''$&+,;=''"

definition hex_upper :: "nat \<Rightarrow> char" where
  "hex_upper n = ''0123456789ABCDEF'' ! n"

definition url_escape :: "bytes \<Rightarrow> bytes" where
  "url_escape s = concat (map (\<lambda>c. if url_keeps c then [c] else [CHR ''%'', hex_upper (byte c div 16), hex_upper (byte c mod 16)]) s)"

definition password_of :: "userinfo \<Rightarrow> bytes" where
  "password_of u = (case ui_password u of Some p \<Rightarrow> p | None \<Rightarrow> [])"

definition proxy_credential_forms :: "userinfo \<Rightarrow> bytes \<times> bytes \<times> bytes" where
  "proxy_credential_forms u =
     (base64 (ui_name u @ '':'' @ password_of u), password_of u, url_escape (password_of u))"

definition add_proxy :: "(nat \<Rightarrow> bool) \<Rightarrow> bool \<Rightarrow> userinfo \<Rightarrow> bytes list \<Rightarrow> bytes list" where
  "add_proxy ip words u c =
     (case proxy_credential_forms u of
        (token, password, esc) \<Rightarrow>
          let c = add_any ip esc (add_any ip password (add_any ip token c)) in
          if words then fold (add_any ip) (split_on CHR '' '' password) c else c)"

section \<open>ProxyCreds\<close>

definition max_proxy_userinfos :: nat where
  "max_proxy_userinfos = 16"

record proxy_needles =
  pn_text :: "bytes list"
  pn_header :: "bytes list"

record proxy_creds =
  pc_users :: "userinfo list"
  pc_needles :: "proxy_needles option"

definition no_proxies :: proxy_creds where
  "no_proxies = \<lparr>pc_users = [], pc_needles = None\<rparr>"

definition needles_of :: "(nat \<Rightarrow> bool) \<Rightarrow> userinfo list \<Rightarrow> proxy_needles" where
  "needles_of ip users =
     \<lparr>pn_text = sort_longest (fold (add_proxy ip True) users []),
      pn_header = sort_longest (filter key_needle (fold (add_proxy ip False) users []))\<rparr>"

definition proxy_record :: "(nat \<Rightarrow> bool) \<Rightarrow> userinfo option \<Rightarrow> proxy_creds \<Rightarrow> proxy_creds" where
  "proxy_record ip user p =
     (case user of
        None \<Rightarrow> p
      | Some u \<Rightarrow>
          (case find_index (\<lambda>x. x = u) (pc_users p) of
             Some i \<Rightarrow>
               if i = length (pc_users p) - 1 then p
               else p\<lparr>pc_users := take i (pc_users p) @ drop (Suc i) (pc_users p) @ [u]\<rparr>
           | None \<Rightarrow>
               let users = (if length (pc_users p) = max_proxy_userinfos then drop 1 (pc_users p) else pc_users p) @ [u] in
               p\<lparr>pc_users := users, pc_needles := Some (needles_of ip users)\<rparr>))"

definition proxy_snapshot :: "proxy_creds \<Rightarrow> proxy_creds" where
  "proxy_snapshot p = no_proxies\<lparr>pc_needles := pc_needles p\<rparr>"

definition proxy_credentials :: "proxy_creds option \<Rightarrow> bytes list" where
  "proxy_credentials p =
     (case p of None \<Rightarrow> [] | Some p \<Rightarrow> (case pc_needles p of Some n \<Rightarrow> pn_text n | None \<Rightarrow> []))"

definition in_header :: "proxy_creds option \<Rightarrow> bytes list \<Rightarrow> bool" where
  "in_header p vs \<longleftrightarrow>
     (case p of
        None \<Rightarrow> False
      | Some p \<Rightarrow>
          (case pc_needles p of
             None \<Rightarrow> False
           | Some n \<Rightarrow> list_ex (\<lambda>v. list_ex (\<lambda>c. contains v c) (pn_header n)) vs))"

section \<open>The header redactor\<close>

record redactor =
  rd_key :: bytes
  rd_proxies :: "proxy_creds option"

definition zero_redactor :: redactor where
  "zero_redactor = \<lparr>rd_key = [], rd_proxies = None\<rparr>"

definition new_header_redactor :: "bytes \<Rightarrow> redactor" where
  "new_header_redactor api_key = (if \<not> key_needle api_key then zero_redactor else zero_redactor\<lparr>rd_key := api_key\<rparr>)"

definition with_proxies :: "proxy_creds \<Rightarrow> redactor \<Rightarrow> redactor" where
  "with_proxies p r = r\<lparr>rd_proxies := Some p\<rparr>"

definition response_func :: "redactor \<Rightarrow> redactor \<Rightarrow> redactor" where
  "response_func key_only r =
     (case rd_proxies r of None \<Rightarrow> key_only | Some p \<Rightarrow> r\<lparr>rd_proxies := Some (proxy_snapshot p)\<rparr>)"

definition rd_credential :: "(bytes \<Rightarrow> bytes) \<Rightarrow> redactor \<Rightarrow> bytes \<Rightarrow> bytes list \<Rightarrow> bool" where
  "rd_credential lower r name vs \<longleftrightarrow> is_credential lower name vs (rd_key r) \<or> in_header (rd_proxies r) vs"

definition redact_header :: "(bytes \<Rightarrow> bytes) \<Rightarrow> redactor \<Rightarrow> header option \<Rightarrow> header option" where
  "redact_header lower r h =
     map_option (map (\<lambda>(name, vs).
       (name, if \<not> rd_credential lower r name vs then vs else map (\<lambda>_. redacted) vs))) h"

definition redact_request_id :: "redactor \<Rightarrow> header \<Rightarrow> bytes option" where
  "redact_request_id r h =
     (case map_of h request_id_header of
        None \<Rightarrow> None
      | Some vs \<Rightarrow>
          if vs = [] then None
          else if rd_key r \<noteq> [] \<and> list_ex (\<lambda>v. contains v (rd_key r)) vs \<or> in_header (rd_proxies r) vs
          then Some (drop 2 (concat (replicate (length vs) ('', '' @ redacted))))
          else Some (join_with '', '' vs))"

definition log_headers :: "(bytes \<Rightarrow> bytes) \<Rightarrow> redactor \<Rightarrow> header \<Rightarrow> (bytes \<times> bytes) list" where
  "log_headers lower r h =
     map (\<lambda>(name, vs). (name, if rd_credential lower r name vs then redacted else join_with '', '' vs)) (sort_key fst h)"

section \<open>The needles are the users'\<close>

lemma longest_key_inj: "inj_on longest_key A"
  by (auto simp: inj_on_def longest_key_def)

lemma sort_longest_cong:
  assumes "distinct xs" "distinct ys" "set xs = set ys"
  shows "sort_longest xs = sort_longest ys"
proof -
  have "mset xs = mset ys" using assms by (simp add: set_eq_iff_mset_eq_distinct)
  then show ?thesis
    unfolding sort_longest_def by (intro sort_key_inj_key_eq longest_key_inj) simp_all
qed

definition user_forms :: "(nat \<Rightarrow> bool) \<Rightarrow> bool \<Rightarrow> userinfo \<Rightarrow> bytes set" where
  "user_forms ip words u = set (add_proxy ip words u [])"

lemma distinct_add_any: "distinct c \<Longrightarrow> distinct (add_any ip v c)"
  by (simp add: add_any_def distinct_fold_add_new)

lemma set_fold_any: "set (fold (add_any ip) vs c) = set c \<union> (\<Union>v \<in> set vs. if v = [] then {} else set (cred_forms ip v))"
  by (induction vs arbitrary: c) (simp_all add: set_add_any Un_assoc)

lemma set_add_proxy: "set (add_proxy ip words u c) = set c \<union> user_forms ip words u"
  by (simp add: user_forms_def add_proxy_def proxy_credential_forms_def Let_def set_add_any set_fold_any Un_assoc)

lemma distinct_fold_any: "distinct c \<Longrightarrow> distinct (fold (add_any ip) vs c)"
  by (induction vs arbitrary: c) (simp_all add: distinct_add_any)

lemma distinct_add_proxy: "distinct c \<Longrightarrow> distinct (add_proxy ip words u c)"
  by (simp add: add_proxy_def proxy_credential_forms_def Let_def distinct_add_any distinct_fold_any)

lemma fold_add_proxy:
  "distinct c \<Longrightarrow> distinct (fold (add_proxy ip words) us c) \<and>
    set (fold (add_proxy ip words) us c) = set c \<union> (\<Union>u \<in> set us. user_forms ip words u)"
  by (induction us arbitrary: c) (auto simp: distinct_add_proxy set_add_proxy)

lemma needles_of_cong:
  assumes "set us = set vs"
  shows "needles_of ip us = needles_of ip vs"
proof -
  have "sort_longest (f (fold (add_proxy ip w) us [])) = sort_longest (f (fold (add_proxy ip w) vs []))"
    if "\<And>xs. distinct xs \<Longrightarrow> distinct (f xs)" "\<And>xs ys. set xs = set ys \<Longrightarrow> set (f xs) = set (f ys)" for f w
    by (intro sort_longest_cong that) (simp_all add: fold_add_proxy assms)
  from this [of "\<lambda>x. x" True] this [of "filter key_needle" False] show ?thesis by (simp add: needles_of_def)
qed

definition proxy_inv :: "(nat \<Rightarrow> bool) \<Rightarrow> proxy_creds \<Rightarrow> bool" where
  "proxy_inv ip p \<longleftrightarrow>
     distinct (pc_users p) \<and> length (pc_users p) \<le> max_proxy_userinfos \<and>
     pc_needles p = (if pc_users p = [] then None else Some (needles_of ip (pc_users p)))"

lemma proxy_record_inv:
  assumes inv: "proxy_inv ip p"
  shows "proxy_inv ip (proxy_record ip user p) \<and> (\<forall>u. user = Some u \<longrightarrow> pc_users (proxy_record ip user p) \<noteq> [] \<and> last (pc_users (proxy_record ip user p)) = u)"
proof (cases user)
  case None
  with inv show ?thesis by (simp add: proxy_record_def)
next
  case (Some u)
  let ?us = "pc_users p"
  from inv have d: "distinct ?us" and len: "length ?us \<le> max_proxy_userinfos" by (simp_all add: proxy_inv_def)
  show ?thesis
  proof (cases "find_index (\<lambda>x. x = u) ?us")
    case None
    then have new: "u \<notin> set ?us" by (auto simp: find_index_None)
    let ?vs = "(if length ?us = max_proxy_userinfos then drop 1 ?us else ?us) @ [u]"
    have "distinct ?vs" using d new by (auto dest: in_set_dropD)
    moreover have "length ?vs \<le> max_proxy_userinfos" using len by (auto simp: max_proxy_userinfos_def)
    ultimately show ?thesis using Some None by (simp add: proxy_record_def proxy_inv_def Let_def)
  next
    case (Some i)
    then have i: "i < length ?us" "?us ! i = u" by (simp_all add: find_index_Some)
    show ?thesis
    proof (cases "i = length ?us - 1")
      case True
      have "last ?us = u" using i True by (cases "?us = []") (simp_all add: last_conv_nth)
      with \<open>user = Some u\<close> Some inv i True show ?thesis by (auto simp: proxy_record_def)
    next
      case False
      let ?vs = "take i ?us @ drop (Suc i) ?us @ [u]"
      have us: "?us = take i ?us @ u # drop (Suc i) ?us" using id_take_nth_drop [OF i(1)] i(2) by simp
      have "mset ?us = mset ?vs" by (subst us) simp
      then have "distinct ?vs" "length ?vs = length ?us" "set ?vs = set ?us"
        using d by (metis mset_eq_imp_distinct_iff, metis mset_eq_length, metis mset_eq_setD)
      moreover from this needles_of_cong [of ?vs ?us ip] have "needles_of ip ?vs = needles_of ip ?us" by blast
      moreover have "?us \<noteq> []" using i by auto
      ultimately show ?thesis using \<open>user = Some u\<close> Some False inv
        by (simp add: proxy_record_def proxy_inv_def)
    qed
  qed
qed

lemma proxy_inv_records: "proxy_inv ip p \<Longrightarrow> proxy_inv ip (foldl (\<lambda>p u. proxy_record ip u p) p us)"
  by (induction us arbitrary: p) (simp_all add: proxy_record_inv)

lemma no_proxies_inv: "proxy_inv ip no_proxies"
  by (simp add: proxy_inv_def no_proxies_def)

lemma needles_text: "u \<in> set users \<Longrightarrow> user_forms ip True u \<subseteq> set (pn_text (needles_of ip users))"
  by (auto simp: needles_of_def fold_add_proxy)

lemma needles_header: "set (pn_header (needles_of ip users)) = {f. key_needle f \<and> (\<exists>u \<in> set users. f \<in> user_forms ip False u)}"
  by (auto simp: needles_of_def fold_add_proxy)

section \<open>Properties\<close>

text \<open>after any proxies were chosen the set holds at most 16 distinct userinfos, the last chosen
  last, and a transport's error is scrubbed of every form of every credential of each of them,
  although choosing a proxy again keeps the needles computed before.\<close>

theorem proxy_creds_remember:
  fixes us :: "userinfo option list" and ip :: "nat \<Rightarrow> bool"
  defines "p \<equiv> foldl (\<lambda>p u. proxy_record ip u p) no_proxies us"
  shows "distinct (pc_users p) \<and> length (pc_users p) \<le> max_proxy_userinfos \<and>
    (\<forall>u \<in> set (pc_users p). user_forms ip True u \<subseteq> set (proxy_credentials (Some p))) \<and>
    (us \<noteq> [] \<longrightarrow> (\<forall>u. last us = Some u \<longrightarrow> pc_users p \<noteq> [] \<and> last (pc_users p) = u))"
proof -
  have inv: "proxy_inv ip p" unfolding p_def by (intro proxy_inv_records no_proxies_inv)
  have "pc_users p \<noteq> [] \<and> last (pc_users p) = u" if us: "us \<noteq> []" "last us = Some u" for u
  proof -
    have "p = proxy_record ip (Some u) (foldl (\<lambda>p u. proxy_record ip u p) no_proxies (butlast us))"
      unfolding p_def by (subst append_butlast_last_id [OF us(1), symmetric]) (simp add: us(2))
    with proxy_record_inv [OF proxy_inv_records [OF no_proxies_inv], of ip "Some u" "butlast us"] show ?thesis by simp
  qed
  with inv needles_text show ?thesis by (auto simp: proxy_inv_def proxy_credentials_def)
qed

text \<open>C9: no value of a redacted header shows a credential: a secret header's values are all the mark,
  and no value of any header holds the API key or, where the proxy may have written the header,
  a whole credential of a proxy, when these are at least eight bytes long.\<close>

theorem redact_header_hides:
  assumes r: "r = (new_header_redactor key)\<lparr>rd_proxies := Some p\<rparr>" and p: "proxy_inv ip p"
    and h: "redact_header lower r (Some h) = Some h'" and v: "(name, vs) \<in> set h'" "v \<in> set vs"
  shows "(is_secret_header lower name \<longrightarrow> v = redacted) \<and> (key_needle key \<longrightarrow> \<not> contains v key) \<and>
    (\<forall>u \<in> set (pc_users p). \<forall>f \<in> user_forms ip False u. key_needle f \<longrightarrow> \<not> contains v f)"
proof -
  from h v(1) obtain ws where vs: "vs = (if \<not> rd_credential lower r name ws then ws else map (\<lambda>_. redacted) ws)"
    by (auto simp: redact_header_def)
  have short: "\<not> contains redacted f" if "key_needle f" for f
  proof
    assume "contains redacted f"
    then obtain a b where "redacted = a @ f @ b" by (auto simp: contains_sublist)
    then have "length redacted = length (a @ f @ b)" by (rule arg_cong)
    with that show False by (simp add: redacted_def key_needle_def min_key_needle_bytes_def)
  qed
  show ?thesis
  proof (cases "rd_credential lower r name ws")
    case True
    with vs v(2) have "v = redacted" by auto
    with short show ?thesis by simp
  next
    case False
    with vs v(2) have v: "v \<in> set ws" by simp
    from False have no: "\<not> is_secret_header lower name" "key_needle (rd_key r) \<longrightarrow> \<not> contains v (rd_key r)" "\<not> in_header (rd_proxies r) ws"
      using v by (auto simp: rd_credential_def is_credential_def list_ex_iff split: if_splits)
    have key: "key_needle key \<Longrightarrow> rd_key r = key" by (simp add: r new_header_redactor_def zero_redactor_def)
    have "\<not> contains v f" if "u \<in> set (pc_users p)" "f \<in> user_forms ip False u" "key_needle f" for u f
    proof -
      from that(1) p have "pc_needles p = Some (needles_of ip (pc_users p))" by (auto simp: proxy_inv_def)
      with no(3) v have "\<forall>c \<in> set (pn_header (needles_of ip (pc_users p))). \<not> contains v c"
        by (auto simp: in_header_def r list_ex_iff)
      with that show ?thesis by (auto simp: needles_header)
    qed
    with no key show ?thesis by auto
  qed
qed

theorem redact_header_hides_witness:
  "\<not> contains redacted ''secretkey''"
proof -
  let ?r = "(new_header_redactor ''secretkey'')\<lparr>rd_proxies := Some no_proxies\<rparr>"
  have "redact_header (\<lambda>s. s) ?r (Some [(''X-Echo'', [''a secretkey b''])]) = Some [(''X-Echo'', [redacted])]" by code_simp
  from redact_header_hides [OF refl no_proxies_inv this, of "''X-Echo''" "[redacted]" redacted "\<lambda>_. False"]
  have "key_needle ''secretkey'' \<longrightarrow> \<not> contains redacted ''secretkey''" by simp
  moreover have "key_needle ''secretkey''" by code_simp
  ultimately show ?thesis by blast
qed

theorem proxy_creds_remember_witness:
  "length (pc_users (foldl (\<lambda>p u. proxy_record (\<lambda>_. True) u p) no_proxies [Some \<lparr>ui_name = ''u'', ui_password = None\<rparr>])) \<le> 16"
  using proxy_creds_remember [of "\<lambda>_. True" "[Some \<lparr>ui_name = ''u'', ui_password = None\<rparr>]"]
  by (simp add: max_proxy_userinfos_def)

end
