(* ===== verification/Engine_Chain.thy ===== *)
theory Engine_Chain
  imports Engine_Redact
begin

text \<open>
  The chain of a transport's error, \<open>internal/engine/text.go\<close>: the walk over every error it wraps,
  bounded by 64 links, and the stand-in that replaces a chain in which some printed form of some
  link holds a credential.
\<close>

section \<open>Errors\<close>

text \<open>The sentinels a caller may branch on, and the numbers of the operating system's errors.\<close>

datatype sentinel = DeadlineExceeded | Canceled | OsDeadlineExceeded | UnexpectedEOF | EndOfFile | NetClosed | Errno nat

text \<open>An error: its text, its \<open>%+v\<close> and \<open>%#v\<close> forms, the errors it unwraps to (a nil link is
  \<open>None\<close>), and the sentinels it is or matches itself.\<close>

datatype gerr = Gerr (ge_text: bytes) (ge_plus: bytes) (ge_sharp: bytes) (ge_links: "gerr option list") (ge_is: "sentinel list")

inductive link_of :: "gerr \<Rightarrow> gerr \<Rightarrow> bool" where
  link_self: "link_of e e"
| link_step: "Some x \<in> set (ge_links e) \<Longrightarrow> link_of y x \<Longrightarrow> link_of y e"

definition max_chain_errors :: nat where
  "max_chain_errors = 64"

text \<open>\<open>walkChain\<close>, its visitor with a state; the stack has its top first.\<close>

fun walk_stack :: "nat \<Rightarrow> ('s \<Rightarrow> gerr \<Rightarrow> 's \<times> bool) \<Rightarrow> gerr option list \<Rightarrow> 's \<Rightarrow> 's \<times> bool" where
  "walk_stack n visit [] s = (s, False)"
| "walk_stack 0 visit (e # st) s = (s, True)"
| "walk_stack (Suc n) visit (None # st) s = walk_stack n visit st s"
| "walk_stack (Suc n) visit (Some e # st) s =
     (case visit s e of
        (s', False) \<Rightarrow> (s', True)
      | (s', True) \<Rightarrow> walk_stack n visit (ge_links e @ st) s')"

definition walk_chain :: "('s \<Rightarrow> gerr \<Rightarrow> 's \<times> bool) \<Rightarrow> gerr option \<Rightarrow> 's \<Rightarrow> 's \<times> bool" where
  "walk_chain visit e s = walk_stack max_chain_errors visit [e] s"

definition printed :: "bytes list \<Rightarrow> gerr \<Rightarrow> bool" where
  "printed c e \<longleftrightarrow> list_ex (\<lambda>form. snd (redact c form)) [ge_text e, ge_plus e, ge_sharp e]"

definition in_chain :: "bytes list \<Rightarrow> gerr option \<Rightarrow> bool" where
  "in_chain c e = snd (walk_chain (\<lambda>u x. (u, \<not> printed c x)) e ())"

definition chain_text :: "gerr option \<Rightarrow> bytes" where
  "chain_text e =
     fst (walk_chain (\<lambda>b x.
       (if contains b (ge_plus x) then b
        else (if b \<noteq> [] then b @ '': '' else b) @ ge_plus x, True)) e [])"

definition chain_detail :: "bytes list \<Rightarrow> gerr option \<Rightarrow> bytes" where
  "chain_detail c e = append_safe_text [] (fst (redact c (chain_text e))) max_detail_chars False"

text \<open>\<open>errors.Is\<close> against a sentinel, and the first \<open>syscall.Errno\<close> that \<open>errors.As\<close> finds.\<close>

fun errors_is :: "sentinel \<Rightarrow> gerr \<Rightarrow> bool" where
  "errors_is s (Gerr t p q ls own) \<longleftrightarrow>
     s \<in> set own \<or> list_ex (\<lambda>l. case l of None \<Rightarrow> False | Some x \<Rightarrow> errors_is s x) ls"

fun own_errno :: "sentinel list \<Rightarrow> sentinel option" where
  "own_errno [] = None"
| "own_errno (Errno n # ss) = Some (Errno n)"
| "own_errno (_ # ss) = own_errno ss"

fun errors_as_errno :: "gerr \<Rightarrow> sentinel option" where
  "errors_as_errno (Gerr t p q ls own) =
     (case own_errno own of
        Some n \<Rightarrow> Some n
      | None \<Rightarrow> first_some (map (\<lambda>l. case l of None \<Rightarrow> None | Some x \<Rightarrow> errors_as_errno x) ls))"

definition cause_sentinels :: "sentinel list" where
  "cause_sentinels = [DeadlineExceeded, Canceled, OsDeadlineExceeded, UnexpectedEOF, EndOfFile, NetClosed]"

text \<open>What an SDK error unwraps to: the transport's error, or the stand-in with its text, its
  rendering of the chain and the sentinels it unwraps to.\<close>

datatype cause = Kept "gerr option" | StandIn (si_msg: bytes) (si_detail: bytes) (si_sentinels: "sentinel list")

definition cause :: "bytes list \<Rightarrow> gerr option \<Rightarrow> cause" where
  "cause c err =
     (case err of
        None \<Rightarrow> Kept None
      | Some e \<Rightarrow>
          if \<not> in_chain c (Some e) then Kept (Some e)
          else
            StandIn (fst (redact c (ge_text e))) (chain_detail c (Some e))
              (filter (\<lambda>s. errors_is s e) cause_sentinels @
               (case errors_as_errno e of Some n \<Rightarrow> [n] | None \<Rightarrow> [])))"

text \<open>The stand-in as an error of the chain: \<open>%+v\<close> and \<open>%#v\<close> print its rendering.\<close>

definition stand_in :: "bytes \<Rightarrow> bytes \<Rightarrow> sentinel list \<Rightarrow> gerr" where
  "stand_in msg detail ss = Gerr msg detail detail (map (\<lambda>s. Some (Gerr [] [] [] [] [s])) ss) []"

section \<open>The walk visits every link\<close>

lemma walk_stack_visits:
  "walk_stack n (\<lambda>u x. (u, f x)) st s = (s', False) \<Longrightarrow> Some e \<in> set st \<Longrightarrow> link_of x e \<Longrightarrow> f x"
proof (induction n arbitrary: st e)
  case 0
  then show ?case by (cases st) auto
next
  case (Suc n)
  then obtain o' st' where st: "st = o' # st'" by (cases st) auto
  show ?case
  proof (cases o')
    case None
    with Suc st show ?thesis by auto
  next
    case (Some d)
    with Suc.prems(1) st have fd: "f d" and walk: "walk_stack n (\<lambda>u x. (u, f x)) (ge_links d @ st') s = (s', False)"
      by (auto split: if_splits bool.splits)
    note IH = Suc.IH [OF walk]
    show ?thesis
    proof (cases "Some e \<in> set st'")
      case True
      with IH [of e] Suc.prems(3) show ?thesis by simp
    next
      case False
      with Suc.prems(2) st Some have "e = d" by simp
      with Suc.prems(3) show ?thesis
      proof (cases rule: link_of.cases)
        case (link_step y)
        with \<open>e = d\<close> IH [of y] show ?thesis by simp
      qed (use fd \<open>e = d\<close> in simp)
    qed
  qed
qed

lemma redact_all_unfound: "redact_all c s b = (t, False) \<Longrightarrow> \<not> b \<and> (\<forall>v \<in> set c. \<not> contains s v) \<and> t = s"
  by (induction c arbitrary: s b) (auto split: if_splits)

lemma redact_unfound: "\<not> snd (redact c s) \<Longrightarrow> fst (redact c s) = s \<and> (\<forall>v \<in> set c. \<not> contains s v)"
  using redact_all_unfound [of c s False] by (auto simp: redact_def split: prod.splits bool.splits)

lemma own_errno_is: "own_errno own = Some n \<Longrightarrow> \<exists>k. n = Errno k \<and> n \<in> set own"
  by (induction own rule: own_errno.induct) auto

lemma errors_as_errno_is: "errors_as_errno e = Some n \<Longrightarrow> (\<exists>k. n = Errno k) \<and> errors_is n e"
proof (induction e rule: errors_as_errno.induct)
  case (1 t p q ls own)
  show ?case
  proof (cases "own_errno own")
    case (Some m)
    with "1.prems" own_errno_is [of own n] show ?thesis by auto
  next
    case None
    with "1.prems" obtain x where x: "Some x \<in> set ls" "errors_as_errno x = Some n"
      by (auto dest!: first_some_in split: option.splits)
    with "1.IH" None have "(\<exists>k. n = Errno k) \<and> errors_is n x" by blast
    with x show ?thesis by (force simp: list_ex_iff)
  qed
qed

lemma stand_in_is: "errors_is s (stand_in m d ss) \<longleftrightarrow> s \<in> set ss"
  by (auto simp: stand_in_def list_ex_iff)

section \<open>A cause shows no credential\<close>

text \<open>An error is kept only if no printed form of it, or of any error its chain wraps, however deep, holds
  a credential; otherwise what stands in for it, its text and the rendering of its chain, holds none.
  A chain too long to check is never kept. \<open>errors.Is\<close> on the stand-in answers for each of the
  sentinels as on the error.\<close>

definition cause_private :: "bytes list \<Rightarrow> gerr \<Rightarrow> cause \<Rightarrow> bool" where
  "cause_private c e k \<longleftrightarrow>
     (case k of
        Kept k' \<Rightarrow> k' = Some e \<and>
          (\<forall>x. link_of x e \<longrightarrow> (\<forall>v \<in> set c. \<not> contains (ge_text x) v \<and> \<not> contains (ge_plus x) v \<and> \<not> contains (ge_sharp x) v))
      | StandIn msg detail ss \<Rightarrow>
          (\<forall>v \<in> set c. \<not> contains msg v) \<and>
          (\<exists>t. detail = append_safe_text [] t max_detail_chars False \<and> (\<forall>v \<in> set c. \<not> contains t v)) \<and>
          (\<forall>s \<in> set cause_sentinels. errors_is s (stand_in msg detail ss) = errors_is s e))"

lemma cause_is_private:
  assumes "[] \<notin> set c" and "\<forall>v \<in> set c. star_free v"
  shows "cause_private c e (cause c (Some e))"
proof (cases "in_chain c (Some e)")
  case False
  then obtain u where "walk_stack max_chain_errors (\<lambda>u x. (u, \<not> printed c x)) [Some e] () = (u, False)"
    by (cases "walk_stack max_chain_errors (\<lambda>u x. (u, \<not> printed c x)) [Some e] ()") (auto simp: in_chain_def walk_chain_def)
  from walk_stack_visits [OF this, of e] have "\<forall>x. link_of x e \<longrightarrow> \<not> printed c x" by simp
  with False redact_unfound show ?thesis by (auto simp: cause_private_def cause_def printed_def)
next
  case True
  have "Errno k \<notin> set cause_sentinels" for k by (simp add: cause_sentinels_def)
  then have "errors_is s (stand_in m d (filter (\<lambda>s. errors_is s e) cause_sentinels @ (case errors_as_errno e of Some n \<Rightarrow> [n] | None \<Rightarrow> []))) = errors_is s e"
    if "s \<in> set cause_sentinels" for s m d
    using that errors_as_errno_is [of e] by (auto simp: stand_in_is split: option.splits)
  with True assms redact_gone [of c] show ?thesis by (auto simp: cause_private_def cause_def chain_detail_def)
qed

end
