(* ===== verification/Engine_Read.thy ===== *)
theory Engine_Read
  imports Prelude
begin

text \<open>
  Reading a response body of bounded size, \<open>internal/engine/read.go\<close>. A reader is a function of its
  state and the room of the buffer it is given; lengths and limits are integers, which the limit's
  bound of 1 GiB keeps far from the 64-bit edge. The loop carries fuel, one unit per read, and the
  property shows how much is enough.
\<close>

text \<open>How a read ends, and why a body was not read; a failure is the reader's own error.\<close>

datatype 'e io_end = EOF | IOError 'e

datatype 'e read_error = TooLarge | ReadFailed 'e

definition initial_declared :: int where "initial_declared = 256 * 1024"
definition initial_undeclared :: int where "initial_undeclared = 4 * 1024"
definition min_grow :: int where "min_grow = 512"

text \<open>\<open>grow\<close>: the capacity of the new buffer, whose first bytes are the old one's.\<close>

definition grow_cap :: "int \<Rightarrow> int \<Rightarrow> int \<Rightarrow> int" where
  "grow_cap held declared limit =
     (let end' = (if held < declared then declared else limit);
          n = max (2 * held) min_grow in
      if end' < 2 * n then end' + 1 else n)"

definition first_cap :: "int \<Rightarrow> int \<Rightarrow> int" where
  "first_cap declared limit =
     (if initial_declared < declared then initial_declared
      else if 0 \<le> declared then declared + 1 else min initial_undeclared (limit + 1))"

type_synonym ('s, 'e) reader = "'s \<Rightarrow> nat \<Rightarrow> bytes \<times> 'e io_end option \<times> 's"

fun read_loop :: "nat \<Rightarrow> ('s, 'e) reader \<Rightarrow> int \<Rightarrow> int \<Rightarrow> bytes \<Rightarrow> int \<Rightarrow> 's \<Rightarrow> ('e read_error + bytes) option" where
  "read_loop 0 rd declared limit buf cap s = None"
| "read_loop (Suc fuel) rd declared limit buf cap s =
     (if int (length buf) = cap \<and> limit < int (length buf) then Some (Inl TooLarge)
      else
        let cap = (if int (length buf) = cap then grow_cap (int (length buf)) declared limit else cap) in
        case rd s (nat (cap - int (length buf))) of
          (chunk, e, s') \<Rightarrow>
            let buf = buf @ chunk in
            (case e of
               None \<Rightarrow> read_loop fuel rd declared limit buf cap s'
             | Some x \<Rightarrow>
                 if limit < int (length buf) then Some (Inl TooLarge)
                 else (case x of EOF \<Rightarrow> Some (Inr buf) | IOError m \<Rightarrow> Some (Inl (ReadFailed m)))))"

definition read_body :: "nat \<Rightarrow> ('s, 'e) reader \<Rightarrow> int \<Rightarrow> int \<Rightarrow> 's \<Rightarrow> ('e read_error + bytes) option" where
  "read_body fuel rd declared limit s =
     (if limit < declared then Some (Inl TooLarge)
      else read_loop fuel rd declared limit [] (first_cap declared limit) s)"

section \<open>The buffer\<close>

lemma grow_cap_bounds:
  assumes "0 \<le> held" "held \<le> limit" "declared \<le> limit"
  shows "held < grow_cap held declared limit \<and> grow_cap held declared limit \<le> limit + 1"
  using assms by (auto simp: grow_cap_def Let_def min_grow_def max_def)

lemma first_cap_bounds: "declared \<le> limit \<Longrightarrow> 0 \<le> limit \<Longrightarrow> 0 < first_cap declared limit \<and> first_cap declared limit \<le> limit + 1"
  by (auto simp: first_cap_def initial_declared_def initial_undeclared_def)

text \<open>A reader that holds some data: each read gives at least one byte of it while there is any
  and room, as many as its schedule says, and the end either with the last bytes or on a read of
  its own.\<close>

definition data_reader :: "(nat \<Rightarrow> nat) \<Rightarrow> (nat \<Rightarrow> bool) \<Rightarrow> 'e io_end \<Rightarrow> (bytes \<times> nat, 'e) reader" where
  "data_reader sched eager e s room =
     (case s of
        (rest, i) \<Rightarrow>
          let k = min (length rest) (min room (max 1 (sched i))) in
          (take k rest, if drop k rest = [] \<and> (k = 0 \<or> eager i) then Some e else None, (drop k rest, Suc i)))"

lemma read_loop_data:
  assumes "declared \<le> limit" "0 \<le> limit" "int (length buf) \<le> cap" "cap \<le> limit + 1" "length rest + 2 \<le> fuel"
  shows "read_loop fuel (data_reader sched eager e) declared limit buf cap (rest, i) =
    Some (if limit < int (length (buf @ rest)) then Inl TooLarge
          else case e of EOF \<Rightarrow> Inr (buf @ rest) | IOError m \<Rightarrow> Inl (ReadFailed m))"
  using assms(3-)
proof (induction rest arbitrary: fuel buf cap i rule: length_induct)
  case (1 rest)
  from "1.prems"(3) obtain f where f: "fuel = Suc f" by (cases fuel) auto
  show ?case
  proof (cases "int (length buf) = cap \<and> limit < int (length buf)")
    case True
    then show ?thesis by (simp add: f)
  next
    case ok: False
    define cap' where "cap' = (if int (length buf) = cap then grow_cap (int (length buf)) declared limit else cap)"
    have cap': "int (length buf) < cap'" "cap' \<le> limit + 1"
      using ok "1.prems"(1,2) grow_cap_bounds [of "int (length buf)" limit declared] assms(1) by (auto simp: cap'_def)
    define k where "k = min (length rest) (min (nat (cap' - int (length buf))) (max 1 (sched i)))"
    have room: "1 \<le> nat (cap' - int (length buf))" using cap'(1) by simp
    have k0: "k = 0 \<longleftrightarrow> rest = []" using room by (auto simp: k_def min_def)
    have len: "int (length (buf @ take k rest)) \<le> cap'" using cap'(1) by (auto simp: k_def min_def)
    let ?stop = "drop k rest = [] \<and> (k = 0 \<or> eager i)"
    have dr: "data_reader sched eager e (rest, i) (nat (cap' - int (length buf))) =
      (take k rest, if ?stop then Some e else None, drop k rest, Suc i)"
      by (simp only: data_reader_def prod.case Let_def k_def)
    have step: "read_loop fuel (data_reader sched eager e) declared limit buf cap (rest, i) =
      (if ?stop then
         (if limit < int (length (buf @ take k rest)) then Some (Inl TooLarge)
          else (case e of EOF \<Rightarrow> Some (Inr (buf @ take k rest)) | IOError m \<Rightarrow> Some (Inl (ReadFailed m))))
       else read_loop f (data_reader sched eager e) declared limit (buf @ take k rest) cap' (drop k rest, Suc i))"
      unfolding f read_loop.simps Let_def cap'_def [symmetric] if_not_P [OF ok] dr prod.case by auto
    show ?thesis
    proof (cases ?stop)
      case True
      then have "take k rest = rest" by simp
      with True show ?thesis unfolding step by (auto split: io_end.split)
    next
      case False
      have shorter: "length (drop k rest) < length rest"
      proof -
        have "rest \<noteq> []" using False k0 by auto
        with k0 show ?thesis by (simp add: k_def)
      qed
      with "1.prems"(3) f have "length (drop k rest) + 2 \<le> f" by simp
      from "1.IH" [rule_format, OF shorter len cap'(2) this, of "Suc i"] False show ?thesis
        unfolding step by (simp only: if_False append.assoc append_take_drop_id)
    qed
  qed
qed

section \<open>Properties\<close>

text \<open>C10: reading ends and is right however the bytes arrive. Over a reader that holds some data,
  gives it in any pieces and ends it in any way, the read takes at most two reads more than there
  are bytes and returns the data, its error, or that it is too large exactly when it, or its
  declared length, is over the limit.\<close>

theorem read_body_correct:
  assumes "0 \<le> limit" "length data + 2 \<le> fuel"
  shows "read_body fuel (data_reader sched eager e) declared limit (data, 0) =
    Some (if limit < declared \<or> limit < int (length data) then Inl TooLarge
          else case e of EOF \<Rightarrow> Inr data | IOError m \<Rightarrow> Inl (ReadFailed m))"
  using read_loop_data [of declared limit "[]" "first_cap declared limit" data fuel sched eager e 0]
    first_cap_bounds [of declared limit] assms
  by (auto simp: read_body_def simp del: read_loop.simps split: io_end.split)

theorem read_body_correct_witness:
  "read_body 10 (data_reader (\<lambda>i. 2) (\<lambda>i. False) EOF) (-1) 4 (''abcde'', 0) = Some (Inl TooLarge) \<and>
   read_body 10 (data_reader (\<lambda>i. 2) (\<lambda>i. False) EOF) (-1) 5 (''abcde'', 0) = Some (Inr ''abcde'')"
  by (simp add: read_body_correct)

text \<open>the read never holds more than the limit and one byte. From any state in which the
  buffer fits its capacity and that is at most the limit and one, whatever the reader returns
  within the room it is given, the capacity of the next buffer leaves room and is at most the
  limit and one, so the memory is bounded by the limit and every read has room to make progress.\<close>

theorem read_buffer_bounds:
  assumes "0 \<le> limit" "declared \<le> limit"
  shows "0 < first_cap declared limit \<and> first_cap declared limit \<le> limit + 1 \<and>
    (\<forall>held. 0 \<le> held \<longrightarrow> held \<le> limit \<longrightarrow>
       held < grow_cap held declared limit \<and> grow_cap held declared limit \<le> limit + 1)"
  using assms first_cap_bounds grow_cap_bounds by blast

theorem read_buffer_bounds_witness:
  "first_cap (-1) 10 \<le> 11 \<and> grow_cap 5 (-1) 10 \<le> 11"
  using read_buffer_bounds [of 10 "-1"] by simp

end
