(* ===== verification/Codec_Control.thy ===== *)
theory Codec_Control
  imports Wire_Content "HOL-Library.Word"
begin

text \<open>
  The string rules of the response decoder, \<open>internal/codec/control.go\<close> and \<open>validate.go\<close>: the
  search for a byte below 0x20 eight bytes at a time, the search for one inside a string of
  the body, and \<open>ValidString\<close>.
\<close>

unbundle bit_operations_syntax

section \<open>A control byte anywhere\<close>

definition swar_ones :: "64 word" where
  "swar_ones = 0x0101010101010101"

definition swar_high :: "64 word" where
  "swar_high = 0x8080808080808080"

text \<open>The little-endian load of eight bytes.\<close>

definition load8 :: "bytes \<Rightarrow> 64 word" where
  "load8 b = fold (\<lambda>i x. x OR push_bit (8 * i) (of_nat (byte (b ! i)))) [0..<8] 0"

fun has_control_byte :: "bytes \<Rightarrow> bool" where
  "has_control_byte (b0 # b1 # b2 # b3 # b4 # b5 # b6 # b7 # rest) =
     (let x = load8 [b0, b1, b2, b3, b4, b5, b6, b7] in
      if (x - 0x20 * swar_ones) AND NOT x AND swar_high \<noteq> 0 then True else has_control_byte rest)"
| "has_control_byte s = list_ex (\<lambda>c. byte c < 0x20) s"

section \<open>A control byte inside a string\<close>

fun control_in_string_from :: "bool \<Rightarrow> bytes \<Rightarrow> bool" where
  "control_in_string_from ins [] = False"
| "control_in_string_from ins (c # cs) =
     (if c = quote_char then control_in_string_from (\<not> ins) cs
      else if \<not> ins then control_in_string_from ins cs
      else if c = backslash then (case cs of [] \<Rightarrow> False | d # ds \<Rightarrow> control_in_string_from ins ds)
      else if byte c < 0x20 then True
      else control_in_string_from ins cs)"

definition control_in_string :: "bytes \<Rightarrow> bool" where
  "control_in_string body = control_in_string_from False body"

definition raw_control_in_string :: "bytes \<Rightarrow> bool" where
  "raw_control_in_string body \<longleftrightarrow> has_control_byte body \<and> control_in_string body"

section \<open>Valid strings\<close>

function valid_string :: "bytes \<Rightarrow> bool" where
  "valid_string s =
     (case s of
        [] \<Rightarrow> True
      | c # cs \<Rightarrow>
          if byte c < 0x20 then False
          else if byte c < 0x80 then valid_string cs
          else if rune_bad s then False
          else valid_string (drop (rune_size s) s))"
  by pat_completeness auto
termination
  by (relation "measure length") (simp_all add: drop_rune_shorter_Cons del: length_drop decode_rune.simps)

declare valid_string.simps [simp del]

section \<open>The word-at-a-time search\<close>

text \<open>The value of bytes, least significant first, and the same with 0x20 subtracted from each
  byte without wrapping.\<close>

fun le_val :: "nat list \<Rightarrow> int" where
  "le_val [] = 0"
| "le_val (b # bs) = int b + 256 * le_val bs"

fun le_sub :: "nat list \<Rightarrow> int" where
  "le_sub [] = 0"
| "le_sub (b # bs) = (int b - 32) + 256 * le_sub bs"

fun le_high :: "nat list \<Rightarrow> int" where
  "le_high [] = 0"
| "le_high (b # bs) = 128 + 256 * le_high bs"

lemma low_bit_7:
  fixes b :: nat
  assumes "b < 256"
  shows "bit (int b - 32 + 256 * d) 7 \<and> \<not> bit (int b + 256 * v) 7 \<longleftrightarrow> b < 32"
proof -
  have "(int b - 32 + 256 * d) div 128 = (int b - 32) div 128 + 2 * d" by simp
  moreover have "(int b + 256 * v) div 128 = int b div 128 + 2 * v" by simp
  moreover have "(int b - 32) div 128 = (if b < 32 then -1 else if b < 160 then 0 else 1)"
    using assms by auto
  moreover have "int b div 128 = (if b < 128 then 0 else 1)" using assms by auto
  ultimately show ?thesis by (simp add: bit_iff_odd)
qed

lemma high_low_bits: "n < 8 \<Longrightarrow> bit (128 + 256 * h :: int) n \<longleftrightarrow> n = 7"
proof -
  assume "n < 8"
  then consider "n = 0" | "n = 1" | "n = 2" | "n = 3" | "n = 4" | "n = 5" | "n = 6" | "n = 7" by linarith
  then show ?thesis
  proof cases
    case 8
    have "(128 + 256 * h) div 128 = 1 + 2 * h" by simp
    with 8 show ?thesis by (simp add: bit_iff_odd)
  qed (simp_all add: bit_iff_odd)
qed

lemma drop_8: "drop_bit 8 (int b + 256 * v) = v" "drop_bit 8 (128 + 256 * v) = v"
  "32 \<le> b \<Longrightarrow> drop_bit 8 (int b - 32 + 256 * v) = v" if "b < 256"
  using that by (simp_all add: drop_bit_int_def)

lemma int_zero_split: "(z :: int) = 0 \<longleftrightarrow> (\<forall>n < 8. \<not> bit z n) \<and> drop_bit 8 z = 0"
proof
  assume a: "(\<forall>n < 8. \<not> bit z n) \<and> drop_bit 8 z = 0"
  then have "take_bit 8 z = 0" by (intro bit_eqI) (auto simp: bit_take_bit_iff)
  with a show "z = 0" using bits_ident [of 8 z] by simp
qed simp

lemma drop_bit_8_not: "drop_bit 8 (NOT v :: int) = NOT (drop_bit 8 v)"
  by (rule bit_eqI) (simp add: bit_drop_bit_eq bit_not_iff)

lemma swar_int:
  "\<forall>b \<in> set bs. b < 256 \<Longrightarrow> le_sub bs AND NOT (le_val bs) AND le_high bs = 0 \<longleftrightarrow> (\<forall>b \<in> set bs. 32 \<le> b)"
proof (induction bs)
  case (Cons b bs)
  let ?z = "le_sub (b # bs) AND NOT (le_val (b # bs)) AND le_high (b # bs)"
  have b: "b < 256" using Cons.prems by simp
  have z7: "bit ?z n \<longleftrightarrow> n = 7 \<and> b < 32" if "n < 8" for n
    using high_low_bits [OF that, of "le_high bs"] low_bit_7 [OF b, of "le_sub bs" "le_val bs"]
    by (auto simp: bit_and_iff bit_not_iff)
  have low: "(\<forall>n < 8. \<not> bit ?z n) \<longleftrightarrow> 32 \<le> b"
  proof
    assume "\<forall>n < 8. \<not> bit ?z n"
    then have "\<not> bit ?z 7" by simp
    with z7 [of 7] show "32 \<le> b" by simp
  qed (use z7 in auto)
  show ?case
  proof (cases "32 \<le> b")
    case True
    have "drop_bit 8 ?z = le_sub bs AND NOT (le_val bs) AND le_high bs"
      using drop_8 [OF b] True by (simp add: drop_bit_and drop_bit_8_not)
    with Cons low True show ?thesis by (subst int_zero_split) simp
  next
    case False
    with low show ?thesis by (subst int_zero_split) auto
  qed
qed simp

lemma bit_byte_high: "8 \<le> n \<Longrightarrow> \<not> bit (byte c) n"
proof -
  assume "8 \<le> n"
  have "byte c < 2 ^ 8" by simp
  also have "(2::nat) ^ 8 \<le> 2 ^ n" using \<open>8 \<le> n\<close> by (intro power_increasing) auto
  finally show ?thesis by (simp add: bit_iff_odd)
qed

lemma load_bits:
  "k \<le> 8 \<Longrightarrow> bit (fold (\<lambda>i x. x OR push_bit (8 * i) (of_nat (byte (b ! i)))) [0..<k] (0 :: 64 word)) n \<longleftrightarrow>
     n < 64 \<and> n div 8 < k \<and> bit (byte (b ! (n div 8))) (n mod 8)"
proof (induction k)
  case 0
  show ?case by simp
next
  case (Suc k)
  have "bit (push_bit (8 * k) (of_nat (byte (b ! k)) :: 64 word)) n \<longleftrightarrow>
      n < 64 \<and> n div 8 = k \<and> bit (byte (b ! (n div 8))) (n mod 8)"
  proof (cases "8 * k \<le> n \<and> n < 8 * k + 8")
    case True
    then have "n div 8 = k" by auto
    then have "n - 8 * k = n mod 8" using minus_mult_div_eq_mod [of n 8] by simp
    note \<open>n div 8 = k\<close> this
    with True show ?thesis by (auto simp: bit_push_bit_iff bit_of_nat_iff)
  next
    case False
    then have "n div 8 \<noteq> k" by auto
    moreover have "\<not> (8 * k \<le> n \<and> bit (byte (b ! k)) (n - 8 * k))"
    proof -
      from False have "n < 8 * k \<or> 8 \<le> n - 8 * k" by linarith
      with bit_byte_high [of "n - 8 * k" "b ! k"] show ?thesis by auto
    qed
    ultimately show ?thesis by (auto simp: bit_push_bit_iff bit_of_nat_iff)
  qed
  with Suc show ?case by (auto simp: bit_or_iff less_Suc_eq)
qed

lemma le_val_bits:
  "\<forall>b \<in> set bs. b < 256 \<Longrightarrow> bit (le_val bs) n \<longleftrightarrow> n div 8 < length bs \<and> bit (bs ! (n div 8)) (n mod 8)"
proof (induction bs arbitrary: n)
  case Nil
  show ?case by simp
next
  case (Cons b bs)
  have b: "b < 256" using Cons.prems by simp
  have eq: "le_val (b # bs) = int b OR push_bit 8 (le_val bs)"
  proof -
    have "int b AND push_bit 8 (le_val bs) = 0"
    proof (rule bit_eqI)
      fix m
      have "\<not> bit (int b) m" if "8 \<le> m"
      proof -
        have "b < 2 ^ 8" using b by simp
        also have "(2::nat) ^ 8 \<le> 2 ^ m" using that by (intro power_increasing) auto
        finally show ?thesis by (simp add: bit_iff_odd)
      qed
      then show "bit (int b AND push_bit 8 (le_val bs)) m = bit 0 m"
        by (auto simp: bit_and_iff bit_push_bit_iff)
    qed
    then show ?thesis by (simp add: disjunctive_add_eq_or [symmetric] push_bit_int_def)
  qed
  show ?case
  proof (cases "n < 8")
    case True
    then show ?thesis
      unfolding eq by (simp add: bit_or_iff bit_push_bit_iff bit_of_nat_iff)
  next
    case False
    then have n: "n div 8 = Suc ((n - 8) div 8)" "n mod 8 = (n - 8) mod 8"
      by (simp_all add: div_if mod_if)
    have "b < 2 ^ 8" using b by simp
    also have "(2::nat) ^ 8 \<le> 2 ^ n" using False by (intro power_increasing) auto
    finally have "\<not> bit (int b) n" by (simp add: bit_iff_odd)
    with False Cons n show ?thesis
      unfolding eq by (simp add: bit_or_iff bit_push_bit_iff)
  qed
qed

lemma load8_val:
  assumes "length b = 8"
  shows "load8 b = word_of_int (le_val (map byte b))"
proof (rule bit_word_eqI)
  fix n
  assume "n < LENGTH(64)"
  then have "n < 64" "n div 8 < 8" by simp_all
  with assms show "bit (load8 b) n = bit (word_of_int (le_val (map byte b)) :: 64 word) n"
    unfolding load8_def
    by (simp add: load_bits bit_of_int_iff le_val_bits)
qed

lemma word_zero: "take_bit 64 z = z \<Longrightarrow> (word_of_int z :: 64 word) = 0 \<longleftrightarrow> z = 0"
  using word_of_int_eq_iff [where 'a = 64, of z 0] by simp

lemma swar_word:
  assumes "length b = 8"
  shows "(load8 b - 0x20 * swar_ones) AND NOT (load8 b) AND swar_high \<noteq> 0 \<longleftrightarrow> list_ex (\<lambda>c. byte c < 0x20) b"
proof -
  let ?v = "map byte b"
  from assms obtain b0 b1 b2 b3 b4 b5 b6 b7 where b: "b = [b0, b1, b2, b3, b4, b5, b6, b7]"
    by (auto simp: length_Suc_conv eval_nat_numeral)
  have sub: "load8 b - 0x20 * swar_ones = word_of_int (le_sub ?v)"
  proof -
    have "le_sub ?v = le_val ?v - 0x2020202020202020" by (simp add: b)
    then have "(word_of_int (le_sub ?v) :: 64 word) = word_of_int (le_val ?v) - 0x2020202020202020"
      by (simp only: of_int_diff of_int_numeral)
    moreover have "0x20 * swar_ones = 0x2020202020202020" by (simp add: swar_ones_def)
    ultimately show ?thesis by (simp only: load8_val [OF assms])
  qed
  have high: "swar_high = word_of_int (le_high ?v)" by (simp add: b swar_high_def)
  let ?z = "le_sub ?v AND NOT (le_val ?v) AND le_high ?v"
  have z: "(load8 b - 0x20 * swar_ones) AND NOT (load8 b) AND swar_high = word_of_int ?z"
    unfolding sub high unfolding load8_val [OF assms] by (simp add: of_int_and_eq of_int_not_eq)
  have "le_high ?v = 0x8080808080808080" by (simp add: b)
  then have "0 \<le> ?z" "?z \<le> 0x8080808080808080" by (simp_all add: AND_upper2)
  moreover have "take_bit 64 z = z" if "0 \<le> z" "z \<le> 0x8080808080808080" for z :: int
    using that by (simp add: take_bit_int_eq_self)
  ultimately have "take_bit 64 ?z = ?z" by blast
  then have "(word_of_int ?z :: 64 word) = 0 \<longleftrightarrow> ?z = 0"
    by (rule word_zero)
  with z have "(load8 b - 0x20 * swar_ones) AND NOT (load8 b) AND swar_high \<noteq> 0 \<longleftrightarrow> ?z \<noteq> 0" by simp
  also have "\<dots> \<longleftrightarrow> \<not> (\<forall>c \<in> set b. 32 \<le> byte c)" using swar_int [of ?v] by simp
  finally show ?thesis by (simp add: list_ex_iff not_le)
qed

lemma has_control_byte_iff: "has_control_byte s \<longleftrightarrow> list_ex (\<lambda>c. byte c < 0x20) s"
proof (induction s rule: has_control_byte.induct)
  case (1 b0 b1 b2 b3 b4 b5 b6 b7 rest)
  then show ?case
    using swar_word [of "[b0, b1, b2, b3, b4, b5, b6, b7]"] by (auto simp: Let_def)
qed simp_all

section \<open>Strictly valid JSON has no control byte in a string\<close>

lemma control_outside: "quote_char \<notin> set w \<Longrightarrow> control_in_string_from False (w @ r) = control_in_string_from False r"
  by (induction w) auto

lemma control_rune:
  assumes "rune_tok u"
  shows "control_in_string_from True (u @ r) = control_in_string_from True r"
proof -
  have "\<forall>c \<in> set u. 0x80 \<le> byte c"
  proof
    fix c assume c: "c \<in> set u"
    from assms obtain d cs where u: "u = d # cs" "\<not> byte d < 0x80" by (auto elim: rune_tok_head)
    with assms c show "0x80 \<le> byte c"
      using rune_cont_bytes [of d cs c] unfolding rune_tok_def by (simp del: decode_rune.simps)
  qed
  then show ?thesis by (induction u) (auto simp: le_less)
qed

lemma hex_not_special: "is_hex c \<Longrightarrow> c \<noteq> quote_char \<and> c \<noteq> backslash \<and> \<not> byte c < 0x20"
  by (auto simp: is_hex_def byte_between_def)

lemma control_hex:
  "list_all is_hex h \<Longrightarrow> control_in_string_from True (h @ r) = control_in_string_from True r"
  by (induction h) (auto dest: hex_not_special)

lemma control_str_chars: "str_chars p \<Longrightarrow> control_in_string_from True (p @ r) = control_in_string_from True r"
proof (induction rule: str_chars.induct)
  case (Sc_plain c p)
  then show ?case by (auto simp: plain_char_def byte_between_def)
next
  case (Sc_rune u p)
  then show ?case by (simp add: control_rune)
qed (simp_all add: control_hex)

lemma control_str_tok: "str_tok t \<Longrightarrow> control_in_string_from False (t @ r) = control_in_string_from False r"
  by (auto simp: str_tok_def control_str_chars)

lemma ws_no_quote: "ws w \<Longrightarrow> quote_char \<notin> set w"
  by (induction w) auto

lemma control_ws: "ws w \<Longrightarrow> control_in_string_from False (w @ r) = control_in_string_from False r"
  by (intro control_outside ws_no_quote)

lemma digits_no_quote: "list_all is_digit w \<Longrightarrow> quote_char \<notin> set w"
  by (induction w) (auto dest: digit_start)

lemma num_no_quote: "num_tok t \<Longrightarrow> quote_char \<notin> set t"
proof -
  have "int_tok i \<Longrightarrow> quote_char \<notin> set i" for i
    by (cases i) (auto simp: int_tok_def byte_between_def dest: digits_no_quote)
  moreover have "frac_tok f \<Longrightarrow> quote_char \<notin> set f" for f
    by (auto simp: frac_tok_def dest: digits_no_quote)
  moreover have "exp_tok e \<Longrightarrow> quote_char \<notin> set e" for e
    by (auto simp: exp_tok_def dest: digits_no_quote)
  ultimately show "num_tok t \<Longrightarrow> quote_char \<notin> set t"
    by (auto simp: num_tok_def)
qed

lemma control_jval:
  "jval c t \<Longrightarrow> control_in_string_from False (t @ r) = control_in_string_from False r"
  "jelems c t \<Longrightarrow> control_in_string_from False (t @ r) = control_in_string_from False r"
  "jmembers c t \<Longrightarrow> control_in_string_from False (t @ r) = control_in_string_from False r"
proof (induction arbitrary: r and r and r rule: jval_jelems_jmembers.inducts)
  case (J_str t)
  then show ?case by (rule control_str_tok)
next
  case (J_num t)
  then show ?case by (intro control_outside num_no_quote)
next
  case (J_lit t)
  then have "quote_char \<notin> set t" by (elim insertE emptyE) simp_all
  then show ?case by (rule control_outside)
next
  case (J_arr0 w)
  then show ?case by (simp add: control_ws)
next
  case (J_arr w c t ce te)
  then show ?case by (simp add: control_ws)
next
  case (J_obj0 w)
  then show ?case by (simp add: control_ws)
next
  case (J_obj w k w1 w2 c t ce te)
  then show ?case by (simp add: control_ws control_str_tok)
next
  case (J_elems0 w)
  then show ?case by (simp add: control_ws)
next
  case (J_elems w w1 c t ce te)
  then show ?case by (simp add: control_ws)
next
  case (J_members0 w)
  then show ?case by (simp add: control_ws)
next
  case (J_members w0 w k w1 w2 c t ce te)
  then show ?case by (simp add: control_ws control_str_tok)
qed

text \<open>\<open>ValidString\<close> is valid UTF-8 with no control byte.\<close>

lemma valid_string_iff: "valid_string s \<longleftrightarrow> valid_utf8 s \<and> \<not> list_ex (\<lambda>c. byte c < 0x20) s"
proof (induction s rule: valid_string.induct)
  case (1 s)
  show ?case
  proof (cases s)
    case Nil
    then show ?thesis by (simp add: valid_string.simps)
  next
    case (Cons c cs)
    consider "byte c < 0x20" | "\<not> byte c < 0x20" "byte c < 0x80" | "\<not> byte c < 0x20" "\<not> byte c < 0x80" by blast
    then show ?thesis
    proof cases
      case 1
      with Cons show ?thesis by (subst valid_string.simps) simp
    next
      case 2
      with Cons "1.IH"(1) [OF Cons] show ?thesis by (subst valid_string.simps) simp
    next
      case 3
      show ?thesis
      proof (cases "rune_bad s")
        case True
        with 3 Cons show ?thesis by (subst valid_string.simps) (simp add: valid_utf8_bad)
      next
        case False
        let ?u = "take (rune_size s) s" and ?r = "drop (rune_size s) s"
        have "\<not> list_ex (\<lambda>c. byte c < 0x20) ?u"
          using rune_cont_bytes [of c cs] False 3 Cons
          by (fastforce simp: list_ex_iff simp del: decode_rune.simps)
        then have "list_ex (\<lambda>c. byte c < 0x20) s \<longleftrightarrow> list_ex (\<lambda>c. byte c < 0x20) ?r"
          by (metis append_take_drop_id list_ex_append)
        moreover have "valid_string s \<longleftrightarrow> valid_string ?r"
          using 3 Cons False by (subst valid_string.simps) (simp del: decode_rune.simps)
        moreover have "valid_utf8 s \<longleftrightarrow> valid_utf8 ?r"
          using Cons False by (simp add: valid_utf8_step del: decode_rune.simps)
        ultimately show ?thesis using "1.IH"(2) [OF Cons 3 False] by simp
      qed
    qed
  qed
qed

section \<open>Properties\<close>

text \<open>the word-at-a-time test of \<open>hasControlByte\<close>, eight bytes per subtraction and mask,
  finds a byte below 0x20 exactly when the string holds one.\<close>

theorem has_control_byte_correct: "has_control_byte s \<longleftrightarrow> (\<exists>c \<in> set s. byte c < 0x20)"
  by (simp add: has_control_byte_iff list_ex_iff)

text \<open>a body that is strictly valid JSON never fails the raw control rule, whatever legal
  escapes its strings hold and whatever control characters stand between its tokens.\<close>

theorem valid_json_no_raw_control:
  assumes "append_json [] body = Inr out"
  shows "\<not> raw_control_in_string body"
proof -
  from assms obtain w t w' c where b: "body = w @ t @ w'" "ws w" "ws w'" "jval c t"
    unfolding append_json_iff by blast
  have "control_in_string_from False (w @ t @ w' @ []) = control_in_string_from False []"
    by (simp only: control_outside [OF ws_no_quote [OF b(2)]] control_jval(1) [OF b(4)]
        control_outside [OF ws_no_quote [OF b(3)]])
  then show ?thesis by (simp add: raw_control_in_string_def control_in_string_def b(1))
qed

theorem valid_json_no_raw_control_witness:
  "\<not> raw_control_in_string (CHR ''['' # CHR 0x0A # [CHR '']''])"
proof -
  have "append_json [] (CHR ''['' # CHR 0x0A # [CHR '']'']) = Inr ''[]''" by code_simp
  then show ?thesis by (rule valid_json_no_raw_control)
qed

end
