(* ===== verification/Codec_State.thy ===== *)
theory Codec_State
  imports Codec_Control Wire_Answers Wire_Prepared
begin

text \<open>
  The state of the response decoder, \<open>internal/codec/visitor.go\<close>: what the next value means
  (\<open>slot\<close>), the containers the visitor reads, the pending failures with the path the Python SDK
  names, the scratch of one answer, and the visitor itself; and the parsers of the three kinds
  of text a response spells numbers with. The scratch maps of the Go visitor (\<open>lvlIdx\<close>,
  \<open>strIdx\<close>, \<open>folds\<close>) live for one call only and are local to the functions that use them.
\<close>

section \<open>Reasons and paths\<close>

datatype reason =
    ErrNotJSON | ErrTrailing | ErrRootNotObject | ErrUTF8 | ErrRawControl | ErrDepth | ErrReadDepth
  | ErrLazyMissed | ErrMissing | ErrNotString | ErrNotNumber | ErrNotObject | ErrNotArray
  | ErrNotCount | ErrNotLevel | ErrLegendValue | ErrSonic bytes

record field_path =
  fp_top :: bytes
  fp_index :: "nat option"
  fp_name :: "bytes option"
  fp_member :: bytes
  fp_key :: "bytes option"

definition field_path_string :: "field_path \<Rightarrow> bytes" where
  "field_path_string p =
     (if fp_top p = [] then ''.''
      else fp_top p @
        (case fp_index p of Some i \<Rightarrow> ''['' @ show_nat i @ '']'' | None \<Rightarrow> []) @
        (case fp_name p of Some n \<Rightarrow> ''.'' @ n | None \<Rightarrow> []) @
        (if fp_member p \<noteq> [] then ''.'' @ fp_member p else []) @
        (case fp_key p of Some k \<Rightarrow> ''.'' @ k | None \<Rightarrow> []))"

type_synonym pend = "(field_path \<times> reason) option"

definition answer_pend :: "bytes \<Rightarrow> bytes \<Rightarrow> reason \<Rightarrow> pend" where
  "answer_pend name m err =
     Some (\<lparr>fp_top = ''answers'', fp_index = None, fp_name = Some name, fp_member = m, fp_key = None\<rparr>, err)"

definition key_pend :: "bytes \<Rightarrow> bytes \<Rightarrow> bytes \<Rightarrow> reason \<Rightarrow> pend" where
  "key_pend name m key err =
     Some (\<lparr>fp_top = ''answers'', fp_index = None, fp_name = Some name, fp_member = m, fp_key = Some key\<rparr>, err)"

definition top_pend :: "bytes \<Rightarrow> bytes \<Rightarrow> reason \<Rightarrow> pend" where
  "top_pend top_name m err =
     Some (\<lparr>fp_top = top_name, fp_index = None, fp_name = None, fp_member = m, fp_key = None\<rparr>, err)"

definition card_pend :: "nat \<Rightarrow> bytes \<Rightarrow> reason \<Rightarrow> pend" where
  "card_pend i m err =
     Some (\<lparr>fp_top = ''models'', fp_index = Some i, fp_name = None, fp_member = m, fp_key = None\<rparr>, err)"

section \<open>Slots, containers and members\<close>

datatype slot =
    SlotNone | SlotIgnore | SlotRoot | SlotModel | SlotUsage | SlotAnswers | SlotInputTokens
  | SlotOutputTokens | SlotAnswer | SlotType | SlotNoul | SlotChoice | SlotConfidence | SlotScore
  | SlotProbs | SlotLegend | SlotProbValue | SlotLegendValue | SlotModels | SlotCard | SlotCardName
  | SlotCardDescription | SlotCardReleaseDate

datatype ctr = CtrRoot | CtrUsage | CtrAnswers | CtrAnswer | CtrProbs | CtrLegend | CtrModels | CtrCard

definition max_depth :: nat where
  "max_depth = 4"

definition max_nesting :: nat where
  "max_nesting = 4096"

datatype mode = ModeSystemOne | ModeModels

text \<open>The member bits: a bit set is the set of its members.\<close>

datatype amember = MType | MNoul | MChoice | MConfidence | MScore | MProbs | MLegend

fun schema :: "kind \<Rightarrow> (amember \<times> bytes) list" where
  "schema KindUnknown = []"
| "schema KindNoul = [(MNoul, ''noul'')]"
| "schema KindChoice = [(MChoice, ''choice''), (MConfidence, ''confidence''), (MProbs, ''probabilities'')]"
| "schema KindScore = [(MScore, ''score''), (MConfidence, ''confidence''), (MLegend, ''legend''), (MProbs, ''probabilities'')]"

datatype cmember = CName | CDescription | CReleaseDate

definition card_schema :: "(cmember \<times> bytes) list" where
  "card_schema = [(CName, ''name''), (CDescription, ''description''), (CReleaseDate, ''release_date'')]"

definition card_all :: "cmember set" where
  "card_all = {CName, CDescription, CReleaseDate}"

section \<open>Scratch records\<close>

record prob_pair =
  pp_key :: bytes
  pp_p :: float64
  pp_bad :: bool

record legend_pair =
  lg_key :: bytes
  lg_text :: bytes
  lg_structured :: bool
  lg_bad :: bool

record answer_scratch =
  sc_name :: bytes
  sc_typ :: bytes
  sc_noul :: float64
  sc_conf :: float64
  sc_score :: float64
  sc_choice :: bytes
  sc_has :: "amember set"
  sc_wrong :: "amember set"

definition new_scratch :: "bytes \<Rightarrow> answer_scratch" where
  "new_scratch name =
     \<lparr>sc_name = name, sc_typ = [], sc_noul = 0, sc_conf = 0, sc_score = 0, sc_choice = [],
      sc_has = {}, sc_wrong = {}\<rparr>"

record entry =
  en_name :: bytes
  en_typ :: bytes
  en_ans :: answer
  en_err :: pend
  en_structured :: nat

definition new_entry :: "bytes \<Rightarrow> entry" where
  "new_entry name =
     \<lparr>en_name = name, en_typ = [], en_ans = zero_answer, en_err = None, en_structured = 0\<rparr>"

definition zero_card :: model_card where
  "zero_card = \<lparr>mc_name = [], mc_description = [], mc_release_date = []\<rparr>"

section \<open>The visitor\<close>

text \<open>The stack has its top first, so \<open>sp\<close> is its length; the answer set's index is
  \<open>None\<close> while \<open>idxOn\<close> is unset.\<close>

record visitor =
  v_body :: bytes
  v_mode :: mode
  v_slot :: slot
  v_ign :: nat
  v_ign_slot :: slot
  v_stack :: "ctr list"
  v_peak :: nat
  v_scanned :: bool
  v_raw_ctl :: bool
  v_model :: bytes
  v_has_model :: bool
  v_model_err :: pend
  v_usage :: usage
  v_has_usage :: bool
  v_usage_err :: pend
  v_in_bad :: bool
  v_out_bad :: bool
  v_answers_err :: pend
  v_cur :: answer_scratch
  v_cur_key :: bytes
  v_set :: "entry list"
  v_idx :: "(bytes \<rightharpoonup> nat) option"
  v_probs :: "prob_pair list"
  v_legend :: "legend_pair list"
  v_cards :: "model_card list"
  v_card :: model_card
  v_card_has :: "cmember set"
  v_card_bad :: "cmember set"
  v_cards_err :: pend
  v_has_cards :: bool

definition reset :: "bytes \<Rightarrow> mode \<Rightarrow> visitor" where
  "reset body m =
     \<lparr>v_body = body, v_mode = m, v_slot = SlotRoot, v_ign = 0, v_ign_slot = SlotNone, v_stack = [],
      v_peak = 0, v_scanned = False, v_raw_ctl = False, v_model = [], v_has_model = False,
      v_model_err = None, v_usage = zero_usage, v_has_usage = False, v_usage_err = None,
      v_in_bad = False, v_out_bad = False, v_answers_err = None, v_cur = new_scratch [],
      v_cur_key = [], v_set = [], v_idx = None, v_probs = [], v_legend = [], v_cards = [],
      v_card = zero_card, v_card_has = {}, v_card_bad = {}, v_cards_err = None, v_has_cards = False\<rparr>"

section \<open>Numbers\<close>

text \<open>\<open>strconv.ParseUint(s, 10, bits)\<close>: digits only, at least one, below \<open>2 ^ bits\<close>.\<close>

definition parse_uint :: "nat \<Rightarrow> bytes \<Rightarrow> nat option" where
  "parse_uint bits s =
     (if s \<noteq> [] \<and> list_all is_digit s \<and> nat_of_digits s < 2 ^ bits then Some (nat_of_digits s) else None)"

definition parse_count :: "bytes \<Rightarrow> 64 word option" where
  "parse_count num =
     (if num = [] then None else if num = ''-0'' then Some 0
      else map_option of_nat (parse_uint 64 num))"

text \<open>The parts of a JSON number: sign, digits without the point, and the power of ten they
  are scaled by.\<close>

definition decimal_parts :: "bytes \<Rightarrow> bool \<times> bytes \<times> int" where
  "decimal_parts num =
     (let neg = (num \<noteq> [] \<and> hd num = CHR ''-''); s = (if neg then tl num else num);
          ip = takeWhile is_digit s; r = dropWhile is_digit s;
          fp = (if r \<noteq> [] \<and> hd r = CHR ''.'' then takeWhile is_digit (tl r) else []);
          r' = (if r \<noteq> [] \<and> hd r = CHR ''.'' then dropWhile is_digit (tl r) else r);
          e = (if r' = [] then 0
               else let x = tl r' in
                 if x \<noteq> [] \<and> hd x = CHR ''-'' then - int (nat_of_digits (tl x))
                 else if x \<noteq> [] \<and> hd x = CHR ''+'' then int (nat_of_digits (tl x))
                 else int (nat_of_digits x)) in
      (neg, ip @ fp, e - int (length fp)))"

text \<open>\<open>strconv.ParseFloat(num, 64)\<close> of a JSON number: correctly rounded, failing when the
  value rounds past the largest float.\<close>

definition parse_float64 :: "bytes \<Rightarrow> float64 option" where
  "parse_float64 num =
     (case decimal_parts num of (neg, ds, x) \<Rightarrow>
        case scale 10 (nat_of_digits ds) 1 x of (p, q) \<Rightarrow>
          let b = round_bits 52 (-1074) p q in
          if 0x7FF0000000000000 \<le> b then None
          else Some (if neg then of_nat (b + 2 ^ 63) else of_nat b))"

definition parse_float :: "bytes \<Rightarrow> float64 option" where
  "parse_float num =
     (if num = [] then None
      else case parse_float64 num of None \<Rightarrow> None
        | Some f \<Rightarrow> Some (if is_zero f then 0 else f))"

text \<open>\<open>parseLevel\<close>, its loop with the overflow check after each digit.\<close>

fun parse_level_loop :: "bytes \<Rightarrow> nat \<Rightarrow> nat option" where
  "parse_level_loop [] n = Some n"
| "parse_level_loop (c # cs) n =
     (if \<not> is_digit c then None
      else let n' = n * 10 + digit_val c in
        if 2 ^ 32 - 1 < n' then None else parse_level_loop cs n')"

definition parse_level :: "bytes \<Rightarrow> 32 word option" where
  "parse_level key =
     (let s = (if key \<noteq> [] \<and> hd key = CHR ''+'' then tl key else key) in
      if s = [] then None else map_option of_nat (parse_level_loop s 0))"

lemma parse_level_loop_eq:
  "n < 2 ^ 32 \<Longrightarrow> parse_level_loop s n =
     (let m = foldl (\<lambda>n c. n * 10 + digit_val c) n s in
      if list_all is_digit s \<and> m < 2 ^ 32 then Some m else None)"
proof (induction s arbitrary: n)
  case Nil
  then show ?case by simp
next
  case (Cons c cs)
  have mono: "k \<le> foldl (\<lambda>n c. n * 10 + digit_val c) k cs" for k
  proof (induction cs arbitrary: k)
    case (Cons d ds)
    have "k \<le> k * 10 + digit_val d" by simp
    also have "\<dots> \<le> foldl (\<lambda>n c. n * 10 + digit_val c) (k * 10 + digit_val d) ds" by (rule Cons.IH)
    finally show ?case by simp
  qed simp
  show ?case
  proof (cases "n * 10 + digit_val c < 2 ^ 32")
    case True
    with Cons.IH [OF True] show ?thesis by (simp add: Let_def)
  next
    case False
    with mono [of "n * 10 + digit_val c"] have "\<not> foldl (\<lambda>n c. n * 10 + digit_val c) n (c # cs) < 2 ^ 32"
      by simp
    with False show ?thesis by (auto simp: Let_def)
  qed
qed

text \<open>\<open>parseLevel\<close> is \<open>strconv.ParseUint(s, 10, 32)\<close> after an optional plus sign.\<close>

lemma parse_level_uint:
  "parse_level key = map_option of_nat (parse_uint 32 (if key \<noteq> [] \<and> hd key = CHR ''+'' then tl key else key))"
  by (auto simp: parse_level_def parse_level_loop_eq parse_uint_def nat_of_digits_def Let_def)

end
