(* ===== verification/Codec_Commit.thy ===== *)
theory Codec_Commit
  imports Codec_State
begin

text \<open>
  The ends of an answer and of a model card, \<open>internal/codec/commit.go\<close>: the folds of a legend
  or a probability list (one entry per key, at its first position, with its last value), the
  failure each reports, \<open>commitAnswer\<close>, the answer set of the visitor and \<open>commitCard\<close>.
\<close>

section \<open>Folds\<close>

text \<open>\<open>foldLegend\<close>, \<open>foldLevels\<close> and \<open>foldLabels\<close> are one loop over the pairs met, here with its
  parameters: how a key parses, the table's element for a new key, its update for a key seen
  before, and the pair's key and whether its value is bad. \<open>fs_idx\<close> is the scratch map of a
  list longer than \<open>linearFold\<close>.\<close>

definition linear_fold :: nat where
  "linear_fold = 16"

record fold =
  fo_first :: nat
  fo_bad :: bool

record ('k, 'e) fold_state =
  fs_table :: "'e list"
  fs_folds :: "fold list"
  fs_idx :: "('k \<rightharpoonup> nat) option"
  fs_bad_key :: "nat option"
  fs_mixed :: bool

record ('k, 'p, 'e) folder =
  fd_parse :: "bytes \<Rightarrow> 'k option"
  fd_key :: "'p \<Rightarrow> bytes"
  fd_bad :: "'p \<Rightarrow> bool"
  fd_elem_key :: "'e \<Rightarrow> 'k"
  fd_new :: "'k \<Rightarrow> 'p \<Rightarrow> 'e"
  fd_update :: "'e \<Rightarrow> 'p \<Rightarrow> 'e"

definition fold_find :: "('k, 'p, 'e) folder \<Rightarrow> ('k, 'e) fold_state \<Rightarrow> 'k \<Rightarrow> nat option" where
  "fold_find F st k =
     (case fs_idx st of
        Some m \<Rightarrow> m k
      | None \<Rightarrow> find_index (\<lambda>e. fd_elem_key F e = k) (fs_table st))"

definition fold_step :: "('k, 'p, 'e) folder \<Rightarrow> 'p list \<Rightarrow> nat \<Rightarrow> 'p \<Rightarrow> ('k, 'e) fold_state \<Rightarrow> ('k, 'e) fold_state" where
  "fold_step F ps i p st =
     (case fd_parse F (fd_key F p) of
        None \<Rightarrow> st\<lparr>fs_bad_key := (if fs_bad_key st = None then Some i else fs_bad_key st)\<rparr>
      | Some k \<Rightarrow>
          (case fold_find F st k of
             Some j \<Rightarrow>
               st\<lparr>fs_mixed := (fs_mixed st \<or> fd_key F (ps ! fo_first (fs_folds st ! j)) \<noteq> fd_key F p),
                  fs_table := (fs_table st)[j := fd_update F (fs_table st ! j) p],
                  fs_folds := (fs_folds st)[j := (fs_folds st ! j)\<lparr>fo_bad := fd_bad F p\<rparr>]\<rparr>
           | None \<Rightarrow>
               st\<lparr>fs_idx := map_option (\<lambda>m. m(k \<mapsto> length (fs_table st))) (fs_idx st),
                  fs_table := fs_table st @ [fd_new F k p],
                  fs_folds := fs_folds st @ [\<lparr>fo_first = i, fo_bad = fd_bad F p\<rparr>]\<rparr>))"

fun fold_loop :: "('k, 'p, 'e) folder \<Rightarrow> 'p list \<Rightarrow> nat \<Rightarrow> 'p list \<Rightarrow> ('k, 'e) fold_state \<Rightarrow> ('k, 'e) fold_state" where
  "fold_loop F ps i [] st = st"
| "fold_loop F ps i (p # rest) st = fold_loop F ps (Suc i) rest (fold_step F ps i p st)"

definition fold_init :: "nat \<Rightarrow> ('k, 'e) fold_state" where
  "fold_init n =
     \<lparr>fs_table = [], fs_folds = [], fs_idx = (if linear_fold < n then Some Map.empty else None),
      fs_bad_key = None, fs_mixed = False\<rparr>"

definition run_fold :: "('k, 'p, 'e) folder \<Rightarrow> 'p list \<Rightarrow> ('k, 'e) fold_state" where
  "run_fold F ps = fold_loop F ps 0 ps (fold_init (length ps))"

text \<open>\<open>firstFailure\<close>: the position and whether it is a key that is not a level.\<close>

definition first_failure :: "nat option \<Rightarrow> fold list \<Rightarrow> (nat \<times> bool) option" where
  "first_failure bad_key folds =
     (case List.find fo_bad folds of
        None \<Rightarrow> map_option (\<lambda>p. (p, True)) bad_key
      | Some f \<Rightarrow>
          (case bad_key of
             None \<Rightarrow> Some (fo_first f, False)
           | Some p \<Rightarrow> if fo_first f < p then Some (fo_first f, False) else Some (p, True)))"

text \<open>\<open>spellingFailure\<close>: \<open>last_positions\<close> is its first loop, \<open>spelling_loop\<close> its second.\<close>

fun last_positions :: "nat \<Rightarrow> bytes list \<Rightarrow> (bytes \<rightharpoonup> nat) \<Rightarrow> (bytes \<rightharpoonup> nat)" where
  "last_positions i [] m = m"
| "last_positions i (k # ks) m = last_positions (Suc i) ks (m(k \<mapsto> i))"

fun spelling_loop :: "(bytes \<Rightarrow> 'k option) \<Rightarrow> (nat \<Rightarrow> bool) \<Rightarrow> nat \<Rightarrow> bytes list \<Rightarrow> (bytes \<rightharpoonup> nat) \<Rightarrow> (nat \<times> bool) option" where
  "spelling_loop parse bad i [] m = None"
| "spelling_loop parse bad i (k # ks) m =
     (case m k of
        None \<Rightarrow> spelling_loop parse bad (Suc i) ks m
      | Some l \<Rightarrow>
          if parse k = None then Some (i, True)
          else if bad l then Some (i, False)
          else spelling_loop parse bad (Suc i) ks (m(k := None)))"

definition spelling_failure :: "('k, 'p, 'e) folder \<Rightarrow> 'p list \<Rightarrow> (nat \<times> bool) option" where
  "spelling_failure F ps =
     (let ks = map (fd_key F) ps in
      spelling_loop (fd_parse F) (\<lambda>i. fd_bad F (ps ! i)) 0 ks (last_positions 0 ks Map.empty))"

definition fold_failure :: "('k, 'p, 'e) folder \<Rightarrow> 'p list \<Rightarrow> (nat \<times> bool) option" where
  "fold_failure F ps =
     (let st = run_fold F ps in
      if fs_mixed st then spelling_failure F ps else first_failure (fs_bad_key st) (fs_folds st))"

section \<open>The three folds\<close>

definition structured_mark :: bytes where
  "structured_mark = []"

definition level_content :: "legend_pair \<Rightarrow> content" where
  "level_content l =
     (if lg_structured l then \<lparr>ctext = [], cjson = Some structured_mark\<rparr>
      else \<lparr>ctext = lg_text l, cjson = None\<rparr>)"

definition legend_folder :: "(32 word, legend_pair, legend_entry) folder" where
  "legend_folder =
     \<lparr>fd_parse = parse_level, fd_key = lg_key, fd_bad = lg_bad, fd_elem_key = le_level,
      fd_new = (\<lambda>k l. \<lparr>le_level = k, le_description = level_content l\<rparr>),
      fd_update = (\<lambda>e l. e\<lparr>le_description := level_content l\<rparr>)\<rparr>"

definition levels_folder :: "(32 word, prob_pair, level_probability) folder" where
  "levels_folder =
     \<lparr>fd_parse = parse_level, fd_key = pp_key, fd_bad = pp_bad, fd_elem_key = vp_level,
      fd_new = (\<lambda>k p. \<lparr>vp_level = k, vp_probability = pp_p p\<rparr>),
      fd_update = (\<lambda>e p. e\<lparr>vp_probability := pp_p p\<rparr>)\<rparr>"

definition labels_folder :: "(bytes, prob_pair, label_probability) folder" where
  "labels_folder =
     \<lparr>fd_parse = Some, fd_key = pp_key, fd_bad = pp_bad, fd_elem_key = lp_label,
      fd_new = (\<lambda>k p. \<lparr>lp_label = k, lp_probability = pp_p p\<rparr>),
      fd_update = (\<lambda>e p. e\<lparr>lp_probability := pp_p p\<rparr>)\<rparr>"

definition fold_legend :: "legend_pair list \<Rightarrow> entry \<Rightarrow> pend \<times> entry" where
  "fold_legend ls e =
     (case fold_failure legend_folder ls of
        Some (pos, is_key) \<Rightarrow>
          (key_pend (en_name e) ''legend'' (lg_key (ls ! pos)) (if is_key then ErrNotLevel else ErrLegendValue), e)
      | None \<Rightarrow>
          (let t = fs_table (run_fold legend_folder ls) in
           (None, e\<lparr>en_structured := en_structured e + length (filter (\<lambda>d. cjson (le_description d) \<noteq> None) t),
                    en_ans := (en_ans e)\<lparr>ans_score := (ans_score (en_ans e))\<lparr>legend := t\<rparr>\<rparr>\<rparr>)))"

definition fold_levels :: "prob_pair list \<Rightarrow> entry \<Rightarrow> pend \<times> entry" where
  "fold_levels ps e =
     (case fold_failure levels_folder ps of
        Some (pos, is_key) \<Rightarrow>
          (key_pend (en_name e) ''probabilities'' (pp_key (ps ! pos)) (if is_key then ErrNotLevel else ErrNotNumber), e)
      | None \<Rightarrow>
          (None, e\<lparr>en_ans := (en_ans e)\<lparr>ans_score := (ans_score (en_ans e))
             \<lparr>score_probabilities := fs_table (run_fold levels_folder ps)\<rparr>\<rparr>\<rparr>))"

definition fold_labels :: "prob_pair list \<Rightarrow> entry \<Rightarrow> pend \<times> entry" where
  "fold_labels ps e =
     (let st = run_fold labels_folder ps in
      case first_failure None (fs_folds st) of
        Some (pos, is_key) \<Rightarrow> (key_pend (en_name e) ''probabilities'' (pp_key (ps ! pos)) ErrNotNumber, e)
      | None \<Rightarrow>
          (None, e\<lparr>en_ans := (en_ans e)\<lparr>ans_choice := (ans_choice (en_ans e))
             \<lparr>choice_probabilities := fs_table st\<rparr>\<rparr>\<rparr>))"

section \<open>The answer set\<close>

definition linear_set :: nat where
  "linear_set = 8"

definition set_find :: "visitor \<Rightarrow> bytes \<Rightarrow> nat option" where
  "set_find v name =
     (case v_idx v of
        Some m \<Rightarrow> m name
      | None \<Rightarrow> find_index (\<lambda>e. en_name e = name) (v_set v))"

definition put_entry :: "entry \<Rightarrow> visitor \<Rightarrow> visitor" where
  "put_entry e v =
     (case set_find v (en_name e) of
        Some i \<Rightarrow> v\<lparr>v_set := (v_set v)[i := e]\<rparr>
      | None \<Rightarrow>
          (let es = v_set v @ [e] in
           case v_idx v of
             Some m \<Rightarrow> v\<lparr>v_set := es, v_idx := Some (m(en_name e \<mapsto> length es - 1))\<rparr>
           | None \<Rightarrow>
               if linear_set < length es
               then v\<lparr>v_set := es, v_idx := Some (index_of en_name es)\<rparr>
               else v\<lparr>v_set := es\<rparr>))"

definition reset_answers :: "visitor \<Rightarrow> visitor" where
  "reset_answers v = v\<lparr>v_set := [], v_idx := None\<rparr>"

section \<open>The end of an answer\<close>

fun wrong_kind_err :: "amember \<Rightarrow> reason" where
  "wrong_kind_err MChoice = ErrNotString"
| "wrong_kind_err MType = ErrNotString"
| "wrong_kind_err MProbs = ErrNotObject"
| "wrong_kind_err MLegend = ErrNotObject"
| "wrong_kind_err m = ErrNotNumber"

text \<open>The loop over the schema: the entry with the failure of the first member that has one.\<close>

fun check_members :: "prob_pair list \<Rightarrow> legend_pair list \<Rightarrow> answer_scratch \<Rightarrow> (amember \<times> bytes) list \<Rightarrow> entry \<Rightarrow> entry" where
  "check_members ps ls a [] e = e"
| "check_members ps ls a ((m, name) # ms) e =
     (case (if m \<in> sc_wrong a then (answer_pend (sc_name a) name (wrong_kind_err m), e)
            else if m \<notin> sc_has a then (answer_pend (sc_name a) name ErrMissing, e)
            else if m = MLegend then fold_legend ls e
            else if m = MProbs \<and> ans_kind (en_ans e) = KindChoice then fold_labels ps e
            else if m = MProbs then fold_levels ps e
            else (None, e)) of
        (Some err, e') \<Rightarrow> e'\<lparr>en_err := Some err\<rparr>
      | (None, e') \<Rightarrow> check_members ps ls a ms e')"

definition answer_value :: "answer_scratch \<Rightarrow> answer \<Rightarrow> answer" where
  "answer_value a x =
     (case ans_kind x of
        KindNoul \<Rightarrow> x\<lparr>ans_noul := \<lparr>noul = sc_noul a\<rparr>\<rparr>
      | KindChoice \<Rightarrow> x\<lparr>ans_choice := (ans_choice x)\<lparr>choice := sc_choice a, choice_confidence := sc_conf a\<rparr>\<rparr>
      | KindScore \<Rightarrow> x\<lparr>ans_score := (ans_score x)\<lparr>score := sc_score a, score_confidence := sc_conf a\<rparr>\<rparr>
      | KindUnknown \<Rightarrow> x)"

definition answer_entry_of :: "prob_pair list \<Rightarrow> legend_pair list \<Rightarrow> answer_scratch \<Rightarrow> entry" where
  "answer_entry_of ps ls a =
     (let e = new_entry (sc_name a) in
      if MType \<in> sc_wrong a then
        e\<lparr>en_err := answer_pend (sc_name a) ''type'' ErrNotString, en_typ := sc_typ a\<rparr>
      else if MType \<notin> sc_has a then
        e\<lparr>en_err := answer_pend (sc_name a) ''type'' ErrMissing, en_typ := sc_typ a\<rparr>
      else
        let e = e\<lparr>en_ans := (en_ans e)\<lparr>ans_kind := parse_kind (sc_typ a)\<rparr>\<rparr> in
        if parse_kind (sc_typ a) = KindUnknown then e\<lparr>en_typ := sc_typ a\<rparr>
        else
          let e' = check_members ps ls a (schema (parse_kind (sc_typ a))) e in
          if en_err e' \<noteq> None then e'
          else e'\<lparr>en_ans := answer_value a (en_ans e')\<rparr>)"

definition commit_answer :: "visitor \<Rightarrow> visitor" where
  "commit_answer v = put_entry (answer_entry_of (v_probs v) (v_legend v) (v_cur v)) v"

section \<open>The end of a card\<close>

fun card_failure :: "nat \<Rightarrow> cmember set \<Rightarrow> cmember set \<Rightarrow> (cmember \<times> bytes) list \<Rightarrow> pend" where
  "card_failure i has bad [] = None"
| "card_failure i has bad ((m, name) # ms) =
     (if m \<in> bad then card_pend i name ErrNotString
      else if m \<notin> has then card_pend i name ErrMissing
      else card_failure i has bad ms)"

definition commit_card :: "visitor \<Rightarrow> visitor" where
  "commit_card v =
     v\<lparr>v_cards_err :=
         (if v_cards_err v = None \<and> v_card_has v \<noteq> card_all
          then card_failure (length (v_cards v)) (v_card_has v) (v_card_bad v) card_schema
          else v_cards_err v),
       v_cards := v_cards v @ [v_card v]\<rparr>"

end
