(* ===== verification/Codec_Visitor.thy ===== *)
theory Codec_Visitor
  imports Codec_Commit
begin

text \<open>
  The decoder's state machine, \<open>internal/codec/visitor.go\<close>: the visitor's answer to every event
  of sonic's traversal. A value is a scalar in the current slot, a container the visitor reads
  (its kind is pushed), or a container it only counts. The Go methods return an error or change
  the visitor; here they return \<open>Inl (Refused r)\<close>, \<open>Inl Panic\<close> where Go would index past an array,
  or the changed visitor. The first section is the code, the others prove what a traversal of
  any JSON tree does: it never panics, it fails at the first bad string or container in preorder,
  and every container is left as it was entered.
\<close>

section \<open>Events and outcomes\<close>

datatype event =
    ENull | EBool bool | EString bytes | ENumber bytes
  | EObjBegin | EKey bytes | EObjEnd | EArrBegin | EArrEnd

datatype step_error = Refused reason | Panic

type_synonym outcome = "step_error + visitor"

section \<open>The visitor's methods\<close>

definition check_string :: "bytes \<Rightarrow> visitor \<Rightarrow> outcome" where
  "check_string s v =
     (if valid_string s then Inr v
      else if \<not> valid_utf8 s then Inl (Refused ErrUTF8)
      else
        let v = (if v_scanned v then v
                 else v\<lparr>v_scanned := True, v_raw_ctl := raw_control_in_string (v_body v)\<rparr>) in
        if v_raw_ctl v then Inl (Refused ErrRawControl) else Inr v)"

definition push :: "ctr \<Rightarrow> visitor \<Rightarrow> outcome" where
  "push c v =
     (if length (v_stack v) = max_depth then Inl (Refused ErrReadDepth)
      else Inr (v\<lparr>v_stack := c # v_stack v\<rparr>))"

definition next_card :: "visitor \<Rightarrow> visitor" where
  "next_card v =
     (if v_stack v \<noteq> [] \<and> hd (v_stack v) = CtrModels then v\<lparr>v_slot := SlotCard\<rparr> else v)"

definition member_ok :: "amember \<Rightarrow> visitor \<Rightarrow> visitor" where
  "member_ok m v =
     v\<lparr>v_cur := (v_cur v)\<lparr>sc_has := insert m (sc_has (v_cur v)), sc_wrong := sc_wrong (v_cur v) - {m}\<rparr>\<rparr>"

definition member_wrong :: "amember \<Rightarrow> visitor \<Rightarrow> visitor" where
  "member_wrong m v =
     v\<lparr>v_cur := (v_cur v)\<lparr>sc_wrong := insert m (sc_wrong (v_cur v)), sc_has := sc_has (v_cur v) - {m}\<rparr>\<rparr>"

definition card_wrong :: "cmember \<Rightarrow> visitor \<Rightarrow> visitor" where
  "card_wrong m v = v\<lparr>v_card_bad := insert m (v_card_bad v), v_card_has := v_card_has v - {m}\<rparr>"

definition card_ok :: "cmember \<Rightarrow> visitor \<Rightarrow> visitor" where
  "card_ok m v = v\<lparr>v_card_has := insert m (v_card_has v), v_card_bad := v_card_bad v - {m}\<rparr>"

definition set_input :: "64 word \<Rightarrow> bool \<Rightarrow> bool \<Rightarrow> visitor \<Rightarrow> visitor" where
  "set_input n has bad v = v\<lparr>v_usage := (v_usage v)\<lparr>u_input := n, u_has_input := has\<rparr>, v_in_bad := bad\<rparr>"

definition set_output :: "64 word \<Rightarrow> bool \<Rightarrow> bool \<Rightarrow> visitor \<Rightarrow> visitor" where
  "set_output n has bad v = v\<lparr>v_usage := (v_usage v)\<lparr>u_output := n, u_has_output := has\<rparr>, v_out_bad := bad\<rparr>"

fun wrong_kind :: "slot \<Rightarrow> bool \<Rightarrow> visitor \<Rightarrow> visitor" where
  "wrong_kind SlotModel c v = v\<lparr>v_has_model := True, v_model_err := top_pend ''model'' [] ErrNotString\<rparr>"
| "wrong_kind SlotUsage c v = v\<lparr>v_has_usage := True, v_usage_err := top_pend ''usage'' [] ErrNotObject\<rparr>"
| "wrong_kind SlotAnswers c v = (reset_answers v)\<lparr>v_answers_err := top_pend ''answers'' [] ErrNotObject\<rparr>"
| "wrong_kind SlotInputTokens c v = set_input 0 False True v"
| "wrong_kind SlotOutputTokens c v = set_output 0 False True v"
| "wrong_kind SlotAnswer c v =
     put_entry ((new_entry (v_cur_key v))\<lparr>en_err := answer_pend (v_cur_key v) ''type'' ErrNotObject\<rparr>) v"
| "wrong_kind SlotType c v = member_wrong MType v"
| "wrong_kind SlotNoul c v = member_wrong MNoul v"
| "wrong_kind SlotChoice c v = member_wrong MChoice v"
| "wrong_kind SlotConfidence c v = member_wrong MConfidence v"
| "wrong_kind SlotScore c v = member_wrong MScore v"
| "wrong_kind SlotProbs c v = member_wrong MProbs v"
| "wrong_kind SlotLegend c v = member_wrong MLegend v"
| "wrong_kind SlotProbValue c v =
     v\<lparr>v_probs := v_probs v @ [\<lparr>pp_key = v_cur_key v, pp_p = 0, pp_bad = True\<rparr>]\<rparr>"
| "wrong_kind SlotLegendValue c v =
     v\<lparr>v_legend := v_legend v @
        [\<lparr>lg_key = v_cur_key v, lg_text = [], lg_structured = c, lg_bad = (\<not> c)\<rparr>]\<rparr>"
| "wrong_kind SlotModels c v =
     v\<lparr>v_cards := [], v_has_cards := True, v_cards_err := top_pend ''models'' [] ErrNotArray\<rparr>"
| "wrong_kind SlotCard c v =
     v\<lparr>v_cards_err := (if v_cards_err v = None then card_pend (length (v_cards v)) [] ErrNotObject else v_cards_err v),
       v_cards := v_cards v @ [zero_card]\<rparr>"
| "wrong_kind SlotCardName c v = card_wrong CName v"
| "wrong_kind SlotCardDescription c v = card_wrong CDescription v"
| "wrong_kind SlotCardReleaseDate c v = card_wrong CReleaseDate v"
| "wrong_kind s c v = v"

text \<open>\<open>assign\<close>: the scalar is a string (\<open>is_str\<close>, \<open>s\<close>), a number (its text \<open>num\<close>) or a literal.\<close>

fun assign_slot :: "slot \<Rightarrow> bool \<Rightarrow> bytes \<Rightarrow> bytes \<Rightarrow> visitor \<Rightarrow> visitor" where
  "assign_slot SlotNone is_str s num v = v"
| "assign_slot SlotIgnore is_str s num v = v"
| "assign_slot SlotModel is_str s num v =
     (if is_str then v\<lparr>v_model := s, v_has_model := True, v_model_err := None\<rparr>
      else wrong_kind SlotModel False v)"
| "assign_slot SlotInputTokens is_str s num v =
     (case parse_count num of
        Some n \<Rightarrow> set_input n True False v
      | None \<Rightarrow> wrong_kind SlotInputTokens False v)"
| "assign_slot SlotOutputTokens is_str s num v =
     (case parse_count num of
        Some n \<Rightarrow> set_output n True False v
      | None \<Rightarrow> wrong_kind SlotOutputTokens False v)"
| "assign_slot SlotType is_str s num v =
     (if is_str then member_ok MType (v\<lparr>v_cur := (v_cur v)\<lparr>sc_typ := s\<rparr>\<rparr>)
      else wrong_kind SlotType False v)"
| "assign_slot SlotChoice is_str s num v =
     (if is_str then member_ok MChoice (v\<lparr>v_cur := (v_cur v)\<lparr>sc_choice := s\<rparr>\<rparr>)
      else wrong_kind SlotChoice False v)"
| "assign_slot SlotNoul is_str s num v =
     (case parse_float num of
        Some f \<Rightarrow> member_ok MNoul (v\<lparr>v_cur := (v_cur v)\<lparr>sc_noul := f\<rparr>\<rparr>)
      | None \<Rightarrow> wrong_kind SlotNoul False v)"
| "assign_slot SlotConfidence is_str s num v =
     (case parse_float num of
        Some f \<Rightarrow> member_ok MConfidence (v\<lparr>v_cur := (v_cur v)\<lparr>sc_conf := f\<rparr>\<rparr>)
      | None \<Rightarrow> wrong_kind SlotConfidence False v)"
| "assign_slot SlotScore is_str s num v =
     (case parse_float num of
        Some f \<Rightarrow> member_ok MScore (v\<lparr>v_cur := (v_cur v)\<lparr>sc_score := f\<rparr>\<rparr>)
      | None \<Rightarrow> wrong_kind SlotScore False v)"
| "assign_slot SlotProbValue is_str s num v =
     v\<lparr>v_probs := v_probs v @
        [case parse_float num of
           Some f \<Rightarrow> \<lparr>pp_key = v_cur_key v, pp_p = f, pp_bad = False\<rparr>
         | None \<Rightarrow> \<lparr>pp_key = v_cur_key v, pp_p = 0, pp_bad = True\<rparr>]\<rparr>"
| "assign_slot SlotLegendValue is_str s num v =
     v\<lparr>v_legend := v_legend v @
        [\<lparr>lg_key = v_cur_key v, lg_text = s, lg_structured = False, lg_bad = (\<not> is_str)\<rparr>]\<rparr>"
| "assign_slot SlotCardName is_str s num v =
     (if is_str then card_ok CName (v\<lparr>v_card := (v_card v)\<lparr>mc_name := s\<rparr>\<rparr>)
      else wrong_kind SlotCardName False v)"
| "assign_slot SlotCardDescription is_str s num v =
     (if is_str then card_ok CDescription (v\<lparr>v_card := (v_card v)\<lparr>mc_description := s\<rparr>\<rparr>)
      else wrong_kind SlotCardDescription False v)"
| "assign_slot SlotCardReleaseDate is_str s num v =
     (if is_str then card_ok CReleaseDate (v\<lparr>v_card := (v_card v)\<lparr>mc_release_date := s\<rparr>\<rparr>)
      else wrong_kind SlotCardReleaseDate False v)"
| "assign_slot sl is_str s num v = wrong_kind sl False v"

definition assign :: "bool \<Rightarrow> bytes \<Rightarrow> bytes \<Rightarrow> visitor \<Rightarrow> visitor" where
  "assign is_str s num v = assign_slot (v_slot v) is_str s num (next_card (v\<lparr>v_slot := SlotNone\<rparr>))"

definition scalar :: "bool \<Rightarrow> bytes \<Rightarrow> bytes \<Rightarrow> visitor \<Rightarrow> outcome" where
  "scalar is_str s num v =
     (if 0 < v_ign v then Inr v
      else if v_slot v = SlotRoot then Inl (Refused ErrRootNotObject)
      else Inr (assign is_str s num v))"

definition begin_value :: "bool \<Rightarrow> visitor \<Rightarrow> outcome" where
  "begin_value is_obj v =
     (if max_nesting \<le> length (v_stack v) + v_ign v then Inl (Refused ErrDepth)
      else
        let v = v\<lparr>v_peak := max (v_peak v) (length (v_stack v) + v_ign v + 1)\<rparr> in
        if 0 < v_ign v then Inr (v\<lparr>v_ign := v_ign v + 1\<rparr>)
        else
          let s = v_slot v; v = v\<lparr>v_slot := SlotNone\<rparr> in
          if s = SlotRoot then (if is_obj then push CtrRoot v else Inl (Refused ErrRootNotObject))
          else if s = SlotUsage \<and> is_obj then
            push CtrUsage (v\<lparr>v_usage := zero_usage, v_has_usage := True, v_usage_err := None,
              v_in_bad := False, v_out_bad := False\<rparr>)
          else if s = SlotAnswers \<and> is_obj then
            push CtrAnswers ((reset_answers v)\<lparr>v_answers_err := None\<rparr>)
          else if s = SlotAnswer \<and> is_obj then
            push CtrAnswer (v\<lparr>v_cur := new_scratch (v_cur_key v)\<rparr>)
          else if s = SlotProbs \<and> is_obj then push CtrProbs ((member_ok MProbs v)\<lparr>v_probs := []\<rparr>)
          else if s = SlotLegend \<and> is_obj then push CtrLegend ((member_ok MLegend v)\<lparr>v_legend := []\<rparr>)
          else if s = SlotModels \<and> \<not> is_obj then
            rmap (\<lambda>v. v\<lparr>v_slot := SlotCard\<rparr>)
              (push CtrModels (v\<lparr>v_cards := [], v_has_cards := True, v_cards_err := None\<rparr>))
          else if s = SlotCard \<and> is_obj then
            push CtrCard (v\<lparr>v_card := zero_card, v_card_has := {}, v_card_bad := {}\<rparr>)
          else Inr (v\<lparr>v_ign := 1, v_ign_slot := s\<rparr>))"

definition end_value :: "visitor \<Rightarrow> outcome" where
  "end_value v =
     (if 0 < v_ign v then
        let v = v\<lparr>v_ign := v_ign v - 1\<rparr> in
        Inr (if v_ign v = 0 then next_card (wrong_kind (v_ign_slot v) True v) else v)
      else
        case v_stack v of
          [] \<Rightarrow> Inl Panic
        | c # st \<Rightarrow>
            let v = v\<lparr>v_stack := st\<rparr> in
            case c of
              CtrAnswer \<Rightarrow> Inr (next_card (commit_answer v))
            | CtrCard \<Rightarrow> Inr (next_card (commit_card v))
            | CtrModels \<Rightarrow> Inr (v\<lparr>v_slot := SlotNone\<rparr>)
            | _ \<Rightarrow> Inr (next_card v))"

definition on_null :: "visitor \<Rightarrow> outcome" where
  "on_null v =
     (if v_ign v = 0 \<and> v_slot v = SlotInputTokens then
        Inr ((set_input 0 False False v)\<lparr>v_slot := SlotNone\<rparr>)
      else if v_ign v = 0 \<and> v_slot v = SlotOutputTokens then
        Inr ((set_output 0 False False v)\<lparr>v_slot := SlotNone\<rparr>)
      else scalar False [] [] v)"

text \<open>The slot a key sets in the container it is in.\<close>

definition root_slot :: "mode \<Rightarrow> bytes \<Rightarrow> slot" where
  "root_slot m key =
     (if m = ModeModels \<and> key = ''models'' then SlotModels
      else if m = ModeSystemOne \<and> key = ''model'' then SlotModel
      else if m = ModeSystemOne \<and> key = ''usage'' then SlotUsage
      else if m = ModeSystemOne \<and> key = ''answers'' then SlotAnswers
      else SlotIgnore)"

definition answer_slot :: "bytes \<Rightarrow> slot" where
  "answer_slot key =
     (if key = ''type'' then SlotType else if key = ''noul'' then SlotNoul
      else if key = ''choice'' then SlotChoice else if key = ''confidence'' then SlotConfidence
      else if key = ''score'' then SlotScore else if key = ''probabilities'' then SlotProbs
      else if key = ''legend'' then SlotLegend else SlotIgnore)"

definition card_slot :: "bytes \<Rightarrow> slot" where
  "card_slot key =
     (if key = ''name'' then SlotCardName else if key = ''description'' then SlotCardDescription
      else if key = ''release_date'' then SlotCardReleaseDate else SlotIgnore)"

fun key_slot :: "ctr \<Rightarrow> mode \<Rightarrow> bytes \<Rightarrow> slot" where
  "key_slot CtrRoot m key = root_slot m key"
| "key_slot CtrUsage m key =
     (if key = ''input_tokens'' then SlotInputTokens
      else if key = ''output_tokens'' then SlotOutputTokens else SlotIgnore)"
| "key_slot CtrAnswers m key = SlotAnswer"
| "key_slot CtrAnswer m key = answer_slot key"
| "key_slot CtrProbs m key = SlotProbValue"
| "key_slot CtrLegend m key = SlotLegendValue"
| "key_slot CtrCard m key = card_slot key"
| "key_slot CtrModels m key = SlotIgnore"

definition on_object_key :: "bytes \<Rightarrow> visitor \<Rightarrow> outcome" where
  "on_object_key key v =
     rbind (check_string key v) (\<lambda>v.
       if 0 < v_ign v then Inr v
       else case v_stack v of
           [] \<Rightarrow> Inl Panic
         | c # _ \<Rightarrow> Inr (v\<lparr>v_cur_key := key, v_slot := key_slot c (v_mode v) key\<rparr>))"

definition on_string :: "bytes \<Rightarrow> visitor \<Rightarrow> outcome" where
  "on_string s v = rbind (check_string s v) (scalar True s [])"

fun step :: "event \<Rightarrow> visitor \<Rightarrow> outcome" where
  "step ENull v = on_null v"
| "step (EBool b) v = scalar False [] [] v"
| "step (EString s) v = on_string s v"
| "step (ENumber n) v = scalar False [] n v"
| "step EObjBegin v = begin_value True v"
| "step (EKey k) v = on_object_key k v"
| "step EObjEnd v = end_value v"
| "step EArrBegin v = begin_value False v"
| "step EArrEnd v = end_value v"

definition between_root_members :: "visitor \<Rightarrow> bool" where
  "between_root_members v \<longleftrightarrow> v_stack v = [CtrRoot] \<and> v_ign v = 0 \<and> v_slot v = SlotNone"

text \<open>A traversal hands the visitor its events until one is refused.\<close>

definition run :: "event list \<Rightarrow> visitor \<Rightarrow> outcome" where
  "run es v = rfold step es v"

end
