(* ===== verification/Codec_Run.thy ===== *)
theory Codec_Run
  imports Codec_Visitor
begin

text \<open>
  What the visitor does with the traversal of a whole JSON tree. sonic's \<open>ast.Preorder\<close> hands
  over the events of a tree in preorder (\<open>events\<close>); \<open>tree_error\<close> is the first string or container
  in that order the decoder must refuse. The invariant \<open>visitor_ok\<close> ties the slot to the
  container on top of the stack, which bounds the stack by \<open>max_depth\<close>; from it a traversal
  fails exactly with \<open>tree_error\<close>, never panics, and leaves the stack as it found it.
\<close>

section \<open>Trees and their events\<close>

datatype jtree =
    TNull | TBool bool | TNum bytes | TStr bytes | TArr "jtree list" | TObj "(bytes \<times> jtree) list"

fun events :: "jtree \<Rightarrow> event list" where
  "events TNull = [ENull]"
| "events (TBool b) = [EBool b]"
| "events (TNum n) = [ENumber n]"
| "events (TStr s) = [EString s]"
| "events (TArr ts) = EArrBegin # concat (map events ts) @ [EArrEnd]"
| "events (TObj kvs) = EObjBegin # concat (map (\<lambda>(k, t). EKey k # events t) kvs) @ [EObjEnd]"

definition member_events :: "(bytes \<times> jtree) list \<Rightarrow> event list" where
  "member_events kvs = concat (map (\<lambda>(k, t). EKey k # events t) kvs)"

lemma member_events_simps [simp]:
  "member_events [] = []"
  "member_events ((k, t) # kvs) = EKey k # events t @ member_events kvs"
  by (simp_all add: member_events_def)

definition string_error :: "bytes \<Rightarrow> bytes \<Rightarrow> reason option" where
  "string_error body s =
     (if valid_string s then None
      else if \<not> valid_utf8 s then Some ErrUTF8
      else if raw_control_in_string body then Some ErrRawControl else None)"

fun tree_error :: "bytes \<Rightarrow> nat \<Rightarrow> jtree \<Rightarrow> reason option" where
  "tree_error body d (TStr s) = string_error body s"
| "tree_error body d (TArr ts) =
     (if max_nesting \<le> d then Some ErrDepth else first_some (map (tree_error body (Suc d)) ts))"
| "tree_error body d (TObj kvs) =
     (if max_nesting \<le> d then Some ErrDepth
      else first_some (map (\<lambda>(k, t). case string_error body k of Some r \<Rightarrow> Some r
                                       | None \<Rightarrow> tree_error body (Suc d) t) kvs))"
| "tree_error body d t = None"

definition member_error :: "bytes \<Rightarrow> nat \<Rightarrow> bytes \<times> jtree \<Rightarrow> reason option" where
  "member_error body d kt =
     (case string_error body (fst kt) of Some r \<Rightarrow> Some r | None \<Rightarrow> tree_error body d (snd kt))"

lemma member_error_pair [simp]:
  "member_error body d (k, t) =
     (case string_error body k of Some r \<Rightarrow> Some r | None \<Rightarrow> tree_error body d t)"
  by (simp add: member_error_def split: option.split)

lemma tree_error_obj:
  "tree_error body d (TObj kvs) =
     (if max_nesting \<le> d then Some ErrDepth else first_some (map (member_error body (Suc d)) kvs))"
  by (simp add: member_error_def [abs_def] case_prod_beta' cong: map_cong)

section \<open>The invariant\<close>

fun parent :: "ctr \<Rightarrow> ctr option" where
  "parent CtrRoot = None"
| "parent CtrUsage = Some CtrRoot"
| "parent CtrAnswers = Some CtrRoot"
| "parent CtrModels = Some CtrRoot"
| "parent CtrAnswer = Some CtrAnswers"
| "parent CtrCard = Some CtrModels"
| "parent CtrProbs = Some CtrAnswer"
| "parent CtrLegend = Some CtrAnswer"

fun stack_ok :: "ctr list \<Rightarrow> bool" where
  "stack_ok [] \<longleftrightarrow> True"
| "stack_ok (c # st) \<longleftrightarrow>
     (case parent c of None \<Rightarrow> st = [] | Some p \<Rightarrow> st \<noteq> [] \<and> hd st = p) \<and> stack_ok st"

definition slot_ok :: "ctr \<Rightarrow> slot \<Rightarrow> bool" where
  "slot_ok c s \<longleftrightarrow>
     s \<noteq> SlotRoot \<and> (s = SlotUsage \<or> s = SlotAnswers \<or> s = SlotModels \<longrightarrow> c = CtrRoot) \<and>
     (s = SlotAnswer \<longrightarrow> c = CtrAnswers) \<and> (s = SlotProbs \<or> s = SlotLegend \<longrightarrow> c = CtrAnswer) \<and>
     (s = SlotInputTokens \<or> s = SlotOutputTokens \<longrightarrow> c = CtrUsage) \<and>
     (s = SlotCard \<longrightarrow> c = CtrModels)"

definition scan_ok :: "visitor \<Rightarrow> bool" where
  "scan_ok v \<longleftrightarrow> (v_scanned v \<longrightarrow> v_raw_ctl v = raw_control_in_string (v_body v))"

definition visitor_ok :: "visitor \<Rightarrow> bool" where
  "visitor_ok v \<longleftrightarrow>
     v_stack v \<noteq> [] \<and> stack_ok (v_stack v) \<and> slot_ok (hd (v_stack v)) (v_slot v) \<and> scan_ok v"

fun stack_level :: "ctr \<Rightarrow> nat" where
  "stack_level CtrRoot = 1"
| "stack_level CtrUsage = 2"
| "stack_level CtrAnswers = 2"
| "stack_level CtrModels = 2"
| "stack_level CtrAnswer = 3"
| "stack_level CtrCard = 3"
| "stack_level CtrProbs = 4"
| "stack_level CtrLegend = 4"

lemma stack_ok_length: "stack_ok (c # st) \<Longrightarrow> length (c # st) = stack_level c"
proof (induction st arbitrary: c)
  case Nil
  then show ?case by (cases c) auto
next
  case (Cons d st)
  from Cons.prems have "length (d # st) = stack_level d" by (intro Cons.IH) simp
  with Cons.prems show ?case by (cases c) auto
qed

lemma slot_ok_None [simp]: "slot_ok c SlotNone"
  by (simp add: slot_ok_def)

lemma slot_ok_Card [simp]: "slot_ok CtrModels SlotCard"
  by (simp add: slot_ok_def)

lemma slot_ok_key: "slot_ok c (key_slot c m k)"
  by (cases c) (auto simp: slot_ok_def root_slot_def answer_slot_def card_slot_def)

section \<open>What the methods leave alone\<close>

text \<open>The part of the visitor that the containers and strings of a body are counted in.\<close>

definition ctl :: "visitor \<Rightarrow> ctr list \<times> nat \<times> bytes \<times> mode \<times> slot \<times> bool \<times> bool \<times> nat" where
  "ctl v = (v_stack v, v_ign v, v_body v, v_mode v, v_slot v, v_scanned v, v_raw_ctl v, v_peak v)"

lemma ctl_put_entry: "ctl (put_entry e v) = ctl v"
  by (simp add: ctl_def put_entry_def Let_def split: option.splits)

lemma ctl_commit: "ctl (commit_answer v) = ctl v" "ctl (commit_card v) = ctl v"
  by (simp_all add: commit_answer_def ctl_put_entry) (simp add: ctl_def commit_card_def)

lemma ctl_members:
  "ctl (member_ok m v) = ctl v" "ctl (member_wrong m v) = ctl v"
  "ctl (card_ok cm v) = ctl v" "ctl (card_wrong cm v) = ctl v"
  "ctl (set_input n h b v) = ctl v" "ctl (set_output n h b v) = ctl v"
  "ctl (reset_answers v) = ctl v"
  by (simp_all add: ctl_def member_ok_def member_wrong_def card_ok_def card_wrong_def set_input_def
      set_output_def reset_answers_def)

lemma ctl_updates:
  "ctl (v\<lparr>v_model := a\<rparr>) = ctl v" "ctl (v\<lparr>v_has_model := b\<rparr>) = ctl v" "ctl (v\<lparr>v_model_err := c\<rparr>) = ctl v"
  "ctl (v\<lparr>v_has_usage := d\<rparr>) = ctl v" "ctl (v\<lparr>v_usage_err := e\<rparr>) = ctl v"
  "ctl (v\<lparr>v_answers_err := f\<rparr>) = ctl v" "ctl (v\<lparr>v_cur := g\<rparr>) = ctl v"
  "ctl (v\<lparr>v_probs := h\<rparr>) = ctl v" "ctl (v\<lparr>v_legend := i\<rparr>) = ctl v" "ctl (v\<lparr>v_cards := j\<rparr>) = ctl v"
  "ctl (v\<lparr>v_card := k\<rparr>) = ctl v" "ctl (v\<lparr>v_has_cards := l\<rparr>) = ctl v" "ctl (v\<lparr>v_cards_err := m\<rparr>) = ctl v"
  by (simp_all add: ctl_def)

lemma ctl_wrong_kind: "ctl (wrong_kind s c v) = ctl v"
  by (cases s) (simp_all add: ctl_members ctl_put_entry ctl_updates)

lemma ctl_assign_slot: "ctl (assign_slot s is_str x num v) = ctl v"
  by (cases s) (simp_all add: ctl_members ctl_put_entry ctl_updates split: option.splits)

lemmas ctl_eqs = ctl_put_entry ctl_commit ctl_members ctl_updates ctl_wrong_kind ctl_assign_slot

lemma ctl_fields:
  assumes "ctl w = ctl v"
  shows "v_stack w = v_stack v" "v_ign w = v_ign v" "v_body w = v_body v" "v_mode w = v_mode v"
    "v_slot w = v_slot v" "v_scanned w = v_scanned v" "v_raw_ctl w = v_raw_ctl v" "v_peak w = v_peak v"
  using assms by (simp_all add: ctl_def)

lemmas wrong_kind_fields [simp] = ctl_fields [OF ctl_wrong_kind]
lemmas assign_slot_fields [simp] = ctl_fields [OF ctl_assign_slot]
lemmas commit_answer_fields [simp] = ctl_fields [OF ctl_commit(1)]
lemmas commit_card_fields [simp] = ctl_fields [OF ctl_commit(2)]
lemmas member_ok_fields [simp] = ctl_fields [OF ctl_members(1)]
lemmas set_input_fields [simp] = ctl_fields [OF ctl_members(5)]
lemmas set_output_fields [simp] = ctl_fields [OF ctl_members(6)]
lemmas reset_answers_fields [simp] = ctl_fields [OF ctl_members(7)]

lemma next_card_fields [simp]:
  "v_stack (next_card v) = v_stack v" "v_ign (next_card v) = v_ign v" "v_body (next_card v) = v_body v"
  "v_mode (next_card v) = v_mode v" "v_scanned (next_card v) = v_scanned v"
  "v_raw_ctl (next_card v) = v_raw_ctl v" "v_peak (next_card v) = v_peak v"
  by (simp_all add: next_card_def)

section \<open>One value\<close>

definition depth :: "visitor \<Rightarrow> nat" where
  "depth v = length (v_stack v) + v_ign v"

text \<open>Where a visitor stands: everything that the containers around a value decide.\<close>

definition place :: "visitor \<Rightarrow> ctr list \<times> nat \<times> bytes \<times> mode" where
  "place v = (v_stack v, v_ign v, v_body v, v_mode v)"

lemma place_eq: "place w = place v \<longleftrightarrow>
    v_stack w = v_stack v \<and> v_ign w = v_ign v \<and> v_body w = v_body v \<and> v_mode w = v_mode v"
  by (auto simp: place_def)

definition after_slot :: "visitor \<Rightarrow> slot" where
  "after_slot v =
     (if 0 < v_ign v then v_slot v else if hd (v_stack v) = CtrModels then SlotCard else SlotNone)"

definition scan :: "bytes \<Rightarrow> visitor \<Rightarrow> visitor" where
  "scan s v =
     (if valid_string s \<or> v_scanned v then v
      else v\<lparr>v_scanned := True, v_raw_ctl := raw_control_in_string (v_body v)\<rparr>)"

lemma check_string_eq:
  "scan_ok v \<Longrightarrow>
   check_string s v = (case string_error (v_body v) s of Some r \<Rightarrow> Inl (Refused r) | None \<Rightarrow> Inr (scan s v))"
  by (auto simp: check_string_def string_error_def scan_def scan_ok_def Let_def)

lemma scan_fields [simp]:
  "v_stack (scan s v) = v_stack v" "v_ign (scan s v) = v_ign v" "v_body (scan s v) = v_body v"
  "v_mode (scan s v) = v_mode v" "v_slot (scan s v) = v_slot v"
  by (simp_all add: scan_def)

lemma scan_ok_scan: "scan_ok v \<Longrightarrow> scan_ok (scan s v)"
  by (simp add: scan_ok_def scan_def)

lemma visitor_ok_scan: "visitor_ok v \<Longrightarrow> visitor_ok (scan s v)"
  by (simp add: visitor_ok_def scan_ok_scan)

text \<open>\<open>value_ok\<close> is the outcome of a value: refused for the reason \<open>r\<close>, or the visitor stands
  where it stood, ready for what follows the value.\<close>

definition value_ok :: "reason option \<Rightarrow> visitor \<Rightarrow> outcome \<Rightarrow> bool" where
  "value_ok r v out \<longleftrightarrow>
     (case r of
        Some e \<Rightarrow> out = Inl (Refused e)
      | None \<Rightarrow> (\<exists>w. out = Inr w \<and> visitor_ok w \<and> place w = place v \<and> v_slot w = after_slot v))"

lemma value_ok_None:
  "value_ok None v out \<longleftrightarrow>
     (\<exists>w. out = Inr w \<and> visitor_ok w \<and> place w = place v \<and> v_slot w = after_slot v)"
  by (simp add: value_ok_def)

lemma value_ok_Some: "value_ok (Some e) v out \<longleftrightarrow> out = Inl (Refused e)"
  by (simp add: value_ok_def)

lemma scan_ok_eqs [simp]:
  "scan_ok (wrong_kind s c v) = scan_ok v" "scan_ok (assign_slot s is_str x num v) = scan_ok v"
  "scan_ok (next_card v) = scan_ok v" "scan_ok (commit_answer v) = scan_ok v"
  "scan_ok (commit_card v) = scan_ok v" "scan_ok (v\<lparr>v_slot := s\<rparr>) = scan_ok v"
  "scan_ok (v\<lparr>v_ign := n\<rparr>) = scan_ok v" "scan_ok (v\<lparr>v_stack := st\<rparr>) = scan_ok v"
  "scan_ok (v\<lparr>v_ign_slot := s\<rparr>) = scan_ok v" "scan_ok (v\<lparr>v_peak := n\<rparr>) = scan_ok v"
  "scan_ok (v\<lparr>v_cur_key := k\<rparr>) = scan_ok v" "scan_ok (set_input a h b v) = scan_ok v"
  "scan_ok (set_output a h b v) = scan_ok v" "scan_ok (member_ok m v) = scan_ok v"
  "scan_ok (reset_answers v) = scan_ok v"
  by (simp_all add: scan_ok_def)

lemma slot_next_card: "v_slot v = SlotNone \<Longrightarrow> v_stack v \<noteq> [] \<Longrightarrow>
    v_slot (next_card v) = (if hd (v_stack v) = CtrModels then SlotCard else SlotNone)"
  by (simp add: next_card_def)

lemma value_ok_scalar:
  assumes "visitor_ok v"
  shows "value_ok None v (scalar is_str s num v)"
proof (cases "0 < v_ign v")
  case True
  with assms show ?thesis
    by (auto simp: scalar_def value_ok_None place_def after_slot_def)
next
  case False
  from assms have "v_slot v \<noteq> SlotRoot" by (auto simp: visitor_ok_def slot_ok_def)
  with False assms show ?thesis
    by (auto simp: scalar_def assign_def value_ok_None place_def after_slot_def visitor_ok_def
        slot_next_card)
qed

lemma value_ok_null: "visitor_ok v \<Longrightarrow> value_ok None v (on_null v)"
  by (auto simp: on_null_def value_ok_scalar)
    (auto simp: value_ok_None visitor_ok_def place_def after_slot_def slot_ok_def)

section \<open>Containers\<close>

lemma run_simps [simp]:
  "run [] v = Inr v" "run (e # es) v = rbind (step e v) (run es)"
  unfolding run_def [abs_def] by simp_all

lemma rbind_run_Nil [simp]: "rbind out (run []) = out"
  by (cases out) auto

lemma run_append: "run (es @ fs) v = rbind (run es v) (run fs)"
  unfolding run_def by (rule rfold_append)

definition opened :: "visitor \<Rightarrow> visitor \<Rightarrow> bool" where
  "opened v w \<longleftrightarrow>
     visitor_ok w \<and> v_slot w = after_slot w \<and> v_body w = v_body v \<and> v_mode w = v_mode v \<and>
     (v_stack w = v_stack v \<and> v_ign w = Suc (v_ign v) \<and> v_slot w = (if 0 < v_ign v then v_slot v else SlotNone) \<or>
      (\<exists>c. v_stack w = c # v_stack v) \<and> v_ign v = 0 \<and> v_ign w = 0)"

lemma push_ok:
  assumes "parent c = Some (hd (v_stack v))" "v_stack v \<noteq> []" "stack_ok (v_stack v)"
  shows "push c v = Inr (v\<lparr>v_stack := c # v_stack v\<rparr>)"
proof -
  obtain d st where st: "v_stack v = d # st" using assms(2) by (cases "v_stack v") auto
  from assms st have "stack_ok (c # v_stack v)" by simp
  from stack_ok_length [OF this] have "length (v_stack v) + 1 = stack_level c" by simp
  moreover have "stack_level c \<le> 4" by (cases c) auto
  ultimately show ?thesis by (simp add: push_def max_depth_def)
qed

lemma begin_opened:
  assumes v: "visitor_ok v" and d: "depth v < max_nesting"
  shows "\<exists>w. begin_value is_obj v = Inr w \<and> opened v w"
proof -
  from v have st: "v_stack v \<noteq> []" "stack_ok (v_stack v)" and ok: "slot_ok (hd (v_stack v)) (v_slot v)"
    and sc: "scan_ok v" by (auto simp: visitor_ok_def)
  show ?thesis
  proof (cases "0 < v_ign v")
    case True
    with d v show ?thesis
      by (auto simp: begin_value_def depth_def opened_def visitor_ok_def after_slot_def Let_def)
  next
    case False
    with d st ok sc show ?thesis
      by (auto simp: begin_value_def depth_def Let_def push_ok slot_ok_def opened_def visitor_ok_def
          after_slot_def scan_ok_def member_ok_def reset_answers_def)
  qed
qed

lemma end_opened:
  assumes v: "visitor_ok v" and o: "opened v w" and w: "visitor_ok w'"
    and place: "place w' = place w" and slot: "v_slot w' = after_slot w"
  shows "value_ok None v (end_value w')"
proof -
  from v have st: "v_stack v \<noteq> []" "stack_ok (v_stack v)" by (auto simp: visitor_ok_def)
  have fields: "v_stack w' = v_stack w" "v_ign w' = v_ign w" "v_body w' = v_body w" "v_mode w' = v_mode w"
    using place by (simp_all add: place_eq)
  from o have slot_w: "v_slot w = after_slot w" and bm: "v_body w = v_body v" "v_mode w = v_mode v"
    by (auto simp: opened_def)
  have sc: "scan_ok w'" using w by (simp add: visitor_ok_def)
  from o consider
      (ign) "v_stack w = v_stack v" "v_ign w = Suc (v_ign v)" "v_slot w = (if 0 < v_ign v then v_slot v else SlotNone)"
    | (read) c where "v_stack w = c # v_stack v" "v_ign v = 0" "v_ign w = 0"
    unfolding opened_def by blast
  then show ?thesis
  proof cases
    case ign
    from slot slot_w have "v_slot w' = (if 0 < v_ign v then v_slot v else SlotNone)" by (simp add: ign(3))
    with ign v fields bm sc st show ?thesis
      by (auto simp: end_value_def value_ok_None Let_def place_def after_slot_def visitor_ok_def slot_next_card)
  next
    case read
    from read fields w have c: "stack_ok (c # v_stack v)" by (simp add: visitor_ok_def)
    then have "c = CtrModels \<Longrightarrow> hd (v_stack v) = CtrRoot" by simp
    moreover from read slot have "c \<noteq> CtrModels \<Longrightarrow> v_slot w' = SlotNone"
      by (simp add: after_slot_def)
    ultimately show ?thesis
      using read fields bm sc st
      by (cases c) (auto simp: end_value_def value_ok_None Let_def place_def after_slot_def visitor_ok_def slot_next_card)
  qed
qed

section \<open>Traversals\<close>

lemma value_ok_cong:
  "place w = place v \<Longrightarrow> after_slot w = after_slot v \<Longrightarrow> value_ok r w out \<Longrightarrow> value_ok r v out"
  by (auto simp: value_ok_def split: option.splits)

lemma value_ok_shift:
  assumes "place w = place v" and "v_slot w = after_slot v" and "value_ok r w out"
  shows "value_ok r v out"
proof -
  have "after_slot w = after_slot v"
    using assms(1,2) by (auto simp: place_eq after_slot_def)
  with assms show ?thesis by (auto intro: value_ok_cong)
qed

lemma value_ok_seq:
  assumes "value_ok r v out"
    and "\<And>w. out = Inr w \<Longrightarrow> visitor_ok w \<Longrightarrow> place w = place v \<Longrightarrow> v_slot w = after_slot v \<Longrightarrow>
      value_ok (first_some rs) w (f w)"
  shows "value_ok (first_some (r # rs)) v (rbind out f)"
proof (cases r)
  case (Some e)
  with assms(1) show ?thesis by (simp add: value_ok_Some)
next
  case None
  with assms(1) obtain w where w: "out = Inr w" "visitor_ok w" "place w = place v" "v_slot w = after_slot v"
    by (auto simp: value_ok_None)
  from assms(2) [OF this] w None show ?thesis by (auto intro: value_ok_shift)
qed

lemma place_depth: "place w = place v \<Longrightarrow> v_body w = v_body v \<and> depth w = depth v"
  by (simp add: place_eq depth_def)

lemma value_ok_refl: "visitor_ok v \<Longrightarrow> v_slot v = after_slot v \<Longrightarrow> value_ok None v (Inr v)"
  by (auto simp: value_ok_None)

lemma elems_run:
  assumes "\<And>t w. t \<in> set ts \<Longrightarrow> visitor_ok w \<Longrightarrow> value_ok (tree_error (v_body w) (depth w) t) w (run (events t) w)"
    and "visitor_ok v" and "v_slot v = after_slot v"
  shows "value_ok (first_some (map (tree_error (v_body v) (depth v)) ts)) v (run (concat (map events ts)) v)"
  using assms
proof (induction ts arbitrary: v)
  case Nil
  then show ?case by (simp add: value_ok_refl)
next
  case (Cons t ts)
  have "value_ok (first_some (map (tree_error (v_body v) (depth v)) ts)) w (run (concat (map events ts)) w)"
    if w: "visitor_ok w" "place w = place v" "v_slot w = after_slot v" for w
  proof -
    from w have "v_slot w = after_slot w" by (auto simp: place_eq after_slot_def)
    from Cons.IH [OF _ w(1) this] Cons.prems(1) place_depth [OF w(2)] show ?thesis by simp
  qed
  with Cons.prems show ?case
    by (simp add: run_append value_ok_seq)
qed

lemma key_ok:
  assumes "visitor_ok v"
  shows "case string_error (v_body v) k of
      Some r \<Rightarrow> on_object_key k v = Inl (Refused r)
    | None \<Rightarrow> \<exists>w. on_object_key k v = Inr w \<and> visitor_ok w \<and> place w = place v \<and> after_slot w = (if 0 < v_ign v then v_slot v else after_slot v)"
proof (cases "string_error (v_body v) k")
  case (Some r)
  with assms show ?thesis by (simp add: on_object_key_def check_string_eq visitor_ok_def)
next
  case None
  from assms obtain c st where st: "v_stack v = c # st" by (cases "v_stack v") (auto simp: visitor_ok_def)
  have "on_object_key k v =
      Inr (if 0 < v_ign v then scan k v else (scan k v)\<lparr>v_cur_key := k, v_slot := key_slot c (v_mode v) k\<rparr>)"
    using None assms st by (simp add: on_object_key_def check_string_eq visitor_ok_def)
  with None assms st visitor_ok_scan [OF assms, of k] show ?thesis
    by (auto simp: place_def visitor_ok_def after_slot_def slot_ok_key)
qed

lemma members_run:
  assumes "\<And>k t w. (k, t) \<in> set kvs \<Longrightarrow> visitor_ok w \<Longrightarrow> value_ok (tree_error (v_body w) (depth w) t) w (run (events t) w)"
    and "visitor_ok v" and "v_slot v = after_slot v"
  shows "value_ok (first_some (map (member_error (v_body v) (depth v)) kvs)) v (run (member_events kvs) v)"
  using assms
proof (induction kvs arbitrary: v)
  case Nil
  then show ?case by (simp add: value_ok_refl)
next
  case (Cons kt kvs)
  obtain k t where kt: "kt = (k, t)" by (cases kt)
  let ?rs = "map (member_error (v_body v) (depth v)) kvs"
  have rest: "value_ok (first_some ?rs) w (run (member_events kvs) w)"
    if w: "visitor_ok w" "place w = place v" "v_slot w = after_slot v" for w
  proof -
    from w have slot: "v_slot w = after_slot w" by (auto simp: place_eq after_slot_def)
    have "value_ok (tree_error (v_body u) (depth u) t) u (run (events t) u)"
      if "(k, t) \<in> set kvs" "visitor_ok u" for k t u
      using Cons.prems(1) [of k t u] that by simp
    from Cons.IH [OF this w(1) slot] place_depth [OF w(2)] show ?thesis by simp
  qed
  show ?case
  proof (cases "string_error (v_body v) k")
    case (Some r)
    with key_ok [OF Cons.prems(2), of k] kt show ?thesis by (simp add: value_ok_Some)
  next
    case None
    with key_ok [OF Cons.prems(2), of k] obtain w where w: "on_object_key k v = Inr w" "visitor_ok w"
      "place w = place v" "after_slot w = (if 0 < v_ign v then v_slot v else after_slot v)" by auto
    with Cons.prems(3) have slot: "after_slot w = after_slot v" by simp
    from Cons.prems(1) [of k t w] kt w(2) have "value_ok (tree_error (v_body w) (depth w) t) w (run (events t) w)"
      by simp
    then have "value_ok (tree_error (v_body v) (depth v) t) v (run (events t) w)"
      using place_depth [OF w(3)] w(3) slot by (metis value_ok_cong)
    then have "value_ok (first_some (tree_error (v_body v) (depth v) t # ?rs)) v
        (rbind (run (events t) w) (run (member_events kvs)))"
      by (rule value_ok_seq) (rule rest)
    with None kt w(1) show ?thesis by (simp add: run_append)
  qed
qed

lemma opened_depth: "opened v w \<Longrightarrow> depth w = Suc (depth v) \<and> v_body w = v_body v"
  by (auto simp: opened_def depth_def)

lemma container_run:
  assumes v: "visitor_ok v"
    and body: "\<And>w. opened v w \<Longrightarrow> value_ok r w (run es w)"
    and b: "step b = begin_value is_obj" and e: "step e = end_value"
  shows "value_ok (if max_nesting \<le> depth v then Some ErrDepth else r) v (run (b # es @ [e]) v)"
proof (cases "max_nesting \<le> depth v")
  case True
  then show ?thesis by (simp add: b begin_value_def depth_def value_ok_Some)
next
  case False
  with begin_opened [OF v] obtain w where w: "begin_value is_obj v = Inr w" "opened v w"
    by (metis not_le)
  show ?thesis
  proof (cases r)
    case (Some x)
    with body [OF w(2)] False w(1) show ?thesis by (simp add: b run_append value_ok_Some)
  next
    case None
    with body [OF w(2)] obtain w' where w': "run es w = Inr w'" "visitor_ok w'" "place w' = place w"
      "v_slot w' = after_slot w" by (auto simp: value_ok_None)
    from end_opened [OF v w(2) w'(2-4)] obtain u where "end_value w' = Inr u" "value_ok None v (Inr u)"
      by (auto simp: value_ok_None)
    with None False w(1) w'(1) show ?thesis by (simp add: b e run_append)
  qed
qed

lemma tree_run: "visitor_ok v \<Longrightarrow> value_ok (tree_error (v_body v) (depth v) t) v (run (events t) v)"
proof (induction t arbitrary: v)
  case TNull
  then show ?case by (simp add: value_ok_null)
next
  case (TBool b)
  then show ?case by (simp add: value_ok_scalar)
next
  case (TNum n)
  then show ?case by (simp add: value_ok_scalar)
next
  case (TStr s)
  show ?case
  proof (cases "string_error (v_body v) s")
    case (Some r)
    with TStr show ?thesis by (simp add: on_string_def check_string_eq visitor_ok_def value_ok_Some)
  next
    case None
    from value_ok_scalar [OF visitor_ok_scan [OF TStr, of s], of True s "[]"]
    have "value_ok None v (scalar True s [] (scan s v))"
      by (rule value_ok_cong [rotated 2]) (simp_all add: place_def after_slot_def)
    with None TStr show ?thesis
      by (auto simp: on_string_def check_string_eq visitor_ok_def value_ok_None)
  qed
next
  case (TArr ts)
  have "value_ok (first_some (map (tree_error (v_body v) (Suc (depth v))) ts)) w (run (concat (map events ts)) w)"
    if w: "opened v w" for w
  proof -
    from w have "visitor_ok w" "v_slot w = after_slot w" by (auto simp: opened_def)
    from elems_run [OF TArr.IH this] opened_depth [OF w] show ?thesis by simp
  qed
  from container_run [OF TArr.prems this, where b = EArrBegin and e = EArrEnd and is_obj = False]
  show ?case by (simp add: fun_eq_iff)
next
  case (TObj kvs)
  have "value_ok (first_some (map (member_error (v_body v) (Suc (depth v))) kvs)) w (run (member_events kvs) w)"
    if w: "opened v w" for w
  proof -
    from w have "visitor_ok w" "v_slot w = after_slot w" by (auto simp: opened_def)
    moreover have "value_ok (tree_error (v_body u) (depth u) t) u (run (events t) u)"
      if "(k, t) \<in> set kvs" "visitor_ok u" for k t u
      using TObj.IH [of "(k, t)" t u] that by auto
    ultimately show ?thesis using members_run opened_depth [OF w] by metis
  qed
  from container_run [OF TObj.prems this, where b = EObjBegin and e = EObjEnd and is_obj = True]
  show ?case by (simp add: tree_error_obj member_events_def fun_eq_iff del: tree_error.simps(3))
qed

section \<open>The root\<close>

definition root_error :: "bytes \<Rightarrow> jtree \<Rightarrow> reason option" where
  "root_error body t =
     (case t of
        TObj kvs \<Rightarrow> tree_error body 0 t
      | TStr s \<Rightarrow> (case string_error body s of Some r \<Rightarrow> Some r | None \<Rightarrow> Some ErrRootNotObject)
      | _ \<Rightarrow> Some ErrRootNotObject)"

definition enter_root :: "bytes \<Rightarrow> mode \<Rightarrow> visitor" where
  "enter_root body m = (reset body m)\<lparr>v_peak := 1, v_slot := SlotNone, v_stack := [CtrRoot]\<rparr>"

lemma begin_root: "begin_value True (reset body m) = Inr (enter_root body m)"
  by (simp add: begin_value_def reset_def enter_root_def push_def max_nesting_def max_depth_def)

lemma enter_root_ok: "visitor_ok (enter_root body m)" "v_slot (enter_root body m) = after_slot (enter_root body m)"
  "v_body (enter_root body m) = body" "depth (enter_root body m) = 1" "v_stack (enter_root body m) = [CtrRoot]"
  "v_ign (enter_root body m) = 0"
  by (simp_all add: enter_root_def visitor_ok_def scan_ok_def reset_def after_slot_def depth_def)

lemma root_members_run:
  "value_ok (first_some (map (member_error body 1) kvs)) (enter_root body m)
     (run (member_events kvs) (enter_root body m))"
  using members_run [OF tree_run enter_root_ok(1,2), of kvs] enter_root_ok(3,4) by simp

lemma after_enter_root: "after_slot (enter_root body m) = SlotNone"
  by (simp add: after_slot_def enter_root_ok)

lemma root_run:
  "run (events (TObj kvs)) (reset body m) =
     rbind (run (member_events kvs) (enter_root body m)) end_value"
proof -
  have "run [EObjEnd] = end_value" by (rule ext) simp
  then show ?thesis by (simp add: begin_root member_events_def run_append del: run_simps(2) add: run_simps(2) [of EObjBegin])
qed

lemma root_members_done:
  assumes "run (member_events kvs) (enter_root body m) = Inr w"
  shows "between_root_members w" "end_value w = Inr (w\<lparr>v_stack := []\<rparr>)"
    "tree_error body 0 (TObj kvs) = None"
proof -
  from root_members_run [of body kvs m] assms
  have none: "first_some (map (member_error body 1) kvs) = None"
    and w: "place w = place (enter_root body m)" "v_slot w = after_slot (enter_root body m)"
    by (auto simp: value_ok_def split: option.splits)
  then show "between_root_members w"
    by (simp add: between_root_members_def place_eq enter_root_ok after_enter_root)
  from w show "end_value w = Inr (w\<lparr>v_stack := []\<rparr>)"
    by (simp add: end_value_def place_eq enter_root_ok next_card_def)
  from none show "tree_error body 0 (TObj kvs) = None"
    by (simp add: tree_error_obj max_nesting_def del: tree_error.simps)
qed

section \<open>Properties\<close>

text \<open>C3: the visitor decides every traversal. Handed the events of any JSON tree it refuses it
  for the first string, key or container in preorder that is not valid, or because its root is
  not an object, and otherwise ends with every container closed; it never reads past its stack of
  \<open>max_depth\<close> containers and never refuses a container it reads for its depth.\<close>

theorem visitor_decides:
  "case root_error body t of
     Some r \<Rightarrow> run (events t) (reset body m) = Inl (Refused r) \<and> r \<noteq> ErrReadDepth
   | None \<Rightarrow> \<exists>v. run (events t) (reset body m) = Inr v \<and> v_stack v = [] \<and> v_ign v = 0"
proof -
  have str: "string_error body s = Some r \<Longrightarrow> r \<noteq> ErrReadDepth" for s r
    by (auto simp: string_error_def split: if_splits)
  have first: "first_some xs = Some r \<Longrightarrow> Some r \<in> set xs" for xs :: "reason option list" and r
    by (induction xs rule: first_some.induct) auto
  have tree: "tree_error body d t = Some r \<Longrightarrow> r \<noteq> ErrReadDepth" for d t r
  proof (induction t arbitrary: d)
    case (TArr ts)
    then show ?case by (fastforce dest!: first split: if_splits)
  next
    case (TObj kvs)
    then show ?case
      by (fastforce simp: tree_error_obj dest!: first str split: if_splits option.splits simp del: tree_error.simps(3))
  qed (auto dest: str)
  show ?thesis
  proof (cases t)
    case (TObj kvs)
    show ?thesis
    proof (cases "run (member_events kvs) (enter_root body m)")
      case (Inr w)
      with root_members_done [OF Inr] TObj show ?thesis
        by (auto simp: root_error_def root_run between_root_members_def simp del: events.simps tree_error.simps)
    next
      case (Inl e)
      with root_members_run [of body kvs m] obtain r where "e = Refused r"
        "first_some (map (member_error body 1) kvs) = Some r"
        by (auto simp: value_ok_def split: option.splits)
      then have "tree_error body 0 t = Some r" "e = Refused r"
        by (simp_all add: TObj tree_error_obj max_nesting_def del: tree_error.simps)
      with Inl TObj tree show ?thesis
        by (auto simp: root_error_def root_run simp del: events.simps tree_error.simps)
    qed
  next
    case (TStr s)
    have "scan_ok (reset body m)" by (simp add: reset_def scan_ok_def)
    with TStr str show ?thesis
      by (auto simp: root_error_def on_string_def check_string_eq scalar_def split: option.splits)
        (simp_all add: reset_def)
  qed (simp_all add: root_error_def on_null_def scalar_def begin_value_def reset_def max_nesting_def)
qed

end
