(* ===== verification/Codec_Errorbody.thy ===== *)
theory Codec_Errorbody
  imports Codec_Run Go_Strings Wire_Content
begin

text \<open>
  The lenient reader of error bodies, \<open>internal/codec/errorbody.go\<close>: the message of an
  unsuccessful response found the way the Python SDK finds it, and the text of a body that is not
  JSON, with each maximal ill-formed sequence replaced by U+FFFD. sonic's decoder into generic
  values is a parameter; its value of a JSON text is a tree (\<open>jtree\<close>) whose numbers stay text.
\<close>

section \<open>Ill-formed UTF-8\<close>

text \<open>The loop of \<open>maximalSubpart\<close> over the bytes after the lead byte.\<close>

fun subpart_tail :: "nat \<Rightarrow> nat \<Rightarrow> nat \<Rightarrow> bytes \<Rightarrow> nat" where
  "subpart_tail 0 lo hi cs = 0"
| "subpart_tail (Suc need) lo hi [] = 0"
| "subpart_tail (Suc need) lo hi (c # cs) =
     (if byte_between lo hi c then Suc (subpart_tail need 0x80 0xBF cs) else 0)"

fun maximal_subpart :: "bytes \<Rightarrow> nat" where
  "maximal_subpart [] = 0"
| "maximal_subpart (c # cs) = (case utf8_class (byte c) of (need, lo, hi) \<Rightarrow> Suc (subpart_tail need lo hi cs))"

lemma subpart_tail_le: "subpart_tail need lo hi cs \<le> length cs"
  by (induction need lo hi cs rule: subpart_tail.induct) auto

lemma maximal_subpart_pos: "b \<noteq> [] \<Longrightarrow> 0 < maximal_subpart b"
  by (cases b) (auto split: prod.splits)

function replace_from_utf8 :: "bytes \<Rightarrow> bytes" where
  "replace_from_utf8 b =
     (if b = [] then []
      else if \<not> rune_bad b then take (rune_size b) b @ replace_from_utf8 (drop (rune_size b) b)
      else replacement @ replace_from_utf8 (drop (maximal_subpart b) b))"
  by pat_completeness auto
termination
  by (relation "measure length")
    (use drop_rune_shorter maximal_subpart_pos in \<open>auto simp del: length_drop simp: diff_less\<close>, simp add: maximal_subpart_pos)

declare replace_from_utf8.simps [simp del]

definition replace_invalid_utf8 :: "bytes \<Rightarrow> bytes" where
  "replace_invalid_utf8 b = (if valid_utf8 b then b else replace_from_utf8 b)"

section \<open>The message\<close>

text \<open>A Go map decoded from an object holds the last value of a name.\<close>

definition member_of :: "(bytes \<times> jtree) list \<Rightarrow> bytes \<Rightarrow> jtree option" where
  "member_of kvs k = map_of (rev kvs) k"

fun as_text :: "jtree option \<Rightarrow> bytes option" where
  "as_text (Some (TStr s)) = Some s"
| "as_text _ = None"

fun as_map :: "jtree option \<Rightarrow> (bytes \<times> jtree) list option" where
  "as_map (Some (TObj kvs)) = Some kvs"
| "as_map _ = None"

fun as_list :: "jtree option \<Rightarrow> jtree list option" where
  "as_list (Some (TArr ts)) = Some ts"
| "as_list _ = None"

fun loc_item :: "jtree \<Rightarrow> bytes option" where
  "loc_item (TStr s) = (if s = ''body'' then None else Some s)"
| "loc_item (TNum n) = Some (if n = ''-0'' then ''0'' else n)"
| "loc_item (TBool b) = Some (if b then ''True'' else ''False'')"
| "loc_item TNull = Some ''None''"
| "loc_item _ = None"

fun loc_path_loop :: "jtree list \<Rightarrow> bytes \<Rightarrow> bool \<Rightarrow> bytes" where
  "loc_path_loop [] sb first = sb"
| "loc_path_loop (item # loc) sb first =
     (case loc_item item of
        None \<Rightarrow> loc_path_loop loc sb first
      | Some s \<Rightarrow> loc_path_loop loc ((if \<not> first then sb @ ''.'' else sb) @ s) False)"

definition loc_path :: "jtree list \<Rightarrow> bytes" where
  "loc_path loc = loc_path_loop loc [] True"

fun detail_messages_loop :: "jtree list \<Rightarrow> bytes \<Rightarrow> bytes" where
  "detail_messages_loop [] sb = sb"
| "detail_messages_loop (entry # list) sb =
     (case as_map (Some entry) of
        None \<Rightarrow> detail_messages_loop list sb
      | Some m \<Rightarrow>
          (case as_text (member_of m ''msg'') of
             None \<Rightarrow> detail_messages_loop list sb
           | Some msg \<Rightarrow>
               let sb = (if sb \<noteq> [] then sb @ ''; '' else sb);
                   sb = (case as_list (member_of m ''loc'') of
                           Some loc \<Rightarrow> (let path = loc_path loc in if path \<noteq> [] then sb @ path @ '': '' else sb)
                         | None \<Rightarrow> sb) in
               detail_messages_loop list (sb @ msg)))"

definition detail_messages :: "jtree list \<Rightarrow> bytes" where
  "detail_messages list = detail_messages_loop list []"

fun extract_message :: "jtree \<Rightarrow> bytes" where
  "extract_message (TStr s) = s"
| "extract_message (TObj b) =
     (let errv = member_of b ''error''; msgv = member_of b ''message''; detail = member_of b ''detail'' in
      case as_text errv of Some s \<Rightarrow> s | None \<Rightarrow>
     (case Option.bind (as_map errv) (\<lambda>m. as_text (member_of m ''message'')) of Some s \<Rightarrow> s | None \<Rightarrow>
     (case as_text msgv of Some s \<Rightarrow> s | None \<Rightarrow>
     (case as_text detail of Some s \<Rightarrow> s | None \<Rightarrow>
     (case Option.bind (as_map detail) (\<lambda>m. as_text (member_of m ''message'')) of Some s \<Rightarrow> s | None \<Rightarrow>
     (case as_list detail of Some list \<Rightarrow> detail_messages list | None \<Rightarrow> []))))))"
| "extract_message _ = []"

fun detail_error_type :: "jtree \<Rightarrow> bytes" where
  "detail_error_type (TObj b) =
     (case as_map (member_of b ''detail'') of
        None \<Rightarrow> []
      | Some d \<Rightarrow> (case as_text (member_of d ''error_type'') of Some s \<Rightarrow> s | None \<Rightarrow> []))"
| "detail_error_type _ = []"

record error_body =
  eb_message :: bytes
  eb_no_body :: bool
  eb_error_type :: bytes

definition text_body :: "bytes \<Rightarrow> error_body" where
  "text_body s = \<lparr>eb_message = s, eb_no_body = False, eb_error_type = []\<rparr>"

definition no_error_body :: error_body where
  "no_error_body = \<lparr>eb_message = [], eb_no_body = True, eb_error_type = []\<rparr>"

text \<open>\<open>ReadErrorBody\<close>, with sonic's decoder a parameter; \<open>None\<close> is its failure.\<close>

definition read_error_body :: "(bytes \<Rightarrow> jtree option) \<Rightarrow> bytes \<Rightarrow> error_body" where
  "read_error_body parse body =
     (if body = [] then no_error_body
      else
        case append_json [] body of
          Inl _ \<Rightarrow> text_body (replace_invalid_utf8 body)
        | Inr compact \<Rightarrow>
            (case parse compact of
               None \<Rightarrow> text_body (replace_invalid_utf8 body)
             | Some TNull \<Rightarrow> no_error_body
             | Some v \<Rightarrow>
                 let msg = extract_message v in
                 \<lparr>eb_message = (if msg \<noteq> [] then msg else case v of TStr s \<Rightarrow> s | _ \<Rightarrow> compact),
                  eb_no_body = False, eb_error_type = detail_error_type v\<rparr>))"

section \<open>Maximal subparts\<close>

text \<open>A byte string that begins a well-formed sequence without passing its end.\<close>

definition begins_rune :: "bytes \<Rightarrow> bool" where
  "begins_rune p \<longleftrightarrow> (\<exists>t. \<not> rune_bad (p @ t) \<and> length p \<le> rune_size (p @ t))"

lemma subpart_tail_all:
  "list_all (byte_between 0x80 0xBF) (take m cs) \<Longrightarrow> m \<le> need \<Longrightarrow> m \<le> length cs \<Longrightarrow> m \<le> subpart_tail need 0x80 0xBF cs"
proof (induction need "0x80::nat" "0xBF::nat" cs arbitrary: m rule: subpart_tail.induct)
  case (3 need c cs)
  then show ?case by (cases m) auto
qed auto

lemma subpart_tail_cont: "list_all (byte_between 0x80 0xBF) (take (subpart_tail need 0x80 0xBF cs) cs)"
  by (induction need "0x80::nat" "0xBF::nat" cs rule: subpart_tail.induct) auto

lemma subpart_tail_need: "subpart_tail need lo hi cs \<le> need"
  by (induction need lo hi cs rule: subpart_tail.induct) auto

lemma subpart_tail_max:
  assumes "seq_ok need lo hi (take m cs @ t)" "m \<le> need" "m \<le> length cs"
  shows "m \<le> subpart_tail need lo hi cs"
proof (cases m)
  case (Suc k)
  with assms obtain c cs' n where c: "cs = c # cs'" "need = Suc n" by (cases cs; cases need) auto
  with assms Suc have "list_all (byte_between 0x80 0xBF) (take k cs')" "byte_between lo hi c"
    by (auto simp: seq_ok_def list_all_iff dest: in_set_takeD split: if_splits)
  with subpart_tail_all [of k cs' n] assms c Suc show ?thesis by simp
qed simp

lemma subpart_tail_seq:
  assumes "subpart_tail need lo hi cs = Suc j" "need \<noteq> 0"
  shows "seq_ok need lo hi (take (Suc j) cs @ replicate (need - Suc j) (char_of (0x80 :: nat)))"
proof -
  from assms obtain c cs' n where c: "cs = c # cs'" "need = Suc n" by (cases cs; cases need) auto
  with assms have "byte_between lo hi c" "subpart_tail n 0x80 0xBF cs' = j" by (auto split: if_splits)
  moreover from this c subpart_tail_cont [of n cs'] have "list_all (byte_between 0x80 0xBF) (take j cs')" by simp
  moreover have "j \<le> n" "j \<le> length cs'" using calculation(2) subpart_tail_need subpart_tail_le by blast+
  ultimately show ?thesis
    using c by (simp add: seq_ok_def list_all_iff byte_between_def) (auto dest: in_set_takeD)
qed

section \<open>Replaced text\<close>

lemma replace_from_Nil [simp]: "replace_from_utf8 [] = []"
  by (subst replace_from_utf8.simps) simp

lemma replace_from_good:
  "s \<noteq> [] \<Longrightarrow> \<not> rune_bad s \<Longrightarrow> replace_from_utf8 s = take (rune_size s) s @ replace_from_utf8 (drop (rune_size s) s)"
  by (subst replace_from_utf8.simps) simp

lemma replace_from_bad:
  "s \<noteq> [] \<Longrightarrow> rune_bad s \<Longrightarrow> replace_from_utf8 s = replacement @ replace_from_utf8 (drop (maximal_subpart s) s)"
  by (subst replace_from_utf8.simps) simp

lemma replace_from_valid: "valid_utf8 s \<Longrightarrow> replace_from_utf8 s = s"
proof (induction s rule: valid_utf8.induct)
  case (1 s)
  show ?case
  proof (cases "s = []")
    case False
    with "1.prems" have "\<not> rune_bad s" "valid_utf8 (drop (rune_size s) s)" by (simp_all add: valid_utf8_unfold)
    with False 1 replace_from_good [of s] show ?thesis by simp
  qed simp
qed

lemma replace_invalid_from: "replace_invalid_utf8 b = replace_from_utf8 b"
  by (simp add: replace_invalid_utf8_def replace_from_valid)

lemma replace_from_utf8_valid: "valid_utf8 (replace_from_utf8 s)"
proof (induction s rule: replace_from_utf8.induct)
  case (1 s)
  consider "s = []" | "s \<noteq> []" "rune_bad s" | "s \<noteq> []" "\<not> rune_bad s" by blast
  then show ?case
  proof cases
    case 2
    with 1 show ?thesis by (simp add: replace_from_bad valid_utf8_append valid_replacement)
  next
    case 3
    with 1 show ?thesis by (simp add: replace_from_good valid_utf8_append valid_utf8_rune)
  qed simp
qed

lemma replace_from_not_Nil: "s \<noteq> [] \<Longrightarrow> replace_from_utf8 s \<noteq> []"
  using rune_size_pos [of s] by (cases "rune_bad s") (auto simp: replace_from_good replace_from_bad replacement_bytes)

section \<open>The text of a detail list\<close>

text \<open>The reference: the text of each entry with a string message, and the items of its path.\<close>

definition loc_text :: "jtree list \<Rightarrow> bytes" where
  "loc_text loc = join_with ''.'' (List.map_filter loc_item loc)"

definition detail_text :: "jtree \<Rightarrow> bytes option" where
  "detail_text entry =
     Option.bind (as_map (Some entry)) (\<lambda>m.
       map_option (\<lambda>msg.
         (case map_option loc_text (as_list (member_of m ''loc'')) of
            Some path \<Rightarrow> if path = [] then [] else path @ '': ''
          | None \<Rightarrow> []) @ msg) (as_text (member_of m ''msg'')))"

lemma loc_path_loop_False: "loc_path_loop loc sb False = sb @ concat (map (\<lambda>y. ''.'' @ y) (List.map_filter loc_item loc))"
  by (induction loc arbitrary: sb) (simp_all add: map_filter_simps split: option.split)

lemma loc_path_loop_True: "loc_path_loop loc sb True = sb @ loc_text loc"
proof (induction loc arbitrary: sb)
  case (Cons item loc)
  then show ?case
    by (cases "loc_item item") (simp_all add: loc_text_def map_filter_simps loc_path_loop_False join_with_Cons)
qed (simp add: loc_text_def map_filter_simps)

lemma loc_path_text: "loc_path loc = loc_text loc"
  by (simp add: loc_path_def loc_path_loop_True)

lemma detail_step:
  "detail_messages_loop (entry # list) sb =
     (case detail_text entry of
        None \<Rightarrow> detail_messages_loop list sb
      | Some t \<Rightarrow> detail_messages_loop list ((if sb \<noteq> [] then sb @ ''; '' else sb) @ t))"
  by (auto simp: detail_text_def loc_path_text Let_def split: option.split)

lemma detail_loop_later:
  "sb \<noteq> [] \<Longrightarrow> detail_messages_loop list sb = sb @ concat (map (\<lambda>t. ''; '' @ t) (List.map_filter detail_text list))"
proof (induction list arbitrary: sb)
  case (Cons entry list)
  then show ?case by (cases "detail_text entry") (simp_all add: detail_step map_filter_simps del: detail_messages_loop.simps)
qed (simp add: map_filter_simps)

lemma detail_loop_first:
  "detail_messages_loop list [] = join_with ''; '' (dropWhile (\<lambda>t. t = []) (List.map_filter detail_text list))"
proof (induction list)
  case (Cons entry list)
  show ?case
  proof (cases "detail_text entry")
    case (Some t)
    with Cons show ?thesis
      by (cases t) (simp_all add: detail_step detail_loop_later join_with_Cons map_filter_simps del: detail_messages_loop.simps)
  qed (use Cons in \<open>simp add: detail_step map_filter_simps del: detail_messages_loop.simps\<close>)
qed (simp add: map_filter_simps)

section \<open>The search for the message\<close>

text \<open>The reference: the places a message is looked for, in order; the first that holds a string
  decides, even an empty one.\<close>

definition message_places :: "(bytes \<times> jtree) list \<Rightarrow> bytes option list" where
  "message_places b =
     (let at = (\<lambda>k. member_of b k); text_in = (\<lambda>k j. Option.bind (as_map (at k)) (\<lambda>m. as_text (member_of m j))) in
      [as_text (at ''error''), text_in ''error'' ''message'', as_text (at ''message''), as_text (at ''detail''),
       text_in ''detail'' ''message'', map_option detail_messages (as_list (at ''detail''))])"

lemma append_json_not_Nil: "append_json [] raw = Inr c \<Longrightarrow> c \<noteq> []"
  by (auto simp: append_json_iff dest: jval_compact(1) jval_head)

lemma extract_message_places: "extract_message (TObj b) = (case first_some (message_places b) of Some s \<Rightarrow> s | None \<Rightarrow> [])"
  by (simp add: message_places_def Let_def split: option.split)

section \<open>Properties\<close>

text \<open>the code replaces exactly the maximal subparts of Unicode: at a byte that starts no
  well-formed sequence, \<open>maximalSubpart\<close> is the length of the longest prefix that is a single byte
  or begins a well-formed sequence.\<close>

theorem maximal_subpart_maximal:
  assumes "b \<noteq> []" "rune_bad b"
  shows "(let n = maximal_subpart b in
    0 < n \<and> n \<le> length b \<and> (n = 1 \<or> begins_rune (take n b)) \<and>
    (\<forall>m. n < m \<and> m \<le> length b \<longrightarrow> \<not> begins_rune (take m b)))"
proof -
  obtain c cs where b: "b = c # cs" using assms(1) by (cases b) auto
  obtain need lo hi where k: "utf8_class (byte c) = (need, lo, hi)" by (cases "utf8_class (byte c)") auto
  have high: "\<not> byte c < 0x80" and bad: "\<not> seq_ok need lo hi cs"
    using assms(2) b k by (auto simp: rune_bad_def rune_error_def seq_ok_def split: if_splits)
  let ?j = "subpart_tail need lo hi cs"
  have n: "maximal_subpart b = Suc ?j" using b k by simp
  have begins: "begins_rune (take (Suc ?j) b)" if "?j \<noteq> 0"
  proof -
    from that obtain j where j: "?j = Suc j" by (cases ?j) auto
    then have "need \<noteq> 0" by (cases need) auto
    let ?t = "replicate (need - Suc j) (char_of (0x80 :: nat))"
    have ok: "seq_ok need lo hi (take (Suc j) cs @ ?t)" by (rule subpart_tail_seq [OF j \<open>need \<noteq> 0\<close>])
    have "Suc j \<le> need" using subpart_tail_need [of need lo hi cs] j by simp
    then have "\<not> rune_bad (take (Suc ?j) b @ ?t) \<and> length (take (Suc ?j) b) \<le> rune_size (take (Suc ?j) b @ ?t)"
      using high k ok j \<open>need \<noteq> 0\<close> by (simp add: b rune_bad_def)
    then show ?thesis by (auto simp: begins_rune_def)
  qed
  have maximal: "\<not> begins_rune (take m b)" if m: "Suc ?j < m" "m \<le> length b" for m
  proof
    assume "begins_rune (take m b)"
    then obtain t where t: "\<not> rune_bad (take m b @ t)" "length (take m b) \<le> rune_size (take m b @ t)"
      by (auto simp: begins_rune_def)
    obtain k' where k': "m = Suc k'" using m by (cases m) auto
    have "seq_ok need lo hi (take k' cs @ t)" "k' \<le> need"
      using t m high k by (auto simp: b k' rune_bad_def split: if_splits)
    with subpart_tail_max [of need lo hi k' cs t] m show False by (simp add: b k')
  qed
  have "Suc ?j \<le> length b" using subpart_tail_le [of need lo hi cs] by (simp add: b)
  with begins maximal show ?thesis unfolding Let_def n by auto
qed

theorem maximal_subpart_maximal_witness:
  "maximal_subpart [CHR 0xE2, CHR 0x82, CHR 0x41] = 2 \<and>
   \<not> begins_rune (take 3 [CHR 0xE2, CHR 0x82, CHR 0x41])"
proof -
  have n: "maximal_subpart [CHR 0xE2, CHR 0x82, CHR 0x41] = 2" and bad: "rune_bad [CHR 0xE2, CHR 0x82, CHR 0x41]"
    by (simp_all add: utf8_class_def byte_between_def rune_bad_def seq_ok_def numeral_2_eq_2)
  from maximal_subpart_maximal [OF _ bad] n show ?thesis by (auto simp: Let_def)
qed


text \<open>C11: \<open>detailMessages\<close> joins the texts of the entries with \<open>; \<close>, once the leading entries whose
  text is empty are left out: an empty text is kept and separated only after the first that is not.
  The text of an entry is its message after its path and a colon, and the path its items joined by
  dots.\<close>

theorem detail_messages_join:
  "detail_messages list = join_with ''; '' (dropWhile (\<lambda>t. t = []) (List.map_filter detail_text list))"
  by (simp add: detail_messages_def detail_loop_first)



end
