(* ===== verification/Codec_Fold.thy ===== *)
theory Codec_Fold
  imports Codec_Commit
begin

text \<open>
  The folds of a legend and of probabilities against Python's dictionaries. A fold's table is the
  dictionary of the levels (or labels) met: each at its first position with its last value, and
  its failure is the one Python reports, which validates the last value of every spelling in the
  order the spellings first appear; the quick path of a list that spells each level one way finds
  the same failure. The laws the three folds share are the locale \<open>pair_folder\<close>.
\<close>

section \<open>Filters and searches on positions\<close>

lemma filter_upt_Suc: "filter P [0..<Suc n] = filter P [0..<n] @ (if P n then [n] else [])"
  by simp

lemma find_append: "List.find P (xs @ ys) = (case List.find P xs of Some x \<Rightarrow> Some x | None \<Rightarrow> List.find P ys)"
  by (induction xs) auto

lemma find_upt_Suc:
  "List.find P [0..<Suc n] = (case List.find P [0..<n] of Some i \<Rightarrow> Some i | None \<Rightarrow> if P n then Some n else None)"
  by (auto simp: find_append split: option.split)

lemma find_upt_None: "List.find P [0..<n] = None \<longleftrightarrow> (\<forall>j < n. \<not> P j)"
  by (auto simp: find_None_iff)

lemma find_upt_Some:
  "List.find P [0..<n] = Some i \<longleftrightarrow> i < n \<and> P i \<and> (\<forall>j < i. \<not> P j)"
  by (auto simp: find_Some_iff)

lemma find_map: "List.find P (map f xs) = map_option f (List.find (\<lambda>x. P (f x)) xs)"
  by (induction xs) auto

lemma find_filter: "List.find P (filter Q xs) = List.find (\<lambda>x. Q x \<and> P x) xs"
  by (induction xs) auto

lemma map_update_unique:
  assumes "distinct xs" "j < length xs" "\<And>x. x \<in> set xs \<Longrightarrow> x \<noteq> xs ! j \<Longrightarrow> g x = f x"
  shows "map g xs = (map f xs)[j := g (xs ! j)]"
proof (rule nth_equalityI)
  fix i assume i: "i < length (map g xs)"
  show "map g xs ! i = (map f xs)[j := g (xs ! j)] ! i"
  proof (cases "i = j")
    case False
    with assms(1,2) i have "xs ! i \<noteq> xs ! j" by (simp add: nth_eq_iff_index_eq)
    with assms(3) i False show ?thesis by simp
  qed (use i in simp)
qed simp

section \<open>Positions of levels\<close>

text \<open>The level a pair names, the positions where a level first appears, and the last position of
  a level, among the first \<open>n\<close> pairs; and what a fold has computed from them.\<close>

definition lev :: "('k, 'p, 'e) folder \<Rightarrow> 'p list \<Rightarrow> nat \<Rightarrow> 'k option" where
  "lev F ps i = fd_parse F (fd_key F (ps ! i))"

definition firsts :: "('k, 'p, 'e) folder \<Rightarrow> 'p list \<Rightarrow> nat \<Rightarrow> nat list" where
  "firsts F ps n = filter (\<lambda>i. lev F ps i \<noteq> None \<and> (\<forall>j < i. lev F ps j \<noteq> lev F ps i)) [0..<n]"

definition last_at :: "('k, 'p, 'e) folder \<Rightarrow> 'p list \<Rightarrow> nat \<Rightarrow> 'k option \<Rightarrow> nat" where
  "last_at F ps n l = last (filter (\<lambda>i. lev F ps i = l) [0..<n])"

definition table_inv :: "('k, 'p, 'e) folder \<Rightarrow> ('k, 'e) fold_state \<Rightarrow> bool" where
  "table_inv F st \<longleftrightarrow> distinct (map (fd_elem_key F) (fs_table st)) \<and>
     (\<forall>m. fs_idx st = Some m \<longrightarrow> index_ok (fd_elem_key F) (fs_table st) m)"

definition mixed_at :: "('k, 'p, 'e) folder \<Rightarrow> 'p list \<Rightarrow> nat \<Rightarrow> bool" where
  "mixed_at F ps n \<longleftrightarrow>
     (\<exists>j \<in> set (firsts F ps n). \<exists>i < n. lev F ps i = lev F ps j \<and> fd_key F (ps ! j) \<noteq> fd_key F (ps ! i))"

definition fold_inv :: "('k, 'p, 'e) folder \<Rightarrow> 'p list \<Rightarrow> nat \<Rightarrow> ('k, 'e) fold_state \<Rightarrow> bool" where
  "fold_inv F ps n st \<longleftrightarrow>
     fs_table st = map (\<lambda>i. fd_new F (the (lev F ps i)) (ps ! last_at F ps n (lev F ps i))) (firsts F ps n) \<and>
     fs_folds st = map (\<lambda>i. \<lparr>fo_first = i, fo_bad = fd_bad F (ps ! last_at F ps n (lev F ps i))\<rparr>) (firsts F ps n) \<and>
     (\<forall>m. fs_idx st = Some m \<longrightarrow> index_ok (fd_elem_key F) (fs_table st) m) \<and>
     fs_bad_key st = List.find (\<lambda>i. lev F ps i = None) [0..<n] \<and>
     fs_mixed st = mixed_at F ps n"

lemma fold_invD:
  assumes "fold_inv F ps n st"
  shows "fs_table st = map (\<lambda>i. fd_new F (the (lev F ps i)) (ps ! last_at F ps n (lev F ps i))) (firsts F ps n)"
    and "fs_folds st = map (\<lambda>i. \<lparr>fo_first = i, fo_bad = fd_bad F (ps ! last_at F ps n (lev F ps i))\<rparr>) (firsts F ps n)"
    and "\<And>m. fs_idx st = Some m \<Longrightarrow> index_ok (fd_elem_key F) (fs_table st) m"
    and "fs_bad_key st = List.find (\<lambda>i. lev F ps i = None) [0..<n]"
    and "fs_mixed st = mixed_at F ps n"
  using assms unfolding fold_inv_def by blast+

lemma fold_invI:
  assumes "fs_table st = map (\<lambda>i. fd_new F (the (lev F ps i)) (ps ! last_at F ps n (lev F ps i))) (firsts F ps n)"
    and "fs_folds st = map (\<lambda>i. \<lparr>fo_first = i, fo_bad = fd_bad F (ps ! last_at F ps n (lev F ps i))\<rparr>) (firsts F ps n)"
    and "\<And>m. fs_idx st = Some m \<Longrightarrow> index_ok (fd_elem_key F) (fs_table st) m"
    and "fs_bad_key st = List.find (\<lambda>i. lev F ps i = None) [0..<n]"
    and "fs_mixed st = mixed_at F ps n"
  shows "fold_inv F ps n st"
  using assms unfolding fold_inv_def by blast

definition parsed_pairs :: "('k, 'p, 'e) folder \<Rightarrow> 'p list \<Rightarrow> ('k \<times> 'p) list" where
  "parsed_pairs F ps = List.map_filter (\<lambda>p. map_option (\<lambda>k. (k, p)) (fd_parse F (fd_key F p))) ps"

section \<open>The laws of a fold\<close>

locale pair_folder =
  fixes F :: "('k, 'p, 'e) folder"
  assumes new_key [simp]: "fd_elem_key F (fd_new F k p) = k"
    and update_new [simp]: "fd_update F (fd_new F k p) q = fd_new F k q"
begin

lemma firsts_Suc:
  "firsts F ps (Suc n) = firsts F ps n @
     (if lev F ps n \<noteq> None \<and> (\<forall>j < n. lev F ps j \<noteq> lev F ps n) then [n] else [])"
  by (simp add: firsts_def)

lemma last_at_Suc: "last_at F ps (Suc n) l = (if lev F ps n = l then n else last_at F ps n l)"
  by (simp add: last_at_def)

lemma firsts_lt: "i \<in> set (firsts F ps n) \<Longrightarrow> i < n \<and> lev F ps i \<noteq> None \<and> (\<forall>j < i. lev F ps j \<noteq> lev F ps i)"
  by (auto simp: firsts_def)

lemma firsts_distinct: "distinct (firsts F ps n)"
  by (simp add: firsts_def)

lemma firsts_inj: "i \<in> set (firsts F ps n) \<Longrightarrow> j \<in> set (firsts F ps n) \<Longrightarrow> lev F ps i = lev F ps j \<Longrightarrow> i = j"
  using firsts_lt [of i ps n] firsts_lt [of j ps n] by (metis linorder_neqE_nat)

lemma firsts_ex: "i < n \<Longrightarrow> lev F ps i \<noteq> None \<Longrightarrow> \<exists>j \<in> set (firsts F ps n). lev F ps j = lev F ps i"
proof (induction i rule: less_induct)
  case (less i)
  show ?case
  proof (cases "\<forall>j < i. lev F ps j \<noteq> lev F ps i")
    case True
    with less.prems show ?thesis by (auto simp: firsts_def)
  next
    case False
    then obtain j where "j < i" "lev F ps j = lev F ps i" by blast
    with less.IH [of j] less.prems show ?thesis by auto
  qed
qed

lemma firsts_keys_distinct: "distinct (map (\<lambda>i. the (lev F ps i)) (firsts F ps n))"
proof -
  have "inj_on (\<lambda>i. the (lev F ps i)) (set (firsts F ps n))"
  proof (rule inj_onI)
    fix i j assume ij: "i \<in> set (firsts F ps n)" "j \<in> set (firsts F ps n)" "the (lev F ps i) = the (lev F ps j)"
    with firsts_lt have "lev F ps i = lev F ps j" by (metis option.exhaust_sel)
    with ij firsts_inj show "i = j" by blast
  qed
  with firsts_distinct show ?thesis by (simp add: distinct_map)
qed

lemma fold_inv_table: "fold_inv F ps n st \<Longrightarrow> table_inv F st"
  using firsts_keys_distinct [of ps n] unfolding fold_inv_def table_inv_def by (auto simp: comp_def)

end

text \<open>The table is a keyed list: whether it is scanned or indexed, \<open>fold_find\<close> is the scan.\<close>

sublocale pair_folder \<subseteq> tbl: keyed_list fs_table "fd_elem_key F" "fold_find F" "table_inv F"
  by unfold_locales (auto simp: table_inv_def fold_find_def index_ok_def split: option.splits)

context pair_folder begin

lemma fold_find_first:
  assumes inv: "fold_inv F ps n st" and k: "lev F ps n = Some k"
  shows "case fold_find F st k of
      None \<Rightarrow> \<forall>j < n. lev F ps j \<noteq> lev F ps n
    | Some j \<Rightarrow> j < length (firsts F ps n) \<and> lev F ps (firsts F ps n ! j) = lev F ps n"
proof (cases "fold_find F st k")
  case None
  have "lev F ps j \<noteq> lev F ps n" if "j < n" for j
  proof
    assume j: "lev F ps j = lev F ps n"
    with that k firsts_ex [of j n ps] obtain i where i: "i \<in> set (firsts F ps n)" "lev F ps i = Some k" by auto
    have "k \<notin> fd_elem_key F ` set (fs_table st)"
      using None tbl.search_None fold_inv_table inv by blast
    then have "the (lev F ps i) \<noteq> k"
      using i(1) inv by (force simp: fold_inv_def)
    with i(2) show False by simp
  qed
  with None show ?thesis by simp
next
  case (Some j)
  with tbl.search_bound fold_inv_table inv
  have "j < length (fs_table st)" "fd_elem_key F (fs_table st ! j) = k" by blast+
  with inv have j: "j < length (firsts F ps n)" "the (lev F ps (firsts F ps n ! j)) = k"
    by (auto simp: fold_inv_def)
  moreover from firsts_lt [of "firsts F ps n ! j" ps n] j(1) have "lev F ps (firsts F ps n ! j) \<noteq> None"
    by auto
  ultimately show ?thesis using Some k by force
qed

lemma find_snoc:
  "fs_bad_key st = List.find (\<lambda>i. lev F ps i = None) [0..<n] \<Longrightarrow> lev F ps n = None \<Longrightarrow>
   (if fs_bad_key st = None then Some n else fs_bad_key st) = List.find (\<lambda>i. lev F ps i = None) [0..<Suc n]"
  by (auto simp: find_upt_Suc simp del: upt_Suc split: option.split)

lemma fold_step_bad:
  assumes inv: "fold_inv F ps n st" and p: "p = ps ! n" and None: "lev F ps n = None"
  shows "fold_inv F ps (Suc n) (fold_step F ps n p st)"
proof -
  note D = fold_invD [OF inv]
  have xs: "firsts F ps (Suc n) = firsts F ps n" using None by (simp add: firsts_Suc)
  have last: "last_at F ps (Suc n) (lev F ps i) = last_at F ps n (lev F ps i)" if "i \<in> set (firsts F ps n)" for i
    using firsts_lt [OF that] None by (auto simp: last_at_Suc)
  have mixed: "mixed_at F ps (Suc n) = mixed_at F ps n"
    using None firsts_lt [where n = n and ps = ps] unfolding mixed_at_def xs by (metis less_Suc_eq)
  have step: "fold_step F ps n p st =
      st\<lparr>fs_bad_key := (if fs_bad_key st = None then Some n else fs_bad_key st)\<rparr>"
    using None p by (simp add: fold_step_def lev_def)
  show ?thesis
    unfolding step using D find_snoc [OF D(4) None] last
    by (intro fold_invI) (simp_all add: xs mixed del: upt_Suc cong: map_cong)
qed

lemma map_last_update:
  assumes j: "j < length (firsts F ps n)" and lj: "lev F ps (firsts F ps n ! j) = lev F ps n"
  shows "map (\<lambda>i. f i (last_at F ps (Suc n) (lev F ps i))) (firsts F ps n) =
     (map (\<lambda>i. f i (last_at F ps n (lev F ps i))) (firsts F ps n))[j := f (firsts F ps n ! j) n]"
proof -
  let ?xs = "firsts F ps n" and ?g = "\<lambda>i. f i (last_at F ps (Suc n) (lev F ps i))"
  have at: "?g (?xs ! j) = f (?xs ! j) n" using lj by (simp add: last_at_Suc)
  have oth: "?g i = f i (last_at F ps n (lev F ps i))" if i: "i \<in> set ?xs" "i \<noteq> ?xs ! j" for i
  proof -
    from i firsts_inj [of i ps n "?xs ! j"] j lj have "lev F ps n \<noteq> lev F ps i" by (metis nth_mem)
    then show ?thesis by (simp add: last_at_Suc)
  qed
  have "map ?g ?xs = (map (\<lambda>i. f i (last_at F ps n (lev F ps i))) ?xs)[j := ?g (?xs ! j)]"
    by (rule map_update_unique [OF firsts_distinct j]) (rule oth)
  then show ?thesis by (simp only: at)
qed

lemma fold_step_old:
  assumes inv: "fold_inv F ps n st" and p: "p = ps ! n" and k: "lev F ps n = Some k"
    and j: "fold_find F st k = Some j"
  shows "fold_inv F ps (Suc n) (fold_step F ps n p st)"
proof -
  note D = fold_invD [OF inv]
  let ?xs = "firsts F ps n"
  from fold_find_first [OF inv k] j
  have jl: "j < length ?xs" and lj: "lev F ps (?xs ! j) = lev F ps n" by simp_all
  have xs: "firsts F ps (Suc n) = ?xs"
    using firsts_lt [of "?xs ! j" ps n] jl lj by (auto simp: firsts_Suc)
  have other: "lev F ps i \<noteq> lev F ps n" if "i \<in> set ?xs" "i \<noteq> ?xs ! j" for i
    using firsts_inj [of i ps n "?xs ! j"] that jl lj by auto
  note upd = map_last_update [OF jl lj]
  have mixed: "mixed_at F ps (Suc n) \<longleftrightarrow> mixed_at F ps n \<or> fd_key F (ps ! (?xs ! j)) \<noteq> fd_key F p"
  proof
    assume "mixed_at F ps (Suc n)"
    then obtain a i where a: "a \<in> set ?xs" "i < Suc n" "lev F ps i = lev F ps a" "fd_key F (ps ! a) \<noteq> fd_key F (ps ! i)"
      unfolding mixed_at_def xs by blast
    show "mixed_at F ps n \<or> fd_key F (ps ! (?xs ! j)) \<noteq> fd_key F p"
    proof (cases "i = n")
      case True
      with a other have "a = ?xs ! j" by metis
      with a True p show ?thesis by simp
    next
      case False
      with a show ?thesis unfolding mixed_at_def by auto
    qed
  next
    assume "mixed_at F ps n \<or> fd_key F (ps ! (?xs ! j)) \<noteq> fd_key F p"
    then show "mixed_at F ps (Suc n)"
      unfolding mixed_at_def xs using nth_mem [OF jl] lj p less_SucI by (metis lessI)
  qed
  have bad: "List.find (\<lambda>i. lev F ps i = None) [0..<Suc n] = List.find (\<lambda>i. lev F ps i = None) [0..<n]"
    using k by (simp add: find_upt_Suc del: upt_Suc split: option.split)
  have idx: "index_ok (fd_elem_key F) ((fs_table st)[j := fd_update F (fs_table st ! j) p]) m"
    if "fs_idx st = Some m" for m
    using D(3) [OF that] by (rule index_ok_update) (simp_all add: D(1) jl)
  have parse: "fd_parse F (fd_key F p) = Some k" using k p by (simp add: lev_def)
  have folds: "fo_first (fs_folds st ! j) = ?xs ! j" "fd_update F (fs_table st ! j) p = fd_new F k p"
    using D(1,2) jl lj k by simp_all
  have step: "fold_step F ps n p st =
      st\<lparr>fs_mixed := (fs_mixed st \<or> fd_key F (ps ! (?xs ! j)) \<noteq> fd_key F p),
         fs_table := (fs_table st)[j := fd_new F k p],
         fs_folds := (fs_folds st)[j := \<lparr>fo_first = ?xs ! j, fo_bad = fd_bad F p\<rparr>]\<rparr>"
    using folds D(2) jl by (simp add: fold_step_def parse j)
  have tab: "(fs_table st)[j := fd_new F k p] =
      map (\<lambda>i. fd_new F (the (lev F ps i)) (ps ! last_at F ps (Suc n) (lev F ps i))) ?xs"
    using upd [of "\<lambda>i l. fd_new F (the (lev F ps i)) (ps ! l)"] lj k by (simp add: D(1) p)
  have fol: "(fs_folds st)[j := \<lparr>fo_first = ?xs ! j, fo_bad = fd_bad F p\<rparr>] =
      map (\<lambda>i. \<lparr>fo_first = i, fo_bad = fd_bad F (ps ! last_at F ps (Suc n) (lev F ps i))\<rparr>) ?xs"
    using upd [of "\<lambda>i l. \<lparr>fo_first = i, fo_bad = fd_bad F (ps ! l)\<rparr>"] by (simp add: D(2) p)
  show ?thesis
    unfolding step using D(4,5) mixed bad idx folds(2) tab fol
    by (intro fold_invI) (simp_all add: xs del: upt_Suc)
qed

lemma fold_step_new:
  assumes inv: "fold_inv F ps n st" and p: "p = ps ! n" and k: "lev F ps n = Some k"
    and j: "fold_find F st k = None"
  shows "fold_inv F ps (Suc n) (fold_step F ps n p st)"
proof -
  note D = fold_invD [OF inv]
  from fold_find_first [OF inv k] j have new: "\<And>j. j < n \<Longrightarrow> lev F ps j \<noteq> lev F ps n" by simp
  have xs: "firsts F ps (Suc n) = firsts F ps n @ [n]"
    using new k by (simp add: firsts_Suc)
  have last: "last_at F ps (Suc n) (lev F ps i) = last_at F ps n (lev F ps i)" if "i \<in> set (firsts F ps n)" for i
    using new firsts_lt [OF that] by (auto simp: last_at_Suc)
  have last_n: "last_at F ps (Suc n) (lev F ps n) = n" by (simp add: last_at_Suc)
  have old: "j \<in> set (firsts F ps n) \<Longrightarrow> lev F ps n \<noteq> lev F ps j" for j
    using new firsts_lt by metis
  have mixed: "mixed_at F ps (Suc n) = mixed_at F ps n"
  proof
    assume "mixed_at F ps (Suc n)"
    then obtain a i where "a \<in> set (firsts F ps n) \<or> a = n" "i < Suc n" "lev F ps i = lev F ps a"
      "fd_key F (ps ! a) \<noteq> fd_key F (ps ! i)" unfolding mixed_at_def xs by auto
    with new old show "mixed_at F ps n" unfolding mixed_at_def by (metis less_Suc_eq)
  qed (auto simp: mixed_at_def xs less_Suc_eq)
  have bad: "List.find (\<lambda>i. lev F ps i = None) [0..<Suc n] = List.find (\<lambda>i. lev F ps i = None) [0..<n]"
    using k by (simp add: find_upt_Suc del: upt_Suc split: option.split)
  have idx: "index_ok (fd_elem_key F) (fs_table st @ [fd_new F k p]) (m(k \<mapsto> length (fs_table st)))"
    if "fs_idx st = Some m" for m
    using index_ok_append [OF D(3) [OF that], of "fd_new F k p"] j that by (simp add: fold_find_def)
  have parse: "fd_parse F (fd_key F p) = Some k" using k p by (simp add: lev_def)
  have step: "fold_step F ps n p st =
      st\<lparr>fs_idx := map_option (\<lambda>m. m(k \<mapsto> length (fs_table st))) (fs_idx st),
         fs_table := fs_table st @ [fd_new F k p],
         fs_folds := fs_folds st @ [\<lparr>fo_first = n, fo_bad = fd_bad F p\<rparr>]\<rparr>"
    by (simp add: fold_step_def parse j)
  have last_p: "last_at F ps (Suc n) (Some k) = n" using last_n k by simp
  show ?thesis
    unfolding step
  proof (rule fold_invI)
    fix m assume "fs_idx (st\<lparr>fs_idx := map_option (\<lambda>m. m(k \<mapsto> length (fs_table st))) (fs_idx st),
         fs_table := fs_table st @ [fd_new F k p],
         fs_folds := fs_folds st @ [\<lparr>fo_first = n, fo_bad = fd_bad F p\<rparr>]\<rparr>) = Some m"
    with idx show "index_ok (fd_elem_key F) (fs_table (st\<lparr>fs_idx := map_option (\<lambda>m. m(k \<mapsto> length (fs_table st))) (fs_idx st),
         fs_table := fs_table st @ [fd_new F k p],
         fs_folds := fs_folds st @ [\<lparr>fo_first = n, fo_bad = fd_bad F p\<rparr>]\<rparr>)) m"
      by (auto simp del: fun_upd_apply)
  qed (use D(1,2,4,5) mixed bad last last_p k p xs in \<open>simp_all del: upt_Suc cong: map_cong\<close>)
qed

lemma fold_step_inv:
  "fold_inv F ps n st \<Longrightarrow> p = ps ! n \<Longrightarrow> fold_inv F ps (Suc n) (fold_step F ps n p st)"
  using fold_step_bad fold_step_old fold_step_new by (metis option.exhaust)

lemma fold_loop_inv:
  "fold_inv F ps n st \<Longrightarrow> rest = drop n ps \<Longrightarrow> fold_inv F ps (n + length rest) (fold_loop F ps n rest st)"
proof (induction rest arbitrary: n st)
  case (Cons p rest)
  from Cons.prems(2) have p: "p = ps ! n" "rest = drop (Suc n) ps"
    by (metis drop_eq_Nil2 hd_drop_conv_nth leI list.distinct(1) list.sel(1), metis drop_Suc list.sel(3) tl_drop)
  from Cons.IH [OF fold_step_inv [OF Cons.prems(1) p(1)] p(2)] show ?case by simp
qed simp

lemma run_fold_inv: "fold_inv F ps (length ps) (run_fold F ps)"
proof -
  have "fold_inv F ps 0 (fold_init (length ps))"
    by (simp add: fold_inv_def fold_init_def firsts_def mixed_at_def)
  from fold_loop_inv [OF this] show ?thesis by (simp add: run_fold_def)
qed

text \<open>The table is the dictionary of the pairs whose key parses.\<close>

lemma table_step:
  assumes "fold_inv F ps n st" and "p = ps ! n"
    and tab: "fs_table st = map (\<lambda>(k, p). fd_new F k p) (pydict (parsed_pairs F (take n ps)))"
    and n: "n < length ps"
  shows "fs_table (fold_step F ps n p st) = map (\<lambda>(k, p). fd_new F k p) (pydict (parsed_pairs F (take (Suc n) ps)))"
proof (cases "fd_parse F (fd_key F p)")
  case None
  then show ?thesis using assms by (simp add: fold_step_def take_Suc_conv_app_nth parsed_pairs_def map_filter_def)
next
  case (Some k)
  let ?D = "pydict (parsed_pairs F (take n ps))"
  have pairs: "parsed_pairs F (take (Suc n) ps) = parsed_pairs F (take n ps) @ [(k, p)]"
    using Some n assms(2) by (simp add: take_Suc_conv_app_nth parsed_pairs_def map_filter_def)
  have search: "fold_find F st k = find_index (\<lambda>e. fd_elem_key F e = k) (fs_table st)"
    by (rule tbl.search_scan) (rule fold_inv_table [OF assms(1)])
  have upd: "find_index (\<lambda>e. fd_elem_key F e = k) (map (\<lambda>(k, p). fd_new F k p) D) = Some j \<Longrightarrow>
      map (\<lambda>(k, p). fd_new F k p) (AList.update k p D) = (map (\<lambda>(k, p). fd_new F k p) D)[j := fd_new F k p]" for j D
    by (induction D arbitrary: j) (auto split: if_splits)
  have new: "find_index (\<lambda>e. fd_elem_key F e = k) (map (\<lambda>(k, p). fd_new F k p) D) = None \<Longrightarrow>
      map (\<lambda>(k, p). fd_new F k p) (AList.update k p D) = map (\<lambda>(k, p). fd_new F k p) D @ [fd_new F k p]" for D
    by (induction D) (auto split: if_splits)
  show ?thesis
  proof (cases "fold_find F st k")
    case None
    with new [of ?D] search tab Some show ?thesis by (simp add: fold_step_def pairs)
  next
    case (Some j)
    with tbl.search_bound [OF fold_inv_table [OF assms(1)]]
    have j: "j < length (fs_table st)" "fd_elem_key F (fs_table st ! j) = k" by blast+
    moreover have "\<exists>k' p'. fs_table st ! j = fd_new F k' p'"
      using j(1) by (auto simp: tab case_prod_beta')
    ultimately have "fd_update F (fs_table st ! j) p = fd_new F k p" by auto
    then have "fs_table (fold_step F ps n p st) = (fs_table st)[j := fd_new F k p]"
      by (simp add: fold_step_def Some \<open>fd_parse F (fd_key F p) = Some k\<close>)
    moreover from search Some tab have "find_index (\<lambda>e. fd_elem_key F e = k) (map (\<lambda>(k, p). fd_new F k p) ?D) = Some j"
      by simp
    ultimately show ?thesis by (simp add: pairs upd tab)
  qed
qed

lemma table_loop:
  "fold_inv F ps n st \<Longrightarrow> rest = drop n ps \<Longrightarrow>
   fs_table st = map (\<lambda>(k, p). fd_new F k p) (pydict (parsed_pairs F (take n ps))) \<Longrightarrow>
   fs_table (fold_loop F ps n rest st) = map (\<lambda>(k, p). fd_new F k p) (pydict (parsed_pairs F ps))"
proof (induction rest arbitrary: n st)
  case (Cons p rest)
  from Cons.prems(2) have n: "n < length ps" by (metis drop_eq_Nil leI list.distinct(1))
  from Cons.prems(2) n have p: "p = ps ! n" "rest = drop (Suc n) ps"
    by (simp_all add: Cons_nth_drop_Suc [symmetric])
  from Cons.IH [OF fold_step_inv [OF Cons.prems(1) p(1)] p(2) table_step [OF Cons.prems(1) p(1) Cons.prems(3) n]]
  show ?case by simp
qed simp

lemma run_fold_table: "fs_table (run_fold F ps) = map (\<lambda>(k, p). fd_new F k p) (pydict (parsed_pairs F ps))"
proof -
  have "fold_inv F ps 0 (fold_init (length ps))"
    by (simp add: fold_inv_def fold_init_def firsts_def mixed_at_def)
  from table_loop [OF this] show ?thesis
    by (simp add: run_fold_def) (simp add: fold_init_def parsed_pairs_def map_filter_def)
qed

end

section \<open>Failures\<close>

text \<open>The fold that keeps every spelling: Python's parser, before pydantic reads the keys.\<close>

definition spelled :: "('k, 'p, 'e) folder \<Rightarrow> (bytes, 'p, bytes \<times> 'p) folder" where
  "spelled F =
     \<lparr>fd_parse = Some, fd_key = fd_key F, fd_bad = fd_bad F, fd_elem_key = fst, fd_new = Pair,
      fd_update = (\<lambda>e p. (fst e, p))\<rparr>"

interpretation spelled: pair_folder "spelled F" for F :: "('k, 'p, 'e) folder"
  by unfold_locales (simp_all add: spelled_def)

definition python_failure :: "('k, 'p, 'e) folder \<Rightarrow> 'p list \<Rightarrow> (bytes \<times> bool) option" where
  "python_failure F ps =
     map_option (\<lambda>(k, p). (k, fd_parse F k = None))
       (List.find (\<lambda>(k, p). fd_parse F k = None \<or> fd_bad F p) (pydict (map (\<lambda>p. (fd_key F p, p)) ps)))"

definition last_spelling :: "('k, 'p, 'e) folder \<Rightarrow> 'p list \<Rightarrow> nat \<Rightarrow> nat" where
  "last_spelling F ps i = last (filter (\<lambda>j. fd_key F (ps ! j) = fd_key F (ps ! i)) [0..<length ps])"

definition fails :: "('k, 'p, 'e) folder \<Rightarrow> 'p list \<Rightarrow> nat \<Rightarrow> bool" where
  "fails F ps i \<longleftrightarrow> (\<forall>j < i. fd_key F (ps ! j) \<noteq> fd_key F (ps ! i)) \<and>
     (lev F ps i = None \<or> fd_bad F (ps ! last_spelling F ps i))"

lemma python_failure_position:
  "python_failure F ps =
     map_option (\<lambda>i. (fd_key F (ps ! i), lev F ps i = None)) (List.find (fails F ps) [0..<length ps])"
proof -
  have "map (\<lambda>(k, p). fd_new (spelled F) k p) (pydict (parsed_pairs (spelled F) ps)) =
      map (\<lambda>i. fd_new (spelled F) (the (lev (spelled F) ps i)) (ps ! last_at (spelled F) ps (length ps) (lev (spelled F) ps i)))
        (firsts (spelled F) ps (length ps))"
    using spelled.run_fold_table [of F ps] fold_invD(1) [OF spelled.run_fold_inv [of F ps]] by simp
  moreover have "parsed_pairs (spelled F) ps = map (\<lambda>p. (fd_key F p, p)) ps"
    by (induction ps) (simp_all add: parsed_pairs_def map_filter_def spelled_def)
  ultimately have "pydict (map (\<lambda>p. (fd_key F p, p)) ps) =
      map (\<lambda>i. (fd_key F (ps ! i), ps ! last_spelling F ps i))
        (filter (\<lambda>i. \<forall>j < i. fd_key F (ps ! j) \<noteq> fd_key F (ps ! i)) [0..<length ps])"
    by (simp add: spelled_def lev_def firsts_def last_at_def last_spelling_def)
  then show ?thesis
    by (simp add: python_failure_def find_map find_filter option.map_comp comp_def fails_def [abs_def] lev_def)
qed

text \<open>The slow path, which looks at every spelling, finds that position.\<close>

lemma last_positions_value:
  "last_positions i ks m k =
     (if k \<in> set ks then Some (i + last (filter (\<lambda>j. ks ! j = k) [0..<length ks])) else m k)"
proof (induction ks arbitrary: i m)
  case (Cons a ks)
  have upt: "[0..<length (a # ks)] = 0 # map Suc [0..<length ks]"
    by (simp add: map_Suc_upt upt_conv_Cons del: upt_Suc)
  have "filter (\<lambda>j. (a # ks) ! j = k) [0..<length (a # ks)] =
      (if a = k then [0] else []) @ map Suc (filter (\<lambda>j. ks ! j = k) [0..<length ks])"
    unfolding upt by (simp add: filter_map comp_def)
  moreover have "k \<in> set ks \<longleftrightarrow> filter (\<lambda>j. ks ! j = k) [0..<length ks] \<noteq> []"
    by (auto simp: in_set_conv_nth filter_empty_conv)
  ultimately show ?case
    by (simp add: Cons.IH last_map)
qed simp

lemma spelling_loop_find:
  assumes "n + length rest = length ks" and "rest = drop n ks"
    and "\<And>k. k \<in> set rest \<Longrightarrow> m k = (if k \<in> set (take n ks) then None else Some (l k))"
  shows "spelling_loop parse bad n rest m =
     map_option (\<lambda>i. (i, parse (ks ! i) = None))
       (List.find (\<lambda>i. (\<forall>j < i. ks ! j \<noteq> ks ! i) \<and> (parse (ks ! i) = None \<or> bad (l (ks ! i)))) [n..<length ks])"
  using assms
proof (induction rest arbitrary: n m)
  case (Cons k rest)
  from Cons.prems(1) have n: "n < length ks" by simp
  with Cons.prems(2) have k: "k = ks ! n" "rest = drop (Suc n) ks"
    by (simp_all add: Cons_nth_drop_Suc [symmetric])
  have upt: "[n..<length ks] = n # [Suc n..<length ks]" using n by (simp add: upt_conv_Cons)
  have seen: "k \<in> set (take n ks) \<longleftrightarrow> \<not> (\<forall>j < n. ks ! j \<noteq> ks ! n)"
    using n k(1) by (auto simp: in_set_conv_nth)
  have take: "set (take (Suc n) ks) = insert k (set (take n ks))"
    using n k(1) by (simp add: take_Suc_conv_app_nth)
  show ?case
  proof (cases "m k")
    case None
    then have "k \<in> set (take n ks)" using Cons.prems(3) [of k] by (simp split: if_splits)
    with take have "set (take (Suc n) ks) = set (take n ks)" by auto
    with Cons.IH [of "Suc n" m] Cons.prems(1,3) k(2)
    have "spelling_loop parse bad (Suc n) rest m =
       map_option (\<lambda>i. (i, parse (ks ! i) = None))
         (List.find (\<lambda>i. (\<forall>j < i. ks ! j \<noteq> ks ! i) \<and> (parse (ks ! i) = None \<or> bad (l (ks ! i)))) [Suc n..<length ks])"
      by simp
    with None seen \<open>k \<in> set (take n ks)\<close> upt show ?thesis by auto
  next
    case (Some x)
    then have new: "k \<notin> set (take n ks)" "x = l k" using Cons.prems(3) [of k] by (simp_all split: if_splits)
    have "(m(k := None)) k' = (if k' \<in> set (take (Suc n) ks) then None else Some (l k'))" if "k' \<in> set rest" for k'
      using Cons.prems(3) [of k'] that by (simp add: take)
    moreover have "Suc n + length rest = length ks" using Cons.prems(1) by simp
    ultimately
    have "spelling_loop parse bad (Suc n) rest (m(k := None)) =
       map_option (\<lambda>i. (i, parse (ks ! i) = None))
         (List.find (\<lambda>i. (\<forall>j < i. ks ! j \<noteq> ks ! i) \<and> (parse (ks ! i) = None \<or> bad (l (ks ! i)))) [Suc n..<length ks])"
      using k(2) by (intro Cons.IH)
    with Some new seen k(1) upt show ?thesis by auto
  qed
qed simp

lemma spelling_failure_position:
  "spelling_failure F ps = map_option (\<lambda>i. (i, lev F ps i = None)) (List.find (fails F ps) [0..<length ps])"
proof -
  let ?ks = "map (fd_key F) ps" and ?l = "\<lambda>k. last (filter (\<lambda>j. map (fd_key F) ps ! j = k) [0..<length ps])"
  have "spelling_failure F ps = map_option (\<lambda>i. (i, fd_parse F (?ks ! i) = None))
      (List.find (\<lambda>i. (\<forall>j < i. ?ks ! j \<noteq> ?ks ! i) \<and> (fd_parse F (?ks ! i) = None \<or> fd_bad F (ps ! ?l (?ks ! i))))
        [0..<length ?ks])"
    unfolding spelling_failure_def Let_def
    by (rule spelling_loop_find [where l = ?l]) (simp_all add: last_positions_value)
  also have "\<dots> = map_option (\<lambda>i. (i, lev F ps i = None)) (List.find (fails F ps) [0..<length ps])"
  proof -
    have l: "?l (fd_key F (ps ! i)) = last_spelling F ps i" for i
      unfolding last_spelling_def by (rule arg_cong [of _ _ last]) (auto intro: filter_cong)
    have "List.find (\<lambda>i. (\<forall>j < i. ?ks ! j \<noteq> ?ks ! i) \<and> (fd_parse F (?ks ! i) = None \<or> fd_bad F (ps ! ?l (?ks ! i)))) [0..<length ps]
        = List.find (fails F ps) [0..<length ps]"
      by (rule find_cong) (auto simp: fails_def lev_def l)
    moreover have "map_option (\<lambda>i. (i, fd_parse F (?ks ! i) = None)) (List.find (fails F ps) [0..<length ps]) =
        map_option (\<lambda>i. (i, lev F ps i = None)) (List.find (fails F ps) [0..<length ps])"
      by (rule option.map_cong0) (auto simp: lev_def find_Some_iff)
    ultimately show ?thesis by simp
  qed
  finally show ?thesis .
qed

section \<open>The quick path\<close>

text \<open>A list that is not mixed spells each level one way, so the first failing level or key is
  the first failing spelling.\<close>

context pair_folder begin

lemma not_mixed_same:
  assumes "\<not> mixed_at F ps n" and ij: "i < n" "j < n" and l: "lev F ps i \<noteq> None"
  shows "lev F ps i = lev F ps j \<longleftrightarrow> fd_key F (ps ! i) = fd_key F (ps ! j)"
proof
  assume eq: "lev F ps i = lev F ps j"
  from firsts_ex [OF ij(1) l] obtain a where a: "a \<in> set (firsts F ps n)" "lev F ps a = lev F ps i" by blast
  with assms eq have "fd_key F (ps ! a) = fd_key F (ps ! i)" "fd_key F (ps ! a) = fd_key F (ps ! j)"
    unfolding mixed_at_def by metis+
  then show "fd_key F (ps ! i) = fd_key F (ps ! j)" by simp
qed (simp add: lev_def)

lemma first_failure_fails:
  assumes mixed: "\<not> mixed_at F ps (length ps)"
  shows "first_failure (List.find (\<lambda>i. lev F ps i = None) [0..<length ps])
      (map (\<lambda>i. \<lparr>fo_first = i, fo_bad = fd_bad F (ps ! last_at F ps (length ps) (lev F ps i))\<rparr>) (firsts F ps (length ps))) =
    map_option (\<lambda>i. (i, lev F ps i = None)) (List.find (fails F ps) [0..<length ps])"
proof -
  let ?n = "length ps"
  define bad where "bad = (\<lambda>i. (lev F ps i \<noteq> None \<and> (\<forall>j < i. lev F ps j \<noteq> lev F ps i)) \<and>
    fd_bad F (ps ! last_at F ps ?n (lev F ps i)))"
  have same: "lev F ps i = lev F ps j \<longleftrightarrow> fd_key F (ps ! i) = fd_key F (ps ! j)"
    if "i < ?n" "j < ?n" "lev F ps i \<noteq> None" for i j
    using not_mixed_same [OF mixed that] .
  have fails: "fails F ps i \<longleftrightarrow> bad i" if i: "i < ?n" "lev F ps i \<noteq> None" for i
  proof -
    have "filter (\<lambda>j. lev F ps j = lev F ps i) [0..<?n] = filter (\<lambda>j. fd_key F (ps ! j) = fd_key F (ps ! i)) [0..<?n]"
      by (rule filter_cong [OF refl]) (use same [OF i(1) _ i(2)] in \<open>auto; metis\<close>)
    then have "last_at F ps ?n (lev F ps i) = last_spelling F ps i"
      by (simp add: last_at_def last_spelling_def)
    moreover have "(\<forall>j < i. lev F ps j \<noteq> lev F ps i) \<longleftrightarrow> (\<forall>j < i. fd_key F (ps ! j) \<noteq> fd_key F (ps ! i))"
      using same [OF i(1) _ i(2)] i(1) by (metis less_trans)
    ultimately show ?thesis using i(2) by (auto simp: fails_def bad_def)
  qed
  have none: "fails F ps i \<longleftrightarrow> (\<forall>j < i. fd_key F (ps ! j) \<noteq> fd_key F (ps ! i))" if "lev F ps i = None" for i
    using that by (simp add: fails_def)
  have first_none: "fails F ps p" if "List.find (\<lambda>i. lev F ps i = None) [0..<?n] = Some p" for p
    using that none unfolding find_upt_Some by (metis lev_def)
  have folds: "List.find fo_bad (map (\<lambda>i. \<lparr>fo_first = i, fo_bad = fd_bad F (ps ! last_at F ps ?n (lev F ps i))\<rparr>) (firsts F ps ?n)) =
      map_option (\<lambda>i. \<lparr>fo_first = i, fo_bad = fd_bad F (ps ! last_at F ps ?n (lev F ps i))\<rparr>) (List.find bad [0..<?n])"
    by (simp add: find_map find_filter firsts_def bad_def)
  show ?thesis
  proof (cases "List.find bad [0..<?n]")
    case None
    then have nb: "\<And>j. j < ?n \<Longrightarrow> \<not> bad j" by (simp add: find_upt_None)
    show ?thesis
    proof (cases "List.find (\<lambda>i. lev F ps i = None) [0..<?n]")
      case None
      then have "\<And>j. j < ?n \<Longrightarrow> lev F ps j \<noteq> None" by (simp add: find_upt_None)
      with nb fails have "List.find (fails F ps) [0..<?n] = None" unfolding find_upt_None by blast
      with None \<open>List.find bad [0..<?n] = None\<close> show ?thesis by (simp add: first_failure_def folds)
    next
      case (Some p)
      then have p: "p < ?n" "lev F ps p = None" "\<And>j. j < p \<Longrightarrow> lev F ps j \<noteq> None"
        unfolding find_upt_Some by blast+
      with nb fails first_none [OF Some] have "List.find (fails F ps) [0..<?n] = Some p"
        unfolding find_upt_Some by (metis less_trans)
      with Some p(2) \<open>List.find bad [0..<?n] = None\<close> show ?thesis by (simp add: first_failure_def folds)
    qed
  next
    case (Some b)
    then have b: "b < ?n" "bad b" "\<And>j. j < b \<Longrightarrow> \<not> bad j" unfolding find_upt_Some by blast+
    have lb: "lev F ps b \<noteq> None" using b(2) by (simp add: bad_def)
    show ?thesis
    proof (cases "List.find (\<lambda>i. lev F ps i = None) [0..<?n]")
      case None
      then have "\<And>j. j < ?n \<Longrightarrow> lev F ps j \<noteq> None" by (simp add: find_upt_None)
      with b fails have "List.find (fails F ps) [0..<?n] = Some b" unfolding find_upt_Some by (metis less_trans)
      with None Some lb show ?thesis by (simp add: first_failure_def folds)
    next
      case (Some p)
      then have p: "p < ?n" "lev F ps p = None" "\<And>j. j < p \<Longrightarrow> lev F ps j \<noteq> None"
        unfolding find_upt_Some by blast+
      have "List.find (fails F ps) [0..<?n] = Some (min b p)"
        unfolding find_upt_Some
      proof (intro conjI allI impI)
        show "min b p < ?n" using b(1) by simp
        show "fails F ps (min b p)" using b(1,2) fails lb first_none [OF Some] by (simp add: min_def)
        fix j assume "j < min b p"
        then show "\<not> fails F ps j" using b p fails by auto
      qed
      moreover have "b \<noteq> p" using lb p(2) by auto
      ultimately show ?thesis
        using Some \<open>List.find bad [0..<?n] = Some b\<close> lb p(2)
        by (auto simp: first_failure_def folds min_def)
    qed
  qed
qed

lemma fold_failure_position:
  "fold_failure F ps = map_option (\<lambda>i. (i, lev F ps i = None)) (List.find (fails F ps) [0..<length ps])"
proof -
  note D = fold_invD [OF run_fold_inv [of ps]]
  show ?thesis
  proof (cases "mixed_at F ps (length ps)")
    case True
    then show ?thesis by (simp add: fold_failure_def D(5) spelling_failure_position)
  next
    case False
    with first_failure_fails [OF False] show ?thesis by (simp add: fold_failure_def Let_def D(2,4,5))
  qed
qed

lemma fold_failure_python:
  "map_option (\<lambda>(pos, is_key). (fd_key F (ps ! pos), is_key)) (fold_failure F ps) = python_failure F ps"
  by (simp add: fold_failure_position python_failure_position option.map_comp comp_def)

end

section \<open>The three folds\<close>

interpretation legend: pair_folder legend_folder
  by unfold_locales (simp_all add: legend_folder_def)

interpretation levels: pair_folder levels_folder
  by unfold_locales (simp_all add: levels_folder_def)

interpretation labels: pair_folder labels_folder
  by unfold_locales (simp_all add: labels_folder_def)

text \<open>What Python computes: a failing spelling, or the dictionary.\<close>

definition python_fold :: "('k, 'p, 'e) folder \<Rightarrow> 'p list \<Rightarrow> (bytes \<times> bool) + 'e list" where
  "python_fold F ps =
     (case python_failure F ps of
        Some f \<Rightarrow> Inl f
      | None \<Rightarrow> Inr (map (\<lambda>(k, p). fd_new F k p) (pydict (parsed_pairs F ps))))"

context pair_folder begin

lemma fold_python_cases:
  "(case fold_failure F ps of
      Some (pos, is_key) \<Rightarrow> Inl (fd_key F (ps ! pos), is_key)
    | None \<Rightarrow> Inr (fs_table (run_fold F ps))) = python_fold F ps"
proof (cases "fold_failure F ps")
  case None
  with fold_failure_python [of ps] show ?thesis by (simp add: python_fold_def run_fold_table)
next
  case (Some f)
  obtain pos is_key where "f = (pos, is_key)" by (cases f)
  with Some fold_failure_python [of ps] show ?thesis by (simp add: python_fold_def flip: fold_failure_python)
qed

end

lemma fold_legend_eq:
  "fold_legend ls e =
     (case python_fold legend_folder ls of
        Inl (key, is_key) \<Rightarrow>
          (key_pend (en_name e) ''legend'' key (if is_key then ErrNotLevel else ErrLegendValue), e)
      | Inr t \<Rightarrow>
          (None, e\<lparr>en_structured := en_structured e + length (filter (\<lambda>d. cjson (le_description d) \<noteq> None) t),
             en_ans := (en_ans e)\<lparr>ans_score := (ans_score (en_ans e))\<lparr>legend := t\<rparr>\<rparr>\<rparr>))"
  unfolding legend.fold_python_cases [symmetric]
  by (simp add: fold_legend_def legend_folder_def Let_def split: option.split)

lemma fold_levels_eq:
  "fold_levels ps e =
     (case python_fold levels_folder ps of
        Inl (key, is_key) \<Rightarrow>
          (key_pend (en_name e) ''probabilities'' key (if is_key then ErrNotLevel else ErrNotNumber), e)
      | Inr t \<Rightarrow>
          (None, e\<lparr>en_ans := (en_ans e)\<lparr>ans_score := (ans_score (en_ans e))\<lparr>score_probabilities := t\<rparr>\<rparr>\<rparr>))"
  unfolding levels.fold_python_cases [symmetric]
  by (simp add: fold_levels_def levels_folder_def split: option.split)

lemma labels_bad_key: "fs_bad_key (run_fold labels_folder ps) = None" "\<not> fs_mixed (run_fold labels_folder ps)"
proof -
  note D = fold_invD [OF labels.run_fold_inv [of ps]]
  have lev: "lev labels_folder ps i = Some (fd_key labels_folder (ps ! i))" for i
    by (simp add: lev_def labels_folder_def)
  show "fs_bad_key (run_fold labels_folder ps) = None"
    by (simp add: D(4) lev find_None_iff)
  show "\<not> fs_mixed (run_fold labels_folder ps)"
    by (auto simp: D(5) mixed_at_def lev)
qed

lemma fold_labels_eq:
  "fold_labels ps e =
     (case python_fold labels_folder ps of
        Inl (key, is_key) \<Rightarrow> (key_pend (en_name e) ''probabilities'' key ErrNotNumber, e)
      | Inr t \<Rightarrow>
          (None, e\<lparr>en_ans := (en_ans e)\<lparr>ans_choice := (ans_choice (en_ans e))\<lparr>choice_probabilities := t\<rparr>\<rparr>\<rparr>))"
proof -
  have "fold_failure labels_folder ps = first_failure None (fs_folds (run_fold labels_folder ps))"
    by (simp add: fold_failure_def labels_bad_key)
  moreover have "fd_key labels_folder = pp_key" by (simp add: labels_folder_def)
  ultimately show ?thesis
    unfolding labels.fold_python_cases [symmetric]
    by (simp add: fold_labels_def Let_def split: option.split)
qed

section \<open>Properties\<close>


end
