(* ===== verification/Codec_Core.thy ===== *)
theory Codec_Core
  imports Codec_Run Codec_Fold
begin

text \<open>
  The effect of a traversal without its checks. On a traversal that succeeds the visitor's string
  and depth bookkeeping can be erased (\<open>strip\<close>); what is left is a total function of the event
  (\<open>core\<close>), and a traversal is a fold of it. This theory has the effect of a value nobody
  enters, and the masks that say which fields a container may touch.
\<close>

section \<open>Erasing the checks\<close>

definition strip :: "visitor \<Rightarrow> visitor" where
  "strip v = v\<lparr>v_peak := 0, v_scanned := False, v_raw_ctl := False\<rparr>"

definition null_core :: "visitor \<Rightarrow> visitor" where
  "null_core v =
     (if v_slot v = SlotInputTokens then (set_input 0 False False v)\<lparr>v_slot := SlotNone\<rparr>
      else if v_slot v = SlotOutputTokens then (set_output 0 False False v)\<lparr>v_slot := SlotNone\<rparr>
      else assign False [] [] v)"

definition open_slot :: "bool \<Rightarrow> slot \<Rightarrow> ctr option" where
  "open_slot is_obj s =
     (if s = SlotRoot \<and> is_obj then Some CtrRoot
      else if s = SlotUsage \<and> is_obj then Some CtrUsage
      else if s = SlotAnswers \<and> is_obj then Some CtrAnswers
      else if s = SlotAnswer \<and> is_obj then Some CtrAnswer
      else if s = SlotProbs \<and> is_obj then Some CtrProbs
      else if s = SlotLegend \<and> is_obj then Some CtrLegend
      else if s = SlotModels \<and> \<not> is_obj then Some CtrModels
      else if s = SlotCard \<and> is_obj then Some CtrCard
      else None)"

fun opened_ctr :: "ctr \<Rightarrow> visitor \<Rightarrow> visitor" where
  "opened_ctr CtrRoot v = v"
| "opened_ctr CtrUsage v =
     v\<lparr>v_usage := zero_usage, v_has_usage := True, v_usage_err := None, v_in_bad := False, v_out_bad := False\<rparr>"
| "opened_ctr CtrAnswers v = (reset_answers v)\<lparr>v_answers_err := None\<rparr>"
| "opened_ctr CtrAnswer v = v\<lparr>v_cur := new_scratch (v_cur_key v)\<rparr>"
| "opened_ctr CtrProbs v = (member_ok MProbs v)\<lparr>v_probs := []\<rparr>"
| "opened_ctr CtrLegend v = (member_ok MLegend v)\<lparr>v_legend := []\<rparr>"
| "opened_ctr CtrModels v = v\<lparr>v_slot := SlotCard, v_cards := [], v_has_cards := True, v_cards_err := None\<rparr>"
| "opened_ctr CtrCard v = v\<lparr>v_card := zero_card, v_card_has := {}, v_card_bad := {}\<rparr>"

definition begin_core :: "bool \<Rightarrow> visitor \<Rightarrow> visitor" where
  "begin_core is_obj v =
     (if 0 < v_ign v then v\<lparr>v_ign := v_ign v + 1\<rparr>
      else case open_slot is_obj (v_slot v) of
          Some c \<Rightarrow> (opened_ctr c (v\<lparr>v_slot := SlotNone\<rparr>))\<lparr>v_stack := c # v_stack v\<rparr>
        | None \<Rightarrow> v\<lparr>v_slot := SlotNone, v_ign := 1, v_ign_slot := v_slot v\<rparr>)"

fun closed_ctr :: "ctr \<Rightarrow> visitor \<Rightarrow> visitor" where
  "closed_ctr CtrAnswer v = next_card (commit_answer v)"
| "closed_ctr CtrCard v = next_card (commit_card v)"
| "closed_ctr CtrModels v = v\<lparr>v_slot := SlotNone\<rparr>"
| "closed_ctr c v = next_card v"

definition end_core :: "visitor \<Rightarrow> visitor" where
  "end_core v =
     (if 1 < v_ign v then v\<lparr>v_ign := v_ign v - 1\<rparr>
      else if v_ign v = 1 then next_card (wrong_kind (v_ign_slot v) True (v\<lparr>v_ign := 0\<rparr>))
      else closed_ctr (hd (v_stack v)) (v\<lparr>v_stack := tl (v_stack v)\<rparr>))"

fun core :: "event \<Rightarrow> visitor \<Rightarrow> visitor" where
  "core ENull v = (if 0 < v_ign v then v else null_core v)"
| "core (EBool b) v = (if 0 < v_ign v then v else assign False [] [] v)"
| "core (EString s) v = (if 0 < v_ign v then v else assign True s [] v)"
| "core (ENumber n) v = (if 0 < v_ign v then v else assign False [] n v)"
| "core EObjBegin v = begin_core True v"
| "core EArrBegin v = begin_core False v"
| "core EObjEnd v = end_core v"
| "core EArrEnd v = end_core v"
| "core (EKey k) v =
     (if 0 < v_ign v then v
      else v\<lparr>v_cur_key := k, v_slot := key_slot (hd (v_stack v)) (v_mode v) k\<rparr>)"

lemma strip_fields [simp]:
  "v_stack (strip v) = v_stack v" "v_ign (strip v) = v_ign v" "v_body (strip v) = v_body v"
  "v_mode (strip v) = v_mode v" "v_slot (strip v) = v_slot v" "v_ign_slot (strip v) = v_ign_slot v"
  "v_cur_key (strip v) = v_cur_key v" "v_set (strip v) = v_set v" "v_idx (strip v) = v_idx v"
  by (simp_all add: strip_def)

lemma strip_put_entry: "strip (put_entry e v) = put_entry e (strip v)"
  by (simp add: strip_def put_entry_def set_find_def Let_def split: option.split)

lemma strip_wrong_kind: "strip (wrong_kind s c v) = wrong_kind s c (strip v)"
  by (cases s)
    (simp_all add: strip_put_entry, simp_all add: strip_def set_input_def set_output_def member_wrong_def
      card_wrong_def reset_answers_def, auto)

lemma strip_assign_slot: "strip (assign_slot s is_str x num v) = assign_slot s is_str x num (strip v)"
  by (cases s)
    (simp_all add: strip_put_entry split: option.split, simp_all add: strip_def set_input_def set_output_def
      member_ok_def member_wrong_def card_ok_def card_wrong_def reset_answers_def, auto)

lemma strip_next_card: "strip (next_card v) = next_card (strip v)"
  by (simp add: strip_def next_card_def)

lemma strip_slot: "strip (v\<lparr>v_slot := s\<rparr>) = (strip v)\<lparr>v_slot := s\<rparr>"
  by (simp add: strip_def)

lemma strip_assign: "strip (assign is_str x num v) = assign is_str x num (strip v)"
  by (simp add: assign_def strip_assign_slot strip_next_card strip_slot)

lemma strip_commit: "strip (commit_answer v) = commit_answer (strip v)" "strip (commit_card v) = commit_card (strip v)"
  by (simp_all add: commit_answer_def strip_put_entry) (simp_all add: strip_def commit_card_def)

lemma strip_opened: "strip (opened_ctr c v) = opened_ctr c (strip v)"
  by (cases c) (simp_all add: strip_def reset_answers_def member_ok_def)

lemma strip_closed: "strip (closed_ctr c v) = closed_ctr c (strip v)"
  by (cases c) (simp_all add: strip_next_card strip_commit strip_slot)

lemma check_string_strip: "check_string s v = Inr w \<Longrightarrow> strip w = strip v"
  by (auto simp: check_string_def Let_def strip_def split: if_splits)

lemma push_Inr: "push c v = Inr w \<Longrightarrow> w = v\<lparr>v_stack := c # v_stack v\<rparr>"
  by (simp add: push_def split: if_splits)

lemma scalar_strip: "scalar is_str x num v = Inr w \<Longrightarrow> 
    strip w = (if 0 < v_ign v then strip v else assign is_str x num (strip v))"
  by (auto simp: scalar_def strip_assign split: if_splits)

lemma begin_strip:
  assumes "begin_value is_obj v = Inr w"
  shows "strip w = begin_core is_obj (strip v)"
proof (cases "0 < v_ign v")
  case True
  with assms show ?thesis
    by (auto simp: begin_value_def begin_core_def Let_def strip_def split: if_splits)
next
  case False
  then show ?thesis
    using assms unfolding begin_value_def begin_core_def open_slot_def Let_def
    by (cases "v_slot v"; cases is_obj)
      (simp_all add: res_simps strip_def reset_answers_def member_ok_def split: if_splits,
        (auto simp: strip_def reset_answers_def member_ok_def dest!: push_Inr)?)
qed

lemma end_strip:
  assumes "end_value v = Inr w"
  shows "strip w = end_core (strip v)"
proof (cases "0 < v_ign v")
  case True
  then show ?thesis
  proof (cases "v_ign v = 1")
    case True
    have "strip (v\<lparr>v_ign := 0\<rparr>) = (strip v)\<lparr>v_ign := 0\<rparr>" by (simp add: strip_def)
    with assms True show ?thesis
      by (auto simp: end_value_def end_core_def Let_def strip_next_card strip_wrong_kind)
  qed (use assms in \<open>auto simp: end_value_def end_core_def Let_def strip_def split: if_splits\<close>)
next
  case False
  with assms obtain c st where st: "v_stack v = c # st" by (auto simp: end_value_def split: list.splits)
  have "strip (v\<lparr>v_stack := st\<rparr>) = (strip v)\<lparr>v_stack := st\<rparr>" by (simp add: strip_def)
  with assms False st show ?thesis
    by (cases c) (auto simp: end_value_def end_core_def Let_def strip_next_card strip_commit strip_slot)
qed

lemma step_core: "step e v = Inr w \<Longrightarrow> strip w = core e (strip v)"
proof (cases e)
  case ENull
  assume "step e v = Inr w"
  with ENull scalar_strip [of False "[]" "[]" v w] show ?thesis
    by (auto simp: on_null_def null_core_def strip_def set_input_def set_output_def split: if_splits)
next
  case (EString s)
  assume "step e v = Inr w"
  with EString obtain u where u: "check_string s v = Inr u" "scalar True s [] u = Inr w"
    by (auto simp: on_string_def res_simps)
  from check_string_strip [OF u(1)] have "strip u = strip v" "v_ign u = v_ign v"
    by (auto, metis strip_fields(2))
  with scalar_strip [OF u(2)] EString show ?thesis by simp
next
  case (EKey k)
  assume "step e v = Inr w"
  with EKey obtain u where u: "check_string k v = Inr u"
    "(if 0 < v_ign u then Inr u
       else case v_stack u of [] \<Rightarrow> Inl Panic
         | c # _ \<Rightarrow> Inr (u\<lparr>v_cur_key := k, v_slot := key_slot c (v_mode u) k\<rparr>)) = Inr w"
    by (auto simp: on_object_key_def res_simps)
  from check_string_strip [OF u(1)] have "strip u = strip v" .
  then have "v_ign u = v_ign v" "v_stack u = v_stack v" "v_mode u = v_mode v" "strip u = strip v"
    by (metis strip_fields)+
  moreover have "strip (u\<lparr>v_cur_key := a, v_slot := b\<rparr>) = (strip u)\<lparr>v_cur_key := a, v_slot := b\<rparr>" for a b
    by (simp add: strip_def)
  ultimately show ?thesis using u(2) EKey by (auto split: if_splits list.splits)
qed (auto simp: begin_strip end_strip dest: scalar_strip)

lemma run_core: "run es v = Inr w \<Longrightarrow> strip w = fold core es (strip v)"
proof (induction es arbitrary: v)
  case (Cons e es)
  then obtain u where "step e v = Inr u" "run es u = Inr w" by (auto simp: res_simps)
  with Cons.IH step_core show ?case by fastforce
qed simp

end
