(* ===== verification/Codec_Reference.thy ===== *)
theory Codec_Reference
  imports Codec_Core
begin

text \<open>
  The decoder against a reference: a body decoded the way the Python SDK decodes it, from the
  dictionary of each object's members. The first section is the reference; the others compute
  what the traversal of each container leaves in the visitor, from the inside out, and end with
  the views of the root that \<open>finish\<close> reads.
\<close>

section \<open>The reference\<close>

text \<open>A member of a schema: absent, of the wrong kind, or its value, of its last occurrence.\<close>

datatype 'a field = Absent | Wrong | Val 'a

definition field_of :: "(jtree \<Rightarrow> 'a field) \<Rightarrow> (bytes \<times> jtree) list \<Rightarrow> bytes \<Rightarrow> 'a field" where
  "field_of g ms k = (case map_of (rev ms) k of None \<Rightarrow> Absent | Some t \<Rightarrow> g t)"

fun ref_string :: "jtree \<Rightarrow> bytes field" where
  "ref_string (TStr s) = Val s"
| "ref_string t = Wrong"

fun ref_number :: "jtree \<Rightarrow> float64 field" where
  "ref_number (TNum n) = (case parse_float n of Some f \<Rightarrow> Val f | None \<Rightarrow> Wrong)"
| "ref_number t = Wrong"

fun ref_prob :: "bytes \<times> jtree \<Rightarrow> prob_pair" where
  "ref_prob (k, t) =
     (case ref_number t of
        Val f \<Rightarrow> \<lparr>pp_key = k, pp_p = f, pp_bad = False\<rparr>
      | _ \<Rightarrow> \<lparr>pp_key = k, pp_p = 0, pp_bad = True\<rparr>)"

fun ref_legend_pair :: "bytes \<times> jtree \<Rightarrow> legend_pair" where
  "ref_legend_pair (k, TStr s) = \<lparr>lg_key = k, lg_text = s, lg_structured = False, lg_bad = False\<rparr>"
| "ref_legend_pair (k, TArr ts) = \<lparr>lg_key = k, lg_text = [], lg_structured = True, lg_bad = False\<rparr>"
| "ref_legend_pair (k, TObj ms) = \<lparr>lg_key = k, lg_text = [], lg_structured = True, lg_bad = False\<rparr>"
| "ref_legend_pair (k, t) = \<lparr>lg_key = k, lg_text = [], lg_structured = False, lg_bad = True\<rparr>"

fun ref_probs :: "jtree \<Rightarrow> prob_pair list field" where
  "ref_probs (TObj ps) = Val (map ref_prob ps)"
| "ref_probs t = Wrong"

fun ref_legend :: "jtree \<Rightarrow> legend_pair list field" where
  "ref_legend (TObj ps) = Val (map ref_legend_pair ps)"
| "ref_legend t = Wrong"

type_synonym failure = "field_path \<times> reason"

definition answer_fail :: "bytes \<Rightarrow> bytes \<Rightarrow> reason \<Rightarrow> failure" where
  "answer_fail name m err =
     (\<lparr>fp_top = ''answers'', fp_index = None, fp_name = Some name, fp_member = m, fp_key = None\<rparr>, err)"

definition key_fail :: "bytes \<Rightarrow> bytes \<Rightarrow> bytes \<Rightarrow> reason \<Rightarrow> failure" where
  "key_fail name m key err =
     (\<lparr>fp_top = ''answers'', fp_index = None, fp_name = Some name, fp_member = m, fp_key = Some key\<rparr>, err)"

definition need :: "bytes \<Rightarrow> bytes \<Rightarrow> reason \<Rightarrow> 'a field \<Rightarrow> failure + 'a" where
  "need name m err f =
     (case f of Absent \<Rightarrow> Inl (answer_fail name m ErrMissing)
              | Wrong \<Rightarrow> Inl (answer_fail name m err)
              | Val x \<Rightarrow> Inr x)"

definition ref_fold :: "('k, 'p, 'e) folder \<Rightarrow> bytes \<Rightarrow> bytes \<Rightarrow> reason \<Rightarrow> 'p list \<Rightarrow> failure + 'e list" where
  "ref_fold F name m err ps =
     rmap_err (\<lambda>(key, is_key). key_fail name m key (if is_key then ErrNotLevel else err)) (python_fold F ps)"

text \<open>What an answer of a known kind needs, in schema order.\<close>

fun ref_answer :: "bytes \<Rightarrow> (bytes \<times> jtree) list \<Rightarrow> kind \<Rightarrow> failure + answer" where
  "ref_answer name ms KindUnknown = Inr zero_answer"
| "ref_answer name ms KindNoul =
     rmap (\<lambda>x. zero_answer\<lparr>ans_kind := KindNoul, ans_noul := \<lparr>noul = x\<rparr>\<rparr>)
       (need name ''noul'' ErrNotNumber (field_of ref_number ms ''noul''))"
| "ref_answer name ms KindChoice =
     rbind (need name ''choice'' ErrNotString (field_of ref_string ms ''choice'')) (\<lambda>c.
     rbind (need name ''confidence'' ErrNotNumber (field_of ref_number ms ''confidence'')) (\<lambda>f.
     rbind (need name ''probabilities'' ErrNotObject (field_of ref_probs ms ''probabilities'')) (\<lambda>ps.
     rmap (\<lambda>t. zero_answer\<lparr>ans_kind := KindChoice,
                ans_choice := \<lparr>choice = c, choice_confidence = f, choice_probabilities = t\<rparr>\<rparr>)
       (ref_fold labels_folder name ''probabilities'' ErrNotNumber ps))))"
| "ref_answer name ms KindScore =
     rbind (need name ''score'' ErrNotNumber (field_of ref_number ms ''score'')) (\<lambda>x.
     rbind (need name ''confidence'' ErrNotNumber (field_of ref_number ms ''confidence'')) (\<lambda>f.
     rbind (need name ''legend'' ErrNotObject (field_of ref_legend ms ''legend'')) (\<lambda>ls.
     rbind (ref_fold legend_folder name ''legend'' ErrLegendValue ls) (\<lambda>l.
     rbind (need name ''probabilities'' ErrNotObject (field_of ref_probs ms ''probabilities'')) (\<lambda>ps.
     rmap (\<lambda>t. zero_answer\<lparr>ans_kind := KindScore,
                ans_score := \<lparr>score = x, score_confidence = f, legend = l, score_probabilities = t\<rparr>\<rparr>)
       (ref_fold levels_folder name ''probabilities'' ErrNotNumber ps))))))"

definition structured_levels :: "answer \<Rightarrow> nat" where
  "structured_levels a = length (filter (\<lambda>d. cjson (le_description d) \<noteq> None) (legend (ans_score a)))"

text \<open>The answer of a name: a failure, an answer of an unknown type, or the answer.\<close>

definition ref_typed :: "bytes \<Rightarrow> (bytes \<times> jtree) list \<Rightarrow> bytes \<Rightarrow> entry" where
  "ref_typed name ms typ =
     (if parse_kind typ = KindUnknown then (new_entry name)\<lparr>en_typ := typ\<rparr>
      else case ref_answer name ms (parse_kind typ) of
          Inl e \<Rightarrow> (new_entry name)\<lparr>en_err := Some e\<rparr>
        | Inr a \<Rightarrow> (new_entry name)\<lparr>en_ans := a, en_structured := structured_levels a\<rparr>)"

fun ref_entry :: "bytes \<Rightarrow> jtree \<Rightarrow> entry" where
  "ref_entry name (TObj ms) =
     (case need name ''type'' ErrNotString (field_of ref_string ms ''type'') of
        Inl e \<Rightarrow> (new_entry name)\<lparr>en_err := Some e\<rparr>
      | Inr typ \<Rightarrow> ref_typed name ms typ)"
| "ref_entry name t = (new_entry name)\<lparr>en_err := Some (answer_fail name ''type'' ErrNotObject)\<rparr>"

definition ref_answers :: "(bytes \<times> jtree) list \<Rightarrow> (bytes \<times> entry) list" where
  "ref_answers ms = pydict (map (\<lambda>(k, t). (k, ref_entry k t)) ms)"

text \<open>A token count: a number, null (absent), or wrong.\<close>

fun ref_count :: "jtree \<Rightarrow> 64 word \<times> bool \<times> bool" where
  "ref_count (TNum n) = (case parse_count n of Some c \<Rightarrow> (c, True, False) | None \<Rightarrow> (0, False, True))"
| "ref_count TNull = (0, False, False)"
| "ref_count t = (0, False, True)"

definition count_of :: "(bytes \<times> jtree) list \<Rightarrow> bytes \<Rightarrow> 64 word \<times> bool \<times> bool" where
  "count_of ms k = (case map_of (rev ms) k of None \<Rightarrow> (0, False, False) | Some t \<Rightarrow> ref_count t)"

text \<open>The models: each card's failure, and the cards.\<close>

definition card_field :: "(bytes \<times> jtree) list \<Rightarrow> bytes \<Rightarrow> bytes" where
  "card_field ms k = (case field_of ref_string ms k of Val s \<Rightarrow> s | _ \<Rightarrow> [])"

definition card_fail :: "nat \<Rightarrow> bytes \<Rightarrow> reason \<Rightarrow> failure" where
  "card_fail i m err =
     (\<lparr>fp_top = ''models'', fp_index = Some i, fp_name = None, fp_member = m, fp_key = None\<rparr>, err)"

definition card_member_error :: "nat \<Rightarrow> (bytes \<times> jtree) list \<Rightarrow> bytes \<Rightarrow> failure option" where
  "card_member_error i ms k =
     (case field_of ref_string ms k of
        Wrong \<Rightarrow> Some (card_fail i k ErrNotString)
      | Absent \<Rightarrow> Some (card_fail i k ErrMissing)
      | Val s \<Rightarrow> None)"

fun ref_card :: "nat \<Rightarrow> jtree \<Rightarrow> failure + model_card" where
  "ref_card i (TObj ms) =
     (case first_some (map (card_member_error i ms) [''name'', ''description'', ''release_date'']) of
        Some e \<Rightarrow> Inl e
      | None \<Rightarrow> Inr \<lparr>mc_name = card_field ms ''name'', mc_description = card_field ms ''description'',
                      mc_release_date = card_field ms ''release_date''\<rparr>)"
| "ref_card i t = Inl (card_fail i [] ErrNotObject)"

fun ref_cards :: "nat \<Rightarrow> jtree list \<Rightarrow> failure + model_card list" where
  "ref_cards i [] = Inr []"
| "ref_cards i (t # ts) = rbind (ref_card i t) (\<lambda>c. rmap (\<lambda>cs. c # cs) (ref_cards (Suc i) ts))"

section \<open>Values nobody enters\<close>

lemma fold_core_ign: "0 < v_ign v \<Longrightarrow> fold core (events t) v = v"
proof (induction t arbitrary: v)
  case (TArr ts)
  have "fold core (concat (map events ts)) w = w" if "0 < v_ign w" for w
    using TArr.IH that by (induction ts) auto
  with TArr.prems show ?case by (simp add: begin_core_def end_core_def)
next
  case (TObj kvs)
  have "fold core (concat (map (\<lambda>(k, t). EKey k # events t) kvs)) w = w" if w: "0 < v_ign w" for w
    using TObj.IH
  proof (induction kvs)
    case (Cons kt kvs)
    obtain k t where "kt = (k, t)" by (cases kt)
    with Cons w show ?case by force
  qed simp
  with TObj.prems show ?case by (simp add: begin_core_def end_core_def)
qed simp_all

definition leaf_value :: "jtree \<Rightarrow> visitor \<Rightarrow> visitor" where
  "leaf_value t v =
     (case t of
        TNull \<Rightarrow> null_core v
      | TBool b \<Rightarrow> assign False [] [] v
      | TNum n \<Rightarrow> assign False [] n v
      | TStr s \<Rightarrow> assign True s [] v
      | _ \<Rightarrow> next_card (wrong_kind (v_slot v) True (v\<lparr>v_slot := SlotNone, v_ign_slot := v_slot v\<rparr>)))"

fun enters :: "slot \<Rightarrow> jtree \<Rightarrow> bool" where
  "enters s (TObj ms) \<longleftrightarrow> open_slot True s \<noteq> None"
| "enters s (TArr ts) \<longleftrightarrow> open_slot False s \<noteq> None"
| "enters s t \<longleftrightarrow> False"

lemma ign_elems: "0 < v_ign v \<Longrightarrow> fold core (concat (map events ts)) v = v"
  by (induction ts) (simp_all add: fold_core_ign)

lemma ign_members: "0 < v_ign v \<Longrightarrow> fold core (concat (map (\<lambda>(k, t). EKey k # events t) kvs)) v = v"
  by (induction kvs) (auto simp: fold_core_ign)

lemma leaf_core:
  assumes "v_ign v = 0" and "\<not> enters (v_slot v) t"
  shows "fold core (events t) v = leaf_value t v"
proof -
  have ign0: "v_ign v = 0 \<Longrightarrow> v\<lparr>v_slot := a, v_ign_slot := b, v_ign := 0\<rparr> = v\<lparr>v_slot := a, v_ign_slot := b\<rparr>" for a b
    by (cases v) simp
  show ?thesis
    using assms
    by (cases t) (simp_all add: leaf_value_def begin_core_def end_core_def ign_elems ign_members ign0)
qed

section \<open>Folds of members\<close>

definition member_core :: "bytes \<times> jtree \<Rightarrow> visitor \<Rightarrow> visitor" where
  "member_core kt v = fold core (events (snd kt)) (core (EKey (fst kt)) v)"

lemma fold_members: "fold core (concat (map (\<lambda>(k, t). EKey k # events t) kvs)) v = fold member_core kvs v"
  by (induction kvs arbitrary: v) (auto simp: member_core_def)

lemma object_core: "fold core (events (TObj kvs)) v = end_core (fold member_core kvs (begin_core True v))"
  by (simp add: fold_members)

text \<open>A field that only its own key writes holds what the last occurrence of the key left.\<close>

lemma fold_last:
  assumes step: "\<And>k t v. I v \<Longrightarrow> I (f (k, t) v) \<and> get (f (k, t) v) = (if k = K then g t else get v)" and "I v"
  shows "I (fold f kvs v) \<and> get (fold f kvs v) = (case map_of (rev kvs) K of None \<Rightarrow> get v | Some t \<Rightarrow> g t)"
proof (induction kvs rule: rev_induct)
  case (snoc kt kvs)
  obtain k t where "kt = (k, t)" by (cases kt)
  with snoc step [of "fold f kvs v" k t] show ?case by auto
qed (simp add: assms(2))

lemma fold_keep:
  assumes step: "\<And>k t v. I v \<Longrightarrow> I (f (k, t) v) \<and> get (f (k, t) v) = get v" and "I v"
  shows "I (fold f kvs v) \<and> get (fold f kvs v) = get v"
proof (induction kvs rule: rev_induct)
  case (snoc kt kvs)
  obtain k t where "kt = (k, t)" by (cases kt)
  with snoc step [of "fold f kvs v" k t] show ?case by auto
qed (simp add: assms(2))

lemma member_leaf:
  "v_ign v = 0 \<Longrightarrow> v_stack v = c # st \<Longrightarrow> \<not> enters (key_slot c (v_mode v) k) t \<Longrightarrow>
   member_core (k, t) v = leaf_value t (v\<lparr>v_cur_key := k, v_slot := key_slot c (v_mode v) k\<rparr>)"
  by (simp add: member_core_def leaf_core)

lemma parse_empty [simp]: "parse_count [] = None" "parse_float [] = None"
  by (simp_all add: parse_count_def parse_float_def)

lemmas leaf_defs = leaf_value_def null_core_def assign_def next_card_def

section \<open>Usage\<close>

definition mask_value :: "visitor \<Rightarrow> visitor" where
  "mask_value v = v\<lparr>v_slot := SlotNone, v_cur_key := [], v_ign_slot := SlotNone\<rparr>"

definition mask_usage :: "visitor \<Rightarrow> visitor" where
  "mask_usage v = (mask_value v)\<lparr>v_usage := zero_usage, v_in_bad := False, v_out_bad := False\<rparr>"

definition in_view :: "visitor \<Rightarrow> 64 word \<times> bool \<times> bool" where
  "in_view v = (u_input (v_usage v), u_has_input (v_usage v), v_in_bad v)"

definition out_view :: "visitor \<Rightarrow> 64 word \<times> bool \<times> bool" where
  "out_view v = (u_output (v_usage v), u_has_output (v_usage v), v_out_bad v)"

definition usage_inv :: "ctr list \<Rightarrow> visitor \<Rightarrow> visitor \<Rightarrow> bool" where
  "usage_inv st v0 v \<longleftrightarrow> v_stack v = CtrUsage # st \<and> v_ign v = 0 \<and> v_slot v = SlotNone \<and> mask_usage v = mask_usage v0"

lemma usage_member:
  assumes "usage_inv st v0 v"
  shows "usage_inv st v0 (member_core (k, t) v) \<and>
    in_view (member_core (k, t) v) = (if k = ''input_tokens'' then ref_count t else in_view v) \<and>
    out_view (member_core (k, t) v) = (if k = ''output_tokens'' then ref_count t else out_view v)"
proof -
  let ?s = "key_slot CtrUsage (v_mode v) k"
  have "open_slot b ?s = None" for b by (simp add: open_slot_def)
  then have "\<not> enters ?s t" by (cases t) simp_all
  with assms have *: "member_core (k, t) v = leaf_value t (v\<lparr>v_cur_key := k, v_slot := ?s\<rparr>)"
    by (simp add: usage_inv_def member_leaf)
  let ?w = "v\<lparr>v_cur_key := k, v_slot := ?s\<rparr>"
  from assms have v: "v_stack v = CtrUsage # st" "v_ign v = 0" "mask_usage v = mask_usage v0"
    by (simp_all add: usage_inv_def)
  have "v_stack (leaf_value t ?w) = CtrUsage # st \<and> v_ign (leaf_value t ?w) = 0 \<and> v_slot (leaf_value t ?w) = SlotNone \<and>
      mask_usage (leaf_value t ?w) = mask_usage v"
    using v(1,2) by (cases t) (simp_all add: leaf_defs mask_usage_def mask_value_def set_input_def
        set_output_def split: option.split)
  moreover have "in_view (leaf_value t ?w) = (if k = ''input_tokens'' then ref_count t else in_view v)"
    using v(1,2) by (cases t) (simp_all add: leaf_defs in_view_def set_input_def set_output_def split: option.split)
  moreover have "out_view (leaf_value t ?w) = (if k = ''output_tokens'' then ref_count t else out_view v)"
    using v(1,2) by (cases t) (simp_all add: leaf_defs out_view_def set_input_def set_output_def split: option.split)
  ultimately show ?thesis unfolding * usage_inv_def using v(3) by simp
qed

lemma usage_members:
  assumes "usage_inv st v0 v"
  shows "usage_inv st v0 (fold member_core kvs v) \<and>
    in_view (fold member_core kvs v) = (case map_of (rev kvs) ''input_tokens'' of None \<Rightarrow> in_view v | Some t \<Rightarrow> ref_count t) \<and>
    out_view (fold member_core kvs v) = (case map_of (rev kvs) ''output_tokens'' of None \<Rightarrow> out_view v | Some t \<Rightarrow> ref_count t)"
  using fold_last [of "usage_inv st v0" member_core in_view "''input_tokens''" ref_count v kvs]
    fold_last [of "usage_inv st v0" member_core out_view "''output_tokens''" ref_count v kvs]
    usage_member assms by blast

section \<open>Probabilities and legends\<close>

definition probs_inv :: "ctr list \<Rightarrow> visitor \<Rightarrow> visitor \<Rightarrow> bool" where
  "probs_inv st v0 v \<longleftrightarrow> v_stack v = CtrProbs # st \<and> v_ign v = 0 \<and> v_slot v = SlotNone \<and>
     (mask_value v)\<lparr>v_probs := []\<rparr> = (mask_value v0)\<lparr>v_probs := []\<rparr>"

lemma probs_member:
  assumes "probs_inv st v0 v"
  shows "probs_inv st v0 (member_core (k, t) v) \<and> v_probs (member_core (k, t) v) = v_probs v @ [ref_prob (k, t)]"
proof -
  have "\<not> enters SlotProbValue t" by (cases t) (simp_all add: open_slot_def)
  with assms have *: "member_core (k, t) v = leaf_value t (v\<lparr>v_cur_key := k, v_slot := SlotProbValue\<rparr>)"
    by (simp add: probs_inv_def member_leaf)
  show ?thesis
    unfolding * using assms
    by (cases t) (auto simp: probs_inv_def leaf_defs mask_value_def parse_float_def split: option.split)
qed

lemma probs_members:
  "probs_inv st v0 v \<Longrightarrow> probs_inv st v0 (fold member_core kvs v) \<and>
    v_probs (fold member_core kvs v) = v_probs v @ map ref_prob kvs"
proof (induction kvs arbitrary: v)
  case (Cons kt kvs)
  obtain k t where kt: "kt = (k, t)" by (cases kt)
  with probs_member [OF Cons.prems, of k t] Cons.IH [of "member_core (k, t) v"] show ?case by simp
qed simp

definition legend_inv :: "ctr list \<Rightarrow> visitor \<Rightarrow> visitor \<Rightarrow> bool" where
  "legend_inv st v0 v \<longleftrightarrow> v_stack v = CtrLegend # st \<and> v_ign v = 0 \<and> v_slot v = SlotNone \<and>
     (mask_value v)\<lparr>v_legend := []\<rparr> = (mask_value v0)\<lparr>v_legend := []\<rparr>"

lemma legend_member:
  assumes "legend_inv st v0 v"
  shows "legend_inv st v0 (member_core (k, t) v) \<and>
    v_legend (member_core (k, t) v) = v_legend v @ [ref_legend_pair (k, t)]"
proof -
  have "\<not> enters SlotLegendValue t" by (cases t) (simp_all add: open_slot_def)
  with assms have *: "member_core (k, t) v = leaf_value t (v\<lparr>v_cur_key := k, v_slot := SlotLegendValue\<rparr>)"
    by (simp add: legend_inv_def member_leaf)
  show ?thesis
    unfolding * using assms by (cases t) (auto simp: legend_inv_def leaf_defs mask_value_def)
qed

lemma legend_members:
  "legend_inv st v0 v \<Longrightarrow> legend_inv st v0 (fold member_core kvs v) \<and>
    v_legend (fold member_core kvs v) = v_legend v @ map ref_legend_pair kvs"
proof (induction kvs arbitrary: v)
  case (Cons kt kvs)
  obtain k t where kt: "kt = (k, t)" by (cases kt)
  with legend_member [OF Cons.prems, of k t] Cons.IH [of "member_core (k, t) v"] show ?case by simp
qed simp

end
