(* ===== verification/Codec_Answer.thy ===== *)
theory Codec_Answer
  imports Codec_Reference
begin

text \<open>
  One answer: what the members of an answer object leave in the scratch, and the entry
  \<open>commitAnswer\<close> makes of it, against \<open>ref_entry\<close>. A failed entry also keeps what it had read so
  far, which nobody looks at; \<open>clean\<close> forgets it.
\<close>

section \<open>The members of an answer\<close>

definition field_view :: "amember \<Rightarrow> visitor \<Rightarrow> 'a \<Rightarrow> 'a field" where
  "field_view m v x =
     (if m \<in> sc_wrong (v_cur v) then Wrong else if m \<in> sc_has (v_cur v) then Val x else Absent)"

definition "type_view v = field_view MType v (sc_typ (v_cur v))"
definition "noul_view v = field_view MNoul v (sc_noul (v_cur v))"
definition "choice_view v = field_view MChoice v (sc_choice (v_cur v))"
definition "conf_view v = field_view MConfidence v (sc_conf (v_cur v))"
definition "score_view v = field_view MScore v (sc_score (v_cur v))"
definition "probs_view v = field_view MProbs v (v_probs v)"
definition "legend_view v = field_view MLegend v (v_legend v)"

lemmas view_defs = type_view_def noul_view_def choice_view_def conf_view_def score_view_def
  probs_view_def legend_view_def field_view_def

definition mask_answer :: "visitor \<Rightarrow> visitor" where
  "mask_answer v = (mask_value v)\<lparr>v_cur := new_scratch [], v_probs := [], v_legend := []\<rparr>"

definition answer_inv :: "bytes \<Rightarrow> ctr list \<Rightarrow> visitor \<Rightarrow> visitor \<Rightarrow> bool" where
  "answer_inv name st v0 v \<longleftrightarrow>
     v_stack v = CtrAnswer # st \<and> v_ign v = 0 \<and> v_slot v = SlotNone \<and> sc_name (v_cur v) = name \<and>
     mask_answer v = mask_answer v0"

definition answer_slots :: "slot set" where
  "answer_slots = {SlotType, SlotNoul, SlotChoice, SlotConfidence, SlotScore, SlotProbs, SlotLegend, SlotIgnore}"

lemma answer_slot_in: "answer_slot k \<in> answer_slots"
  by (simp add: answer_slot_def answer_slots_def)

lemma answer_slot_iff:
  "answer_slot k = SlotType \<longleftrightarrow> k = ''type''" "answer_slot k = SlotNoul \<longleftrightarrow> k = ''noul''"
  "answer_slot k = SlotChoice \<longleftrightarrow> k = ''choice''" "answer_slot k = SlotConfidence \<longleftrightarrow> k = ''confidence''"
  "answer_slot k = SlotScore \<longleftrightarrow> k = ''score''" "answer_slot k = SlotProbs \<longleftrightarrow> k = ''probabilities''"
  "answer_slot k = SlotLegend \<longleftrightarrow> k = ''legend''"
  by (auto simp: answer_slot_def)

lemma answer_opens:
  "s \<in> answer_slots \<Longrightarrow> open_slot b s \<noteq> None \<Longrightarrow> b \<and> (s = SlotProbs \<or> s = SlotLegend)"
  unfolding answer_slots_def by (elim insertE emptyE) (simp_all add: open_slot_def split: if_splits)

text \<open>The scratch after a value nobody enters.\<close>

definition cur_ok :: "amember \<Rightarrow> answer_scratch \<Rightarrow> answer_scratch" where
  "cur_ok m c = c\<lparr>sc_has := insert m (sc_has c), sc_wrong := sc_wrong c - {m}\<rparr>"

definition cur_wrong :: "amember \<Rightarrow> answer_scratch \<Rightarrow> answer_scratch" where
  "cur_wrong m c = c\<lparr>sc_wrong := insert m (sc_wrong c), sc_has := sc_has c - {m}\<rparr>"

lemma member_cur:
  "member_ok m v = v\<lparr>v_cur := cur_ok m (v_cur v)\<rparr>" "member_wrong m v = v\<lparr>v_cur := cur_wrong m (v_cur v)\<rparr>"
  by (simp_all add: member_ok_def member_wrong_def cur_ok_def cur_wrong_def)

fun leaf_cur :: "slot \<Rightarrow> jtree \<Rightarrow> answer_scratch \<Rightarrow> answer_scratch" where
  "leaf_cur SlotType t c = (case ref_string t of Val s \<Rightarrow> cur_ok MType (c\<lparr>sc_typ := s\<rparr>) | _ \<Rightarrow> cur_wrong MType c)"
| "leaf_cur SlotChoice t c = (case ref_string t of Val s \<Rightarrow> cur_ok MChoice (c\<lparr>sc_choice := s\<rparr>) | _ \<Rightarrow> cur_wrong MChoice c)"
| "leaf_cur SlotNoul t c = (case ref_number t of Val f \<Rightarrow> cur_ok MNoul (c\<lparr>sc_noul := f\<rparr>) | _ \<Rightarrow> cur_wrong MNoul c)"
| "leaf_cur SlotConfidence t c = (case ref_number t of Val f \<Rightarrow> cur_ok MConfidence (c\<lparr>sc_conf := f\<rparr>) | _ \<Rightarrow> cur_wrong MConfidence c)"
| "leaf_cur SlotScore t c = (case ref_number t of Val f \<Rightarrow> cur_ok MScore (c\<lparr>sc_score := f\<rparr>) | _ \<Rightarrow> cur_wrong MScore c)"
| "leaf_cur SlotProbs t c = cur_wrong MProbs c"
| "leaf_cur SlotLegend t c = cur_wrong MLegend c"
| "leaf_cur s t c = c"

definition leaf_ign_slot :: "jtree \<Rightarrow> visitor \<Rightarrow> slot" where
  "leaf_ign_slot t v = (case t of TArr ts \<Rightarrow> v_slot v | TObj ms \<Rightarrow> v_slot v | _ \<Rightarrow> v_ign_slot v)"

lemma same_fields: "v\<lparr>v_slot := s, v_ign_slot := v_ign_slot v\<rparr> = v\<lparr>v_slot := s\<rparr>"
  "v\<lparr>v_slot := s, v_cur := c, v_ign_slot := v_ign_slot v\<rparr> = v\<lparr>v_slot := s, v_cur := c\<rparr>"
  "v\<lparr>v_slot := s, v_cur := v_cur v\<rparr> = v\<lparr>v_slot := s\<rparr>"
  "v\<lparr>v_slot := s, v_ign_slot := i, v_cur := v_cur v\<rparr> = v\<lparr>v_slot := s, v_ign_slot := i\<rparr>"
  by (cases v, simp)+

lemma answer_leaf:
  assumes "v_stack v = CtrAnswer # st" "v_slot v \<in> answer_slots"
  shows "leaf_value t v = v\<lparr>v_slot := SlotNone, v_ign_slot := leaf_ign_slot t v, v_cur := leaf_cur (v_slot v) t (v_cur v)\<rparr>"
proof -
  have nc: "next_card (v\<lparr>v_slot := SlotNone\<rparr>) = v\<lparr>v_slot := SlotNone\<rparr>"
    using assms(1) by (simp add: next_card_def)
  have nc': "next_card (wrong_kind s c (v\<lparr>v_slot := SlotNone, v_ign_slot := i\<rparr>)) = wrong_kind s c (v\<lparr>v_slot := SlotNone, v_ign_slot := i\<rparr>)" for s c i
    using assms(1) by (simp add: next_card_def)
  show ?thesis
    using assms(2) unfolding answer_slots_def leaf_value_def null_core_def assign_def nc nc' leaf_ign_slot_def
    by (elim insertE emptyE; cases t) (simp_all add: member_cur same_fields split: option.split)
qed

lemma answer_leaf_frame:
  assumes "v_stack v = CtrAnswer # st" "v_ign v = 0" "v_slot v \<in> answer_slots"
  shows "v_stack (leaf_value t v) = CtrAnswer # st \<and> v_ign (leaf_value t v) = 0 \<and>
    v_slot (leaf_value t v) = SlotNone \<and> sc_name (v_cur (leaf_value t v)) = sc_name (v_cur v) \<and>
    mask_answer (leaf_value t v) = mask_answer v"
proof -
  have "sc_name (leaf_cur s t c) = sc_name c" for s c
    by (cases s) (simp_all add: cur_ok_def cur_wrong_def split: field.split)
  with assms show ?thesis by (simp add: answer_leaf mask_answer_def mask_value_def)
qed

lemma answer_leaf_views:
  assumes "v_stack v = CtrAnswer # st" "v_slot v \<in> answer_slots"
  shows "type_view (leaf_value t v) = (if v_slot v = SlotType then ref_string t else type_view v)"
    "noul_view (leaf_value t v) = (if v_slot v = SlotNoul then ref_number t else noul_view v)"
    "choice_view (leaf_value t v) = (if v_slot v = SlotChoice then ref_string t else choice_view v)"
    "conf_view (leaf_value t v) = (if v_slot v = SlotConfidence then ref_number t else conf_view v)"
    "score_view (leaf_value t v) = (if v_slot v = SlotScore then ref_number t else score_view v)"
    "probs_view (leaf_value t v) = (if v_slot v = SlotProbs then Wrong else probs_view v)"
    "legend_view (leaf_value t v) = (if v_slot v = SlotLegend then Wrong else legend_view v)"
proof -
  have no_absent: "ref_string t \<noteq> Absent" "ref_number t \<noteq> Absent"
    by (cases t; simp split: option.split)+
  show "type_view (leaf_value t v) = (if v_slot v = SlotType then ref_string t else type_view v)"
    "noul_view (leaf_value t v) = (if v_slot v = SlotNoul then ref_number t else noul_view v)"
    "choice_view (leaf_value t v) = (if v_slot v = SlotChoice then ref_string t else choice_view v)"
    "conf_view (leaf_value t v) = (if v_slot v = SlotConfidence then ref_number t else conf_view v)"
    "score_view (leaf_value t v) = (if v_slot v = SlotScore then ref_number t else score_view v)"
    "probs_view (leaf_value t v) = (if v_slot v = SlotProbs then Wrong else probs_view v)"
    "legend_view (leaf_value t v) = (if v_slot v = SlotLegend then Wrong else legend_view v)"
    unfolding answer_leaf [OF assms] using assms(2) no_absent unfolding answer_slots_def
    by (elim insertE emptyE; simp add: view_defs cur_ok_def cur_wrong_def split: field.split)+
qed

subsection \<open>Probabilities and legend as objects\<close>

lemma probs_inv_eq:
  assumes "probs_inv st v0 u"
  shows "u = v0\<lparr>v_slot := SlotNone, v_cur_key := v_cur_key u, v_ign_slot := v_ign_slot u, v_probs := v_probs u\<rparr>"
  using assms by (cases u; cases v0) (simp add: probs_inv_def mask_value_def)

lemma legend_inv_eq:
  assumes "legend_inv st v0 u"
  shows "u = v0\<lparr>v_slot := SlotNone, v_cur_key := v_cur_key u, v_ign_slot := v_ign_slot u, v_legend := v_legend u\<rparr>"
  using assms by (cases u; cases v0) (simp add: legend_inv_def mask_value_def)

lemma probs_object:
  assumes v: "v_stack v = CtrAnswer # st" "v_ign v = 0" "v_slot v = SlotProbs"
  shows "\<exists>k i. fold core (events (TObj ps)) v =
    v\<lparr>v_slot := SlotNone, v_cur_key := k, v_ign_slot := i, v_probs := map ref_prob ps, v_cur := cur_ok MProbs (v_cur v)\<rparr>"
proof -
  let ?b = "v\<lparr>v_slot := SlotNone, v_cur := cur_ok MProbs (v_cur v), v_probs := [], v_stack := CtrProbs # CtrAnswer # st\<rparr>"
  have b: "begin_core True v = ?b"
    using v by (simp add: begin_core_def open_slot_def member_cur)
  have "probs_inv (CtrAnswer # st) ?b ?b" using v by (simp add: probs_inv_def)
  from probs_members [OF this, of ps]
  have u: "probs_inv (CtrAnswer # st) ?b (fold member_core ps ?b)" "v_probs (fold member_core ps ?b) = map ref_prob ps"
    by simp_all
  obtain k i where "fold member_core ps ?b = ?b\<lparr>v_slot := SlotNone, v_cur_key := k, v_ign_slot := i, v_probs := map ref_prob ps\<rparr>"
    using probs_inv_eq [OF u(1)] u(2) by metis
  then show ?thesis
    using v unfolding object_core b
    by (intro exI [of _ k] exI [of _ i], cases v) (simp add: end_core_def next_card_def)
qed

lemma legend_object:
  assumes v: "v_stack v = CtrAnswer # st" "v_ign v = 0" "v_slot v = SlotLegend"
  shows "\<exists>k i. fold core (events (TObj ps)) v =
    v\<lparr>v_slot := SlotNone, v_cur_key := k, v_ign_slot := i, v_legend := map ref_legend_pair ps, v_cur := cur_ok MLegend (v_cur v)\<rparr>"
proof -
  let ?b = "v\<lparr>v_slot := SlotNone, v_cur := cur_ok MLegend (v_cur v), v_legend := [], v_stack := CtrLegend # CtrAnswer # st\<rparr>"
  have b: "begin_core True v = ?b"
    using v by (simp add: begin_core_def open_slot_def member_cur)
  have "legend_inv (CtrAnswer # st) ?b ?b" using v by (simp add: legend_inv_def)
  from legend_members [OF this, of ps]
  have u: "legend_inv (CtrAnswer # st) ?b (fold member_core ps ?b)" "v_legend (fold member_core ps ?b) = map ref_legend_pair ps"
    by simp_all
  obtain k i where "fold member_core ps ?b = ?b\<lparr>v_slot := SlotNone, v_cur_key := k, v_ign_slot := i, v_legend := map ref_legend_pair ps\<rparr>"
    using legend_inv_eq [OF u(1)] u(2) by metis
  then show ?thesis
    using v unfolding object_core b
    by (intro exI [of _ k] exI [of _ i], cases v) (simp add: end_core_def next_card_def)
qed

subsection \<open>One member\<close>

definition answer_views_of :: "bytes \<Rightarrow> jtree \<Rightarrow> visitor \<Rightarrow> visitor \<Rightarrow> bool" where
  "answer_views_of k t v w \<longleftrightarrow>
     type_view w = (if k = ''type'' then ref_string t else type_view v) \<and>
     noul_view w = (if k = ''noul'' then ref_number t else noul_view v) \<and>
     choice_view w = (if k = ''choice'' then ref_string t else choice_view v) \<and>
     conf_view w = (if k = ''confidence'' then ref_number t else conf_view v) \<and>
     score_view w = (if k = ''score'' then ref_number t else score_view v) \<and>
     probs_view w = (if k = ''probabilities'' then ref_probs t else probs_view v) \<and>
     legend_view w = (if k = ''legend'' then ref_legend t else legend_view v)"

lemma answer_member:
  assumes inv: "answer_inv name st v0 v"
  shows "answer_inv name st v0 (member_core (k, t) v) \<and> answer_views_of k t v (member_core (k, t) v)"
proof -
  from inv have v: "v_stack v = CtrAnswer # st" "v_ign v = 0" "mask_answer v = mask_answer v0" "sc_name (v_cur v) = name"
    by (simp_all add: answer_inv_def)
  let ?v = "v\<lparr>v_cur_key := k, v_slot := answer_slot k\<rparr>"
  have mc: "member_core (k, t) v = fold core (events t) ?v" using v by (simp add: member_core_def)
  have mask: "mask_answer ?v = mask_answer v" by (simp add: mask_answer_def mask_value_def)
  show ?thesis
  proof (cases "\<exists>ps. t = TObj ps \<and> (k = ''probabilities'' \<or> k = ''legend'')")
    case True
    then obtain ps where t: "t = TObj ps" "k = ''probabilities'' \<or> k = ''legend''" by blast
    from t(2) show ?thesis
    proof
      assume k: "k = ''probabilities''"
      then have "v_slot ?v = SlotProbs" by (simp add: answer_slot_iff)
      with probs_object [of ?v st ps] v obtain a i where "fold core (events t) ?v =
          ?v\<lparr>v_slot := SlotNone, v_cur_key := a, v_ign_slot := i, v_probs := map ref_prob ps, v_cur := cur_ok MProbs (v_cur ?v)\<rparr>"
        using t(1) by auto
      with v k t(1) show ?thesis
        unfolding mc answer_inv_def answer_views_of_def
        by (simp add: view_defs mask_answer_def mask_value_def cur_ok_def)
    next
      assume k: "k = ''legend''"
      then have "v_slot ?v = SlotLegend" by (simp add: answer_slot_iff)
      with legend_object [of ?v st ps] v obtain a i where "fold core (events t) ?v =
          ?v\<lparr>v_slot := SlotNone, v_cur_key := a, v_ign_slot := i, v_legend := map ref_legend_pair ps, v_cur := cur_ok MLegend (v_cur ?v)\<rparr>"
        using t(1) by auto
      with v k t(1) show ?thesis
        unfolding mc answer_inv_def answer_views_of_def
        by (simp add: view_defs mask_answer_def mask_value_def cur_ok_def)
    qed
  next
    case False
    have noobj: "k = ''probabilities'' \<Longrightarrow> ref_probs t = Wrong" "k = ''legend'' \<Longrightarrow> ref_legend t = Wrong"
      using False by (cases t; auto)+
    have "\<not> enters (answer_slot k) t"
    proof
      assume "enters (answer_slot k) t"
      then obtain b where b: "open_slot b (answer_slot k) \<noteq> None" "b \<Longrightarrow> \<exists>ps. t = TObj ps"
        by (cases t) fastforce+
      from answer_opens [OF answer_slot_in b(1)] b(2) False show False
        unfolding answer_slot_iff by blast
    qed
    then have leaf: "fold core (events t) ?v = leaf_value t ?v" using v by (intro leaf_core) simp_all
    have "v_stack ?v = CtrAnswer # st" "v_ign ?v = 0" "v_slot ?v \<in> answer_slots"
      using v answer_slot_in by simp_all
    note frame = answer_leaf_frame [OF this, of t] and views = answer_leaf_views [OF this(1,3), of t]
    have same: "type_view ?v = type_view v" "noul_view ?v = noul_view v" "choice_view ?v = choice_view v"
      "conf_view ?v = conf_view v" "score_view ?v = score_view v" "probs_view ?v = probs_view v"
      "legend_view ?v = legend_view v" by (simp_all add: view_defs)
    have slot: "v_slot ?v = answer_slot k" "sc_name (v_cur ?v) = sc_name (v_cur v)" by simp_all
    have "answer_inv name st v0 (leaf_value t ?v)"
      using frame v mask unfolding answer_inv_def slot by simp
    moreover have "answer_views_of k t v (leaf_value t ?v)"
      unfolding answer_views_of_def views same slot answer_slot_iff
      by (intro conjI) (rule refl | simp only: noobj cong: if_cong)+
    ultimately show ?thesis unfolding mc leaf by blast
  qed
qed

section \<open>All members of an answer\<close>

lemma field_last:
  assumes "\<And>k t v. I v \<Longrightarrow> I (f (k, t) v) \<and> get (f (k, t) v) = (if k = K then g t else get v)" and "I v" and "get v = Absent"
  shows "get (fold f kvs v) = field_of g kvs K"
  using fold_last [of I f get K g v kvs, OF assms(1,2)] assms(3)
  by (simp add: field_of_def split: option.split)

lemma answer_members:
  assumes "answer_inv name st v0 v"
  shows "answer_inv name st v0 (fold member_core ms v)"
    and "type_view v = Absent \<Longrightarrow> type_view (fold member_core ms v) = field_of ref_string ms ''type''"
    and "noul_view v = Absent \<Longrightarrow> noul_view (fold member_core ms v) = field_of ref_number ms ''noul''"
    and "choice_view v = Absent \<Longrightarrow> choice_view (fold member_core ms v) = field_of ref_string ms ''choice''"
    and "conf_view v = Absent \<Longrightarrow> conf_view (fold member_core ms v) = field_of ref_number ms ''confidence''"
    and "score_view v = Absent \<Longrightarrow> score_view (fold member_core ms v) = field_of ref_number ms ''score''"
    and "probs_view v = Absent \<Longrightarrow> probs_view (fold member_core ms v) = field_of ref_probs ms ''probabilities''"
    and "legend_view v = Absent \<Longrightarrow> legend_view (fold member_core ms v) = field_of ref_legend ms ''legend''"
proof -
  note last = field_last [where I = "answer_inv name st v0" and f = member_core and v = v and kvs = ms, OF _ assms]
  note member = answer_member [unfolded answer_views_of_def]
  show "answer_inv name st v0 (fold member_core ms v)"
    using fold_keep [where I = "answer_inv name st v0" and f = member_core and v = v and kvs = ms and get = "\<lambda>_. ()"]
      answer_member assms by blast
  show "type_view v = Absent \<Longrightarrow> type_view (fold member_core ms v) = field_of ref_string ms ''type''"
    by (rule last) (use member in blast)
  show "noul_view v = Absent \<Longrightarrow> noul_view (fold member_core ms v) = field_of ref_number ms ''noul''"
    by (rule last) (use member in blast)
  show "choice_view v = Absent \<Longrightarrow> choice_view (fold member_core ms v) = field_of ref_string ms ''choice''"
    by (rule last) (use member in blast)
  show "conf_view v = Absent \<Longrightarrow> conf_view (fold member_core ms v) = field_of ref_number ms ''confidence''"
    by (rule last) (use member in blast)
  show "score_view v = Absent \<Longrightarrow> score_view (fold member_core ms v) = field_of ref_number ms ''score''"
    by (rule last) (use member in blast)
  show "probs_view v = Absent \<Longrightarrow> probs_view (fold member_core ms v) = field_of ref_probs ms ''probabilities''"
    by (rule last) (use member in blast)
  show "legend_view v = Absent \<Longrightarrow> legend_view (fold member_core ms v) = field_of ref_legend ms ''legend''"
    by (rule last) (use member in blast)
qed

section \<open>The entry\<close>

definition clean :: "entry \<Rightarrow> entry" where
  "clean e = (if en_err e = None then e else (new_entry (en_name e))\<lparr>en_err := en_err e\<rparr>)"

lemma need_view:
  "need name n err (field_view m v x) =
     (if m \<in> sc_wrong (v_cur v) then Inl (answer_fail name n err)
      else if m \<notin> sc_has (v_cur v) then Inl (answer_fail name n ErrMissing) else Inr x)"
  by (simp add: need_def field_view_def)

lemma answer_pend_fail: "answer_pend name n err = Some (answer_fail name n err)"
  by (simp add: answer_pend_def answer_fail_def)

lemma key_pend_fail: "key_pend name n key err = Some (key_fail name n key err)"
  by (simp add: key_pend_def key_fail_def)

text \<open>One member of a schema, with what the rest of the schema does.\<close>

lemma check_simple:
  assumes "m \<noteq> MLegend" "m \<noteq> MProbs"
  shows "check_members ps ls a ((m, n) # ms) e =
     (if m \<in> sc_wrong a then e\<lparr>en_err := Some (answer_fail (sc_name a) n (wrong_kind_err m))\<rparr>
      else if m \<notin> sc_has a then e\<lparr>en_err := Some (answer_fail (sc_name a) n ErrMissing)\<rparr>
      else check_members ps ls a ms e)"
  using assms by (simp add: answer_pend_fail)

lemma check_legend:
  "check_members ps ls a ((MLegend, n) # ms) e =
     (if MLegend \<in> sc_wrong a then e\<lparr>en_err := Some (answer_fail (sc_name a) n ErrNotObject)\<rparr>
      else if MLegend \<notin> sc_has a then e\<lparr>en_err := Some (answer_fail (sc_name a) n ErrMissing)\<rparr>
      else case ref_fold legend_folder (en_name e) ''legend'' ErrLegendValue ls of
          Inl f \<Rightarrow> e\<lparr>en_err := Some f\<rparr>
        | Inr t \<Rightarrow> check_members ps ls a ms
            (e\<lparr>en_structured := en_structured e + length (filter (\<lambda>d. cjson (le_description d) \<noteq> None) t),
              en_ans := (en_ans e)\<lparr>ans_score := (ans_score (en_ans e))\<lparr>legend := t\<rparr>\<rparr>\<rparr>))"
  by (auto simp: answer_pend_fail fold_legend_eq ref_fold_def key_pend_fail split: sum.split prod.split)

lemma labels_not_key: "python_fold labels_folder ps = Inl (k, b) \<Longrightarrow> \<not> b"
  by (auto simp: python_fold_def python_failure_def labels_folder_def split: option.splits)

lemma check_probs:
  "check_members ps ls a [(MProbs, n)] e =
     (if MProbs \<in> sc_wrong a then e\<lparr>en_err := Some (answer_fail (sc_name a) n ErrNotObject)\<rparr>
      else if MProbs \<notin> sc_has a then e\<lparr>en_err := Some (answer_fail (sc_name a) n ErrMissing)\<rparr>
      else if ans_kind (en_ans e) = KindChoice then
        (case ref_fold labels_folder (en_name e) ''probabilities'' ErrNotNumber ps of
          Inl f \<Rightarrow> e\<lparr>en_err := Some f\<rparr>
        | Inr t \<Rightarrow> e\<lparr>en_ans := (en_ans e)\<lparr>ans_choice := (ans_choice (en_ans e))\<lparr>choice_probabilities := t\<rparr>\<rparr>\<rparr>)
      else
        (case ref_fold levels_folder (en_name e) ''probabilities'' ErrNotNumber ps of
          Inl f \<Rightarrow> e\<lparr>en_err := Some f\<rparr>
        | Inr t \<Rightarrow> e\<lparr>en_ans := (en_ans e)\<lparr>ans_score := (ans_score (en_ans e))\<lparr>score_probabilities := t\<rparr>\<rparr>\<rparr>))"
  by (auto simp: answer_pend_fail fold_levels_eq fold_labels_eq ref_fold_def key_pend_fail
      split: sum.split prod.split dest: labels_not_key)

definition answer_fields :: "bytes \<Rightarrow> (bytes \<times> jtree) list \<Rightarrow> visitor \<Rightarrow> bool" where
  "answer_fields name ms w \<longleftrightarrow> sc_name (v_cur w) = name \<and>
     type_view w = field_of ref_string ms ''type'' \<and> noul_view w = field_of ref_number ms ''noul'' \<and>
     choice_view w = field_of ref_string ms ''choice'' \<and> conf_view w = field_of ref_number ms ''confidence'' \<and>
     score_view w = field_of ref_number ms ''score'' \<and> probs_view w = field_of ref_probs ms ''probabilities'' \<and>
     legend_view w = field_of ref_legend ms ''legend''"

text \<open>What becomes of the entry after its schema: its failure, or its values stored.\<close>

definition store :: "answer_scratch \<Rightarrow> entry \<Rightarrow> entry" where
  "store a e = clean (if en_err e \<noteq> None then e else e\<lparr>en_ans := answer_value a (en_ans e)\<rparr>)"

lemma store_failed: "store a (e\<lparr>en_err := Some f\<rparr>) = (new_entry (en_name e))\<lparr>en_err := Some f\<rparr>"
  by (simp add: store_def clean_def)

lemma store_stored: "en_err e = None \<Longrightarrow> store a e = e\<lparr>en_ans := answer_value a (en_ans e)\<rparr>"
  by (simp add: store_def clean_def)

lemma store_if: "store a (if b then x else y) = (if b then store a x else store a y)"
  by simp

lemma store_sum: "store a (case r of Inl x \<Rightarrow> f x | Inr y \<Rightarrow> g y) = (case r of Inl x \<Rightarrow> store a (f x) | Inr y \<Rightarrow> store a (g y))"
  by (cases r) simp_all

lemma rbind_if: "rbind (if b then Inl x else r) f = (if b then Inl x else rbind r f)"
  by simp

lemma rmap_if: "rmap f (if b then Inl x else r) = (if b then Inl x else rmap f r)"
  by simp

lemma known_entry:
  assumes f: "answer_fields name ms w" and k: "k \<noteq> KindUnknown"
  shows "store (v_cur w) (check_members (v_probs w) (v_legend w) (v_cur w) (schema k)
        ((new_entry name)\<lparr>en_ans := zero_answer\<lparr>ans_kind := k\<rparr>\<rparr>)) =
    (case ref_answer name ms k of
       Inl e \<Rightarrow> (new_entry name)\<lparr>en_err := Some e\<rparr>
     | Inr a \<Rightarrow> (new_entry name)\<lparr>en_ans := a, en_structured := structured_levels a\<rparr>)"
proof -
  from f have eqs: "sc_name (v_cur w) = name"
    "field_of ref_number ms ''noul'' = noul_view w" "field_of ref_string ms ''choice'' = choice_view w"
    "field_of ref_number ms ''confidence'' = conf_view w" "field_of ref_number ms ''score'' = score_view w"
    "field_of ref_probs ms ''probabilities'' = probs_view w" "field_of ref_legend ms ''legend'' = legend_view w"
    by (simp_all add: answer_fields_def)
  have new: "en_name (new_entry name) = name" "en_err (new_entry name) = None" "en_structured (new_entry name) = 0"
    by (simp_all add: new_entry_def)
  note views = noul_view_def choice_view_def conf_view_def score_view_def probs_view_def legend_view_def
  note defs = eqs views need_view new store_failed store_stored store_if store_sum rbind_if rmap_if
  note last = zero_answer_def structured_levels_def answer_value_def new_entry_def
  let ?bad = "\<lambda>m. m \<in> sc_wrong (v_cur w) \<or> m \<notin> sc_has (v_cur w)"
  show ?thesis
  proof (cases k)
    case KindNoul
    then show ?thesis
      by (simp add: defs check_simple del: check_members.simps(2)) (simp add: last)
  next
    case KindChoice
    show ?thesis
    proof (cases "?bad MChoice \<or> ?bad MConfidence \<or> ?bad MProbs")
      case True
      then show ?thesis
        unfolding KindChoice schema.simps ref_answer.simps
        by (elim disjE) (simp_all add: defs check_simple check_probs del: check_members.simps(2))
    next
      case False
      then show ?thesis
        unfolding KindChoice schema.simps ref_answer.simps
        by (cases "ref_fold labels_folder name ''probabilities'' ErrNotNumber (v_probs w)")
          (simp_all add: defs check_simple check_probs del: check_members.simps(2), simp_all add: last)
    qed
  next
    case KindScore
    show ?thesis
    proof (cases "?bad MScore \<or> ?bad MConfidence \<or> ?bad MLegend")
      case True
      then show ?thesis
        unfolding KindScore schema.simps ref_answer.simps
        by (elim disjE) (simp_all add: defs check_simple check_legend del: check_members.simps(2))
    next
      case ok: False
      show ?thesis
      proof (cases "ref_fold legend_folder name ''legend'' ErrLegendValue (v_legend w)")
        case (Inl e)
        with ok show ?thesis
          unfolding KindScore schema.simps ref_answer.simps
          by (simp add: defs check_simple check_legend del: check_members.simps(2))
      next
        case (Inr t)
        with ok show ?thesis
          unfolding KindScore schema.simps ref_answer.simps
          by (cases "?bad MProbs"; cases "ref_fold levels_folder name ''probabilities'' ErrNotNumber (v_probs w)")
            (simp_all add: defs check_simple check_legend check_probs del: check_members.simps(2), simp_all add: last)
      qed
    qed
  qed (use k in simp)
qed

lemma answer_entry_ref:
  assumes f: "answer_fields name ms w"
  shows "clean (answer_entry_of (v_probs w) (v_legend w) (v_cur w)) = ref_entry name (TObj ms)"
proof -
  from f have name: "sc_name (v_cur w) = name" and ty: "field_of ref_string ms ''type'' = field_view MType w (sc_typ (v_cur w))"
    by (simp_all add: answer_fields_def type_view_def)
  show ?thesis
  proof (cases "MType \<in> sc_wrong (v_cur w) \<or> MType \<notin> sc_has (v_cur w)")
    case True
    then show ?thesis
      by (auto simp: answer_entry_of_def ty need_view name clean_def new_entry_def answer_pend_fail)
  next
    case False
    let ?k = "parse_kind (sc_typ (v_cur w))"
    from False have ref: "ref_entry name (TObj ms) = ref_typed name ms (sc_typ (v_cur w))" by (simp add: ty need_view)
    have ans: "en_ans (new_entry name) = zero_answer" by (simp add: new_entry_def)
    show ?thesis
    proof (cases "?k = KindUnknown")
      case True
      with False show ?thesis
        unfolding ref ref_typed_def
        by (simp add: answer_entry_of_def name ans Let_def) (simp add: clean_def new_entry_def zero_answer_def)
    next
      case kn: False
      with False have "clean (answer_entry_of (v_probs w) (v_legend w) (v_cur w)) =
          store (v_cur w) (check_members (v_probs w) (v_legend w) (v_cur w) (schema ?k)
            ((new_entry name)\<lparr>en_ans := zero_answer\<lparr>ans_kind := ?k\<rparr>\<rparr>))"
        by (simp add: answer_entry_of_def store_def name ans Let_def)
      with known_entry [OF f kn] kn show ?thesis unfolding ref ref_typed_def by (simp only: if_False)
    qed
  qed
qed

section \<open>The answer set\<close>

definition set_inv :: "visitor \<Rightarrow> bool" where
  "set_inv v \<longleftrightarrow> distinct (map en_name (v_set v)) \<and> (\<forall>m. v_idx v = Some m \<longrightarrow> index_ok en_name (v_set v) m)"

interpretation vset: keyed_list v_set en_name set_find set_inv
  by unfold_locales (auto simp: set_inv_def set_find_def index_ok_def split: option.splits)

definition set_dict :: "visitor \<Rightarrow> (bytes \<times> entry) list" where
  "set_dict v = map (\<lambda>e. (en_name e, clean e)) (v_set v)"

lemma put_entry_set:
  assumes inv: "set_inv v"
  shows "set_inv (put_entry e v) \<and> set_dict (put_entry e v) = AList.update (en_name e) (clean e) (set_dict v)"
proof (cases "set_find v (en_name e)")
  case None
  with vset.search_None [OF inv] have new: "en_name e \<notin> en_name ` set (v_set v)" by blast
  with inv have d: "distinct (map en_name (v_set v @ [e]))" by (simp add: set_inv_def)
  have idx: "index_ok en_name (v_set v @ [e]) (m(en_name e \<mapsto> length (v_set v)))" if "v_idx v = Some m" for m
    using index_ok_append [of en_name "v_set v" m e] that inv None by (simp add: set_inv_def set_find_def)
  from new have "en_name e \<notin> fst ` set (set_dict v)" by (auto simp: set_dict_def)
  from update_append_new [OF this] d idx index_of_ok [OF d] None show ?thesis
    by (auto simp: put_entry_def set_inv_def set_dict_def Let_def simp del: fun_upd_apply split: option.splits)
next
  case (Some i)
  from vset.search_bound [OF inv Some] have i: "i < length (v_set v)" "en_name (v_set v ! i) = en_name e" by blast+
  then have names: "map en_name ((v_set v)[i := e]) = map en_name (v_set v)"
    by (metis list_update_id map_update)
  have upd: "find_index (\<lambda>x. en_name x = k) es = Some i \<Longrightarrow> map (\<lambda>e. (en_name e, clean e)) (es[i := e]) =
      AList.update k (clean e) (map (\<lambda>e. (en_name e, clean e)) es)" if "en_name e = k" for k es i
    using that by (induction es arbitrary: i) (auto split: if_splits nat.splits)
  from Some inv have "find_index (\<lambda>x. en_name x = en_name e) (v_set v) = Some i"
    by (simp add: vset.search_scan)
  from upd [OF refl this] have "set_dict (put_entry e v) = AList.update (en_name e) (clean e) (set_dict v)"
    by (simp add: put_entry_def Some set_dict_def)
  moreover have "index_ok en_name ((v_set v)[i := e]) m" if "v_idx v = Some m" for m
    using inv that by (intro index_ok_update) (simp_all add: set_inv_def i)
  ultimately show ?thesis using inv names by (simp add: put_entry_def Some set_inv_def)
qed

lemma clean_name [simp]: "en_name (clean e) = en_name e"
  by (simp add: clean_def new_entry_def)

end
