(* ===== verification/Codec_Decoded.thy ===== *)
theory Codec_Decoded
  imports Codec_Answer
begin

text \<open>
  The answers of a response, the cards of a models list, and the root: what a traversal of the
  whole body leaves in the visitor, against the reference of \<open>Codec_Reference\<close>.
\<close>

section \<open>The answers object\<close>

definition mask_answers :: "visitor \<Rightarrow> visitor" where
  "mask_answers v = (mask_answer v)\<lparr>v_set := [], v_idx := None\<rparr>"

definition answers_inv :: "ctr list \<Rightarrow> visitor \<Rightarrow> visitor \<Rightarrow> bool" where
  "answers_inv st v0 v \<longleftrightarrow>
     v_stack v = CtrAnswers # st \<and> v_ign v = 0 \<and> v_slot v = SlotNone \<and> set_inv v \<and>
     mask_answers v = mask_answers v0"

lemma ref_entry_name [simp]: "en_name (ref_entry k t) = k"
  by (cases t) (auto simp: new_entry_def ref_typed_def split: sum.split)

lemma put_entry_frame:
  "v_stack (put_entry e v) = v_stack v" "v_ign (put_entry e v) = v_ign v" "v_slot (put_entry e v) = v_slot v"
  "mask_answers (put_entry e v) = mask_answers v"
  by (simp_all add: put_entry_def mask_answers_def mask_answer_def mask_value_def Let_def split: option.split)

lemma set_inv_cong: "v_set w = v_set v \<Longrightarrow> v_idx w = v_idx v \<Longrightarrow> set_inv w = set_inv v \<and> set_dict w = set_dict v"
  by (simp add: set_inv_def set_dict_def)

lemma mask_answer_set:
  assumes "mask_answer w = mask_answer v"
  shows "v_set w = v_set v" "v_idx w = v_idx v" "mask_answers w = mask_answers v"
  using assms by (cases w; cases v; simp add: mask_answers_def mask_answer_def mask_value_def)+

lemma answers_object_member:
  assumes v: "v_stack v = CtrAnswers # st" "v_ign v = 0" "v_slot v = SlotAnswer" "v_cur_key v = k" and inv: "set_inv v"
  shows "\<exists>u e. fold core (events (TObj ms)) v = put_entry e u \<and> clean e = ref_entry k (TObj ms) \<and>
    v_stack u = CtrAnswers # st \<and> v_ign u = 0 \<and> v_slot u = SlotNone \<and> set_inv u \<and> set_dict u = set_dict v \<and>
    mask_answers u = mask_answers v"
proof -
  let ?b = "v\<lparr>v_slot := SlotNone, v_cur := new_scratch k, v_stack := CtrAnswer # CtrAnswers # st\<rparr>"
  have b: "begin_core True v = ?b" using v by (simp add: begin_core_def open_slot_def)
  have ans: "answer_inv k (CtrAnswers # st) ?b ?b" using v by (simp add: answer_inv_def new_scratch_def)
  define u where "u = fold member_core ms ?b"
  note members = answer_members [OF ans, of ms, folded u_def]
  have fields: "answer_fields k ms u"
    using members by (simp add: answer_fields_def answer_inv_def view_defs new_scratch_def)
  from members(1) have u: "v_stack u = CtrAnswer # CtrAnswers # st" "v_ign u = 0" "v_slot u = SlotNone"
    and mask: "mask_answer u = mask_answer ?b" by (simp_all add: answer_inv_def)
  let ?u = "u\<lparr>v_stack := CtrAnswers # st\<rparr>"
  from mask have "mask_answer ?u = mask_answer v"
    using v by (cases u; cases v) (simp add: mask_answer_def mask_value_def)
  note same = mask_answer_set [OF this]
  have "fold core (events (TObj ms)) v = put_entry (answer_entry_of (v_probs u) (v_legend u) (v_cur u)) ?u"
    unfolding object_core b u_def [symmetric]
    using u by (simp add: end_core_def next_card_def put_entry_frame commit_answer_def)
  moreover have "set_inv ?u" "set_dict ?u = set_dict v" using set_inv_cong [OF same(1,2)] inv by simp_all
  ultimately show ?thesis
    using answer_entry_ref [OF fields] u same(3)
    by (intro exI [of _ ?u] exI [of _ "answer_entry_of (v_probs u) (v_legend u) (v_cur u)"]) simp
qed

lemma answers_leaf_member:
  assumes v: "v_stack v = CtrAnswers # st" "v_ign v = 0" "v_slot v = SlotAnswer" "v_cur_key v = k" and inv: "set_inv v"
    and t: "\<And>ms. t \<noteq> TObj ms"
  shows "\<exists>u e. fold core (events t) v = put_entry e u \<and> clean e = ref_entry k t \<and>
    v_stack u = CtrAnswers # st \<and> v_ign u = 0 \<and> v_slot u = SlotNone \<and> set_inv u \<and> set_dict u = set_dict v \<and>
    mask_answers u = mask_answers v"
proof -
  let ?e = "(new_entry k)\<lparr>en_err := answer_pend k ''type'' ErrNotObject\<rparr>"
  let ?u = "v\<lparr>v_slot := SlotNone, v_ign_slot := leaf_ign_slot t v\<rparr>"
  have "\<not> enters SlotAnswer t" using t by (cases t) (auto simp: open_slot_def)
  with v have "fold core (events t) v = leaf_value t v" by (intro leaf_core) simp_all
  also have "leaf_value t v = put_entry ?e ?u"
    using v t by (cases t) (auto simp: leaf_defs put_entry_frame leaf_ign_slot_def same_fields)
  finally have "fold core (events t) v = put_entry ?e ?u" .
  moreover have "clean ?e = ref_entry k t"
    using t by (cases t) (auto simp: clean_def new_entry_def answer_pend_fail)
  moreover have "set_inv ?u" "set_dict ?u = set_dict v"
    using set_inv_cong [of ?u v] inv by simp_all
  moreover have "mask_answers ?u = mask_answers v" by (simp add: mask_answers_def mask_answer_def mask_value_def)
  ultimately show ?thesis using v by (intro exI [of _ ?u] exI [of _ ?e]) simp
qed

lemma answers_member:
  assumes inv: "answers_inv st v0 v"
  shows "answers_inv st v0 (member_core (k, t) v) \<and>
    set_dict (member_core (k, t) v) = AList.update k (ref_entry k t) (set_dict v)"
proof -
  let ?v = "v\<lparr>v_cur_key := k, v_slot := SlotAnswer\<rparr>"
  have mc: "member_core (k, t) v = fold core (events t) ?v"
    using inv by (simp add: member_core_def answers_inv_def)
  have same: "set_inv ?v" "set_dict ?v = set_dict v" "mask_answers ?v = mask_answers v0"
    using inv set_inv_cong [of ?v v]
    by (simp_all add: answers_inv_def) (simp add: mask_answers_def mask_answer_def mask_value_def)
  have v: "v_stack ?v = CtrAnswers # st" "v_ign ?v = 0" "v_slot ?v = SlotAnswer" "v_cur_key ?v = k"
    using inv by (simp_all add: answers_inv_def)
  have "\<exists>u e. fold core (events t) ?v = put_entry e u \<and> clean e = ref_entry k t \<and>
    v_stack u = CtrAnswers # st \<and> v_ign u = 0 \<and> v_slot u = SlotNone \<and> set_inv u \<and> set_dict u = set_dict ?v \<and>
    mask_answers u = mask_answers ?v"
  proof (cases "\<exists>ms. t = TObj ms")
    case True
    with answers_object_member [OF v same(1)] show ?thesis by blast
  next
    case False
    with answers_leaf_member [OF v same(1)] show ?thesis by blast
  qed
  then obtain u e where u: "fold core (events t) ?v = put_entry e u" "clean e = ref_entry k t"
    "v_stack u = CtrAnswers # st" "v_ign u = 0" "v_slot u = SlotNone" "set_inv u" "set_dict u = set_dict v"
    "mask_answers u = mask_answers v0" unfolding same by blast
  from u(2) have "en_name e = k" by (metis clean_name ref_entry_name)
  with put_entry_set [OF u(6), of e] u show ?thesis
    unfolding mc by (simp add: answers_inv_def put_entry_frame)
qed

lemma answers_members:
  assumes "answers_inv st v0 v" and "set_dict v = []"
  shows "answers_inv st v0 (fold member_core ms v) \<and> set_dict (fold member_core ms v) = ref_answers ms"
proof (induction ms rule: rev_induct)
  case Nil
  with assms show ?case by (simp add: ref_answers_def)
next
  case (snoc kt ms)
  obtain k t where "kt = (k, t)" by (cases kt)
  with snoc answers_member [of st v0 "fold member_core ms v" k t] show ?case by (simp add: ref_answers_def)
qed

section \<open>A model card\<close>

definition card_slots :: "slot set" where
  "card_slots = {SlotCardName, SlotCardDescription, SlotCardReleaseDate, SlotIgnore}"

definition card_view :: "cmember \<Rightarrow> (model_card \<Rightarrow> bytes) \<Rightarrow> visitor \<Rightarrow> bytes field" where
  "card_view m get v =
     (if m \<in> v_card_bad v then Wrong else if m \<in> v_card_has v then Val (get (v_card v)) else Absent)"

definition card_inv :: "ctr list \<Rightarrow> visitor \<Rightarrow> visitor \<Rightarrow> bool" where
  "card_inv st v0 v \<longleftrightarrow>
     v_stack v = CtrCard # st \<and> v_ign v = 0 \<and> v_slot v = SlotNone \<and> v_card_has v \<inter> v_card_bad v = {} \<and>
     (mask_value v)\<lparr>v_card := zero_card, v_card_has := {}, v_card_bad := {}\<rparr> =
     (mask_value v0)\<lparr>v_card := zero_card, v_card_has := {}, v_card_bad := {}\<rparr>"

lemma card_slot_in: "card_slot k \<in> card_slots"
  by (simp add: card_slot_def card_slots_def)

lemma card_slot_iff:
  "card_slot k = SlotCardName \<longleftrightarrow> k = ''name''" "card_slot k = SlotCardDescription \<longleftrightarrow> k = ''description''"
  "card_slot k = SlotCardReleaseDate \<longleftrightarrow> k = ''release_date''"
  by (auto simp: card_slot_def)

lemma card_opens: "s \<in> card_slots \<Longrightarrow> open_slot b s = None"
  unfolding card_slots_def by (elim insertE emptyE) (simp_all add: open_slot_def)

lemma card_member:
  assumes inv: "card_inv st v0 v"
  shows "card_inv st v0 (member_core (k, t) v) \<and>
    card_view CName mc_name (member_core (k, t) v) = (if k = ''name'' then ref_string t else card_view CName mc_name v) \<and>
    card_view CDescription mc_description (member_core (k, t) v) =
      (if k = ''description'' then ref_string t else card_view CDescription mc_description v) \<and>
    card_view CReleaseDate mc_release_date (member_core (k, t) v) =
      (if k = ''release_date'' then ref_string t else card_view CReleaseDate mc_release_date v)"
proof -
  let ?s = "card_slot k" and ?v = "v\<lparr>v_cur_key := k, v_slot := card_slot k\<rparr>"
  have "\<not> enters ?s t" by (cases t) (simp_all add: card_opens card_slot_in)
  with inv have mc: "member_core (k, t) v = leaf_value t ?v"
    by (simp add: card_inv_def member_leaf)
  have leaf: "leaf_value t ?v = (case ref_string t of
      Val x \<Rightarrow> (if ?s = SlotCardName then card_ok CName (?v\<lparr>v_slot := SlotNone, v_card := (v_card v)\<lparr>mc_name := x\<rparr>\<rparr>)
        else if ?s = SlotCardDescription then card_ok CDescription (?v\<lparr>v_slot := SlotNone, v_card := (v_card v)\<lparr>mc_description := x\<rparr>\<rparr>)
        else if ?s = SlotCardReleaseDate then card_ok CReleaseDate (?v\<lparr>v_slot := SlotNone, v_card := (v_card v)\<lparr>mc_release_date := x\<rparr>\<rparr>)
        else ?v\<lparr>v_slot := SlotNone\<rparr>)
    | _ \<Rightarrow> (if ?s = SlotCardName then card_wrong CName (?v\<lparr>v_slot := SlotNone, v_ign_slot := leaf_ign_slot t ?v\<rparr>)
        else if ?s = SlotCardDescription then card_wrong CDescription (?v\<lparr>v_slot := SlotNone, v_ign_slot := leaf_ign_slot t ?v\<rparr>)
        else if ?s = SlotCardReleaseDate then card_wrong CReleaseDate (?v\<lparr>v_slot := SlotNone, v_ign_slot := leaf_ign_slot t ?v\<rparr>)
        else ?v\<lparr>v_slot := SlotNone, v_ign_slot := leaf_ign_slot t ?v\<rparr>))"
    using card_slot_in [of k] inv unfolding card_slots_def card_inv_def
    by (elim insertE emptyE conjE; cases t)
      (simp_all add: leaf_value_def null_core_def assign_def next_card_def card_ok_def card_wrong_def leaf_ign_slot_def same_fields)
  have no_absent: "ref_string t \<noteq> Absent" by (cases t) simp_all
  show ?thesis
    unfolding mc leaf using no_absent inv
    by (cases "ref_string t"; cases "k = ''name''"; cases "k = ''description''"; cases "k = ''release_date''")
      (simp_all add: card_slot_iff card_view_def card_inv_def card_ok_def card_wrong_def mask_value_def Int_insert_left
        Int_insert_right Diff_Int_distrib Diff_Int_distrib2)
qed

lemma card_members:
  assumes "card_inv st v0 v" and "v_card_has v = {}" "v_card_bad v = {}"
    and w_def: "w = fold member_core ms v"
  shows "card_inv st v0 w" "card_view CName mc_name w = field_of ref_string ms ''name''"
    "card_view CDescription mc_description w = field_of ref_string ms ''description''"
    "card_view CReleaseDate mc_release_date w = field_of ref_string ms ''release_date''"
proof -
  note last = field_last [where I = "card_inv st v0" and f = member_core and v = v and kvs = ms, OF _ assms(1), folded w_def]
  have absent: "card_view m get v = Absent" for m get using assms(2,3) by (simp add: card_view_def)
  show "card_inv st v0 w"
    unfolding w_def using fold_keep [where I = "card_inv st v0" and f = member_core and v = v and kvs = ms and get = "\<lambda>_. ()"]
      card_member assms(1) by blast
  show "card_view CName mc_name w = field_of ref_string ms ''name''"
    by (rule last) (use card_member absent in blast)+
  show "card_view CDescription mc_description w = field_of ref_string ms ''description''"
    by (rule last) (use card_member absent in blast)+
  show "card_view CReleaseDate mc_release_date w = field_of ref_string ms ''release_date''"
    by (rule last) (use card_member absent in blast)+
qed

section \<open>The models array\<close>

definition mask_cards :: "visitor \<Rightarrow> visitor" where
  "mask_cards v = (mask_value v)\<lparr>v_card := zero_card, v_card_has := {}, v_card_bad := {}, v_cards := [], v_cards_err := None\<rparr>"

definition cards_inv :: "ctr list \<Rightarrow> visitor \<Rightarrow> visitor \<Rightarrow> bool" where
  "cards_inv st v0 v \<longleftrightarrow>
     v_stack v = CtrModels # st \<and> v_ign v = 0 \<and> v_slot v = SlotCard \<and> mask_cards v = mask_cards v0"

lemma card_pend_fail: "card_pend i n err = Some (card_fail i n err)"
  by (simp add: card_pend_def card_fail_def)

definition card_added :: "visitor \<Rightarrow> jtree \<Rightarrow> visitor \<Rightarrow> bool" where
  "card_added v t w \<longleftrightarrow>
     (\<exists>c. v_cards w = v_cards v @ [c] \<and> (\<forall>c'. ref_card (length (v_cards v)) t = Inr c' \<longrightarrow> c = c')) \<and>
     v_cards_err w = (if v_cards_err v \<noteq> None then v_cards_err v
       else case ref_card (length (v_cards v)) t of Inl e \<Rightarrow> Some e | Inr c \<Rightarrow> None)"

lemma card_inv_eq:
  assumes "card_inv st v0 u"
  shows "u = v0\<lparr>v_slot := SlotNone, v_cur_key := v_cur_key u, v_ign_slot := v_ign_slot u,
    v_card := v_card u, v_card_has := v_card_has u, v_card_bad := v_card_bad u\<rparr>"
  using assms by (cases u; cases v0) (simp add: card_inv_def mask_value_def)

lemma card_failure_views:
  assumes "card_view CName mc_name w = field_of ref_string ms ''name''"
    "card_view CDescription mc_description w = field_of ref_string ms ''description''"
    "card_view CReleaseDate mc_release_date w = field_of ref_string ms ''release_date''"
    and "v_card_has w \<inter> v_card_bad w = {}"
  shows "(if v_card_has w \<noteq> card_all then card_failure i (v_card_has w) (v_card_bad w) card_schema else None) =
      (case ref_card i (TObj ms) of Inl e \<Rightarrow> Some e | Inr c \<Rightarrow> None)"
    and "ref_card i (TObj ms) = Inr c \<Longrightarrow> v_card w = c"
proof -
  have all: "v_card_has w = card_all \<longleftrightarrow> CName \<in> v_card_has w \<and> CDescription \<in> v_card_has w \<and> CReleaseDate \<in> v_card_has w"
    unfolding card_all_def using cmember.exhaust by blast
  have no_bad: "m \<in> v_card_has w \<Longrightarrow> m \<notin> v_card_bad w" for m using assms(4) by blast
  note views = assms(1-3) [symmetric]
  show "(if v_card_has w \<noteq> card_all then card_failure i (v_card_has w) (v_card_bad w) card_schema else None) =
      (case ref_card i (TObj ms) of Inl e \<Rightarrow> Some e | Inr c \<Rightarrow> None)"
    unfolding all using no_bad
    by (auto simp: card_schema_def card_pend_fail card_member_error_def views card_view_def)
  show "v_card w = c" if "ref_card i (TObj ms) = Inr c"
    using that by (cases "v_card w")
      (auto simp: card_member_error_def views card_view_def card_field_def split: if_splits)
qed

lemma cards_element:
  assumes inv: "cards_inv st v0 v"
  shows "cards_inv st v0 (fold core (events t) v) \<and> card_added v t (fold core (events t) v)"
proof (cases "\<exists>ms. t = TObj ms")
  case True
  then obtain ms where t: "t = TObj ms" by blast
  from inv have v: "v_stack v = CtrModels # st" "v_ign v = 0" "v_slot v = SlotCard" by (simp_all add: cards_inv_def)
  let ?b = "v\<lparr>v_slot := SlotNone, v_card := zero_card, v_card_has := {}, v_card_bad := {}, v_stack := CtrCard # CtrModels # st\<rparr>"
  have b: "begin_core True v = ?b" using v by (simp add: begin_core_def open_slot_def)
  have ci: "card_inv (CtrModels # st) ?b ?b" using v by (simp add: card_inv_def)
  define u where "u = fold member_core ms ?b"
  note members = card_members [OF ci _ _ u_def]
  then have u: "card_inv (CtrModels # st) ?b u" "card_view CName mc_name u = field_of ref_string ms ''name''"
    "card_view CDescription mc_description u = field_of ref_string ms ''description''"
    "card_view CReleaseDate mc_release_date u = field_of ref_string ms ''release_date''" by simp_all
  then have disj: "v_card_has u \<inter> v_card_bad u = {}" by (simp add: card_inv_def)
  from card_inv_eq [OF u(1)] obtain k i c h d where ueq: "u = ?b\<lparr>v_slot := SlotNone, v_cur_key := k, v_ign_slot := i,
      v_card := c, v_card_has := h, v_card_bad := d\<rparr>" by blast
  have ufields: "v_stack u = CtrCard # CtrModels # st" "v_ign u = 0" "v_cards u = v_cards v" "v_cards_err u = v_cards_err v"
    using v(2) unfolding ueq by simp_all
  have w: "fold core (events t) v = next_card (commit_card (u\<lparr>v_stack := CtrModels # st\<rparr>))"
    unfolding t object_core b u_def [symmetric] using ufields by (simp add: end_core_def)
  have err: "v_cards_err (commit_card (u\<lparr>v_stack := CtrModels # st\<rparr>)) = (if v_cards_err v \<noteq> None then v_cards_err v
       else case ref_card (length (v_cards v)) t of Inl e \<Rightarrow> Some e | Inr c \<Rightarrow> None)"
    using card_failure_views(1) [OF u(2-4) disj, of "length (v_cards v)"] ufields t
    by (cases "v_card_has u = card_all"; cases "v_cards_err v") (simp_all add: commit_card_def del: ref_card.simps)
  have "mask_cards (commit_card (u\<lparr>v_stack := CtrModels # st\<rparr>)) = mask_cards v"
    using v unfolding ueq by (simp add: mask_cards_def mask_value_def commit_card_def)
  then show ?thesis
    unfolding w cards_inv_def card_added_def using err inv card_failure_views(2) [OF u(2-4) disj] ufields t
    by (simp add: next_card_def) (simp add: commit_card_def mask_cards_def mask_value_def cards_inv_def)
next
  case False
  then have "\<not> enters SlotCard t" by (cases t) (auto simp: open_slot_def)
  with inv have leaf: "fold core (events t) v = leaf_value t v" by (intro leaf_core) (simp_all add: cards_inv_def)
  have "leaf_value t v = v\<lparr>v_ign_slot := leaf_ign_slot t v,
      v_cards_err := (if v_cards_err v = None then card_pend (length (v_cards v)) [] ErrNotObject else v_cards_err v),
      v_cards := v_cards v @ [zero_card]\<rparr>"
    using inv False by (cases t; cases v) (auto simp: cards_inv_def leaf_defs leaf_ign_slot_def)
  moreover have "ref_card i t = Inl (card_fail i [] ErrNotObject)" for i using False by (cases t) auto
  ultimately show ?thesis
    unfolding leaf using inv by (auto simp: cards_inv_def card_added_def mask_cards_def mask_value_def card_pend_fail)
qed

lemma cards_elements:
  "cards_inv st v0 v \<Longrightarrow> cards_inv st v0 (fold core (concat (map events ts)) v) \<and>
    (case v_cards_err v of
       Some e \<Rightarrow> v_cards_err (fold core (concat (map events ts)) v) = Some e
     | None \<Rightarrow> (case ref_cards (length (v_cards v)) ts of
          Inl e \<Rightarrow> v_cards_err (fold core (concat (map events ts)) v) = Some e
        | Inr cs \<Rightarrow> v_cards_err (fold core (concat (map events ts)) v) = None \<and>
            v_cards (fold core (concat (map events ts)) v) = v_cards v @ cs))"
proof (induction ts arbitrary: v)
  case Nil
  then show ?case by (simp split: option.split)
next
  case (Cons t ts)
  let ?u = "fold core (events t) v"
  from cards_element [OF Cons.prems, of t] have u: "cards_inv st v0 ?u" "card_added v t ?u" by blast+
  then obtain c where c: "v_cards ?u = v_cards v @ [c]" "\<And>c'. ref_card (length (v_cards v)) t = Inr c' \<Longrightarrow> c = c'"
    by (auto simp: card_added_def)
  have err: "v_cards_err ?u = (if v_cards_err v \<noteq> None then v_cards_err v
       else case ref_card (length (v_cards v)) t of Inl e \<Rightarrow> Some e | Inr c \<Rightarrow> None)"
    using u(2) by (simp add: card_added_def)
  have fold: "fold core (concat (map events (t # ts))) v = fold core (concat (map events ts)) ?u" by simp
  from Cons.IH [OF u(1)] show ?case
    unfolding fold err c(1)
    by (cases "v_cards_err v"; cases "ref_card (length (v_cards v)) t"; cases "ref_cards (Suc (length (v_cards v))) ts")
      (auto dest: c(2))
qed

section \<open>The root\<close>

definition model_view :: "visitor \<Rightarrow> bytes field" where
  "model_view v = (if v_model_err v \<noteq> None then Wrong else if v_has_model v then Val (v_model v) else Absent)"

type_synonym count = "64 word \<times> bool \<times> bool"

definition usage_view :: "visitor \<Rightarrow> (count \<times> count) field" where
  "usage_view v =
     (if v_usage_err v \<noteq> None then Wrong else if v_has_usage v then Val (in_view v, out_view v) else Absent)"

definition answers_view :: "visitor \<Rightarrow> pend \<times> (bytes \<times> entry) list" where
  "answers_view v = (v_answers_err v, set_dict v)"

fun cards_result :: "pend \<Rightarrow> model_card list \<Rightarrow> failure + model_card list" where
  "cards_result (Some e) cs = Inl e"
| "cards_result None cs = Inr cs"

definition cards_view :: "visitor \<Rightarrow> (failure + model_card list) field" where
  "cards_view v = (if v_has_cards v then Val (cards_result (v_cards_err v) (v_cards v)) else Absent)"

fun ref_usage :: "jtree \<Rightarrow> (count \<times> count) field" where
  "ref_usage (TObj ms) = Val (count_of ms ''input_tokens'', count_of ms ''output_tokens'')"
| "ref_usage t = Wrong"

fun ref_answers_value :: "jtree \<Rightarrow> pend \<times> (bytes \<times> entry) list" where
  "ref_answers_value (TObj ms) = (None, ref_answers ms)"
| "ref_answers_value t = (top_pend ''answers'' [] ErrNotObject, [])"

definition top_fail :: "bytes \<Rightarrow> bytes \<Rightarrow> reason \<Rightarrow> failure" where
  "top_fail n m err = (\<lparr>fp_top = n, fp_index = None, fp_name = None, fp_member = m, fp_key = None\<rparr>, err)"

fun ref_models :: "jtree \<Rightarrow> (failure + model_card list) field" where
  "ref_models (TArr ts) = Val (ref_cards 0 ts)"
| "ref_models t = Val (Inl (top_fail ''models'' [] ErrNotArray))"

definition root_inv :: "mode \<Rightarrow> visitor \<Rightarrow> bool" where
  "root_inv m v \<longleftrightarrow>
     v_stack v = [CtrRoot] \<and> v_ign v = 0 \<and> v_slot v = SlotNone \<and> v_mode v = m \<and>
     (v_model_err v = None \<or> v_model_err v = top_pend ''model'' [] ErrNotString \<and> v_has_model v) \<and>
     (v_usage_err v = None \<or> v_usage_err v = top_pend ''usage'' [] ErrNotObject \<and> v_has_usage v) \<and> set_inv v"

lemma usage_inv_eq:
  assumes "usage_inv st v0 u"
  shows "u = v0\<lparr>v_slot := SlotNone, v_cur_key := v_cur_key u, v_ign_slot := v_ign_slot u, v_usage := v_usage u,
    v_in_bad := v_in_bad u, v_out_bad := v_out_bad u\<rparr>"
  using assms by (cases u; cases v0) (simp add: usage_inv_def mask_usage_def mask_value_def)

lemma answers_inv_eq:
  assumes "answers_inv st v0 u"
  shows "u = v0\<lparr>v_slot := SlotNone, v_cur_key := v_cur_key u, v_ign_slot := v_ign_slot u, v_cur := v_cur u,
    v_probs := v_probs u, v_legend := v_legend u, v_set := v_set u, v_idx := v_idx u\<rparr>"
  using assms by (cases u; cases v0) (simp add: answers_inv_def mask_answers_def mask_answer_def mask_value_def)

lemma cards_inv_eq:
  assumes "cards_inv st v0 u"
  shows "u = v0\<lparr>v_slot := SlotCard, v_cur_key := v_cur_key u, v_ign_slot := v_ign_slot u, v_card := v_card u,
    v_card_has := v_card_has u, v_card_bad := v_card_bad u, v_cards := v_cards u, v_cards_err := v_cards_err u\<rparr>"
  using assms by (cases u; cases v0) (simp add: cards_inv_def mask_cards_def mask_value_def)

text \<open>The three objects and the array that the root enters.\<close>

lemma usage_object:
  assumes v: "v_stack v = [CtrRoot]" "v_ign v = 0" "v_slot v = SlotUsage"
  shows "\<exists>k i us ib ob. fold core (events (TObj ms)) v =
    v\<lparr>v_slot := SlotNone, v_cur_key := k, v_ign_slot := i, v_usage := us, v_in_bad := ib, v_out_bad := ob,
      v_has_usage := True, v_usage_err := None\<rparr> \<and>
    (u_input us, u_has_input us, ib) = count_of ms ''input_tokens'' \<and>
    (u_output us, u_has_output us, ob) = count_of ms ''output_tokens''"
proof -
  let ?b = "v\<lparr>v_slot := SlotNone, v_usage := zero_usage, v_has_usage := True, v_usage_err := None,
    v_in_bad := False, v_out_bad := False, v_stack := [CtrUsage, CtrRoot]\<rparr>"
  have b: "begin_core True v = ?b" using v by (simp add: begin_core_def open_slot_def)
  have "usage_inv [CtrRoot] ?b ?b" using v by (simp add: usage_inv_def)
  note members = usage_members [OF this, of ms]
  define u where "u = fold member_core ms ?b"
  from usage_inv_eq members obtain k i us ib ob where
    u: "u = ?b\<lparr>v_slot := SlotNone, v_cur_key := k, v_ign_slot := i, v_usage := us, v_in_bad := ib, v_out_bad := ob\<rparr>"
    unfolding u_def by blast
  have views: "in_view u = count_of ms ''input_tokens''" "out_view u = count_of ms ''output_tokens''"
    using members unfolding u_def count_of_def by (simp_all add: in_view_def out_view_def zero_usage_def split: option.split)
  have "fold core (events (TObj ms)) v = v\<lparr>v_slot := SlotNone, v_cur_key := k, v_ign_slot := i, v_usage := us,
      v_in_bad := ib, v_out_bad := ob, v_has_usage := True, v_usage_err := None\<rparr>"
    unfolding object_core b u_def [symmetric] using v unfolding u
    by (simp add: end_core_def next_card_def)
  then show ?thesis using views unfolding u by (simp add: in_view_def out_view_def) blast
qed

lemma answers_object:
  assumes v: "v_stack v = [CtrRoot]" "v_ign v = 0" "v_slot v = SlotAnswers"
  shows "\<exists>k i c ps ls es ix. fold core (events (TObj ms)) v =
    v\<lparr>v_slot := SlotNone, v_cur_key := k, v_ign_slot := i, v_cur := c, v_probs := ps, v_legend := ls,
      v_set := es, v_idx := ix, v_answers_err := None\<rparr> \<and>
    set_inv (fold core (events (TObj ms)) v) \<and> set_dict (fold core (events (TObj ms)) v) = ref_answers ms"
proof -
  let ?b = "v\<lparr>v_slot := SlotNone, v_set := [], v_idx := None, v_answers_err := None, v_stack := [CtrAnswers, CtrRoot]\<rparr>"
  have b: "begin_core True v = ?b" using v by (simp add: begin_core_def open_slot_def reset_answers_def)
  have "answers_inv [CtrRoot] ?b ?b" "set_dict ?b = []" using v by (simp_all add: answers_inv_def set_inv_def set_dict_def)
  note members = answers_members [OF this, of ms]
  define u where "u = fold member_core ms ?b"
  from members have inv: "answers_inv [CtrRoot] ?b u" "set_inv u" "set_dict u = ref_answers ms"
    by (simp_all add: u_def answers_inv_def)
  from answers_inv_eq [OF inv(1)] obtain k i c ps ls es ix where
    u: "u = ?b\<lparr>v_slot := SlotNone, v_cur_key := k, v_ign_slot := i, v_cur := c, v_probs := ps, v_legend := ls,
        v_set := es, v_idx := ix\<rparr>" by blast
  have w: "fold core (events (TObj ms)) v = v\<lparr>v_slot := SlotNone, v_cur_key := k, v_ign_slot := i, v_cur := c,
      v_probs := ps, v_legend := ls, v_set := es, v_idx := ix, v_answers_err := None\<rparr>"
    unfolding object_core b u_def [symmetric] using v unfolding u
    by (simp add: end_core_def next_card_def)
  have "set_inv (fold core (events (TObj ms)) v) \<and> set_dict (fold core (events (TObj ms)) v) = ref_answers ms"
    using set_inv_cong [of "fold core (events (TObj ms)) v" u] inv(2,3) unfolding w by (simp add: u)
  with w show ?thesis by blast
qed

lemma models_array:
  assumes v: "v_stack v = [CtrRoot]" "v_ign v = 0" "v_slot v = SlotModels"
  shows "\<exists>k i c h d cs e. fold core (events (TArr ts)) v =
    v\<lparr>v_slot := SlotNone, v_cur_key := k, v_ign_slot := i, v_card := c, v_card_has := h, v_card_bad := d,
      v_cards := cs, v_cards_err := e, v_has_cards := True\<rparr> \<and>
    (case ref_cards 0 ts of Inl f \<Rightarrow> e = Some f | Inr cards \<Rightarrow> e = None \<and> cs = cards)"
proof -
  let ?b = "v\<lparr>v_slot := SlotCard, v_cards := [], v_has_cards := True, v_cards_err := None, v_stack := [CtrModels, CtrRoot]\<rparr>"
  have b: "begin_core False v = ?b" using v by (simp add: begin_core_def open_slot_def)
  have "cards_inv [CtrRoot] ?b ?b" using v by (simp add: cards_inv_def)
  note elems = cards_elements [OF this, of ts]
  define u where "u = fold core (concat (map events ts)) ?b"
  from elems have inv: "cards_inv [CtrRoot] ?b u" by (simp add: u_def)
  from cards_inv_eq [OF inv] obtain k i c h d cs e where
    u: "u = ?b\<lparr>v_slot := SlotCard, v_cur_key := k, v_ign_slot := i, v_card := c, v_card_has := h, v_card_bad := d,
        v_cards := cs, v_cards_err := e\<rparr>" by blast
  have "fold core (events (TArr ts)) v = end_core u" by (simp add: b u_def)
  also have "end_core u = v\<lparr>v_slot := SlotNone, v_cur_key := k, v_ign_slot := i, v_card := c, v_card_has := h, v_card_bad := d,
      v_cards := cs, v_cards_err := e, v_has_cards := True\<rparr>"
    using v unfolding u by (simp add: end_core_def)
  finally have w: "fold core (events (TArr ts)) v = v\<lparr>v_slot := SlotNone, v_cur_key := k, v_ign_slot := i, v_card := c, v_card_has := h,
      v_card_bad := d, v_cards := cs, v_cards_err := e, v_has_cards := True\<rparr>" .
  have "case ref_cards 0 ts of Inl f \<Rightarrow> e = Some f | Inr cards \<Rightarrow> e = None \<and> cs = cards"
    using elems unfolding u_def [symmetric] u by (simp split: sum.splits)
  with w show ?thesis by (intro exI conjI)
qed

subsection \<open>One root member\<close>

lemma root_opens:
  "open_slot b (root_slot m k) = Some c \<Longrightarrow>
     b \<and> m = ModeSystemOne \<and> (k = ''usage'' \<or> k = ''answers'') \<or> \<not> b \<and> m = ModeModels \<and> k = ''models''"
  by (simp add: root_slot_def open_slot_def split: if_splits)

definition root_views_of :: "mode \<Rightarrow> bytes \<Rightarrow> jtree \<Rightarrow> visitor \<Rightarrow> visitor \<Rightarrow> bool" where
  "root_views_of m k t v w \<longleftrightarrow>
     model_view w = (if m = ModeSystemOne \<and> k = ''model'' then ref_string t else model_view v) \<and>
     usage_view w = (if m = ModeSystemOne \<and> k = ''usage'' then ref_usage t else usage_view v) \<and>
     answers_view w = (if m = ModeSystemOne \<and> k = ''answers'' then ref_answers_value t else answers_view v) \<and>
     cards_view w = (if m = ModeModels \<and> k = ''models'' then ref_models t else cards_view v)"

lemmas root_defs = root_inv_def root_views_of_def model_view_def usage_view_def answers_view_def cards_view_def
  in_view_def out_view_def

lemma root_leaf:
  assumes inv: "root_inv m v" and leaf: "\<not> enters (root_slot m k) t"
  defines "w \<equiv> leaf_value t (v\<lparr>v_cur_key := k, v_slot := root_slot m k\<rparr>)"
  shows "root_inv m w \<and> root_views_of m k t v w"
proof -
  let ?n = "v\<lparr>v_cur_key := k, v_slot := SlotNone, v_ign_slot := leaf_ign_slot t (v\<lparr>v_slot := root_slot m k\<rparr>)\<rparr>"
  have set: "set_inv (v\<lparr>v_cur_key := a, v_slot := b, v_ign_slot := c\<rparr>) = set_inv v"
    "set_dict (v\<lparr>v_cur_key := a, v_slot := b, v_ign_slot := c\<rparr>) = set_dict v" for a b c
    by (simp_all add: set_inv_def set_dict_def)
  consider (model) "m = ModeSystemOne" "k = ''model''" | (usage) "m = ModeSystemOne" "k = ''usage''"
    | (answers) "m = ModeSystemOne" "k = ''answers''" | (models) "m = ModeModels" "k = ''models''"
    | (ignore) "root_slot m k = SlotIgnore" "\<not> (m = ModeSystemOne \<and> (k = ''model'' \<or> k = ''usage'' \<or> k = ''answers''))"
        "\<not> (m = ModeModels \<and> k = ''models'')"
    unfolding root_slot_def by (cases m) auto
  then show ?thesis
  proof cases
    case model
    then have "root_slot m k = SlotModel" by (simp add: root_slot_def)
    then have "w = (case t of TStr s \<Rightarrow> ?n\<lparr>v_model := s, v_has_model := True, v_model_err := None\<rparr>
        | _ \<Rightarrow> ?n\<lparr>v_has_model := True, v_model_err := top_pend ''model'' [] ErrNotString\<rparr>)"
      unfolding w_def using inv by (cases t) (simp_all add: leaf_defs root_inv_def leaf_ign_slot_def same_fields)
    with inv model show ?thesis
      by (cases t) (simp_all add: root_defs top_pend_def set_inv_def set_dict_def)
  next
    case usage
    then have slot: "root_slot m k = SlotUsage" by (simp add: root_slot_def)
    with leaf have "\<And>ms. t \<noteq> TObj ms" by (auto simp: open_slot_def)
    moreover from this slot have "w = ?n\<lparr>v_has_usage := True, v_usage_err := top_pend ''usage'' [] ErrNotObject\<rparr>"
      unfolding w_def using inv by (cases t) (auto simp: leaf_defs root_inv_def leaf_ign_slot_def same_fields)
    moreover have "ref_usage t = Wrong" using \<open>\<And>ms. t \<noteq> TObj ms\<close> by (cases t) auto
    ultimately show ?thesis using inv usage
      by (simp add: root_defs top_pend_def set_inv_def set_dict_def)
  next
    case answers
    then have slot: "root_slot m k = SlotAnswers" by (simp add: root_slot_def)
    with leaf have "\<And>ms. t \<noteq> TObj ms" by (auto simp: open_slot_def)
    moreover from this slot have "w = (reset_answers ?n)\<lparr>v_answers_err := top_pend ''answers'' [] ErrNotObject\<rparr>"
      unfolding w_def using inv by (cases t) (auto simp: leaf_defs root_inv_def leaf_ign_slot_def same_fields reset_answers_def)
    moreover have "ref_answers_value t = (top_pend ''answers'' [] ErrNotObject, [])"
      using \<open>\<And>ms. t \<noteq> TObj ms\<close> by (cases t) auto
    ultimately show ?thesis using inv answers
      by (simp add: root_defs set_inv_def set_dict_def reset_answers_def)
  next
    case models
    then have slot: "root_slot m k = SlotModels" by (simp add: root_slot_def)
    with leaf have "\<And>ts. t \<noteq> TArr ts" by (auto simp: open_slot_def)
    moreover from this slot have "w = ?n\<lparr>v_cards := [], v_has_cards := True, v_cards_err := top_pend ''models'' [] ErrNotArray\<rparr>"
      unfolding w_def using inv by (cases t) (auto simp: leaf_defs root_inv_def leaf_ign_slot_def same_fields)
    moreover have "ref_models t = Val (Inl (top_fail ''models'' [] ErrNotArray))"
      using \<open>\<And>ts. t \<noteq> TArr ts\<close> by (cases t) auto
    ultimately show ?thesis using inv models
      by (simp add: root_defs top_pend_def top_fail_def set_inv_def set_dict_def)
  next
    case ignore
    then have "w = ?n"
      unfolding w_def using inv by (cases t) (simp_all add: leaf_defs root_inv_def leaf_ign_slot_def same_fields)
    then have "model_view w = model_view v" "usage_view w = usage_view v" "answers_view w = answers_view v"
      "cards_view w = cards_view v" "root_inv m w"
      using inv by (simp_all add: root_defs set_inv_def set_dict_def)
    with ignore(2,3) show ?thesis unfolding root_views_of_def by auto
  qed
qed

lemma root_member:
  assumes inv: "root_inv m v"
  shows "root_inv m (member_core (k, t) v) \<and> root_views_of m k t v (member_core (k, t) v)"
proof -
  let ?v = "v\<lparr>v_cur_key := k, v_slot := root_slot m k\<rparr>"
  have mc: "member_core (k, t) v = fold core (events t) ?v"
    using inv by (simp add: member_core_def root_inv_def)
  have v: "v_stack ?v = [CtrRoot]" "v_ign ?v = 0" using inv by (simp_all add: root_inv_def)
  show ?thesis
  proof (cases "enters (root_slot m k) t")
    case False
    with v have "fold core (events t) ?v = leaf_value t ?v" by (intro leaf_core) simp_all
    with root_leaf [OF inv False] mc show ?thesis by simp
  next
    case True
    then obtain b c where "open_slot b (root_slot m k) = Some c" "if b then \<exists>ms. t = TObj ms else \<exists>ts. t = TArr ts"
      by (cases t) (fastforce intro: that [of True] that [of False])+
    then consider (usage) ms where "m = ModeSystemOne" "k = ''usage''" "t = TObj ms"
      | (answers) ms where "m = ModeSystemOne" "k = ''answers''" "t = TObj ms"
      | (models) ts where "m = ModeModels" "k = ''models''" "t = TArr ts"
      using root_opens [of b m k c] by (cases b) auto
    then show ?thesis
    proof cases
      case usage
      then have "v_slot ?v = SlotUsage" by (simp add: root_slot_def)
      from usage_object [OF v this, of ms] obtain ck i us ib ob where w: "fold core (events (TObj ms)) ?v =
          ?v\<lparr>v_slot := SlotNone, v_cur_key := ck, v_ign_slot := i, v_usage := us, v_in_bad := ib, v_out_bad := ob,
            v_has_usage := True, v_usage_err := None\<rparr>"
        "(u_input us, u_has_input us, ib) = count_of ms ''input_tokens''"
        "(u_output us, u_has_output us, ob) = count_of ms ''output_tokens''" by blast
      with inv usage show ?thesis unfolding mc by (simp add: root_defs set_inv_def set_dict_def)
    next
      case answers
      then have "v_slot ?v = SlotAnswers" by (simp add: root_slot_def)
      from answers_object [OF v this, of ms] obtain ck i c' ps ls es ix where w: "fold core (events (TObj ms)) ?v =
          ?v\<lparr>v_slot := SlotNone, v_cur_key := ck, v_ign_slot := i, v_cur := c', v_probs := ps, v_legend := ls,
            v_set := es, v_idx := ix, v_answers_err := None\<rparr>"
        "set_inv (fold core (events (TObj ms)) ?v)" "set_dict (fold core (events (TObj ms)) ?v) = ref_answers ms"
        by blast
      have fields: "v_stack (fold core (events (TObj ms)) ?v) = [CtrRoot]" "v_ign (fold core (events (TObj ms)) ?v) = 0"
        "v_slot (fold core (events (TObj ms)) ?v) = SlotNone" "v_mode (fold core (events (TObj ms)) ?v) = v_mode v"
        "v_model_err (fold core (events (TObj ms)) ?v) = v_model_err v" "v_has_model (fold core (events (TObj ms)) ?v) = v_has_model v"
        "v_usage_err (fold core (events (TObj ms)) ?v) = v_usage_err v" "v_has_usage (fold core (events (TObj ms)) ?v) = v_has_usage v"
        "v_model (fold core (events (TObj ms)) ?v) = v_model v" "v_usage (fold core (events (TObj ms)) ?v) = v_usage v"
        "v_in_bad (fold core (events (TObj ms)) ?v) = v_in_bad v" "v_out_bad (fold core (events (TObj ms)) ?v) = v_out_bad v"
        "v_answers_err (fold core (events (TObj ms)) ?v) = None" "v_cards (fold core (events (TObj ms)) ?v) = v_cards v"
        "v_cards_err (fold core (events (TObj ms)) ?v) = v_cards_err v" "v_has_cards (fold core (events (TObj ms)) ?v) = v_has_cards v"
        using v unfolding w(1) by simp_all
      with inv answers w(2,3) show ?thesis unfolding mc
        by (simp add: root_inv_def root_views_of_def model_view_def usage_view_def answers_view_def cards_view_def
            in_view_def out_view_def del: events.simps)
    next
      case models
      then have "v_slot ?v = SlotModels" by (simp add: root_slot_def)
      from models_array [OF v this, of ts] obtain ck i c' h d cs e where w: "fold core (events (TArr ts)) ?v =
          ?v\<lparr>v_slot := SlotNone, v_cur_key := ck, v_ign_slot := i, v_card := c', v_card_has := h, v_card_bad := d,
            v_cards := cs, v_cards_err := e, v_has_cards := True\<rparr>"
        "case ref_cards 0 ts of Inl f \<Rightarrow> e = Some f | Inr cards \<Rightarrow> e = None \<and> cs = cards" by blast
      with inv models show ?thesis unfolding mc
        by (cases "ref_cards 0 ts") (simp_all add: root_defs set_inv_def set_dict_def)
    qed
  qed
qed

end
