(* ===== verification/Codec_Finish.thy ===== *)
theory Codec_Finish
  imports Codec_Decoded Wire_Prepared
begin

text \<open>
  The end of a decode, \<open>internal/codec/decode.go\<close> and \<open>lazy.go\<close>: the order in which failures are
  reported, the answers of unknown types that are skipped, the second pass that finds the bytes of
  structured legend levels, the interning of strings against the request's own, and the moves of
  answers and cards into the result. sonic's lazy nodes are a parameter (\<open>node_api\<close>).
\<close>

section \<open>Skipped answers\<close>

definition max_skipped :: nat where
  "max_skipped = 8"

record skipped =
  sk_first :: "(bytes \<times> bytes) list"
  sk_count :: nat

definition no_skipped :: skipped where
  "no_skipped = \<lparr>sk_first = [], sk_count = 0\<rparr>"

definition skipped_add :: "bytes \<Rightarrow> bytes \<Rightarrow> skipped \<Rightarrow> skipped" where
  "skipped_add name typ s =
     s\<lparr>sk_first := (if sk_count s < max_skipped then sk_first s @ [(name, typ)] else sk_first s),
       sk_count := sk_count s + 1\<rparr>"

definition skipped_named :: "skipped \<Rightarrow> (bytes \<times> bytes) list" where
  "skipped_named s = take (min (sk_count s) max_skipped) (sk_first s)"

section \<open>The order of failures\<close>

text \<open>The loop before anything else: the first answer without a string type fails.\<close>

fun pre_pass :: "entry list \<Rightarrow> skipped \<Rightarrow> skipped \<times> failure option" where
  "pre_pass [] s = (s, None)"
| "pre_pass (e # es) s =
     (case en_err e of
        Some f \<Rightarrow> if fp_member (fst f) = ''type'' then (s, Some f) else pre_pass es s
      | None \<Rightarrow> pre_pass es (if ans_kind (en_ans e) = KindUnknown then skipped_add (en_name e) (en_typ e) s else s))"

definition top_error :: "visitor \<Rightarrow> pend" where
  "top_error v =
     (if \<not> v_has_model v then top_pend ''model'' [] ErrMissing
      else if v_model_err v \<noteq> None then v_model_err v
      else if \<not> v_has_usage v then top_pend ''usage'' [] ErrMissing
      else if v_usage_err v \<noteq> None then v_usage_err v
      else if v_in_bad v then top_pend ''usage'' ''input_tokens'' ErrNotCount
      else if v_out_bad v then top_pend ''usage'' ''output_tokens'' ErrNotCount
      else v_answers_err v)"

definition entries_error :: "entry list \<Rightarrow> pend" where
  "entries_error es = first_some (map en_err es)"

definition known :: "entry \<Rightarrow> bool" where
  "known e \<longleftrightarrow> ans_kind (en_ans e) \<noteq> KindUnknown"

section \<open>The lazy pass\<close>

record 'n node_api =
  na_root :: "bytes \<Rightarrow> reason + 'n"
  na_properties :: "'n \<Rightarrow> reason + (bytes \<times> 'n) list"
  na_raw :: "'n \<Rightarrow> reason + bytes"
  na_zero :: 'n

definition json_fail :: "reason \<Rightarrow> failure" where
  "json_fail r = (\<lparr>fp_top = [], fp_index = None, fp_name = None, fp_member = [], fp_key = None\<rparr>, r)"

definition json_props :: "'n node_api \<Rightarrow> 'n \<Rightarrow> failure + (bytes \<times> 'n) list" where
  "json_props api n = rmap_err json_fail (na_properties api n)"

definition last_member :: "bytes \<Rightarrow> (bytes \<times> 'n) list \<Rightarrow> 'n \<Rightarrow> 'n" where
  "last_member key ps zero = foldl (\<lambda>a (k, n). if k = key then n else a) zero ps"

definition lazy_nodes :: "'n node_api \<Rightarrow> visitor \<Rightarrow> (bytes \<times> 'n) list \<Rightarrow> 'n list" where
  "lazy_nodes api v ps =
     foldl (\<lambda>nodes (k, n). case set_find v k of
          Some i \<Rightarrow> if 0 < en_structured (v_set v ! i) then nodes[i := n] else nodes
        | None \<Rightarrow> nodes) (replicate (length (v_set v)) (na_zero api)) ps"

definition lazy_level_find :: "legend_entry list \<Rightarrow> 32 word \<Rightarrow> nat option" where
  "lazy_level_find entries lvl =
     (if linear_fold < length entries then index_of le_level entries lvl
      else find_index (\<lambda>e. le_level e = lvl) entries)"

fun lazy_levels :: "'n node_api \<Rightarrow> legend_entry list \<Rightarrow> nat \<Rightarrow> (bytes \<times> 'n) list \<Rightarrow> bytes list \<Rightarrow> failure + bytes list" where
  "lazy_levels api entries base [] raws = Inr raws"
| "lazy_levels api entries base ((k, n) # ps) raws =
     (case parse_level k of
        None \<Rightarrow> lazy_levels api entries base ps raws
      | Some lvl \<Rightarrow>
          (case lazy_level_find entries lvl of
             None \<Rightarrow> lazy_levels api entries base ps raws
           | Some j \<Rightarrow>
               if cjson (le_description (entries ! j)) = None then lazy_levels api entries base ps raws
               else rbind (rmap_err json_fail (na_raw api n)) (\<lambda>r.
                 lazy_levels api entries base ps (raws[base + j := r]))))"

definition lazy_missed :: "legend_entry list \<Rightarrow> nat \<Rightarrow> bytes list \<Rightarrow> bool" where
  "lazy_missed entries base raws \<longleftrightarrow>
     list_ex (\<lambda>j. cjson (le_description (entries ! j)) \<noteq> None \<and> raws ! (base + j) = []) [0..<length entries]"

definition lazy_entry :: "'n node_api \<Rightarrow> 'n \<Rightarrow> entry \<Rightarrow> bytes list \<Rightarrow> failure + bytes list" where
  "lazy_entry api node e raws =
     rbind (json_props api node) (\<lambda>ps.
       let entries = legend (ans_score (en_ans e)); base = length raws in
       rbind (json_props api (last_member ''legend'' ps (na_zero api))) (\<lambda>ls.
       rbind (lazy_levels api entries base ls (raws @ replicate (length entries) [])) (\<lambda>raws.
       if lazy_missed entries base raws then Inl (json_fail ErrLazyMissed) else Inr raws)))"

fun lazy_entries :: "'n node_api \<Rightarrow> 'n list \<Rightarrow> entry list \<Rightarrow> bytes list \<Rightarrow> nat list \<Rightarrow> failure + bytes list \<times> nat list" where
  "lazy_entries api (n # ns) (e # es) raws bases =
     (if en_structured e = 0 then lazy_entries api ns es raws (bases @ [0])
      else rbind (lazy_entry api n e raws) (\<lambda>raws'. lazy_entries api ns es raws' (bases @ [length raws])))"
| "lazy_entries api ns es raws bases = Inr (raws, bases)"

definition lazy_pass :: "'n node_api \<Rightarrow> bytes \<Rightarrow> visitor \<Rightarrow> failure + bytes list \<times> nat list" where
  "lazy_pass api src v =
     rbind (rmap_err json_fail (na_root api src)) (\<lambda>root.
     rbind (json_props api root) (\<lambda>ps.
     rbind (json_props api (last_member ''answers'' ps (na_zero api))) (\<lambda>as.
     lazy_entries api (lazy_nodes api v as) (v_set v) [] [])))"

section \<open>Interning\<close>

fun option_index_from :: "nat \<Rightarrow> bytes list \<Rightarrow> (bytes \<rightharpoonup> nat) \<Rightarrow> (bytes \<rightharpoonup> nat)" where
  "option_index_from i [] m = m"
| "option_index_from i (x # xs) m = option_index_from (Suc i) xs (if m x = None then m(x \<mapsto> i) else m)"

definition option_index :: "bytes list \<Rightarrow> bytes \<rightharpoonup> nat" where
  "option_index opts = (if length opts \<le> linear_fold then Map.empty else option_index_from 0 opts Map.empty)"

definition option_of :: "bytes list \<Rightarrow> bytes \<Rightarrow> nat option \<Rightarrow> bytes option" where
  "option_of opts s hint =
     (if (case hint of Some h \<Rightarrow> h < length opts \<and> opts ! h = s | None \<Rightarrow> False) then Some (opts ! the hint)
      else if linear_fold < length opts then map_option (\<lambda>i. opts ! i) (option_index opts s)
      else List.find (\<lambda>x. x = s) opts)"

definition intern_option :: "bytes list \<Rightarrow> bytes \<Rightarrow> nat option \<Rightarrow> bytes" where
  "intern_option opts s hint = (case option_of opts s hint of Some x \<Rightarrow> x | None \<Rightarrow> s)"

definition intern_choice :: "bytes list \<Rightarrow> choice_answer \<Rightarrow> choice_answer" where
  "intern_choice opts c =
     c\<lparr>choice := intern_option opts (choice c) None,
       choice_probabilities := map (\<lambda>(j, p). p\<lparr>lp_label := intern_option opts (lp_label p) (Some j)\<rparr>)
         (List.enumerate 0 (choice_probabilities c))\<rparr>"

definition intern_level :: "content list \<Rightarrow> (nat \<Rightarrow> bytes) \<Rightarrow> nat \<Rightarrow> legend_entry \<Rightarrow> legend_entry" where
  "intern_level levels raw j l =
     (let want = (if unat (le_level l) < length levels then levels ! unat (le_level l) else empty_content);
          desc = le_description l in
      l\<lparr>le_description :=
         (if cjson desc = None then
            (if cjson want = None \<and> ctext want = ctext desc then desc\<lparr>ctext := ctext want\<rparr> else desc)
          else if cjson want = Some (raw j) then desc\<lparr>cjson := cjson want\<rparr>
          else desc\<lparr>cjson := Some (raw j)\<rparr>)\<rparr>)"

definition intern_score :: "content list \<Rightarrow> (nat \<Rightarrow> bytes) \<Rightarrow> score_answer \<Rightarrow> score_answer" where
  "intern_score levels raw s =
     s\<lparr>legend := map (\<lambda>(j, l). intern_level levels raw j l) (List.enumerate 0 (legend s))\<rparr>"

definition intern_entry :: "prepared option \<Rightarrow> (nat \<Rightarrow> bytes) \<Rightarrow> entry \<Rightarrow> entry" where
  "intern_entry q raw e =
     (if \<not> known e then e
      else
        let pq = (case q of Some p \<Rightarrow> prepared_lookup p (en_name e) | None \<Rightarrow> None);
            e = e\<lparr>en_name := (case pq of Some x \<Rightarrow> pq_name x | None \<Rightarrow> en_name e)\<rparr> in
        case ans_kind (en_ans e) of
          KindChoice \<Rightarrow>
            e\<lparr>en_ans := (en_ans e)\<lparr>ans_choice := intern_choice
               (case pq of Some x \<Rightarrow> if pq_kind x = KindChoice then pq_options x else [] | None \<Rightarrow> [])
               (ans_choice (en_ans e))\<rparr>\<rparr>
        | KindScore \<Rightarrow>
            e\<lparr>en_ans := (en_ans e)\<lparr>ans_score := intern_score
               (case pq of Some x \<Rightarrow> if pq_kind x = KindScore then pq_levels x else [] | None \<Rightarrow> []) raw
               (ans_score (en_ans e))\<rparr>\<rparr>
        | _ \<Rightarrow> e)"

definition intern_model :: "bytes \<Rightarrow> bytes \<Rightarrow> bytes" where
  "intern_model model m = (if m = model then model else m)"

definition intern_entries :: "prepared option \<Rightarrow> bytes list \<times> nat list \<Rightarrow> entry list \<Rightarrow> entry list" where
  "intern_entries q rb es =
     map (\<lambda>(i, e). intern_entry q (\<lambda>j. fst rb ! (snd rb ! i + j)) e) (List.enumerate 0 es)"

section \<open>finish\<close>

definition put_known :: "answers \<Rightarrow> entry \<Rightarrow> answers" where
  "put_known s e = (if known e then answers_put s (en_name e) (en_ans e) else s)"

definition result_of :: "prepared option \<Rightarrow> bytes \<Rightarrow> bytes list \<times> nat list \<Rightarrow> visitor \<Rightarrow> system_one_result" where
  "result_of q model rb v =
     \<lparr>so_model = intern_model model (v_model v), so_usage = v_usage v,
      so_answers = foldl put_known empty_answers (intern_entries q rb (v_set v))\<rparr>"

definition finish_decode ::
  "'n node_api \<Rightarrow> bytes \<Rightarrow> prepared option \<Rightarrow> bytes \<Rightarrow> visitor \<Rightarrow> skipped \<times> (failure + system_one_result)" where
  "finish_decode api src q model v =
     (case pre_pass (v_set v) no_skipped of
        (s, Some f) \<Rightarrow> (s, Inl f)
      | (s, None) \<Rightarrow>
          (s, case top_error v of
                Some f \<Rightarrow> Inl f
              | None \<Rightarrow>
                  (case entries_error (v_set v) of
                     Some f \<Rightarrow> Inl f
                   | None \<Rightarrow>
                       rmap (\<lambda>rb. result_of q model rb v)
                         (if 0 < sum_list (map en_structured (filter known (v_set v))) then lazy_pass api src v
                          else Inr ([], [])))))"

definition finish_models :: "visitor \<Rightarrow> failure + model_card list" where
  "finish_models v =
     (if \<not> v_has_cards v then Inl (\<lparr>fp_top = ''models'', fp_index = None, fp_name = None, fp_member = [], fp_key = None\<rparr>, ErrMissing)
      else case v_cards_err v of
          Some f \<Rightarrow> Inl f
        | None \<Rightarrow> Inr (v_cards v))"

section \<open>Interning changes no value\<close>

lemma option_index_from_nth:
  "option_index_from i xs m s = Some j \<Longrightarrow> m s = Some j \<or> (i \<le> j \<and> j < i + length xs \<and> xs ! (j - i) = s)"
proof (induction xs arbitrary: i m)
  case (Cons x xs)
  from Cons.IH [of "Suc i" "if m x = None then m(x \<mapsto> i) else m"] Cons.prems
  have "(if m x = None then m(x \<mapsto> i) else m) s = Some j \<or> (Suc i \<le> j \<and> j < Suc i + length xs \<and> xs ! (j - Suc i) = s)"
    by simp
  then show ?case
    by (auto simp: nth_Cons' split: if_splits)
qed simp

lemma option_of_eq: "option_of opts s hint = Some x \<Longrightarrow> x = s"
  using option_index_from_nth [of 0 opts Map.empty s]
  by (auto simp: option_of_def option_index_def find_Some_iff split: if_splits option.splits)

lemma intern_option_id [simp]: "intern_option opts s hint = s"
  by (auto simp: intern_option_def dest: option_of_eq split: option.split)

lemma map_enumerate: "map (\<lambda>(j, x). f x) (List.enumerate n xs) = map f xs"
  by (induction xs arbitrary: n) auto

lemma intern_choice_id [simp]: "intern_choice opts c = c"
proof -
  have "map (\<lambda>(j, p). p\<lparr>lp_label := intern_option opts (lp_label p) (Some j)\<rparr>) (List.enumerate 0 (choice_probabilities c)) =
      choice_probabilities c" using map_enumerate [of "\<lambda>p. p" 0 "choice_probabilities c"] by simp
  then show ?thesis by (simp add: intern_choice_def)
qed

text \<open>What it changes is the mark of a structured level, which becomes the level's bytes.\<close>

definition fill_level :: "bytes \<Rightarrow> legend_entry \<Rightarrow> legend_entry" where
  "fill_level raw l =
     (if cjson (le_description l) = None then l
      else l\<lparr>le_description := (le_description l)\<lparr>cjson := Some raw\<rparr>\<rparr>)"

definition fill_answer :: "(nat \<Rightarrow> bytes) \<Rightarrow> answer \<Rightarrow> answer" where
  "fill_answer raw a =
     (if ans_kind a = KindScore then
        a\<lparr>ans_score := (ans_score a)\<lparr>legend := map (\<lambda>(j, l). fill_level (raw j) l) (List.enumerate 0 (legend (ans_score a)))\<rparr>\<rparr>
      else a)"

lemma intern_level_fill: "intern_level levels raw j l = fill_level (raw j) l"
  by (simp add: intern_level_def fill_level_def Let_def)

definition question_set_ok :: "prepared option \<Rightarrow> bool" where
  "question_set_ok q \<longleftrightarrow> (case q of None \<Rightarrow> True | Some p \<Rightarrow> prepared_inv p)"

lemma lookup_name: "prepared_inv p \<Longrightarrow> prepared_lookup p name = Some x \<Longrightarrow> pq_name x = name"
  using prep.search_bound by (auto simp: prepared_lookup_def)

lemma intern_entry_fill:
  assumes "question_set_ok q"
  shows "intern_entry q raw e = (if known e then e\<lparr>en_ans := fill_answer raw (en_ans e)\<rparr> else e)"
proof -
  define pq where "pq = (case q of Some p \<Rightarrow> prepared_lookup p (en_name e) | None \<Rightarrow> None)"
  have name: "(case pq of Some x \<Rightarrow> pq_name x | None \<Rightarrow> en_name e) = en_name e"
    using assms lookup_name by (auto simp: pq_def question_set_ok_def split: option.splits)
  show ?thesis
    unfolding intern_entry_def Let_def pq_def [symmetric] name
    by (cases "ans_kind (en_ans e)")
      (simp_all add: known_def fill_answer_def intern_score_def intern_level_fill)
qed

section \<open>The reference of a whole decode\<close>

definition ref_entries :: "(bytes \<times> jtree) list \<Rightarrow> pend \<times> (bytes \<times> entry) list" where
  "ref_entries kvs = (case map_of (rev kvs) ''answers'' of None \<Rightarrow> (None, []) | Some t \<Rightarrow> ref_answers_value t)"

definition ref_top :: "(bytes \<times> jtree) list \<Rightarrow> pend" where
  "ref_top kvs =
     (case field_of ref_string kvs ''model'' of
        Absent \<Rightarrow> top_pend ''model'' [] ErrMissing
      | Wrong \<Rightarrow> top_pend ''model'' [] ErrNotString
      | Val m \<Rightarrow>
          (case field_of ref_usage kvs ''usage'' of
             Absent \<Rightarrow> top_pend ''usage'' [] ErrMissing
           | Wrong \<Rightarrow> top_pend ''usage'' [] ErrNotObject
           | Val ((a, ha, in_bad), (b, hb, out_bad)) \<Rightarrow>
               if in_bad then top_pend ''usage'' ''input_tokens'' ErrNotCount
               else if out_bad then top_pend ''usage'' ''output_tokens'' ErrNotCount
               else fst (ref_entries kvs)))"

definition ref_usage_of :: "(bytes \<times> jtree) list \<Rightarrow> usage" where
  "ref_usage_of kvs =
     (case field_of ref_usage kvs ''usage'' of
        Val ((a, ha, x), (b, hb, y)) \<Rightarrow> \<lparr>u_input = a, u_output = b, u_has_input = ha, u_has_output = hb\<rparr>
      | _ \<Rightarrow> zero_usage)"

definition ref_pairs :: "bytes list \<times> nat list \<Rightarrow> (bytes \<times> entry) list \<Rightarrow> (bytes \<times> answer) list" where
  "ref_pairs rb es =
     map (\<lambda>(i, (k, e)). (k, fill_answer (\<lambda>j. fst rb ! (snd rb ! i + j)) (en_ans e)))
       (filter (\<lambda>(i, (k, e)). known e) (List.enumerate 0 es))"

definition ref_result :: "bytes list \<times> nat list \<Rightarrow> (bytes \<times> jtree) list \<Rightarrow> system_one_result" where
  "ref_result rb kvs =
     \<lparr>so_model = (case field_of ref_string kvs ''model'' of Val m \<Rightarrow> m | _ \<Rightarrow> []),
      so_usage = ref_usage_of kvs, so_answers = answers_of (ref_pairs rb (snd (ref_entries kvs)))\<rparr>"

definition ref_decode ::
  "(failure + bytes list \<times> nat list) \<Rightarrow> (bytes \<times> jtree) list \<Rightarrow> skipped \<times> (failure + system_one_result)" where
  "ref_decode lz kvs =
     (let es = map snd (snd (ref_entries kvs)) in
      case pre_pass es no_skipped of
        (s, Some f) \<Rightarrow> (s, Inl f)
      | (s, None) \<Rightarrow>
          (s, case ref_top kvs of
                Some f \<Rightarrow> Inl f
              | None \<Rightarrow>
                  (case first_some (map en_err es) of
                     Some f \<Rightarrow> Inl f
                   | None \<Rightarrow> rmap (\<lambda>rb. ref_result rb kvs)
                       (if 0 < sum_list (map en_structured (filter known es)) then lz else Inr ([], [])))))"

section \<open>The decode computes the reference\<close>

lemma pre_pass_clean: "pre_pass (map clean es) s = pre_pass es s"
proof (induction es arbitrary: s)
  case (Cons e es)
  have "en_err (clean e) = en_err e" by (simp add: clean_def)
  moreover have "en_err e = None \<Longrightarrow> clean e = e" by (simp add: clean_def)
  ultimately show ?case using Cons.IH by (simp split: option.split)
qed simp

lemma clean_ok: "first_some (map en_err es) = None \<Longrightarrow> map clean es = es"
  by (induction es) (auto simp: first_some_None clean_def)

lemma clean_err: "map en_err (map clean es) = map en_err es"
  by (simp add: clean_def)

lemma put_known_fold:
  "foldl put_known s es = foldl (\<lambda>s (k, a). answers_put s k a) s (map (\<lambda>e. (en_name e, en_ans e)) (filter known es))"
  by (induction es arbitrary: s) (auto simp: put_known_def)

lemma known_fill: "known (e\<lparr>en_ans := fill_answer raw (en_ans e)\<rparr>) = known e"
  by (simp add: known_def fill_answer_def)

lemma filter_map_enumerate:
  assumes "\<And>i e. known (f i e) = known e"
  shows "map (\<lambda>e. (en_name e, en_ans e)) (filter known (map (\<lambda>(i, e). f i e) (List.enumerate n es))) =
    map (\<lambda>(i, e). (en_name (f i e), en_ans (f i e))) (filter (\<lambda>(i, e). known e) (List.enumerate n es))"
  by (induction es arbitrary: n) (simp_all add: assms)

lemma result_pairs:
  assumes "question_set_ok q" and R: "map (\<lambda>e. (en_name e, e)) es = R"
  shows "foldl put_known empty_answers (intern_entries q rb es) = answers_of (ref_pairs rb R)"
proof -
  define f where "f = (\<lambda>i e. intern_entry q (\<lambda>j. fst rb ! (snd rb ! i + j)) e)"
  have f: "f i e = (if known e then e\<lparr>en_ans := fill_answer (\<lambda>j. fst rb ! (snd rb ! i + j)) (en_ans e)\<rparr> else e)" for i e
    by (simp add: f_def intern_entry_fill [OF assms(1)])
  have known: "known (f i e) = known e" for i e by (simp add: f known_fill)
  have "map (\<lambda>(i, e). (en_name (f i e), en_ans (f i e))) (filter (\<lambda>(i, e). known e) (List.enumerate n es)) =
      map (\<lambda>(i, (k, e)). (k, fill_answer (\<lambda>j. fst rb ! (snd rb ! i + j)) (en_ans e)))
        (filter (\<lambda>(i, (k, e)). known e) (List.enumerate n (map (\<lambda>e. (en_name e, e)) es)))" for n
    by (induction es arbitrary: n) (simp_all add: f)
  from this [of 0] show ?thesis
    unfolding put_known_fold intern_entries_def f_def [symmetric] filter_map_enumerate [of f, OF known]
    by (simp add: answers_of_def ref_pairs_def R)
qed

end
