(* ===== verification/Sdk_Number.thy ===== *)
theory Sdk_Number
  imports Codec_State Go_Strings
begin

text \<open>
  Numbers and white space of the header values a server asks a caller to wait with, \<open>errors.go\<close>, and of
  durations: \<open>strings.TrimSpace\<close> and Python's \<open>str.strip\<close>, Python's \<open>float()\<close>, milliseconds to a
  \<open>time.Duration\<close>, and the arithmetic on floats that are not negative. A duration is its nanoseconds.
\<close>

section \<open>White space\<close>

text \<open>\<open>unicode.IsSpace\<close>, and Python's white space, \<open>isPythonSpace\<close>.\<close>

definition is_space_rune :: "nat \<Rightarrow> bool" where
  "is_space_rune r \<longleftrightarrow>
     (9 \<le> r \<and> r \<le> 13) \<or> r = 0x20 \<or> r = 0x85 \<or> r = 0xA0 \<or> r = 0x1680 \<or> (0x2000 \<le> r \<and> r \<le> 0x200A) \<or>
     r = 0x2028 \<or> r = 0x2029 \<or> r = 0x202F \<or> r = 0x205F \<or> r = 0x3000"

definition is_python_space :: "nat \<Rightarrow> bool" where
  "is_python_space r \<longleftrightarrow> is_space_rune r \<or> (0x1C \<le> r \<and> r \<le> 0x1F)"

text \<open>\<open>utf8.DecodeLastRune\<close>: back at most four bytes to one that can start a rune.\<close>

definition rune_start :: "char \<Rightarrow> bool" where
  "rune_start c \<longleftrightarrow> \<not> (0x80 \<le> byte c \<and> byte c < 0xC0)"

fun back_to_start :: "bytes \<Rightarrow> nat \<Rightarrow> nat \<Rightarrow> nat" where
  "back_to_start s lim 0 = 0"
| "back_to_start s lim (Suc i) =
     (if Suc i \<le> lim then i else if rune_start (s ! i) then i else back_to_start s lim i)"

definition decode_last_rune :: "bytes \<Rightarrow> nat \<times> nat" where
  "decode_last_rune s =
     (if s = [] then (rune_error, 0)
      else if byte (last s) < 0x80 then (byte (last s), 1)
      else
        let n = length s; at = back_to_start s (n - 4) (n - 1) in
        case decode_rune (drop at s) of (r, k) \<Rightarrow> if at + k \<noteq> n then (rune_error, 1) else (r, k))"

lemma back_to_start_le: "back_to_start s lim i \<le> i"
  by (induction i) (auto intro: le_SucI)

lemma last_rune_pos: "s \<noteq> [] \<Longrightarrow> 0 < snd (decode_last_rune s)"
proof -
  assume s: "s \<noteq> []"
  have "back_to_start s (length s - 4) (length s - 1) < length s"
    using back_to_start_le [of s "length s - 4" "length s - 1"] s by (cases s) auto
  then show ?thesis using s by (auto simp: decode_last_rune_def Let_def split: prod.splits)
qed

text \<open>\<open>strings.TrimFunc\<close>.\<close>

function trim_left_runes :: "(nat \<Rightarrow> bool) \<Rightarrow> bytes \<Rightarrow> bytes" where
  "trim_left_runes f s =
     (if s = [] then [] else if f (fst (decode_rune s)) then trim_left_runes f (drop (rune_size s) s) else s)"
  by pat_completeness auto
termination
  by (relation "measure (\<lambda>(f, s). length s)") (use drop_rune_shorter in \<open>auto simp del: length_drop\<close>)

declare trim_left_runes.simps [simp del]

function trim_right_runes :: "(nat \<Rightarrow> bool) \<Rightarrow> bytes \<Rightarrow> bytes" where
  "trim_right_runes f s =
     (if s = [] then []
      else if f (fst (decode_last_rune s)) then trim_right_runes f (take (length s - snd (decode_last_rune s)) s) else s)"
  by pat_completeness auto
termination
  by (relation "measure (\<lambda>(f, s). length s)") (auto simp: last_rune_pos)

declare trim_right_runes.simps [simp del]

definition trim_runes :: "(nat \<Rightarrow> bool) \<Rightarrow> bytes \<Rightarrow> bytes" where
  "trim_runes f s = trim_right_runes f (trim_left_runes f s)"

definition trim_space :: "bytes \<Rightarrow> bytes" where
  "trim_space = trim_runes is_space_rune"

definition python_strip :: "bytes \<Rightarrow> bytes" where
  "python_strip = trim_runes is_python_space"

section \<open>Floats that are not negative\<close>

definition f64_infinity :: "bool \<Rightarrow> float64" where
  "f64_infinity neg = (if neg then 0xFFF0000000000000 else 0x7FF0000000000000)"

definition f64_nan :: float64 where
  "f64_nan = 0x7FF8000000000001"

text \<open>The float nearest to a fraction, an infinity past the largest.\<close>

definition f64_near :: "nat \<Rightarrow> nat \<Rightarrow> float64" where
  "f64_near p q =
     (let b = round_bits 52 (-1074) p q in if 0x7FF0000000000000 \<le> b then f64_infinity False else of_nat b)"

definition f64_mul :: "float64 \<Rightarrow> float64 \<Rightarrow> float64" where
  "f64_mul a b = (case (f64_ratio a, f64_ratio b) of ((p, q), (p', q')) \<Rightarrow> f64_near (p * p') (q * q'))"

definition f64_add :: "float64 \<Rightarrow> float64 \<Rightarrow> float64" where
  "f64_add a b = (case (f64_ratio a, f64_ratio b) of ((p, q), (p', q')) \<Rightarrow> f64_near (p * q' + p' * q) (q * q'))"

definition f64_div :: "float64 \<Rightarrow> float64 \<Rightarrow> float64" where
  "f64_div a b = (case (f64_ratio a, f64_ratio b) of ((p, q), (p', q')) \<Rightarrow> f64_near (p * q') (q * p'))"

text \<open>\<open>a - b\<close> for \<open>b \<le> a\<close>.\<close>

definition f64_sub :: "float64 \<Rightarrow> float64 \<Rightarrow> float64" where
  "f64_sub a b = (case (f64_ratio a, f64_ratio b) of ((p, q), (p', q')) \<Rightarrow> f64_near (p * q' - p' * q) (q * q'))"

text \<open>\<open>strconv.FormatFloat(f, 'f', -1, 64)\<close>.\<close>

definition format_f :: "float64 \<Rightarrow> bytes" where
  "format_f f =
     (if is_zero f then ''0''
      else case f64_ratio f of (p, q) \<Rightarrow>
        case shortest 52 (-1074) p q of (ds, x) \<Rightarrow>
          if x < 0 then ''0.'' @ replicate (nat (- x - 1)) (CHR ''0'') @ ds
          else let n = nat x + 1 in
            if length ds \<le> n then ds @ replicate (n - length ds) (CHR ''0'')
            else take n ds @ ''.'' @ drop n ds)"

section \<open>Durations\<close>

definition millisecond :: int where "millisecond = 1000000"
definition second :: int where "second = 1000000000"
definition max_duration :: int where "max_duration = 9223372036854775807"
definition min_duration :: int where "min_duration = -9223372036854775808"

text \<open>\<open>time.Duration.Seconds\<close> of a duration that is not negative.\<close>

definition seconds :: "int \<Rightarrow> float64" where
  "seconds d = f64_add (f64_of_int (d div second)) (f64_div (f64_of_int (d mod second)) (f64_of_int second))"

text \<open>\<open>time.Time.Sub\<close> saturates.\<close>

definition time_sub :: "int \<Rightarrow> int \<Rightarrow> int" where
  "time_sub t u = max min_duration (min max_duration (t - u))"

definition millis_to_duration :: "float64 \<Rightarrow> int" where
  "millis_to_duration ms =
     (case f64_ratio ms of (p, q) \<Rightarrow>
        let whole = int (p div q) in
        if max_duration div millisecond \<le> whole then max_duration else whole * millisecond)"

section \<open>Python's floats\<close>

text \<open>The closure \<open>digits\<close>: the digits it copies and what is left; \<open>started\<close> says that it has
  copied one.\<close>

fun scan_digits :: "bool \<Rightarrow> bytes \<Rightarrow> bytes \<times> bytes" where
  "scan_digits started [] = ([], [])"
| "scan_digits started (c # cs) =
     (if is_digit c then (case scan_digits True cs of (ds, r) \<Rightarrow> (c # ds, r))
      else if c = CHR ''_'' \<and> started \<and> cs \<noteq> [] \<and> is_digit (hd cs) then scan_digits started cs
      else ([], c # cs))"

text \<open>\<open>strconv.ParseFloat\<close> of the cleaned text, past the range an infinity.\<close>

definition f64_decimal :: "bool \<Rightarrow> bytes \<Rightarrow> int \<Rightarrow> float64" where
  "f64_decimal neg ds x =
     (case scale 10 (nat_of_digits ds) 1 x of (p, q) \<Rightarrow>
        f64_near p q OR (if neg then 2 ^ 63 else 0))"

definition parse_clean :: "bytes \<Rightarrow> float64" where
  "parse_clean s = (case decimal_parts s of (neg, ds, x) \<Rightarrow> f64_decimal neg ds x)"

definition python_body :: "(bytes \<Rightarrow> bytes) \<Rightarrow> bool \<Rightarrow> bytes \<Rightarrow> float64 option" where
  "python_body lower neg body =
     (if lower body = ''inf'' \<or> lower body = ''infinity'' then Some (f64_infinity neg)
      else if lower body = ''nan'' then Some f64_nan
      else
        case scan_digits False body of (ip, r1) \<Rightarrow>
        let dot = r1 \<noteq> [] \<and> hd r1 = CHR ''.'' in
        case (if dot then scan_digits False (tl r1) else ([], r1)) of (fp, r2) \<Rightarrow>
        let clean = (if neg then ''-'' else []) @ ip @ (if dot then ''.'' else []) @ fp in
        if ip = [] \<and> fp = [] then None
        else if r2 \<noteq> [] \<and> (hd r2 = CHR ''e'' \<or> hd r2 = CHR ''E'') then
          let r3 = tl r2; esign = r3 \<noteq> [] \<and> (hd r3 = CHR ''+'' \<or> hd r3 = CHR ''-'') in
          (case scan_digits False (if esign then tl r3 else r3) of (ep, r4) \<Rightarrow>
             if ep = [] \<or> r4 \<noteq> [] then None
             else Some (parse_clean (clean @ ''e'' @ (if esign then [hd r3] else []) @ ep)))
        else if r2 \<noteq> [] then None
        else Some (parse_clean clean))"

definition parse_python_float :: "(bytes \<Rightarrow> bytes) \<Rightarrow> bytes \<Rightarrow> float64 option" where
  "parse_python_float lower s =
     (let signed = s \<noteq> [] \<and> (hd s = CHR ''+'' \<or> hd s = CHR ''-'') in
      python_body lower (signed \<and> hd s = CHR ''-'') (if signed then tl s else s))"

section \<open>Python's grammar of a float\<close>

text \<open>Digits with single underscores between them, and the digits they spell.\<close>

inductive py_digits :: "bytes \<Rightarrow> bytes \<Rightarrow> bool" where
  py_one: "is_digit c \<Longrightarrow> py_digits [c] [c]"
| py_more: "is_digit c \<Longrightarrow> py_digits s ds \<Longrightarrow> py_digits (c # s) (c # ds)"
| py_under: "is_digit c \<Longrightarrow> py_digits s ds \<Longrightarrow> py_digits (c # CHR ''_'' # s) (c # ds)"

definition py_opt_digits :: "bytes \<Rightarrow> bytes \<Rightarrow> bool" where
  "py_opt_digits s ds \<longleftrightarrow> (s = [] \<and> ds = []) \<or> py_digits s ds"

inductive py_mantissa :: "bytes \<Rightarrow> bytes \<Rightarrow> bytes \<Rightarrow> bool" where
  py_whole: "py_digits s ip \<Longrightarrow> py_mantissa s ip []"
| py_point: "py_opt_digits s ip \<Longrightarrow> py_opt_digits t fp \<Longrightarrow> ip \<noteq> [] \<or> fp \<noteq> [] \<Longrightarrow> py_mantissa (s @ ''.'' @ t) ip fp"

inductive py_exponent :: "bytes \<Rightarrow> int \<Rightarrow> bool" where
  py_none: "py_exponent [] 0"
| py_plain: "c \<in> {CHR ''e'', CHR ''E''} \<Longrightarrow> py_digits s ds \<Longrightarrow> py_exponent (c # s) (int (nat_of_digits ds))"
| py_plus: "c \<in> {CHR ''e'', CHR ''E''} \<Longrightarrow> py_digits s ds \<Longrightarrow> py_exponent (c # CHR ''+'' # s) (int (nat_of_digits ds))"
| py_minus: "c \<in> {CHR ''e'', CHR ''E''} \<Longrightarrow> py_digits s ds \<Longrightarrow> py_exponent (c # CHR ''-'' # s) (- int (nat_of_digits ds))"

inductive py_body :: "(bytes \<Rightarrow> bytes) \<Rightarrow> bool \<Rightarrow> bytes \<Rightarrow> float64 \<Rightarrow> bool" where
  py_inf: "lower s = ''inf'' \<or> lower s = ''infinity'' \<Longrightarrow> py_body lower neg s (f64_infinity neg)"
| py_nan: "lower s = ''nan'' \<Longrightarrow> py_body lower neg s f64_nan"
| py_decimal: "py_mantissa m ip fp \<Longrightarrow> py_exponent e x \<Longrightarrow>
    py_body lower neg (m @ e) (f64_decimal neg (ip @ fp) (x - int (length fp)))"

inductive py_float :: "(bytes \<Rightarrow> bytes) \<Rightarrow> bytes \<Rightarrow> float64 \<Rightarrow> bool" where
  py_signed: "c \<in> {CHR ''+'', CHR ''-''} \<Longrightarrow> py_body lower (c = CHR ''-'') s v \<Longrightarrow> py_float lower (c # s) v"
| py_unsigned: "s = [] \<or> hd s \<notin> {CHR ''+'', CHR ''-''} \<Longrightarrow> py_body lower False s v \<Longrightarrow> py_float lower s v"

text \<open>What cannot continue digits.\<close>

definition stops :: "bytes \<Rightarrow> bool" where
  "stops r \<longleftrightarrow> r = [] \<or> (\<not> is_digit (hd r) \<and> hd r \<noteq> CHR ''_'')"

lemma py_digits_hd: "py_digits s ds \<Longrightarrow> s \<noteq> [] \<and> ds \<noteq> [] \<and> is_digit (hd s)"
  by (induction rule: py_digits.induct) auto

lemma py_digits_digits: "py_digits s ds \<Longrightarrow> list_all is_digit ds"
  by (induction rule: py_digits.induct) auto

lemma underscore_no_digit [simp]: "\<not> is_digit (CHR ''_'')"
  by (simp add: is_digit_def byte_between_def)

lemma scan_stops: "stops r \<Longrightarrow> scan_digits st r = ([], r)"
  by (cases r) (auto simp: stops_def)

lemma scan_complete: "py_digits s ds \<Longrightarrow> stops r \<Longrightarrow> scan_digits st (s @ r) = (ds, r)"
  by (induction arbitrary: st rule: py_digits.induct) (auto simp: scan_stops dest: py_digits_hd)

lemma scan_opt_complete: "py_opt_digits s ds \<Longrightarrow> stops r \<Longrightarrow> scan_digits False (s @ r) = (ds, r)"
  by (auto simp: py_opt_digits_def scan_stops scan_complete)

lemma scan_started:
  "scan_digits True s = (ds, r) \<Longrightarrow>
     (ds = [] \<and> r = s) \<or> (\<exists>p. py_digits p ds \<and> (s = p @ r \<or> s = CHR ''_'' # p @ r))"
proof (induction "True" s arbitrary: ds rule: scan_digits.induct)
  case (2 c cs)
  show ?case
  proof (cases "is_digit c")
    case True
    with "2.prems" obtain ds' where ds': "scan_digits True cs = (ds', r)" "ds = c # ds'"
      by (auto split: prod.splits)
    from "2.hyps"(1) [OF True ds'(1)] show ?thesis
    proof (elim disjE exE conjE)
      fix p assume "py_digits p ds'" "cs = CHR ''_'' # p @ r"
      with True ds'(2) py_under [of c p ds'] show ?thesis by (intro disjI2 exI [of _ "c # CHR ''_'' # p"]) simp
    next
      fix p assume "py_digits p ds'" "cs = p @ r"
      with True ds'(2) py_more [of c p ds'] show ?thesis by (intro disjI2 exI [of _ "c # p"]) simp
    qed (use True ds'(2) py_one in \<open>auto intro!: exI [of _ "[c]"]\<close>)
  next
    case False
    show ?thesis
    proof (cases "c = CHR ''_'' \<and> cs \<noteq> [] \<and> is_digit (hd cs)")
      case True
      with False "2.prems" have s: "scan_digits True cs = (ds, r)" by simp
      from True obtain d cs' where cs: "cs = d # cs'" "is_digit d" by (cases cs) auto
      from s cs have "ds \<noteq> []" by (auto split: prod.splits)
      moreover have "cs \<noteq> CHR ''_'' # p @ r" for p using cs by auto
      ultimately show ?thesis using "2.hyps"(2) [OF False _ s] True by auto
    next
      case no: False
      with False "2.prems" show ?thesis by auto
    qed
  qed
qed simp

lemma scan_sound: "scan_digits False s = (ds, r) \<Longrightarrow> \<exists>p. py_opt_digits p ds \<and> s = p @ r"
proof (cases s)
  case (Cons c cs)
  assume scan: "scan_digits False s = (ds, r)"
  show ?thesis
  proof (cases "is_digit c")
    case True
    with scan Cons obtain ds' where ds': "scan_digits True cs = (ds', r)" "ds = c # ds'" by (auto split: prod.splits)
    from scan_started [OF ds'(1)] True ds'(2) Cons show ?thesis
      by (auto simp: py_opt_digits_def intro: py_one py_more py_under exI [of _ "[c]"] exI [of _ "c # CHR ''_'' # _"] exI [of _ "c # _"])
  qed (use scan Cons in \<open>auto simp: py_opt_digits_def\<close>)
qed (auto simp: py_opt_digits_def)

text \<open>The cleaned text spells the same number.\<close>

definition exponent_of :: "bytes \<Rightarrow> int" where
  "exponent_of e =
     (if e = [] then 0
      else let x = tl e in
        if x \<noteq> [] \<and> hd x = CHR ''-'' then - int (nat_of_digits (tl x))
        else if x \<noteq> [] \<and> hd x = CHR ''+'' then int (nat_of_digits (tl x))
        else int (nat_of_digits x))"

lemma digit_not_sign: "is_digit c \<Longrightarrow> c \<noteq> CHR ''-'' \<and> c \<noteq> CHR ''+'' \<and> c \<noteq> CHR ''.''"
  by (auto simp: is_digit_def byte_between_def)

lemma split_digits:
  "list_all is_digit ds \<Longrightarrow> r = [] \<or> \<not> is_digit (hd r) \<Longrightarrow> takeWhile is_digit (ds @ r) = ds \<and> dropWhile is_digit (ds @ r) = r"
  by (induction ds) (auto simp: takeWhile_eq_Nil_iff dropWhile_eq_self_iff)

lemma decimal_parts_split:
  assumes "b \<noteq> []" "hd b \<noteq> CHR ''-''" "takeWhile is_digit b = ip" "dropWhile is_digit b = r"
    "(if r \<noteq> [] \<and> hd r = CHR ''.'' then takeWhile is_digit (tl r) else []) = fp"
    "(if r \<noteq> [] \<and> hd r = CHR ''.'' then dropWhile is_digit (tl r) else r) = e"
  shows "decimal_parts ((if neg then ''-'' else []) @ b) = (neg, ip @ fp, exponent_of e - int (length fp))"
proof -
  define num where "num = (if neg then ''-'' else []) @ b"
  have n: "(num \<noteq> [] \<and> hd num = CHR ''-'') = neg" "(if neg then tl num else num) = b"
    using assms(1,2) by (simp_all add: num_def)
  show ?thesis
    unfolding num_def [symmetric] decimal_parts_def Let_def n assms(3-6) exponent_of_def by (rule refl)
qed

lemma parse_clean_eq:
  assumes "list_all is_digit ip" "list_all is_digit fp" "dot \<or> fp = []" "ip \<noteq> [] \<or> dot" "e = [] \<or> hd e = CHR ''e''"
  shows "parse_clean ((if neg then ''-'' else []) @ ip @ (if dot then ''.'' else []) @ fp @ e) =
    f64_decimal neg (ip @ fp) (exponent_of e - int (length fp))"
proof -
  have e: "e = [] \<or> \<not> is_digit (hd e)" "e \<noteq> [] \<Longrightarrow> hd e \<noteq> CHR ''.''"
    using assms(5) by (auto simp: is_digit_def byte_between_def)
  define r where "r = (if dot then ''.'' else []) @ fp @ e"
  have r: "r = [] \<or> \<not> is_digit (hd r)" using e assms(3) by (auto simp: r_def is_digit_def byte_between_def)
  have b: "ip @ r \<noteq> []" using assms(4) by (auto simp: r_def)
  have "hd (ip @ r) \<noteq> CHR ''-''" using assms(1,4) digit_not_sign by (cases ip) (auto simp: r_def)
  moreover have "(if r \<noteq> [] \<and> hd r = CHR ''.'' then takeWhile is_digit (tl r) else []) = fp"
    "(if r \<noteq> [] \<and> hd r = CHR ''.'' then dropWhile is_digit (tl r) else r) = e"
    using split_digits [OF assms(2) e(1)] e(2) assms(3) by (auto simp: r_def)
  ultimately show ?thesis
    using decimal_parts_split [OF b _ _ _ _ _, of ip r fp e neg] split_digits [OF assms(1) r]
    by (simp add: parse_clean_def r_def)
qed

lemma exponent_of_digits: "py_digits s ds \<Longrightarrow> exponent_of (c # ds) = int (nat_of_digits ds)"
  using py_digits_digits [of s ds] py_digits_hd [of s ds] digit_not_sign by (cases ds) (auto simp: exponent_of_def)

lemma exponent_of_sign:
  "exponent_of (c # CHR ''-'' # ds) = - int (nat_of_digits ds)" "exponent_of (c # CHR ''+'' # ds) = int (nat_of_digits ds)"
  by (simp_all add: exponent_of_def)

lemma py_opt_digits_all: "py_opt_digits s ds \<Longrightarrow> list_all is_digit ds"
  by (auto simp: py_opt_digits_def dest: py_digits_digits)

lemma stops_exponent: "py_exponent e x \<Longrightarrow> stops e"
  by (erule py_exponent.cases) (auto simp: stops_def is_digit_def byte_between_def)

lemma stops_dot: "stops (CHR ''.'' # r)"
  by (simp add: stops_def is_digit_def byte_between_def)

text \<open>What follows a mantissa.\<close>

definition python_tail :: "bool \<Rightarrow> bytes \<Rightarrow> bool \<Rightarrow> bytes \<Rightarrow> bytes \<Rightarrow> float64 option" where
  "python_tail neg ip dot fp r2 =
     (let clean = (if neg then ''-'' else []) @ ip @ (if dot then ''.'' else []) @ fp in
        if ip = [] \<and> fp = [] then None
        else if r2 \<noteq> [] \<and> (hd r2 = CHR ''e'' \<or> hd r2 = CHR ''E'') then
          let r3 = tl r2; esign = r3 \<noteq> [] \<and> (hd r3 = CHR ''+'' \<or> hd r3 = CHR ''-'') in
          (case scan_digits False (if esign then tl r3 else r3) of (ep, r4) \<Rightarrow>
             if ep = [] \<or> r4 \<noteq> [] then None
             else Some (parse_clean (clean @ ''e'' @ (if esign then [hd r3] else []) @ ep)))
        else if r2 \<noteq> [] then None
        else Some (parse_clean clean))"

lemma python_tail_eq:
  assumes "\<not> (ip = [] \<and> fp = [])" "pre = (if neg then ''-'' else []) @ ip @ (if dot then ''.'' else []) @ fp"
  shows "python_tail neg ip dot fp e =
    (if e \<noteq> [] \<and> (hd e = CHR ''e'' \<or> hd e = CHR ''E'') then
       let r3 = tl e; esign = r3 \<noteq> [] \<and> (hd r3 = CHR ''+'' \<or> hd r3 = CHR ''-'') in
       (case scan_digits False (if esign then tl r3 else r3) of (ep, r4) \<Rightarrow>
          if ep = [] \<or> r4 \<noteq> [] then None else Some (parse_clean (pre @ ''e'' @ (if esign then [hd r3] else []) @ ep)))
     else if e \<noteq> [] then None else Some (parse_clean pre))"
  unfolding python_tail_def assms(2) [symmetric] Let_def if_not_P [OF assms(1)] by (rule refl)

lemma python_tail_exponent:
  assumes "list_all is_digit ip" "list_all is_digit fp" "dot \<or> fp = []" "ip \<noteq> [] \<or> fp \<noteq> []" "py_exponent e x"
  shows "python_tail neg ip dot fp e = Some (f64_decimal neg (ip @ fp) (x - int (length fp)))"
proof -
  have d: "ip \<noteq> [] \<or> dot" using assms(3,4) by auto
  have ok: "\<not> (ip = [] \<and> fp = [])" using assms(4) by auto
  define pre where "pre = (if neg then ''-'' else []) @ ip @ (if dot then ''.'' else []) @ fp"
  have clean: "parse_clean (pre @ e') = f64_decimal neg (ip @ fp) (exponent_of e' - int (length fp))" if "e' = [] \<or> hd e' = CHR ''e''" for e'
    using parse_clean_eq [OF assms(1-3) d that, of neg] by (simp add: pre_def)
  note tail = python_tail_eq [OF ok pre_def, of e]
  have scan: "scan_digits False s = (ds, [])" if "py_digits s ds" for s ds
    using scan_complete [OF that, of "[]" False] by (simp add: stops_def)
  from assms(5) show ?thesis
  proof cases
    case py_none
    then show ?thesis unfolding tail using clean [of "[]"] by (simp add: exponent_of_def)
  next
    case (py_plain c s ds)
    then show ?thesis
      using py_digits_hd [OF py_plain(4)] digit_not_sign [of "hd s"] scan [OF py_plain(4)]
        clean [of "CHR ''e'' # ds"] exponent_of_digits [OF py_plain(4), of "CHR ''e''"]
      unfolding tail by auto
  next
    case (py_plus c s ds)
    then show ?thesis
      using py_digits_hd [OF py_plus(4)] scan [OF py_plus(4)] clean [of "CHR ''e'' # CHR ''+'' # ds"] exponent_of_sign
      unfolding tail by auto
  next
    case (py_minus c s ds)
    then show ?thesis
      using py_digits_hd [OF py_minus(4)] scan [OF py_minus(4)] clean [of "CHR ''e'' # CHR ''-'' # ds"] exponent_of_sign
      unfolding tail by auto
  qed
qed

lemma scan_all:
  assumes "scan_digits False s = (ds, [])" "ds \<noteq> []"
  shows "py_digits s ds"
  using scan_sound [OF assms(1)] assms(2) by (auto simp: py_opt_digits_def)

lemma python_tail_sound:
  assumes "python_tail neg ip dot fp e = Some v"
  shows "(ip \<noteq> [] \<or> fp \<noteq> []) \<and> (\<exists>x. py_exponent e x)"
proof -
  have ok: "\<not> (ip = [] \<and> fp = [])" using assms by (auto simp: python_tail_def)
  note tail = python_tail_eq [OF ok refl, of neg dot e]
  show ?thesis
  proof (cases e)
    case Nil
    with ok show ?thesis by (auto intro: py_none)
  next
    case (Cons c r3)
    from assms [unfolded tail] Cons have c: "c \<in> {CHR ''e'', CHR ''E''}" by (cases "c \<in> {CHR ''e'', CHR ''E''}") simp_all
    define esign where "esign \<longleftrightarrow> r3 \<noteq> [] \<and> (hd r3 = CHR ''+'' \<or> hd r3 = CHR ''-'')"
    obtain ep r4 where scan: "scan_digits False (if esign then tl r3 else r3) = (ep, r4)" by fastforce
    moreover from assms [unfolded tail] Cons c have "(case scan_digits False (if esign then tl r3 else r3) of (ep, r4) \<Rightarrow> ep \<noteq> [] \<and> r4 = [])"
      unfolding esign_def Let_def by (auto split: prod.splits if_splits)
    ultimately have "ep \<noteq> []" "r4 = []" by auto
    with scan scan_all have ep: "py_digits (if esign then tl r3 else r3) ep" by blast
    have "\<exists>x. py_exponent e x"
    proof (cases esign)
      case True
      then obtain g r where "r3 = g # r" "g = CHR ''+'' \<or> g = CHR ''-''" by (cases r3) (auto simp: esign_def)
      with ep True c Cons show ?thesis by (auto intro: py_plus py_minus)
    qed (use ep c Cons in \<open>auto intro: py_plain\<close>)
    with ok show ?thesis by auto
  qed
qed

definition python_decimal :: "bool \<Rightarrow> bytes \<Rightarrow> float64 option" where
  "python_decimal neg body =
     (case scan_digits False body of (ip, r1) \<Rightarrow>
      let dot = r1 \<noteq> [] \<and> hd r1 = CHR ''.'' in
      case (if dot then scan_digits False (tl r1) else ([], r1)) of (fp, r2) \<Rightarrow> python_tail neg ip dot fp r2)"

lemma python_body_decimal:
  "lower body \<notin> {''inf'', ''infinity'', ''nan''} \<Longrightarrow> python_body lower neg body = python_decimal neg body"
  by (simp add: python_body_def python_decimal_def python_tail_def Let_def)

lemma python_decimal_sound:
  assumes "python_decimal neg body = Some v"
  shows "\<exists>m ip fp e x. body = m @ e \<and> py_mantissa m ip fp \<and> py_exponent e x \<and> v = f64_decimal neg (ip @ fp) (x - int (length fp))"
proof -
  obtain ip r1 where s1: "scan_digits False body = (ip, r1)" by fastforce
  define dot where "dot \<longleftrightarrow> r1 \<noteq> [] \<and> hd r1 = CHR ''.''"
  obtain fp r2 where s2: "(if dot then scan_digits False (tl r1) else ([], r1)) = (fp, r2)" by fastforce
  have t: "python_tail neg ip dot fp r2 = Some v"
    using assms s2 unfolding python_decimal_def s1 prod.case Let_def dot_def [symmetric] by simp
  from python_tail_sound [OF t] obtain x where x: "ip \<noteq> [] \<or> fp \<noteq> []" "py_exponent r2 x" by auto
  from scan_sound [OF s1] obtain p where p: "py_opt_digits p ip" "body = p @ r1" by auto
  have "\<exists>m. body = m @ r2 \<and> py_mantissa m ip fp \<and> list_all is_digit fp \<and> (dot \<or> fp = [])"
  proof (cases dot)
    case True
    with s2 scan_sound [of "tl r1" fp r2] obtain q where q: "py_opt_digits q fp" "tl r1 = q @ r2" by auto
    from True q have "r1 = ''.'' @ q @ r2" by (cases r1) (auto simp: dot_def)
    with p q x(1) py_point [of p ip q fp] True show ?thesis by (auto simp: py_opt_digits_all)
  next
    case False
    with s2 x(1) p show ?thesis by (auto simp: py_opt_digits_def intro: py_whole)
  qed
  moreover have "v = f64_decimal neg (ip @ fp) (x - int (length fp))" if "list_all is_digit fp" "dot \<or> fp = []"
    using python_tail_exponent [OF py_opt_digits_all [OF p(1)] that x, of neg] t by simp
  ultimately show ?thesis using x(2) by blast
qed

lemma python_decimal_complete:
  assumes "py_mantissa m ip fp" "py_exponent e x"
  shows "python_decimal neg (m @ e) = Some (f64_decimal neg (ip @ fp) (x - int (length fp)))"
  using assms(1)
proof cases
  case py_whole
  note e = stops_exponent [OF assms(2)]
  have "\<not> (e \<noteq> [] \<and> hd e = CHR ''.'')" using assms(2) by (auto elim: py_exponent.cases)
  moreover have "scan_digits False (m @ e) = (ip, e)" using py_whole scan_complete e by blast
  ultimately have "python_decimal neg (m @ e) = python_tail neg ip False [] e" by (auto simp: python_decimal_def)
  with python_tail_exponent [of ip "[]" False e x neg] assms(2) py_whole py_digits_hd [of m ip] py_digits_digits [of m ip]
  show ?thesis by simp
next
  case (py_point s t)
  have "scan_digits False (m @ e) = (ip, ''.'' @ t @ e)"
    using py_point scan_opt_complete [of s ip "''.'' @ t @ e"] stops_dot by simp
  moreover have "scan_digits False (t @ e) = (fp, e)" using py_point scan_opt_complete stops_exponent [OF assms(2)] by blast
  ultimately have "python_decimal neg (m @ e) = python_tail neg ip True fp e" by (simp add: python_decimal_def)
  with python_tail_exponent [of ip fp True e x neg] assms(2) py_point py_opt_digits_all show ?thesis by simp
qed

lemma mantissa_hd: "py_mantissa m ip fp \<Longrightarrow> m \<noteq> [] \<and> (is_digit (hd m) \<or> hd m = CHR ''.'')"
  by (erule py_mantissa.cases) (auto simp: py_opt_digits_def dest: py_digits_hd)

lemma py_digits_ascii: "py_digits s ds \<Longrightarrow> list_all (\<lambda>c. byte c < 0x80) s"
  by (induction rule: py_digits.induct) (auto simp: is_digit_def byte_between_def)

lemma decimal_ascii: "py_mantissa m ip fp \<Longrightarrow> py_exponent e x \<Longrightarrow> list_all (\<lambda>c. byte c < 0x80) (m @ e)"
  by (erule py_mantissa.cases; erule py_exponent.cases) (auto simp: py_opt_digits_def dest: py_digits_ascii)

lemma decimal_not_special:
  assumes "py_mantissa m ip fp"
  shows "lower_ascii (m @ e) \<notin> {''inf'', ''infinity'', ''nan''}"
proof -
  from mantissa_hd [OF assms] obtain c r where m: "m = c # r" "is_digit c \<or> c = CHR ''.''" by (cases m) auto
  then have "lower_ascii (m @ e) = c # lower_ascii (r @ e)"
    by (auto simp: lower_ascii_def lower_char_def is_digit_def byte_between_def)
  with m(2) show ?thesis by (auto simp: is_digit_def byte_between_def)
qed

lemma python_body_iff:
  assumes "\<forall>s. list_all (\<lambda>c. byte c < 0x80) s \<longrightarrow> lower s = lower_ascii s"
  shows "python_body lower neg body = Some v \<longleftrightarrow> py_body lower neg body v"
proof (cases "lower body \<in> {''inf'', ''infinity'', ''nan''}")
  case True
  have "\<not> (\<exists>m e ip fp x. body = m @ e \<and> py_mantissa m ip fp \<and> py_exponent e x)"
  proof
    assume "\<exists>m e ip fp x. body = m @ e \<and> py_mantissa m ip fp \<and> py_exponent e x"
    then obtain m e ip fp x where m: "body = m @ e" "py_mantissa m ip fp" "py_exponent e x" by blast
    from decimal_ascii [OF m(2,3)] assms m(1) have "lower body = lower_ascii (m @ e)" by simp
    with True decimal_not_special [OF m(2), of e] show False by simp
  qed
  note no = this
  have "py_body lower neg body v \<longleftrightarrow>
    ((lower body = ''inf'' \<or> lower body = ''infinity'') \<and> v = f64_infinity neg) \<or> (lower body = ''nan'' \<and> v = f64_nan)" (is "_ \<longleftrightarrow> ?r")
  proof
    assume "py_body lower neg body v"
    then show ?r
    proof cases
      case (py_decimal m ip fp e x)
      with no show ?thesis by blast
    qed simp_all
  next
    assume ?r
    then show "py_body lower neg body v" by (elim disjE conjE) (simp_all add: py_inf py_nan)
  qed
  moreover have "python_body lower neg body = Some (if lower body = ''nan'' then f64_nan else f64_infinity neg)"
    using True unfolding python_body_def by (cases "lower body = ''nan''") simp_all
  ultimately show ?thesis using True by auto
next
  case False
  then have dec: "python_body lower neg body = python_decimal neg body" by (rule python_body_decimal)
  show ?thesis
  proof
    assume "python_body lower neg body = Some v"
    with dec python_decimal_sound [of neg body v] show "py_body lower neg body v" by (auto intro: py_decimal)
  next
    assume "py_body lower neg body v"
    then show "python_body lower neg body = Some v"
    proof cases
      case (py_decimal m ip fp e x)
      with dec python_decimal_complete [of m ip fp e x neg] show ?thesis by simp
    qed (use False in simp_all)
  qed
qed

section \<open>Properties\<close>



end
