(* ===== verification/Sdk_Errors.thy ===== *)
theory Sdk_Errors
  imports Engine_Header Engine_Chain Engine_Read Codec_Errorbody Codec_Finish Sdk_Number
begin

text \<open>
  The errors a call returns, \<open>errors.go\<close> and \<open>text.go\<close>: their kinds, the data and the text of each, and
  how the error that ended an attempt becomes one of them, \<open>transport.go\<close> and \<open>client.go\<close>. What
  \<open>errors.As\<close> and \<open>errors.Is\<close> find in the chain of a transport's error is part of that error's data.
\<close>

section \<open>Kinds\<close>

datatype api_error_kind =
    APIErrorOther | APIErrorBadRequest | APIErrorAuthentication | APIErrorPermissionDenied | APIErrorNotFound
  | APIErrorUnprocessableEntity | APIErrorRateLimit | APIErrorInternalServer

definition api_error_kind :: "int \<Rightarrow> api_error_kind" where
  "api_error_kind status =
     (if status = 400 then APIErrorBadRequest
      else if status = 401 then APIErrorAuthentication
      else if status = 403 then APIErrorPermissionDenied
      else if status = 404 then APIErrorNotFound
      else if status = 422 then APIErrorUnprocessableEntity
      else if status = 429 then APIErrorRateLimit
      else if 500 \<le> status then APIErrorInternalServer
      else APIErrorOther)"

fun kind_text :: "api_error_kind \<Rightarrow> bytes" where
  "kind_text APIErrorBadRequest = ''bad request''"
| "kind_text APIErrorAuthentication = ''authentication''"
| "kind_text APIErrorPermissionDenied = ''permission denied''"
| "kind_text APIErrorNotFound = ''not found''"
| "kind_text APIErrorUnprocessableEntity = ''unprocessable entity''"
| "kind_text APIErrorRateLimit = ''rate limit''"
| "kind_text APIErrorInternalServer = ''internal server error''"
| "kind_text APIErrorOther = ''other''"

section \<open>Field paths\<close>

record path_text =
  pt_b :: bytes
  pt_n :: nat
  pt_limit :: nat
  pt_full :: bool

definition path_fixed :: "bytes \<Rightarrow> path_text \<Rightarrow> path_text" where
  "path_fixed s t =
     (if pt_full t then t
      else if pt_limit t < pt_n t + length s then t\<lparr>pt_b := pt_b t @ ellipsis, pt_full := True\<rparr>
      else t\<lparr>pt_b := pt_b t @ s, pt_n := pt_n t + length s\<rparr>)"

definition path_name :: "bytes \<Rightarrow> path_text \<Rightarrow> path_text" where
  "path_name s t =
     (if pt_full t then t
      else
        let room = min max_name_chars (pt_limit t - pt_n t);
            b = append_safe_text (pt_b t) s room True;
            written = length (runes (drop (length (pt_b t)) b)) in
        t\<lparr>pt_b := b, pt_n := pt_n t + written, pt_full := room < max_name_chars \<and> room < written\<rparr>)"

definition render_field_path :: "field_path \<Rightarrow> bytes" where
  "render_field_path p =
     (if fp_top p = [] then ''.''
      else
        let t = path_fixed (fp_top p) \<lparr>pt_b = [], pt_n = 0, pt_limit = max_path_chars, pt_full = False\<rparr>;
            t = (case fp_index p of Some i \<Rightarrow> path_fixed (''['' @ show_nat i @ '']'') t | None \<Rightarrow> t);
            t = (case fp_name p of Some n \<Rightarrow> path_name n (path_fixed ''.'' t) | None \<Rightarrow> t);
            t = (if fp_member p \<noteq> [] then path_fixed (fp_member p) (path_fixed ''.'' t) else t);
            t = (case fp_key p of Some k \<Rightarrow> path_name k (path_fixed ''.'' t) | None \<Rightarrow> t) in
        pt_b t)"

section \<open>The errors\<close>

record api_error =
  ae_kind :: api_error_kind
  ae_status :: int
  ae_header :: "header option"
  ae_body :: bytes
  ae_endpoint :: bytes
  ae_message :: bytes
  ae_type :: bytes

record validation_error =
  ve_status :: int
  ve_header :: "header option"
  ve_body :: bytes
  ve_endpoint :: bytes
  ve_field_path :: bytes
  ve_reason :: failure

record too_large_error =
  le_status :: int
  le_header :: "header option"
  le_endpoint :: bytes
  le_limit :: int

text \<open>What an SDK error unwraps to besides a transport's error.\<close>

datatype wrapped = ErrHTTP2NotNegotiated | ErrClientClosed | WrapsCause cause

text \<open>The SDK's errors, and the context's own error, which a cancelled call returns as it is.\<close>

datatype sdk_error =
    ConfigError (se_msg: bytes) (se_wraps: "wrapped list")
  | InvalidRequestError (se_msg: bytes)
  | APIError api_error
  | ResponseValidationError validation_error
  | ResponseTooLargeError too_large_error
  | ConnectionError (se_msg: bytes) (se_cause: cause) (se_proxy: bool)
  | TimeoutError (se_timeout: int) (se_cause: cause) (se_proxy: bool)
  | ContextCanceled

definition header_request_id :: "header option \<Rightarrow> bytes option" where
  "header_request_id h = request_id \<lparr>rm_status = 0, rm_header = (case h of Some h \<Rightarrow> h | None \<Rightarrow> []), rm_body = []\<rparr>"

definition render_response_error :: "bytes \<Rightarrow> int \<Rightarrow> bytes \<Rightarrow> header option \<Rightarrow> bytes" where
  "render_response_error endpoint status message h =
     (if endpoint \<noteq> [] then endpoint @ '': '' else []) @
     (if status \<noteq> 0 then show_int status @ (if message \<noteq> [] then '' '' else []) else []) @
     message @
     (case header_request_id h of
        Some v \<Rightarrow> append_safe_text '' (request_id='' v max_name_chars False @ '')''
      | None \<Rightarrow> [])"

fun error_text :: "sdk_error \<Rightarrow> bytes" where
  "error_text (ConfigError msg wr) = msg"
| "error_text (InvalidRequestError msg) = msg"
| "error_text (APIError e) = render_response_error (ae_endpoint e) (ae_status e) (ae_message e) (ae_header e)"
| "error_text (ResponseValidationError e) =
     render_response_error (ve_endpoint e) (ve_status e)
       (''Invalid response data at '' @ [CHR 0x27] @ ve_field_path e @ [CHR 0x27] @ ''.'') (ve_header e)"
| "error_text (ResponseTooLargeError e) =
     render_response_error (le_endpoint e) (le_status e)
       (''The response body is larger than the limit of '' @ show_int (le_limit e) @ '' bytes.'') (le_header e)"
| "error_text (ConnectionError msg c p) = msg"
| "error_text (TimeoutError timeout c p) =
     ''Request timed out'' @ (if p then '' on the proxy hop'' else []) @
     (if timeout \<le> 0 then ''.'' else '' (timeout='' @ format_f (seconds timeout) @ ''s).'')"
| "error_text ContextCanceled = ''context canceled''"

text \<open>\<open>errors.Is\<close> against one of the sentinels.\<close>

fun cause_is :: "sentinel \<Rightarrow> cause \<Rightarrow> bool" where
  "cause_is s (Kept None) \<longleftrightarrow> False"
| "cause_is s (Kept (Some e)) \<longleftrightarrow> errors_is s e"
| "cause_is s (StandIn m d ss) \<longleftrightarrow> s \<in> set ss"

fun error_is :: "sentinel \<Rightarrow> sdk_error \<Rightarrow> bool" where
  "error_is s (ConfigError msg wr) \<longleftrightarrow> list_ex (\<lambda>w. case w of WrapsCause c \<Rightarrow> cause_is s c | _ \<Rightarrow> False) wr"
| "error_is s (ConnectionError msg c p) \<longleftrightarrow> cause_is s c"
| "error_is s (TimeoutError t c p) \<longleftrightarrow> cause_is s c"
| "error_is s ContextCanceled \<longleftrightarrow> s = Canceled"
| "error_is s _ \<longleftrightarrow> False"

text \<open>A request's URL: scheme, host with port, and escaped path.\<close>

record url =
  url_scheme :: bytes
  url_host :: bytes
  url_path :: bytes

definition endpoint_of :: "bytes \<Rightarrow> url \<Rightarrow> bytes" where
  "endpoint_of method u = method @ '' '' @ url_scheme u @ ''://'' @ url_host u @ url_path u"

definition is_authentication :: "api_error \<Rightarrow> bool" where
  "is_authentication e \<longleftrightarrow> ae_kind e = APIErrorAuthentication \<or> ae_type e = ''authentication_error''"

definition new_api_error ::
  "(bytes \<Rightarrow> bytes) \<Rightarrow> (bytes \<Rightarrow> jtree option) \<Rightarrow> response_meta \<Rightarrow> bytes \<Rightarrow> redactor \<Rightarrow> sdk_error" where
  "new_api_error lower parse meta endpoint r =
     (let eb = read_error_body parse (rm_body meta) in
      APIError
        \<lparr>ae_kind = api_error_kind (rm_status meta), ae_status = rm_status meta,
         ae_header = redact_header lower r (Some (rm_header meta)), ae_body = rm_body meta, ae_endpoint = endpoint,
         ae_message = (if eb_no_body eb then ''status code (no body)'' else safe_message (eb_message eb)),
         ae_type = eb_error_type eb\<rparr>)"

definition new_response_validation_error ::
  "(bytes \<Rightarrow> bytes) \<Rightarrow> response_meta \<Rightarrow> bytes \<Rightarrow> redactor \<Rightarrow> failure \<Rightarrow> sdk_error" where
  "new_response_validation_error lower meta endpoint r f =
     ResponseValidationError
       \<lparr>ve_status = rm_status meta, ve_header = redact_header lower r (Some (rm_header meta)), ve_body = rm_body meta,
        ve_endpoint = endpoint, ve_field_path = render_field_path (fst f), ve_reason = f\<rparr>"

definition new_response_too_large_error ::
  "(bytes \<Rightarrow> bytes) \<Rightarrow> response_meta \<Rightarrow> bytes \<Rightarrow> redactor \<Rightarrow> int \<Rightarrow> sdk_error" where
  "new_response_too_large_error lower meta endpoint r limit =
     ResponseTooLargeError
       \<lparr>le_status = rm_status meta, le_header = redact_header lower r (Some (rm_header meta)), le_endpoint = endpoint,
        le_limit = limit\<rparr>"

definition new_connection_error :: "bytes \<Rightarrow> cause \<Rightarrow> bool \<Rightarrow> sdk_error" where
  "new_connection_error text c proxy = ConnectionError (''Connection error: '' @ safe_message text) c proxy"

section \<open>The error that ended an attempt\<close>

text \<open>A \<open>DialError\<close> of the SDK's transport; its cause may itself be a \<open>NotNegotiatedError\<close>, whose detail
  it then has.\<close>

record dial_error =
  de_proxy :: bool
  de_timeout :: bool
  de_err :: gerr
  de_detail :: "bytes option"

text \<open>A transport's error: the \<open>DialError\<close> in its chain, whether \<open>ErrNotNegotiated\<close> is in it, the detail
  when it is itself a \<open>NotNegotiatedError\<close>, and whether the first \<open>net.Error\<close> in it is a timeout.\<close>

record transport_error =
  te_err :: gerr
  te_dial :: "dial_error option"
  te_not_negotiated :: bool
  te_detail :: "bytes option"
  te_net_timeout :: bool

definition not_negotiated :: "bytes list \<Rightarrow> gerr \<Rightarrow> bytes option \<Rightarrow> cause \<Rightarrow> sdk_error" where
  "not_negotiated creds e detail c =
     ConfigError
       (''The API host did not negotiate HTTP/2, which HTTP2Only requires ('' @
        safe_message (fst (redact creds (case detail of Some d \<Rightarrow> d | None \<Rightarrow> ge_text e))) @
        ''); WithHTTPVersion(HTTPAuto) allows HTTP/1.1.'')
       [ErrHTTP2NotNegotiated, WrapsCause c]"

text \<open>\<open>transportError\<close>: \<open>None\<close> leaves the error to the attempt's classification.\<close>

definition map_transport_error :: "bytes list \<Rightarrow> int \<Rightarrow> transport_error \<Rightarrow> sdk_error option" where
  "map_transport_error creds timeout e =
     (let c = cause creds (Some (te_err e)) in
      case te_dial e of
        None \<Rightarrow> if te_not_negotiated e then Some (not_negotiated creds (te_err e) (te_detail e) c) else None
      | Some d \<Rightarrow>
          Some (if de_proxy d \<and> de_timeout d then TimeoutError timeout c True
                else if de_proxy d then new_connection_error (fst (redact creds (ge_text (de_err d)))) c True
                else if te_not_negotiated e then not_negotiated creds (de_err d) (de_detail d) c
                else if de_timeout d then TimeoutError timeout c False
                else new_connection_error (fst (redact creds (ge_text (de_err d)))) c False))"

text \<open>What \<open>ctx.Err()\<close> is once a context has ended.\<close>

datatype ctx_end = CtxCanceled | CtxDeadline

text \<open>The error \<open>roundTrip\<close> or the read of a body gives: mapped, or the transport's own.\<close>

datatype attempt_failure = Mapped sdk_error | Raw transport_error

definition round_trip_failure :: "bytes list \<Rightarrow> int \<Rightarrow> transport_error \<Rightarrow> attempt_failure" where
  "round_trip_failure creds timeout e =
     (case map_transport_error creds timeout e of Some s \<Rightarrow> Mapped s | None \<Rightarrow> Raw e)"

text \<open>\<open>attemptError\<close>: \<open>ctx\<close> is the call's context's end, \<open>expired\<close> whether the attempt's deadline has
  passed.\<close>

definition attempt_error ::
  "bytes list \<Rightarrow> ctx_end option \<Rightarrow> bool \<Rightarrow> int \<Rightarrow> attempt_failure \<Rightarrow> sdk_error" where
  "attempt_error creds ctx expired timeout failed =
     (if ctx = Some CtxCanceled then ContextCanceled
      else case failed of
        Mapped s \<Rightarrow> s
      | Raw e \<Rightarrow>
          let c = cause creds (Some (te_err e)) in
          if ctx = Some CtxDeadline then TimeoutError 0 c False
          else if expired \<or> errors_is DeadlineExceeded (te_err e) \<or> te_net_timeout e then TimeoutError timeout c False
          else new_connection_error (fst (redact creds (ge_text (te_err e)))) c False)"

section \<open>A path's length\<close>

lemma append_safe_from_dst:
  "append_safe_from limit double n (a @ dst) s = a @ append_safe_from limit double n dst s"
proof (induction limit double n dst s rule: append_safe_from.induct)
  case (1 limit double n dst s)
  show ?case
  proof (cases "s = [] \<or> limit < n + width_of double s")
    case True
    then show ?thesis by (subst (1 2) append_safe_from.simps) auto
  next
    case False
    with 1 show ?thesis by (subst (1 2) append_safe_from.simps) simp
  qed
qed

lemma append_safe_text_dst: "append_safe_text dst s limit double = dst @ append_safe_text [] s limit double"
  using append_safe_from_dst [of limit double 0 dst "[]" s] by (simp add: append_safe_text_def)

lemma append_safe_text_piece:
  "safe_text (append_safe_text [] s limit double) \<and> length (runes (append_safe_text [] s limit double)) \<le> Suc limit"
  using append_safe_from_text [of 0 limit double "[]" s] by (auto simp: append_safe_text_def)

definition printable :: "bytes \<Rightarrow> bool" where
  "printable s \<longleftrightarrow> list_all (\<lambda>c. 0x20 \<le> byte c \<and> byte c < 0x7F) s"

lemma printable_safe: "printable s \<Longrightarrow> safe_text s \<and> length (runes s) = length s"
  by (simp add: printable_def printable_runes)

lemma safe_runes_append: "safe_text a \<Longrightarrow> length (runes (a @ b)) = length (runes a) + length (runes b)"
  by (simp add: runes_append safe_text_valid)

lemma ellipsis_safe: "safe_text ellipsis \<and> length (runes ellipsis) = 1"
  using ellipsis_runes by (simp add: safe_text_def safe_rune_def control_rune_def hides_text_def)

definition path_inv :: "path_text \<Rightarrow> bool" where
  "path_inv t \<longleftrightarrow> safe_text (pt_b t) \<and> length (runes (pt_b t)) \<le> pt_limit t + 2 \<and>
     (\<not> pt_full t \<longrightarrow> length (runes (pt_b t)) = pt_n t \<and> pt_n t \<le> Suc (pt_limit t))"

lemma path_fixed_inv: "path_inv t \<Longrightarrow> printable s \<Longrightarrow> path_inv (path_fixed s t) \<and> pt_limit (path_fixed s t) = pt_limit t"
  using printable_safe [of s] ellipsis_safe
  by (auto simp: path_inv_def path_fixed_def safe_text_append safe_runes_append)

lemma path_name_inv:
  assumes "path_inv t"
  shows "path_inv (path_name s t) \<and> pt_limit (path_name s t) = pt_limit t"
proof (cases "pt_full t")
  case False
  define room where "room = min max_name_chars (pt_limit t - pt_n t)"
  let ?w = "append_safe_text [] s room True"
  have d: "append_safe_text (pt_b t) s room True = pt_b t @ ?w" by (rule append_safe_text_dst)
  have w: "safe_text ?w" "length (runes ?w) \<le> Suc room" using append_safe_text_piece by auto
  have t: "path_name s t = t\<lparr>pt_b := pt_b t @ ?w, pt_n := pt_n t + length (runes ?w),
      pt_full := room < max_name_chars \<and> room < length (runes ?w)\<rparr>"
    using False d by (simp add: path_name_def room_def [symmetric] Let_def)
  from assms False have b: "safe_text (pt_b t)" "length (runes (pt_b t)) = pt_n t" "pt_n t \<le> Suc (pt_limit t)"
    by (simp_all add: path_inv_def)
  have "pt_n t + length (runes ?w) \<le> pt_limit t + 2" using b(3) w(2) by (auto simp: room_def)
  moreover have "pt_n t + length (runes ?w) \<le> Suc (pt_limit t)" if "\<not> (room < max_name_chars \<and> room < length (runes ?w))"
    using that b(3) w(2) by (auto simp: room_def min_def max_name_chars_def split: if_splits)
  ultimately show ?thesis unfolding t path_inv_def using b w by (simp add: safe_text_append safe_runes_append)
qed (use assms in \<open>simp add: path_name_def\<close>)

lemma dot_printable: "printable ''.''" "printable s \<Longrightarrow> printable (''.'' @ s)"
  by (simp_all add: printable_def)

lemma index_printable: "printable (''['' @ show_nat i @ '']'')"
proof -
  have "\<And>c. is_digit c \<Longrightarrow> 0x20 \<le> byte c \<and> byte c < 0x7F" by (simp add: is_digit_def byte_between_def)
  then have "printable (show_nat i)"
    using show_nat_digits [of i] unfolding printable_def list_all_iff by blast
  then show ?thesis by (simp add: printable_def)
qed

definition new_path :: path_text where
  "new_path = \<lparr>pt_b = [], pt_n = 0, pt_limit = max_path_chars, pt_full = False\<rparr>"

lemma new_path_inv: "path_inv new_path" "pt_limit new_path = max_path_chars"
  by (simp_all add: new_path_def path_inv_def safe_text_def)

lemma render_field_path_inv:
  assumes "printable (fp_top p)" "printable (fp_member p)"
  shows "safe_text (render_field_path p) \<and> length (runes (render_field_path p)) \<le> max_path_chars + 2"
proof (cases "fp_top p = []")
  case True
  then show ?thesis using printable_safe [OF dot_printable(1)] by (simp add: render_field_path_def max_path_chars_def)
next
  case False
  note rules = path_fixed_inv [OF _ dot_printable(1)] path_name_inv
  define t1 where "t1 = path_fixed (fp_top p) new_path"
  define t2 where "t2 = (case fp_index p of Some i \<Rightarrow> path_fixed (''['' @ show_nat i @ '']'') t1 | None \<Rightarrow> t1)"
  define t3 where "t3 = (case fp_name p of Some n \<Rightarrow> path_name n (path_fixed ''.'' t2) | None \<Rightarrow> t2)"
  define t4 where "t4 = (if fp_member p \<noteq> [] then path_fixed (fp_member p) (path_fixed ''.'' t3) else t3)"
  define t5 where "t5 = (case fp_key p of Some k \<Rightarrow> path_name k (path_fixed ''.'' t4) | None \<Rightarrow> t4)"
  let ?ok = "\<lambda>t. path_inv t \<and> pt_limit t = max_path_chars"
  have "?ok t1" using path_fixed_inv [OF new_path_inv(1) assms(1)] new_path_inv(2) by (simp add: t1_def)
  then have "?ok t2" using path_fixed_inv [OF _ index_printable] by (auto simp: t2_def split: option.split)
  then have "?ok t3" using rules by (auto simp: t3_def split: option.split)
  then have "?ok t4" using rules path_fixed_inv [OF _ assms(2)] by (auto simp: t4_def)
  then have "?ok t5" using rules by (auto simp: t5_def split: option.split)
  moreover have "render_field_path p = pt_b t5"
    unfolding render_field_path_def if_not_P [OF False] Let_def t5_def t4_def t3_def t2_def t1_def new_path_def by (rule refl)
  ultimately show ?thesis by (simp add: path_inv_def)
qed

text \<open>A path that is far from the limit is never cut.\<close>

definition escaped_name :: "bytes \<Rightarrow> bytes" where
  "escaped_name s = append_safe_text [] s max_name_chars True"

definition uncut :: "bytes \<Rightarrow> nat \<Rightarrow> path_text \<Rightarrow> bool" where
  "uncut b n t \<longleftrightarrow> pt_b t = b \<and> pt_n t \<le> n \<and> pt_limit t = max_path_chars \<and> \<not> pt_full t"

lemma uncut_fixed: "uncut b n t \<Longrightarrow> n + length s \<le> max_path_chars \<Longrightarrow> uncut (b @ s) (n + length s) (path_fixed s t)"
  by (auto simp: uncut_def path_fixed_def)

lemma uncut_name:
  assumes "uncut b n t" "n + 128 \<le> max_path_chars"
  shows "uncut (b @ escaped_name s) (n + 129) (path_name s t)"
proof -
  have "min max_name_chars (pt_limit t - pt_n t) = max_name_chars" using assms by (auto simp: uncut_def max_name_chars_def)
  moreover have "length (runes (escaped_name s)) \<le> 129" "append_safe_text b s max_name_chars True = b @ escaped_name s"
    using append_safe_text_dst [of b s max_name_chars True] append_safe_text_piece [of s max_name_chars True]
    by (simp_all add: escaped_name_def max_name_chars_def)
  ultimately show ?thesis using assms by (simp add: uncut_def path_name_def Let_def)
qed

lemma uncut_dot_name:
  assumes "uncut b n t" "n + 129 \<le> max_path_chars"
  shows "uncut (b @ ''.'' @ escaped_name s) (n + 130) (path_name s (path_fixed ''.'' t))"
  using uncut_name [of "b @ ''.''" "n + 1" "path_fixed ''.'' t" s] uncut_fixed [OF assms(1), of "''.''"] assms(2)
  by (simp add: add.commute)

lemma uncut_mono: "uncut b m t \<Longrightarrow> m \<le> n \<Longrightarrow> uncut b n t"
  by (simp add: uncut_def)

definition fixed_length :: "field_path \<Rightarrow> nat" where
  "fixed_length p =
     length (fp_top p) + (case fp_index p of Some i \<Rightarrow> length (show_nat i) + 2 | None \<Rightarrow> 0) + length (fp_member p)"

definition quote_names :: "field_path \<Rightarrow> field_path" where
  "quote_names p = p\<lparr>fp_name := map_option escaped_name (fp_name p), fp_key := map_option escaped_name (fp_key p)\<rparr>"

lemma render_field_path_whole:
  assumes "fixed_length p \<le> 60"
  shows "render_field_path p = field_path_string (quote_names p)"
proof (cases "fp_top p = []")
  case False
  have l: "max_path_chars = 320" by (simp add: max_path_chars_def)
  define t1 where "t1 = path_fixed (fp_top p) new_path"
  define t2 where "t2 = (case fp_index p of Some i \<Rightarrow> path_fixed (''['' @ show_nat i @ '']'') t1 | None \<Rightarrow> t1)"
  define t3 where "t3 = (case fp_name p of Some n \<Rightarrow> path_name n (path_fixed ''.'' t2) | None \<Rightarrow> t2)"
  define t4 where "t4 = (if fp_member p \<noteq> [] then path_fixed (fp_member p) (path_fixed ''.'' t3) else t3)"
  define t5 where "t5 = (case fp_key p of Some k \<Rightarrow> path_name k (path_fixed ''.'' t4) | None \<Rightarrow> t4)"
  let ?i = "case fp_index p of Some i \<Rightarrow> ''['' @ show_nat i @ '']'' | None \<Rightarrow> []"
  let ?n = "case fp_name p of Some n \<Rightarrow> ''.'' @ escaped_name n | None \<Rightarrow> []"
  let ?m = "if fp_member p \<noteq> [] then ''.'' @ fp_member p else []"
  let ?k = "case fp_key p of Some k \<Rightarrow> ''.'' @ escaped_name k | None \<Rightarrow> []"
  define a where "a = length (fp_top p) + length ?i"
  have a: "a + length (fp_member p) \<le> 60" using assms by (auto simp: fixed_length_def a_def split: option.splits)
  have "uncut (fp_top p) (length (fp_top p)) t1"
    using uncut_fixed [of "[]" 0 new_path "fp_top p"] a l by (simp add: uncut_def new_path_def t1_def a_def)
  then have "uncut (fp_top p @ ?i) a t2"
    using uncut_fixed [of "fp_top p" "length (fp_top p)" t1 ?i] a l by (simp add: a_def t2_def split: option.splits)
  then have "uncut (fp_top p @ ?i @ ?n) (a + 130) t3"
    using uncut_dot_name [of "fp_top p @ ?i" a t2 "the (fp_name p)"] uncut_mono [of "fp_top p @ ?i" a t2 "a + 130"] a l
    by (cases "fp_name p") (simp_all add: t3_def)
  then have t4: "uncut (fp_top p @ ?i @ ?n @ ?m) (a + 131 + length (fp_member p)) t4"
    using uncut_fixed [of "fp_top p @ ?i @ ?n" "a + 130" t3 "''.''"]
      uncut_fixed [of "fp_top p @ ?i @ ?n @ ''.''" "a + 131" "path_fixed ''.'' t3" "fp_member p"] a l
    by (auto simp: t4_def uncut_def split: option.splits)
  have "pt_b t5 = fp_top p @ ?i @ ?n @ ?m @ ?k"
  proof (cases "fp_key p")
    case None
    with t4 show ?thesis by (simp add: t5_def uncut_def)
  next
    case (Some k)
    with uncut_dot_name [OF t4, of k] a l show ?thesis by (simp add: t5_def uncut_def)
  qed
  moreover have "render_field_path p = pt_b t5"
    unfolding render_field_path_def if_not_P [OF False] Let_def t5_def t4_def t3_def t2_def t1_def new_path_def by (rule refl)
  ultimately show ?thesis using False by (simp add: field_path_string_def quote_names_def split: option.splits)
qed (simp add: render_field_path_def field_path_string_def quote_names_def)

section \<open>What an attempt's error shows\<close>

text \<open>A text that holds no credential and no URL's userinfo.\<close>

definition hides :: "bytes list \<Rightarrow> bytes \<Rightarrow> bool" where
  "hides creds t \<longleftrightarrow>
     (\<forall>v \<in> set creds. \<not> contains t v) \<and> (\<forall>a b. t = a @ ''://'' @ b \<longrightarrow> clean_authority (authority b))"

lemma redact_hides:
  assumes "[] \<notin> set creds" "\<forall>v \<in> set creds. star_free v"
  shows "hides creds (fst (redact creds s))"
proof -
  obtain t b where t: "redact_all creds s False = (t, b)" by fastforce
  then have "fst (redact creds s) = fst (scrub_from t)"
    using scrub_unchanged [of t] by (cases "scrub_from t") (auto simp: redact_def scrub_userinfo_def split: bool.splits)
  with scrub_clean assms redact_gone [of creds] show ?thesis unfolding hides_def by metis
qed

text \<open>What an attempt that ended without a response may return.\<close>

definition private_error :: "bytes list \<Rightarrow> gerr \<Rightarrow> ctx_end option \<Rightarrow> int \<Rightarrow> sdk_error \<Rightarrow> bool" where
  "private_error creds e ctx timeout x \<longleftrightarrow>
     (case x of
        ContextCanceled \<Rightarrow> ctx = Some CtxCanceled
      | ConnectionError msg c p \<Rightarrow>
          ctx \<noteq> Some CtxCanceled \<and> (\<exists>t. msg = ''Connection error: '' @ safe_message t \<and> hides creds t) \<and> cause_private creds e c
      | TimeoutError d c p \<Rightarrow>
          ctx \<noteq> Some CtxCanceled \<and> (d = timeout \<or> d = 0 \<and> ctx = Some CtxDeadline \<and> \<not> p) \<and> cause_private creds e c
      | ConfigError msg wr \<Rightarrow>
          ctx \<noteq> Some CtxCanceled \<and> (\<exists>t pre post. msg = pre @ safe_message t @ post \<and> hides creds t \<and>
            pre = ''The API host did not negotiate HTTP/2, which HTTP2Only requires ('' \<and>
            post = ''); WithHTTPVersion(HTTPAuto) allows HTTP/1.1.'') \<and>
          (\<exists>c. wr = [ErrHTTP2NotNegotiated, WrapsCause c] \<and> cause_private creds e c)
      | _ \<Rightarrow> False)"

lemma not_negotiated_private:
  assumes "[] \<notin> set creds" "\<forall>v \<in> set creds. star_free v" "ctx \<noteq> Some CtxCanceled"
  shows "private_error creds e ctx timeout (not_negotiated creds x d (cause creds (Some e)))"
  using assms(3) cause_is_private [OF assms(1,2), of e] redact_hides [OF assms(1,2)]
  unfolding private_error_def not_negotiated_def sdk_error.case by (intro conjI exI refl) auto

lemma connection_private:
  assumes "[] \<notin> set creds" "\<forall>v \<in> set creds. star_free v" "ctx \<noteq> Some CtxCanceled"
  shows "private_error creds e ctx timeout (new_connection_error (fst (redact creds s)) (cause creds (Some e)) p)"
  using assms(3) cause_is_private [OF assms(1,2), of e] redact_hides [OF assms(1,2)]
  by (auto simp: private_error_def new_connection_error_def)

lemma timeout_private:
  assumes "[] \<notin> set creds" "\<forall>v \<in> set creds. star_free v" "ctx \<noteq> Some CtxCanceled"
  shows "private_error creds e ctx timeout (TimeoutError timeout (cause creds (Some e)) p)"
    "ctx = Some CtxDeadline \<Longrightarrow> private_error creds e ctx timeout (TimeoutError 0 (cause creds (Some e)) False)"
  using assms(3) cause_is_private [OF assms(1,2), of e] by (simp_all add: private_error_def)

lemma map_transport_private:
  assumes "[] \<notin> set creds" "\<forall>v \<in> set creds. star_free v" "ctx \<noteq> Some CtxCanceled" "map_transport_error creds timeout e = Some x"
  shows "private_error creds (te_err e) ctx timeout x"
proof (cases "te_dial e")
  case None
  with assms(4) have "x = not_negotiated creds (te_err e) (te_detail e) (cause creds (Some (te_err e)))"
    by (simp add: map_transport_error_def split: if_splits)
  with not_negotiated_private [OF assms(1-3)] show ?thesis by simp
next
  case (Some d)
  let ?c = "cause creds (Some (te_err e))"
  let ?conn = "\<lambda>p. new_connection_error (fst (redact creds (ge_text (de_err d)))) ?c p"
  from Some assms(4) have
    "x \<in> {TimeoutError timeout ?c True, ?conn True, not_negotiated creds (de_err d) (de_detail d) ?c, TimeoutError timeout ?c False, ?conn False}"
    by (simp add: map_transport_error_def Let_def split: if_splits)
  then show ?thesis
    using not_negotiated_private [OF assms(1-3)] connection_private [OF assms(1-3)] timeout_private(1) [OF assms(1-3)]
    by (elim insertE emptyE) simp_all
qed

section \<open>Properties\<close>

text \<open>a response error names the place of the failure safely and whole: what is printed of its path is
  safe to print whatever names the server chose, at most two characters over the limit of 320, and the
  path of a failure whose own text is at most 60 characters, which every path of the two schemas is,
  is the Python SDK's dotted path with only the server's names escaped and cut.\<close>

theorem render_field_path_bounded:
  assumes "printable (fp_top p)" "printable (fp_member p)"
  shows "safe_text (render_field_path p) \<and> length (runes (render_field_path p)) \<le> max_path_chars + 2 \<and>
    (fixed_length p \<le> 60 \<longrightarrow> render_field_path p = field_path_string (quote_names p))"
  using render_field_path_inv [OF assms] render_field_path_whole [of p] by blast

theorem render_field_path_bounded_witness:
  "render_field_path \<lparr>fp_top = ''answers'', fp_index = None, fp_name = Some ''tone'', fp_member = ''confidence'', fp_key = None\<rparr> =
     ''answers.'' @ escaped_name ''tone'' @ ''.confidence''"
  using render_field_path_bounded [of "\<lparr>fp_top = ''answers'', fp_index = None, fp_name = Some ''tone'', fp_member = ''confidence'', fp_key = None\<rparr>"]
  by (simp add: printable_def fixed_length_def field_path_string_def quote_names_def)



end
