(* ===== verification/Sdk_Retry.thy ===== *)
theory Sdk_Retry
  imports Sdk_Errors
begin

text \<open>
  The retry policy, \<open>retry.go\<close>, and the wait a server asks for, \<open>errors.go\<close>: the settings, their check,
  which errors are retried, the wait before a retry, and the decision to make it. The clock, the
  context, the jitter and the timer are what one decision reads of them, a record \<open>wait_env\<close>; the
  policy's predicate is a function on errors; \<open>http.ParseTime\<close>, \<open>strings.ToLower\<close> and \<open>math.Log2\<close> (which
  some platforms have in assembly) are parameters.
\<close>

section \<open>Policies\<close>

datatype retry_setting = SetMaxRetries | SetBackoff | SetStatuses | SetBudget

record retry_rules =
  rr_statuses :: "int list"
  rr_predicate :: "(sdk_error \<Rightarrow> bool) option"

record retry_policy =
  rp_max_retries :: int
  rp_initial :: int
  rp_maximum :: int
  rp_jitter :: float64
  rp_rules :: "retry_rules option"
  rp_budget :: int
  rp_set :: "retry_setting set"
  rp_ignore_retry_after :: bool
  rp_no_connection :: bool
  rp_no_timeout :: bool
  rp_unbounded :: bool

definition default_max_retries :: int where "default_max_retries = 2"
definition default_initial :: int where "default_initial = 500 * millisecond"
definition default_maximum :: int where "default_maximum = 5 * second"
definition default_jitter :: float64 where "default_jitter = 0x3FD0000000000000"
definition default_budget :: int where "default_budget = 30 * second"

definition default_retry :: retry_policy where
  "default_retry =
     \<lparr>rp_max_retries = 0, rp_initial = 0, rp_maximum = 0, rp_jitter = 0, rp_rules = None, rp_budget = 0, rp_set = {},
      rp_ignore_retry_after = False, rp_no_connection = False, rp_no_timeout = False, rp_unbounded = False\<rparr>"

definition with_rules :: "retry_policy \<Rightarrow> retry_rules" where
  "with_rules p = (case rp_rules p of Some r \<Rightarrow> r | None \<Rightarrow> \<lparr>rr_statuses = [], rr_predicate = None\<rparr>)"

definition max_retries :: "int \<Rightarrow> retry_policy \<Rightarrow> retry_policy" where
  "max_retries n p = p\<lparr>rp_max_retries := n, rp_set := insert SetMaxRetries (rp_set p)\<rparr>"

definition no_retry :: retry_policy where
  "no_retry = max_retries 0 default_retry"

definition set_backoff :: "int \<Rightarrow> int \<Rightarrow> float64 \<Rightarrow> retry_policy \<Rightarrow> retry_policy" where
  "set_backoff initial maximum jitter p =
     p\<lparr>rp_initial := initial, rp_maximum := maximum, rp_jitter := jitter, rp_set := insert SetBackoff (rp_set p)\<rparr>"

definition set_statuses :: "int list \<Rightarrow> retry_policy \<Rightarrow> retry_policy" where
  "set_statuses codes p =
     p\<lparr>rp_rules := Some ((with_rules p)\<lparr>rr_statuses := remdups_adj (sort codes)\<rparr>),
       rp_set := insert SetStatuses (rp_set p)\<rparr>"

definition respect_retry_after :: "bool \<Rightarrow> retry_policy \<Rightarrow> retry_policy" where
  "respect_retry_after respect p = p\<lparr>rp_ignore_retry_after := \<not> respect\<rparr>"

definition connection_errors :: "bool \<Rightarrow> retry_policy \<Rightarrow> retry_policy" where
  "connection_errors retry p = p\<lparr>rp_no_connection := \<not> retry\<rparr>"

definition timeout_errors :: "bool \<Rightarrow> retry_policy \<Rightarrow> retry_policy" where
  "timeout_errors retry p = p\<lparr>rp_no_timeout := \<not> retry\<rparr>"

definition set_predicate :: "(sdk_error \<Rightarrow> bool) option \<Rightarrow> retry_policy \<Rightarrow> retry_policy" where
  "set_predicate accept p = p\<lparr>rp_rules := Some ((with_rules p)\<lparr>rr_predicate := accept\<rparr>)\<rparr>"

definition set_budget :: "int \<Rightarrow> retry_policy \<Rightarrow> retry_policy" where
  "set_budget d p = p\<lparr>rp_budget := d, rp_unbounded := False, rp_set := insert SetBudget (rp_set p)\<rparr>"

definition no_budget :: "retry_policy \<Rightarrow> retry_policy" where
  "no_budget p = p\<lparr>rp_budget := 0, rp_unbounded := True, rp_set := insert SetBudget (rp_set p)\<rparr>"

text \<open>\<open>jitter >= 0 && jitter <= 1\<close>; a float that is not negative is ordered as its bits.\<close>

definition between_zero_and_one :: "float64 \<Rightarrow> bool" where
  "between_zero_and_one f \<longleftrightarrow> \<not> is_nan f \<and> (is_zero f \<or> \<not> f64_neg f \<and> f \<le> 0x3FF0000000000000)"

definition check_policy :: "retry_policy \<Rightarrow> sdk_error option" where
  "check_policy p =
     (if rp_max_retries p < 0 then Some (ConfigError ''max_retries must be a non-negative integer.'' [])
      else if rp_initial p < 0 then Some (ConfigError ''backoff_initial must be a non-negative, finite number of seconds.'' [])
      else if rp_maximum p < 0 then Some (ConfigError ''backoff_max must be a non-negative, finite number of seconds.'' [])
      else if \<not> between_zero_and_one (rp_jitter p) then Some (ConfigError ''backoff_jitter must be between zero and one.'' [])
      else if \<not> rp_unbounded p \<and> SetBudget \<in> rp_set p \<and> rp_budget p \<le> 0
      then Some (ConfigError ''timeout must be a positive, finite number of seconds.'' [])
      else None)"

definition retries :: "retry_policy \<Rightarrow> int" where
  "retries p = (if SetMaxRetries \<notin> rp_set p then default_max_retries else rp_max_retries p)"

section \<open>Which errors are retried\<close>

text \<open>\<open>slices.BinarySearch\<close>: the loop over the half-open range that may hold the target.\<close>

function binary_search :: "int list \<Rightarrow> int \<Rightarrow> nat \<Rightarrow> nat \<Rightarrow> nat" where
  "binary_search xs t i j =
     (if i < j then
        let h = (i + j) div 2 in
        if xs ! h < t then binary_search xs t (h + 1) j else binary_search xs t i h
      else i)"
  by pat_completeness auto
termination
  by (relation "measure (\<lambda>(xs, t, i, j). j - i)") auto

declare binary_search.simps [simp del]

definition found_in :: "int list \<Rightarrow> int \<Rightarrow> bool" where
  "found_in xs t \<longleftrightarrow> (let i = binary_search xs t 0 (length xs) in i < length xs \<and> xs ! i = t)"

definition retries_status :: "retry_policy \<Rightarrow> int \<Rightarrow> bool" where
  "retries_status p status \<longleftrightarrow>
     (if 200 \<le> status \<and> status \<le> 299 then False
      else if SetStatuses \<notin> rp_set p then status = 408 \<or> status = 429 \<or> (500 \<le> status \<and> status \<le> 599)
      else found_in (case rp_rules p of Some r \<Rightarrow> rr_statuses r | None \<Rightarrow> []) status)"

definition retryable :: "retry_policy \<Rightarrow> sdk_error \<Rightarrow> bool" where
  "retryable p err \<longleftrightarrow>
     (if error_is Canceled err then False
      else
        (case err of
           TimeoutError _ _ _ \<Rightarrow> \<not> rp_no_timeout p
         | ConnectionError _ _ _ \<Rightarrow> \<not> rp_no_connection p
         | APIError e \<Rightarrow> retries_status p (ae_status e)
         | _ \<Rightarrow> False) \<or>
        (case rp_rules p of
           Some r \<Rightarrow> (case rr_predicate r of Some accept \<Rightarrow> accept err | None \<Rightarrow> False)
         | None \<Rightarrow> False))"

section \<open>The wait a server asks for\<close>

definition header_values :: "header \<Rightarrow> bytes \<Rightarrow> bytes list" where
  "header_values h name = (case map_of h name of Some vs \<Rightarrow> vs | None \<Rightarrow> [])"

text \<open>What one header says: a wait, that there is none, or nothing.\<close>

datatype header_wait = Wait int | NoWait | AskNext

definition finite_float :: "float64 \<Rightarrow> bool" where
  "finite_float f \<longleftrightarrow> \<not> is_nan f \<and> \<not> is_inf f"

definition read_wait ::
  "(bytes \<Rightarrow> bytes) \<Rightarrow> (bytes \<Rightarrow> int option) \<Rightarrow> bool \<Rightarrow> bytes list \<Rightarrow> int \<Rightarrow> header_wait" where
  "read_wait lower parse_time seconds_header vs now =
     (if vs = [] then AskNext
      else
        let raw = join_with '', '' vs;
            spelled = (if trim_space raw = [] then ''0'' else trim_space raw) in
        case parse_python_float lower spelled of
          None \<Rightarrow>
            if seconds_header then
              (case parse_time (trim_space raw) of
                 Some t \<Rightarrow> let d = max (time_sub t now) 0 in Wait (d - d mod millisecond)
               | None \<Rightarrow> AskNext)
            else AskNext
        | Some v \<Rightarrow>
            if \<not> finite_float v then AskNext
            else if \<not> f64_neg v \<or> is_zero v then
              let ms = (if seconds_header then f64_mul v (f64_of_int 1000) else v) in
              if is_inf ms then AskNext else Wait (millis_to_duration ms)
            else if seconds_header then NoWait else AskNext)"

definition retry_after :: "(bytes \<Rightarrow> bytes) \<Rightarrow> (bytes \<Rightarrow> int option) \<Rightarrow> header \<Rightarrow> int \<Rightarrow> int option" where
  "retry_after lower parse_time h now =
     (case read_wait lower parse_time False (header_values h ''Retry-After-Ms'') now of
        Wait d \<Rightarrow> Some d
      | NoWait \<Rightarrow> None
      | AskNext \<Rightarrow>
          (case read_wait lower parse_time True (header_values h ''Retry-After'') now of Wait d \<Rightarrow> Some d | _ \<Rightarrow> None))"

definition response_header :: "sdk_error \<Rightarrow> header option" where
  "response_header err =
     (case err of
        APIError e \<Rightarrow> ae_header e
      | ResponseValidationError e \<Rightarrow> ve_header e
      | ResponseTooLargeError e \<Rightarrow> le_header e
      | _ \<Rightarrow> None)"

section \<open>Backoff\<close>

definition f64_signed :: "float64 \<Rightarrow> int \<times> int" where
  "f64_signed f = (case f64_ratio f of (p, q) \<Rightarrow> (if f64_neg f then - int p else int p, int q))"

definition f64_diff :: "float64 \<Rightarrow> float64 \<Rightarrow> float64" where
  "f64_diff a b =
     (case (f64_signed a, f64_signed b) of ((p, q), (p', q')) \<Rightarrow>
        let n = p * q' - p' * q in f64_near (nat \<bar>n\<bar>) (nat (q * q')) OR (if n < 0 then 2 ^ 63 else 0))"

definition f64_less :: "float64 \<Rightarrow> float64 \<Rightarrow> bool" where
  "f64_less a b \<longleftrightarrow> (case (f64_signed a, f64_signed b) of ((p, q), (p', q')) \<Rightarrow> p * q' < p' * q)"

text \<open>\<open>math.Ldexp\<close> with an exponent that is not negative, and \<open>strconv\<close>'s rounding to three decimals, half
  to even, read back as a float.\<close>

definition ldexp :: "float64 \<Rightarrow> nat \<Rightarrow> float64" where
  "ldexp f n = (case f64_ratio f of (p, q) \<Rightarrow> f64_near (p * 2 ^ n) q)"

definition round_millis :: "float64 \<Rightarrow> float64" where
  "round_millis f = (case f64_ratio f of (p, q) \<Rightarrow> f64_near (round_even (p * 1000) q) 1000)"

text \<open>\<open>backoff\<close> of retry \<open>retry\<close>, from 1; \<open>random\<close> is below one and \<open>jitter\<close> at most one, and floats that are
  not negative are ordered as their bits.\<close>

definition backoff ::
  "(float64 \<Rightarrow> float64) \<Rightarrow> nat \<Rightarrow> int \<Rightarrow> int \<Rightarrow> float64 \<Rightarrow> float64 \<Rightarrow> int" where
  "backoff log2 retry initial maximum jitter random =
     (if initial = 0 \<or> maximum = 0 then 0
      else
        let lo = seconds initial; hi = seconds maximum; exponent = retry - 1;
            exponential = (if f64_less (f64_of_int (int exponent)) (f64_diff (log2 hi) (log2 lo)) then ldexp lo exponent else hi);
            delay = f64_mul exponential (f64_sub (f64_of_int 1) (f64_mul random jitter));
            s = min exponential (round_millis delay) in
        if hi \<le> s then maximum
        else case f64_ratio (f64_mul s (f64_of_int second)) of (p, q) \<Rightarrow> int ((2 * p + q) div (2 * q)))"

section \<open>The decision\<close>

text \<open>What one decision reads: the time in \<open>delay\<close>, the time since the first attempt, the jitter, the
  context's end before the wait, its deadline and the time when it is compared, its end once it is
  done, whether the timer ended the wait first, and the context's end after the timer.\<close>

record wait_env =
  we_date :: int
  we_elapsed :: int
  we_random :: float64
  we_ctx :: "ctx_end option"
  we_deadline :: "int option"
  we_now :: int
  we_done :: ctx_end
  we_timer :: bool
  we_after :: "ctx_end option"

definition delay ::
  "(bytes \<Rightarrow> bytes) \<Rightarrow> (bytes \<Rightarrow> int option) \<Rightarrow> (float64 \<Rightarrow> float64) \<Rightarrow> retry_policy \<Rightarrow> nat \<Rightarrow> sdk_error \<Rightarrow> wait_env \<Rightarrow> int" where
  "delay lower parse_time log2 p retry err w =
     (case (if rp_ignore_retry_after p then None
            else case response_header err of
                Some h \<Rightarrow> retry_after lower parse_time h (we_date w)
              | None \<Rightarrow> None) of
        Some d \<Rightarrow> d
      | None \<Rightarrow>
          if SetBackoff \<in> rp_set p
          then backoff log2 retry (rp_initial p) (rp_maximum p) (rp_jitter p) (we_random w)
          else backoff log2 retry default_initial default_maximum default_jitter (we_random w))"

definition deadline_error :: gerr where
  "deadline_error =
     Gerr ''context deadline exceeded'' ''context deadline exceeded'' ''context.deadlineExceededError{}'' [] [DeadlineExceeded]"

definition wait_error :: "ctx_end \<Rightarrow> sdk_error" where
  "wait_error e = (case e of CtxDeadline \<Rightarrow> TimeoutError 0 (Kept (Some deadline_error)) False | CtxCanceled \<Rightarrow> ContextCanceled)"

definition budget_of :: "retry_policy \<Rightarrow> int" where
  "budget_of p = (if SetBudget \<in> rp_set p then rp_budget p else default_budget)"

text \<open>\<open>wait\<close> after attempt \<open>attempt\<close>, from 0: \<open>None\<close> once the retry may start, or the error the call returns.\<close>

definition retry_wait ::
  "(bytes \<Rightarrow> bytes) \<Rightarrow> (bytes \<Rightarrow> int option) \<Rightarrow> (float64 \<Rightarrow> float64) \<Rightarrow> retry_policy \<Rightarrow> nat \<Rightarrow> sdk_error \<Rightarrow> wait_env \<Rightarrow> sdk_error option" where
  "retry_wait lower parse_time log2 p attempt err w =
     (if \<not> retryable p err \<or> retries p \<le> int attempt then Some err
      else
        let d = delay lower parse_time log2 p (attempt + 1) err w in
        if \<not> rp_unbounded p \<and> budget_of p - we_elapsed w \<le> d then Some err
        else case we_ctx w of
          Some e \<Rightarrow>
            (case err of
               TimeoutError t _ _ \<Rightarrow> if t = 0 \<and> e = CtxDeadline then Some err else Some (wait_error e)
             | _ \<Rightarrow> Some (wait_error e))
        | None \<Rightarrow>
            if (case we_deadline w of Some dl \<Rightarrow> dl \<le> we_now w + d | None \<Rightarrow> False) then Some (wait_error (we_done w))
            else if d \<le> 0 then None
            else if we_timer w then map_option wait_error (we_after w)
            else Some (wait_error (we_done w)))"

end
