(* ===== verification/Sdk_Send.thy ===== *)
theory Sdk_Send
  imports Sdk_Retry
begin

text \<open>
  The attempts of one call: \<open>attempt\<close> and \<open>send\<close> of \<open>client.go\<close>, with the request every attempt sends
  (\<open>internal/engine/client.go\<close>) and the redactor of its response (\<open>internal/engine/transport.go\<close>). What
  the network and the clock do in attempt \<open>n\<close> is \<open>env n\<close>, read once; the loop is total because the policy
  bounds the retries.
\<close>

section \<open>What the model takes as parameters\<close>

text \<open>\<open>strings.ToLower\<close>, \<open>unicode.IsPrint\<close>, \<open>http.ParseTime\<close>, \<open>math.Log2\<close> and sonic's decoder of a whole value.\<close>

record std =
  std_lower :: "bytes \<Rightarrow> bytes"
  std_is_print :: "nat \<Rightarrow> bool"
  std_parse_time :: "bytes \<Rightarrow> int option"
  std_log2 :: "float64 \<Rightarrow> float64"
  std_parse :: "bytes \<Rightarrow> jtree option"

section \<open>Requests\<close>

record request =
  rq_method :: bytes
  rq_url :: url
  rq_endpoint :: bytes
  rq_header :: header
  rq_timeout :: int
  rq_body :: "bytes option"

definition canonical_retry_count :: bytes where
  "canonical_retry_count = ''X-Typesafe-Retry-Count''"

definition retry_count_values :: "bytes list list" where
  "retry_count_values = map (\<lambda>i. [show_nat (i + 1)]) [0..<16]"

definition retry_count_value :: "nat \<Rightarrow> bytes list" where
  "retry_count_value attempt =
     (if attempt \<le> length retry_count_values then retry_count_values ! (attempt - 1) else [show_nat attempt])"

definition attempt_header :: "request \<Rightarrow> nat \<Rightarrow> header" where
  "attempt_header rq attempt =
     (if attempt = 0 then rq_header rq
      else AList.update canonical_retry_count (retry_count_value attempt) (rq_header rq))"

text \<open>The request an attempt gives to the transport.\<close>

record sent =
  sn_method :: bytes
  sn_url :: url
  sn_header :: header
  sn_body :: "bytes option"

definition sent_request :: "request \<Rightarrow> nat \<Rightarrow> sent" where
  "sent_request rq attempt =
     \<lparr>sn_method = rq_method rq, sn_url = rq_url rq, sn_header = attempt_header rq attempt, sn_body = rq_body rq\<rparr>"

section \<open>Responses\<close>

text \<open>A response: its body's bytes, the sizes its reads come in, whether the end comes with the last bytes,
  and the end; and whether it answers a plain-HTTP request, and through a proxy.\<close>

record response =
  rs_status :: int
  rs_header :: header
  rs_length :: int
  rs_data :: bytes
  rs_sizes :: "nat \<Rightarrow> nat"
  rs_eager :: "nat \<Rightarrow> bool"
  rs_end :: "transport_error io_end"
  rs_plain_http :: bool
  rs_proxied :: bool

record send_config =
  sc_max_response_bytes :: int
  sc_redactor :: redactor
  sc_proxies :: "proxy_creds option"

definition credentials :: "std \<Rightarrow> send_config \<Rightarrow> header \<Rightarrow> bytes list" where
  "credentials lib cfg h = call_credentials (std_lower lib) (std_is_print lib) h (proxy_credentials (sc_proxies cfg))"

definition response_redactor :: "send_config \<Rightarrow> response \<Rightarrow> redactor" where
  "response_redactor cfg rs =
     (case sc_proxies cfg of
        None \<Rightarrow> sc_redactor cfg
      | Some p \<Rightarrow>
          if pc_needles p = None \<or> \<not> rs_plain_http rs \<or> \<not> rs_proxied rs then sc_redactor cfg
          else with_proxies p (sc_redactor cfg))"

definition read_response :: "int \<Rightarrow> response \<Rightarrow> transport_error read_error + bytes" where
  "read_response limit rs =
     the (read_body (length (rs_data rs) + 2) (data_reader (rs_sizes rs) (rs_eager rs) (rs_end rs)) (rs_length rs) limit (rs_data rs, 0))"

section \<open>An attempt\<close>

text \<open>What happens in an attempt: the transport's result, and, when it is read, the end of the call's
  context and whether the attempt's deadline has passed; then what the retry decision reads.\<close>

record attempt_env =
  av_result :: "transport_error + response"
  av_ctx :: "ctx_end option"
  av_expired :: bool
  av_wait :: wait_env

definition no_meta :: response_meta where
  "no_meta = \<lparr>rm_status = 0, rm_header = [], rm_body = []\<rparr>"

definition success_status :: "int \<Rightarrow> bool" where
  "success_status s \<longleftrightarrow> 200 \<le> s \<and> s \<le> 299"

definition attempt ::
  "std \<Rightarrow> send_config \<Rightarrow> request \<Rightarrow> nat \<Rightarrow> attempt_env \<Rightarrow> response_meta \<times> redactor \<times> sdk_error option" where
  "attempt lib cfg rq n env =
     (let creds = credentials lib cfg (attempt_header rq n);
          failed = \<lambda>f. (no_meta, zero_redactor, Some (attempt_error creds (av_ctx env) (av_expired env) (rq_timeout rq) f)) in
      case av_result env of
        Inl e \<Rightarrow> failed (round_trip_failure creds (rq_timeout rq) e)
      | Inr rs \<Rightarrow>
          let red = response_redactor cfg rs;
              meta = \<lparr>rm_status = rs_status rs, rm_header = rs_header rs, rm_body = []\<rparr>;
              api = \<lambda>m. new_api_error (std_lower lib) (std_parse lib) m (rq_endpoint rq) red in
          (case read_response (sc_max_response_bytes cfg) rs of
             Inl TooLarge \<Rightarrow>
               (meta, red,
                Some (if success_status (rs_status rs)
                      then new_response_too_large_error (std_lower lib) meta (rq_endpoint rq) red (sc_max_response_bytes cfg)
                      else api meta))
           | Inl (ReadFailed e) \<Rightarrow> failed (Raw e)
           | Inr raw \<Rightarrow>
               let meta = meta\<lparr>rm_body := raw\<rparr> in
               (meta, red, if success_status (rs_status rs) then None else Some (api meta))))"

section \<open>The loop\<close>

text \<open>What attempt \<open>n\<close> comes to, with the decoder of its response.\<close>

type_synonym 'a decoder = "redactor \<Rightarrow> response_meta \<Rightarrow> sdk_error + 'a"

definition outcome ::
  "std \<Rightarrow> send_config \<Rightarrow> request \<Rightarrow> 'a decoder \<Rightarrow> (nat \<Rightarrow> attempt_env) \<Rightarrow> nat \<Rightarrow> sdk_error + (response_meta \<times> redactor \<times> 'a)" where
  "outcome lib cfg rq decode env n =
     (case attempt lib cfg rq n (env n) of
        (meta, red, Some e) \<Rightarrow> Inl e
      | (meta, red, None) \<Rightarrow> rmap (\<lambda>x. (meta, red, x)) (decode red meta))"

definition decide :: "std \<Rightarrow> retry_policy \<Rightarrow> (nat \<Rightarrow> attempt_env) \<Rightarrow> nat \<Rightarrow> sdk_error \<Rightarrow> sdk_error option" where
  "decide lib p env n err = retry_wait (std_lower lib) (std_parse_time lib) (std_log2 lib) p n err (av_wait (env n))"

lemma decide_bound: "decide lib p env n err = None \<Longrightarrow> int n < retries p"
  by (auto simp: decide_def retry_wait_def split: if_splits)

function send_from ::
  "std \<Rightarrow> send_config \<Rightarrow> request \<Rightarrow> retry_policy \<Rightarrow> 'a decoder \<Rightarrow> (nat \<Rightarrow> attempt_env) \<Rightarrow> nat \<Rightarrow>
   sent list \<times> (sdk_error + (response_meta \<times> redactor \<times> 'a))" where
  "send_from lib cfg rq p decode env n =
     (case outcome lib cfg rq decode env n of
        Inr x \<Rightarrow> ([sent_request rq n], Inr x)
      | Inl err \<Rightarrow>
          (case decide lib p env n err of
             Some e \<Rightarrow> ([sent_request rq n], Inl e)
           | None \<Rightarrow>
               (case send_from lib cfg rq p decode env (Suc n) of (l, r) \<Rightarrow> (sent_request rq n # l, r))))"
  by pat_completeness auto
termination
  by (relation "measure (\<lambda>(lib, cfg, rq, p, decode, env, n). nat (retries p) - n)") (auto dest!: decide_bound)

declare send_from.simps [simp del]

definition send ::
  "std \<Rightarrow> send_config \<Rightarrow> request \<Rightarrow> retry_policy \<Rightarrow> 'a decoder \<Rightarrow> (nat \<Rightarrow> attempt_env) \<Rightarrow>
   sent list \<times> (sdk_error + (response_meta \<times> redactor \<times> 'a))" where
  "send lib cfg rq p decode env = send_from lib cfg rq p decode env 0"

section \<open>When a retry is made\<close>

text \<open>The wait before the retry after attempt \<open>n\<close>, and that it is waited through: the budget allows it, the
  context has not ended, its deadline is later than the wait's end, and the timer ends the wait.\<close>

definition wait_before :: "std \<Rightarrow> retry_policy \<Rightarrow> (nat \<Rightarrow> attempt_env) \<Rightarrow> nat \<Rightarrow> sdk_error \<Rightarrow> int" where
  "wait_before lib p env n e = delay (std_lower lib) (std_parse_time lib) (std_log2 lib) p (n + 1) e (av_wait (env n))"

definition waits_through :: "std \<Rightarrow> retry_policy \<Rightarrow> (nat \<Rightarrow> attempt_env) \<Rightarrow> nat \<Rightarrow> sdk_error \<Rightarrow> bool" where
  "waits_through lib p env n e \<longleftrightarrow>
     (let d = wait_before lib p env n e; w = av_wait (env n) in
      (rp_unbounded p \<or> we_elapsed w + d < budget_of p) \<and> we_ctx w = None \<and>
      (case we_deadline w of Some dl \<Rightarrow> we_now w + d < dl | None \<Rightarrow> True) \<and>
      (d \<le> 0 \<or> we_timer w \<and> we_after w = None))"

lemma decide_None: "decide lib p env n e = None \<longleftrightarrow> retryable p e \<and> int n < retries p \<and> waits_through lib p env n e"
  by (auto simp: decide_def retry_wait_def waits_through_def wait_before_def Let_def split: option.splits sdk_error.splits)

lemma decide_Some: "decide lib p env n e = Some e' \<Longrightarrow> e' = e \<or> (\<exists>c. e' = wait_error c)"
  by (auto simp: decide_def retry_wait_def Let_def split: option.splits sdk_error.splits if_splits)

text \<open>How the call ends with attempt \<open>k\<close>.\<close>

definition ends_at ::
  "std \<Rightarrow> send_config \<Rightarrow> request \<Rightarrow> retry_policy \<Rightarrow> 'a decoder \<Rightarrow> (nat \<Rightarrow> attempt_env) \<Rightarrow> nat \<Rightarrow>
   (sdk_error + (response_meta \<times> redactor \<times> 'a)) \<Rightarrow> bool" where
  "ends_at lib cfg rq p decode env k r \<longleftrightarrow>
     (case outcome lib cfg rq decode env k of
        Inr x \<Rightarrow> r = Inr x
      | Inl e \<Rightarrow> \<exists>e'. decide lib p env k e = Some e' \<and> r = Inl e')"

definition goes_on :: "std \<Rightarrow> send_config \<Rightarrow> request \<Rightarrow> retry_policy \<Rightarrow> 'a decoder \<Rightarrow> (nat \<Rightarrow> attempt_env) \<Rightarrow> nat \<Rightarrow> bool" where
  "goes_on lib cfg rq p decode env i \<longleftrightarrow> (\<exists>e. outcome lib cfg rq decode env i = Inl e \<and> decide lib p env i e = None)"

lemma send_from_run:
  "\<exists>k \<ge> n. fst (send_from lib cfg rq p decode env n) = map (sent_request rq) [n..<Suc k] \<and>
     (\<forall>i. n \<le> i \<longrightarrow> i < k \<longrightarrow> goes_on lib cfg rq p decode env i) \<and>
     ends_at lib cfg rq p decode env k (snd (send_from lib cfg rq p decode env n))"
proof (induction lib cfg rq p decode env n rule: send_from.induct)
  case (1 lib cfg rq p decode env n)
  note simps = send_from.simps [of lib cfg rq p decode env n]
  show ?case
  proof (cases "goes_on lib cfg rq p decode env n")
    case False
    then show ?thesis
      by (intro exI [of _ n]) (auto simp: simps goes_on_def ends_at_def split: sum.split option.split)
  next
    case True
    then obtain e where e: "outcome lib cfg rq decode env n = Inl e" "decide lib p env n e = None" by (auto simp: goes_on_def)
    from "1.IH" [OF e] obtain k where k: "Suc n \<le> k"
      "fst (send_from lib cfg rq p decode env (Suc n)) = map (sent_request rq) [Suc n..<Suc k]"
      "\<forall>i. Suc n \<le> i \<longrightarrow> i < k \<longrightarrow> goes_on lib cfg rq p decode env i"
      "ends_at lib cfg rq p decode env k (snd (send_from lib cfg rq p decode env (Suc n)))"
      by blast
    have "fst (send_from lib cfg rq p decode env n) = sent_request rq n # fst (send_from lib cfg rq p decode env (Suc n))"
      "snd (send_from lib cfg rq p decode env n) = snd (send_from lib cfg rq p decode env (Suc n))"
      using e by (simp_all add: simps split: prod.split)
    moreover have "[n..<Suc k] = n # [Suc n..<Suc k]" using k(1) by (subst upt_rec) simp
    moreover have "goes_on lib cfg rq p decode env i" if "n \<le> i" "i < k" for i
      using that True k(3) by (cases "i = n") auto
    ultimately show ?thesis using k by (intro exI [of _ k]) simp
  qed
qed

lemma send_from_success:
  assumes "\<forall>i. m \<le> i \<longrightarrow> i < n \<longrightarrow> goes_on lib cfg rq p decode env i"
    and "outcome lib cfg rq decode env n = Inr x" and "m \<le> n"
  shows "send_from lib cfg rq p decode env m = (map (sent_request rq) [m..<Suc n], Inr x)"
  using assms(3,1)
proof (induction "n - m" arbitrary: m)
  case 0
  with assms(2) show ?case by (subst send_from.simps) simp
next
  case (Suc k)
  then have m: "m < n" by simp
  with Suc.prems(2) obtain e where e: "outcome lib cfg rq decode env m = Inl e" "decide lib p env m e = None" by (auto simp: goes_on_def)
  have "send_from lib cfg rq p decode env (Suc m) = (map (sent_request rq) [Suc m..<Suc n], Inr x)"
    using Suc m by (intro Suc.hyps(1)) auto
  moreover have "[m..<Suc n] = m # [Suc m..<Suc n]" using m by (subst upt_rec) simp
  ultimately show ?case using e by (subst send_from.simps) simp
qed

lemma retryable_not_canceled: "retryable p e \<Longrightarrow> \<not> error_is Canceled e"
  by (auto simp: retryable_def)

lemma goes_on_when:
  assumes "goes_on lib cfg rq p decode env i"
  shows "\<exists>e. outcome lib cfg rq decode env i = Inl e \<and> retryable p e \<and> \<not> error_is Canceled e \<and>
    (rp_unbounded p \<or> we_elapsed (av_wait (env i)) + wait_before lib p env i e < budget_of p) \<and> we_ctx (av_wait (env i)) = None"
proof -
  from assms obtain e where e: "outcome lib cfg rq decode env i = Inl e" "decide lib p env i e = None" by (auto simp: goes_on_def)
  then have "retryable p e" "waits_through lib p env i e" by (simp_all add: decide_None)
  with e(1) retryable_not_canceled show ?thesis by (auto simp: waits_through_def Let_def)
qed

section \<open>Binary search\<close>

lemma binary_search_range:
  assumes "sorted xs" "i \<le> j" "j \<le> length xs" "\<forall>k < i. xs ! k < t" "\<forall>k. j \<le> k \<longrightarrow> k < length xs \<longrightarrow> t \<le> xs ! k"
  shows "(\<forall>k < binary_search xs t i j. xs ! k < t) \<and>
    (\<forall>k. binary_search xs t i j \<le> k \<longrightarrow> k < length xs \<longrightarrow> t \<le> xs ! k)"
  using assms
proof (induction xs t i j rule: binary_search.induct)
  case (1 xs t i j)
  show ?case
  proof (cases "i < j")
    case True
    define h where "h = (i + j) div 2"
    have h: "i \<le> h" "h < j" using True by (auto simp: h_def)
    note IH = "1.IH" [OF True h_def]
    show ?thesis
    proof (cases "xs ! h < t")
      case lt: True
      have below: "\<forall>k < h + 1. xs ! k < t"
      proof (intro allI impI)
        fix k assume "k < h + 1"
        then have "xs ! k \<le> xs ! h" using "1.prems"(1,3) h by (intro sorted_nth_mono) auto
        with lt show "xs ! k < t" by simp
      qed
      have "binary_search xs t i j = binary_search xs t (h + 1) j"
        using True lt by (subst binary_search.simps) (simp add: h_def Let_def)
      with IH(1) [OF lt "1.prems"(1) _ "1.prems"(3) below "1.prems"(5)] h show ?thesis by simp
    next
      case False
      have above: "\<forall>k. h \<le> k \<longrightarrow> k < length xs \<longrightarrow> t \<le> xs ! k"
      proof (intro allI impI)
        fix k assume "h \<le> k" "k < length xs"
        then have "xs ! h \<le> xs ! k" using "1.prems"(1) by (intro sorted_nth_mono) auto
        with False show "t \<le> xs ! k" by simp
      qed
      have "binary_search xs t i j = binary_search xs t i h"
        using True False by (subst binary_search.simps) (simp add: h_def Let_def)
      with IH(2) [OF False "1.prems"(1) _ _ "1.prems"(4) above] h "1.prems"(3) show ?thesis by simp
    qed
  next
    case False
    with "1.prems" show ?thesis by (subst (1 2) binary_search.simps) auto
  qed
qed

lemma found_in_iff: "sorted xs \<Longrightarrow> found_in xs t \<longleftrightarrow> t \<in> set xs"
proof -
  assume sorted: "sorted xs"
  let ?i = "binary_search xs t 0 (length xs)"
  from binary_search_range [OF sorted, of 0 "length xs" t]
  have b: "\<forall>k < ?i. xs ! k < t" "\<forall>k. ?i \<le> k \<longrightarrow> k < length xs \<longrightarrow> t \<le> xs ! k" by auto
  show ?thesis
  proof
    assume "t \<in> set xs"
    then obtain k where k: "k < length xs" "xs ! k = t" by (auto simp: in_set_conv_nth)
    with b(1) have "?i \<le> k" by (meson leI less_irrefl)
    moreover have "xs ! ?i \<le> xs ! k" using sorted k \<open>?i \<le> k\<close> by (intro sorted_nth_mono) auto
    moreover have "t \<le> xs ! ?i" using b(2) k \<open>?i \<le> k\<close> by auto
    ultimately show "found_in xs t" using k by (auto simp: found_in_def Let_def)
  next
    assume "found_in xs t"
    then show "t \<in> set xs" unfolding found_in_def Let_def by (metis nth_mem)
  qed
qed

section \<open>Properties\<close>


text \<open>C15: a call that can succeed does: if each of its first attempts fails with an error the policy
  retries, no more of them than the policy's retries, and each wait is allowed by the budget and
  ends before the context does, then the call reaches the attempt that succeeds and returns its
  result.\<close>

theorem send_succeeds:
  assumes "\<forall>i < n. \<exists>e. outcome lib cfg rq decode env i = Inl e \<and> retryable p e \<and> waits_through lib p env i e"
    and "int n \<le> retries p" and "outcome lib cfg rq decode env n = Inr x"
  shows "send lib cfg rq p decode env = (map (sent_request rq) [0..<Suc n], Inr x)"
  unfolding send_def
proof (rule send_from_success [OF _ assms(3)])
  show "\<forall>i. 0 \<le> i \<longrightarrow> i < n \<longrightarrow> goes_on lib cfg rq p decode env i"
  proof (intro allI impI)
    fix i assume "i < n"
    with assms(1) obtain e where "outcome lib cfg rq decode env i = Inl e" "retryable p e" "waits_through lib p env i e" by blast
    moreover from \<open>i < n\<close> assms(2) have "int i < retries p" by simp
    ultimately show "goes_on lib cfg rq p decode env i" by (auto simp: goes_on_def decide_None)
  qed
qed simp

text \<open>a policy's statuses are the codes it was given: whatever their order and repetitions, the search
  finds a status exactly when it is among them, and a 2xx is never retried by status.\<close>

theorem retries_status_codes:
  "retries_status (set_statuses codes p) status \<longleftrightarrow> status \<in> set codes \<and> \<not> (200 \<le> status \<and> status \<le> 299)"
proof -
  have "sorted (remdups_adj (sort codes))" by (simp add: sorted_remdups_adj)
  then show ?thesis by (auto simp: retries_status_def set_statuses_def with_rules_def found_in_iff)
qed

section \<open>Witnesses\<close>

text \<open>A client whose first attempt is refused by the network and whose second is answered.\<close>

definition sample_std :: std where
  "sample_std = \<lparr>std_lower = lower_ascii, std_is_print = (\<lambda>r. 0x20 \<le> r \<and> r < 0x7F), std_parse_time = (\<lambda>s. None),
     std_log2 = (\<lambda>f. f), std_parse = (\<lambda>s. None)\<rparr>"

definition sample_config :: send_config where
  "sample_config = \<lparr>sc_max_response_bytes = 100, sc_redactor = zero_redactor, sc_proxies = None\<rparr>"

definition sample_request :: request where
  "sample_request = \<lparr>rq_method = ''GET'', rq_url = \<lparr>url_scheme = ''https'', url_host = ''h'', url_path = ''/v1/models''\<rparr>,
     rq_endpoint = ''GET https://h/v1/models'', rq_header = [], rq_timeout = 10 * second, rq_body = None\<rparr>"

definition sample_wait :: wait_env where
  "sample_wait = \<lparr>we_date = 0, we_elapsed = 0, we_random = 0, we_ctx = None, we_deadline = None, we_now = 0, we_done = CtxCanceled,
     we_timer = True, we_after = None\<rparr>"

definition refused :: transport_error where
  "refused = \<lparr>te_err = Gerr ''refused'' ''refused'' ''refused'' [] [], te_dial = None, te_not_negotiated = False,
     te_detail = None, te_net_timeout = False\<rparr>"

definition answered :: response where
  "answered = \<lparr>rs_status = 200, rs_header = [], rs_length = -1, rs_data = ''{}'', rs_sizes = (\<lambda>i. 2), rs_eager = (\<lambda>i. True),
     rs_end = EOF, rs_plain_http = False, rs_proxied = False\<rparr>"

definition sample_env :: "nat \<Rightarrow> attempt_env" where
  "sample_env n = \<lparr>av_result = (if n = 0 then Inl refused else Inr answered), av_ctx = None, av_expired = False, av_wait = sample_wait\<rparr>"

definition sample_policy :: retry_policy where
  "sample_policy = set_backoff 0 0 0 default_retry"

definition sample_decode :: "bytes decoder" where
  "sample_decode red m = Inr (rm_body m)"

lemma sample_first:
  "\<exists>c. outcome sample_std sample_config sample_request sample_decode sample_env 0 = Inl (new_connection_error (fst (redact [] ''refused'')) c False) \<and>
     c = cause [] (Some (te_err refused))"
  by (simp add: outcome_def attempt_def sample_env_def credentials_def sample_config_def sample_request_def attempt_header_def
      call_credentials_def proxy_credentials_def sort_longest_def round_trip_failure_def map_transport_error_def refused_def
      attempt_error_def Let_def)

lemma sample_second:
  "outcome sample_std sample_config sample_request sample_decode sample_env 1 =
     Inr (\<lparr>rm_status = 200, rm_header = [], rm_body = ''{}''\<rparr>, zero_redactor, ''{}'')"
  by (simp add: outcome_def attempt_def sample_env_def sample_config_def read_response_def answered_def read_body_def
      first_cap_def initial_declared_def initial_undeclared_def eval_nat_numeral data_reader_def Let_def response_redactor_def
      success_status_def sample_decode_def zero_redactor_def)


theorem send_succeeds_witness:
  "send sample_std sample_config sample_request sample_policy sample_decode sample_env =
     (map (sent_request sample_request) [0, 1], Inr (\<lparr>rm_status = 200, rm_header = [], rm_body = ''{}''\<rparr>, zero_redactor, ''{}''))"
proof -
  from sample_first obtain c where first:
    "outcome sample_std sample_config sample_request sample_decode sample_env 0 = Inl (new_connection_error (fst (redact [] ''refused'')) c False)"
    and c: "c = cause [] (Some (te_err refused))" by blast
  have "in_chain [] (Some (te_err refused)) = False" by code_simp
  then have "c = Kept (Some (te_err refused))" using c by (simp add: cause_def)
  then have "retryable sample_policy (new_connection_error (fst (redact [] ''refused'')) c False)"
    by (simp add: retryable_def new_connection_error_def refused_def sample_policy_def set_backoff_def default_retry_def)
  moreover have "waits_through sample_std sample_policy sample_env 0 e" if "e = new_connection_error (fst (redact [] ''refused'')) c False" for e
    by (simp add: that waits_through_def wait_before_def delay_def response_header_def new_connection_error_def sample_policy_def
        set_backoff_def default_retry_def backoff_def sample_env_def sample_wait_def budget_of_def default_budget_def second_def Let_def)
  ultimately have "\<forall>i < 1. \<exists>e. outcome sample_std sample_config sample_request sample_decode sample_env i = Inl e \<and>
      retryable sample_policy e \<and> waits_through sample_std sample_policy sample_env i e" using first by auto
  moreover have "int 1 \<le> retries sample_policy"
    by (simp add: retries_def sample_policy_def set_backoff_def default_retry_def default_max_retries_def)
  moreover note sample_second
  ultimately show ?thesis using send_succeeds [of 1 sample_std sample_config sample_request sample_decode sample_env sample_policy] by auto
qed

end
