(* ===== verification/Sdk_Header.thy ===== *)
theory Sdk_Header
  imports Sdk_Send
begin

text \<open>
  The headers a client sends, \<open>config.go\<close>, \<open>constants.go\<close> and \<open>version.go\<close>: what a caller may set, what the SDK and
  the transport own, and the template of a request's header. A header map holds canonical names; \<open>lower\<close> is
  \<open>strings.ToLower\<close>.
\<close>

section \<open>Names and values\<close>

definition is_tchar :: "char \<Rightarrow> bool" where
  "is_tchar c \<longleftrightarrow>
     byte_between 97 122 c \<or> byte_between 65 90 c \<or> byte_between 48 57 c \<or> c \<in> set [CHR ''!'', CHR ''#'', CHR ''$'', CHR ''%'',
       CHR ''&'', CHR 0x27, CHR ''*'', CHR ''+'', CHR ''-'', CHR ''.'', CHR ''^'', CHR ''_'', CHR 0x60, CHR ''|'', CHR ''~'']"

definition is_token :: "bytes \<Rightarrow> bool" where
  "is_token s \<longleftrightarrow> list_all is_tchar s"

definition valid_field_name :: "bytes \<Rightarrow> bool" where
  "valid_field_name name \<longleftrightarrow> name \<noteq> [] \<and> is_token name"

definition valid_field_value :: "bytes \<Rightarrow> bool" where
  "valid_field_value v \<longleftrightarrow> list_all (\<lambda>c. \<not> ((byte c < 32 \<and> byte c \<noteq> 9) \<or> byte c = 127)) v"

text \<open>\<open>http.CanonicalHeaderKey\<close>.\<close>

definition upper_char :: "char \<Rightarrow> char" where
  "upper_char c = (if byte_between 97 122 c then char_of (byte c - 32 :: nat) else c)"

fun canonical_from :: "bool \<Rightarrow> bytes \<Rightarrow> bytes" where
  "canonical_from upper [] = []"
| "canonical_from upper (c # s) = (if upper then upper_char c else lower_char c) # canonical_from (c = CHR ''-'') s"

definition canonical_key :: "bytes \<Rightarrow> bytes" where
  "canonical_key s = (if is_token s then canonical_from True s else s)"

section \<open>The SDK's own headers\<close>

definition header_authorization :: bytes where "header_authorization = ''Authorization''"
definition header_accept :: bytes where "header_accept = ''Accept''"
definition header_content_type :: bytes where "header_content_type = ''Content-Type''"
definition header_user_agent :: bytes where "header_user_agent = ''User-Agent''"
definition header_sdk :: bytes where "header_sdk = ''X-TypeSafe-SDK''"
definition header_runtime :: bytes where "header_runtime = ''X-TypeSafe-Runtime''"
definition header_retry_count :: bytes where "header_retry_count = ''X-TypeSafe-Retry-Count''"

definition json_content_type :: bytes where "json_content_type = ''application/json''"

definition sdk_version :: bytes where "sdk_version = ''0.1.0''"

definition sdk_identifier :: bytes where "sdk_identifier = ''decision-model-sdk-go/'' @ sdk_version"

text \<open>\<open>strings.Cut\<close> with the part before the separator.\<close>

definition before :: "bytes \<Rightarrow> bytes \<Rightarrow> bytes" where
  "before sep s = (case sub_index sep s of Some i \<Rightarrow> take i s | None \<Rightarrow> s)"

definition runtime_header_value :: "bytes \<Rightarrow> bytes \<Rightarrow> bytes \<Rightarrow> bytes" where
  "runtime_header_value version goos goarch =
     (let release = (if prefix ''go'' version then before '' X:'' (before ''-X:'' (drop 2 version)) else version)
      in ''go/'' @ release @ '' ('' @ goos @ ''; '' @ goarch @ '')'')"

datatype drop_reason = ReasonSDKHeader | ReasonRetryHeader | ReasonTransportHeader

definition sdk_owned_headers :: "(bytes \<times> drop_reason) list" where
  "sdk_owned_headers =
     map (\<lambda>n. (canonical_key n, ReasonSDKHeader))
       [header_authorization, header_accept, header_user_agent, header_sdk, header_runtime, header_content_type] @
     [(canonical_key header_retry_count, ReasonRetryHeader)] @
     map (\<lambda>n. (canonical_key n, ReasonTransportHeader))
       [''Content-Length'', ''Transfer-Encoding'', ''Connection'', ''Proxy-Connection'', ''Keep-Alive'', ''Upgrade'', ''TE'',
        ''Trailer'', ''Host'']"

definition owned :: "bytes \<Rightarrow> drop_reason option" where
  "owned = map_of sdk_owned_headers"

section \<open>A caller's headers\<close>

record header_option =
  ho_name :: bytes
  ho_value :: bytes

definition header_set :: "bytes \<Rightarrow> bytes \<Rightarrow> header \<Rightarrow> header" where
  "header_set name v h = AList.update (canonical_key name) [v] h"

text \<open>One option: \<open>i\<close> is its position from 0. The record of the dropped headers goes with the header.\<close>

definition apply_header ::
  "(bytes \<Rightarrow> bytes) \<Rightarrow> bytes \<Rightarrow> bytes \<Rightarrow> bytes \<Rightarrow> nat \<Rightarrow> header_option \<Rightarrow> header \<times> (bytes \<times> drop_reason) list \<Rightarrow>
    sdk_error + header \<times> (bytes \<times> drop_reason) list" where
  "apply_header lower key name_what value_what i ho s =
     (if key_needle key \<and> contains (lower (ho_name ho)) (lower key) then
        Inl (ConfigError (''The name given to '' @ name_what @ '' '' @ show_nat (i + 1) @
          '' contains the API key, so it is not shown; pass the key with WithAPIKey only.'') [])
      else if \<not> valid_field_name (ho_name ho) then
        Inl (ConfigError (''The name given to '' @ name_what @ '' '' @ show_nat (i + 1) @
          '' is not a valid HTTP field name (RFC 9110, section 5.6.2); it is not shown, since it may hold a credential.'') [])
      else
        let name = canonical_key (ho_name ho) in
        if \<not> valid_field_value (ho_value ho) then
          Inl (ConfigError (''The value given to '' @ value_what @ '' for '' @ name @
            '' is not a valid HTTP field value (RFC 9110, section 5.5).'') [])
        else
          case owned name of
            Some reason \<Rightarrow> Inr (fst s, snd s @ [(name, reason)])
          | None \<Rightarrow> Inr (AList.update name [ho_value ho] (fst s), snd s))"

fun apply_from ::
  "(bytes \<Rightarrow> bytes) \<Rightarrow> bytes \<Rightarrow> bytes \<Rightarrow> bytes \<Rightarrow> nat \<Rightarrow> header_option list \<Rightarrow> header \<times> (bytes \<times> drop_reason) list \<Rightarrow>
    sdk_error + header \<times> (bytes \<times> drop_reason) list" where
  "apply_from lower key nw vw i [] s = Inr s"
| "apply_from lower key nw vw i (ho # hos) s = rbind (apply_header lower key nw vw i ho s) (apply_from lower key nw vw (i + 1) hos)"

definition apply_headers ::
  "(bytes \<Rightarrow> bytes) \<Rightarrow> bytes \<Rightarrow> bytes \<Rightarrow> bytes \<Rightarrow> header_option list \<Rightarrow> header \<Rightarrow> sdk_error + header \<times> (bytes \<times> drop_reason) list" where
  "apply_headers lower key nw vw hos h = apply_from lower key nw vw 0 hos (h, [])"

definition set_own_headers :: "bytes option \<Rightarrow> bytes \<Rightarrow> bytes \<Rightarrow> header \<Rightarrow> header" where
  "set_own_headers runtime key user_agent h =
     (let h = header_set header_authorization (''Bearer '' @ key) h;
          h = header_set header_accept json_content_type h;
          h = header_set header_user_agent user_agent h;
          h = header_set header_sdk sdk_identifier h
      in case runtime of None \<Rightarrow> h | Some rt \<Rightarrow> header_set header_runtime rt h)"

text \<open>\<open>runtime\<close> is the value of the runtime header, \<open>None\<close> when it is not sent.\<close>

definition header_template ::
  "(bytes \<Rightarrow> bytes) \<Rightarrow> bytes option \<Rightarrow> header_option list \<Rightarrow> bytes \<Rightarrow> bytes \<Rightarrow> sdk_error + header \<times> (bytes \<times> drop_reason) list" where
  "header_template lower runtime hos key user_agent =
     rmap (\<lambda>(h, dropped). (set_own_headers runtime key user_agent h, dropped))
       (apply_headers lower key ''WithHeader call'' ''WithHeader'' hos [])"

text \<open>\<open>callHeader\<close> of \<open>call.go\<close>.\<close>

definition call_header :: "(bytes \<Rightarrow> bytes) \<Rightarrow> bytes \<Rightarrow> header \<Rightarrow> header_option list \<Rightarrow> sdk_error + header \<times> (bytes \<times> drop_reason) list" where
  "call_header lower key base hos = apply_headers lower key ''Header call option'' ''Header'' hos base"

section \<open>What a header holds\<close>

text \<open>The last value given for a name, as Python's dictionary keeps it.\<close>

definition last_value :: "bytes \<Rightarrow> header_option list \<Rightarrow> bytes list option" where
  "last_value name hos = map_option (\<lambda>ho. [ho_value ho]) (List.find (\<lambda>ho. canonical_key (ho_name ho) = name) (rev hos))"

lemma last_value_Nil [simp]: "last_value name [] = None"
  by (simp add: last_value_def)

lemma last_value_snoc:
  "last_value name (hos @ [ho]) = (if canonical_key (ho_name ho) = name then Some [ho_value ho] else last_value name hos)"
  by (simp add: last_value_def)

text \<open>A header option the code accepts.\<close>

definition acceptable :: "(bytes \<Rightarrow> bytes) \<Rightarrow> bytes \<Rightarrow> header_option \<Rightarrow> bool" where
  "acceptable lower key ho \<longleftrightarrow>
     \<not> (key_needle key \<and> contains (lower (ho_name ho)) (lower key)) \<and> valid_field_name (ho_name ho) \<and> valid_field_value (ho_value ho)"

lemma apply_header_cases:
  "apply_header lower key nw vw i ho s =
     (if acceptable lower key ho then
        Inr (case owned (canonical_key (ho_name ho)) of
               Some reason \<Rightarrow> (fst s, snd s @ [(canonical_key (ho_name ho), reason)])
             | None \<Rightarrow> (AList.update (canonical_key (ho_name ho)) [ho_value ho] (fst s), snd s))
      else Inl (projl (apply_header lower key nw vw i ho s)))"
  by (auto simp: apply_header_def acceptable_def Let_def split: option.split)

definition dropped_of :: "header_option list \<Rightarrow> (bytes \<times> drop_reason) list" where
  "dropped_of hos = List.map_filter (\<lambda>ho. map_option (Pair (canonical_key (ho_name ho))) (owned (canonical_key (ho_name ho)))) hos"

lemma apply_from_ok:
  "apply_from lower key nw vw i hos s = Inr s' \<Longrightarrow>
    list_all (acceptable lower key) hos \<and>
    snd s' = snd s @ dropped_of hos \<and>
    (\<forall>name. map_of (fst s') name =
      (if owned name = None then (case last_value name hos of Some v \<Rightarrow> Some v | None \<Rightarrow> map_of (fst s) name) else map_of (fst s) name))"
proof (induction hos arbitrary: i s)
  case (Cons ho hos)
  from Cons.prems obtain s1 where s1: "apply_header lower key nw vw i ho s = Inr s1" "apply_from lower key nw vw (i + 1) hos s1 = Inr s'"
    by (cases "apply_header lower key nw vw i ho s") auto
  from s1(1) have a: "acceptable lower key ho"
    using apply_header_cases [of lower key nw vw i ho s] by (metis sum.distinct(1))
  then have e: "s1 = (case owned (canonical_key (ho_name ho)) of
      Some reason \<Rightarrow> (fst s, snd s @ [(canonical_key (ho_name ho), reason)])
    | None \<Rightarrow> (AList.update (canonical_key (ho_name ho)) [ho_value ho] (fst s), snd s))"
    using s1(1) apply_header_cases [of lower key nw vw i ho s] by simp
  have l: "last_value name (ho # hos) =
      (case last_value name hos of Some v \<Rightarrow> Some v | None \<Rightarrow> if canonical_key (ho_name ho) = name then Some [ho_value ho] else None)" for name
    by (induction hos rule: rev_induct) (simp_all add: last_value_snoc flip: append_Cons, simp add: last_value_def)
  have d: "dropped_of (ho # hos) = (case owned (canonical_key (ho_name ho)) of Some r \<Rightarrow> [(canonical_key (ho_name ho), r)] | None \<Rightarrow> []) @ dropped_of hos"
    by (simp add: dropped_of_def List.map_filter_simps split: option.split)
  from Cons.IH [OF s1(2)] a show ?case
    by (cases "owned (canonical_key (ho_name ho))") (auto simp: e l d update_conv' split: option.splits)
qed (simp add: dropped_of_def List.map_filter_simps)

lemma apply_header_ok: "is_ok (apply_header lower key nw vw i ho s) \<longleftrightarrow> acceptable lower key ho"
  using apply_header_cases [of lower key nw vw i ho s] by (metis is_ok_simps)

lemma apply_from_is_ok: "is_ok (apply_from lower key nw vw i hos s) \<longleftrightarrow> list_all (acceptable lower key) hos"
proof (induction hos arbitrary: i s)
  case (Cons ho hos)
  show ?case
  proof (cases "apply_header lower key nw vw i ho s")
    case (Inl e)
    with apply_header_ok [of lower key nw vw i ho s] show ?thesis by simp
  next
    case (Inr s1)
    with apply_header_ok [of lower key nw vw i ho s] Cons.IH show ?thesis by simp
  qed
qed simp

lemma canonical_names:
  "canonical_key header_authorization = ''Authorization''" "canonical_key header_accept = ''Accept''"
  "canonical_key header_user_agent = ''User-Agent''" "canonical_key header_sdk = ''X-Typesafe-Sdk''"
  "canonical_key header_runtime = ''X-Typesafe-Runtime''" "canonical_key header_content_type = ''Content-Type''"
  by code_simp+

lemma canonical_transport_names:
  "canonical_key header_retry_count = ''X-Typesafe-Retry-Count''" "canonical_key ''Content-Length'' = ''Content-Length''"
  "canonical_key ''Transfer-Encoding'' = ''Transfer-Encoding''" "canonical_key ''Connection'' = ''Connection''"
  "canonical_key ''Proxy-Connection'' = ''Proxy-Connection''" "canonical_key ''Keep-Alive'' = ''Keep-Alive''"
  "canonical_key ''Upgrade'' = ''Upgrade''" "canonical_key ''TE'' = ''Te''" "canonical_key ''Trailer'' = ''Trailer''"
  "canonical_key ''Host'' = ''Host''"
  by code_simp+

lemma owned_names:
  "owned ''Authorization'' = Some ReasonSDKHeader" "owned ''Accept'' = Some ReasonSDKHeader" "owned ''User-Agent'' = Some ReasonSDKHeader"
  "owned ''X-Typesafe-Sdk'' = Some ReasonSDKHeader" "owned ''X-Typesafe-Runtime'' = Some ReasonSDKHeader"
  "owned ''Content-Type'' = Some ReasonSDKHeader" "owned ''X-Typesafe-Retry-Count'' = Some ReasonRetryHeader"
  "owned ''Content-Length'' = Some ReasonTransportHeader" "owned ''Host'' = Some ReasonTransportHeader" "owned ''X-Team'' = None"
  by (simp_all add: owned_def sdk_owned_headers_def canonical_names canonical_transport_names)

lemma not_owned_names:
  assumes "owned name \<noteq> Some ReasonSDKHeader"
  shows "name \<noteq> ''Authorization''" "name \<noteq> ''Accept''" "name \<noteq> ''User-Agent''" "name \<noteq> ''X-Typesafe-Sdk''"
    "name \<noteq> ''X-Typesafe-Runtime''" "name \<noteq> ''Content-Type''"
  using assms owned_names(1) apply blast
  using assms owned_names(2) apply blast
  using assms owned_names(3) apply blast
  using assms owned_names(4) apply blast
  using assms owned_names(5) apply blast
  using assms owned_names(6) apply blast
  done

lemma header_set_map: "map_of (header_set name v h) = (map_of h)(canonical_key name \<mapsto> [v])"
  by (simp add: header_set_def update_conv')

lemma set_own_headers_map:
  "map_of (set_own_headers rt key ua h) name =
     (if name = ''X-Typesafe-Runtime'' \<and> rt \<noteq> None then map_option (\<lambda>v. [v]) rt
      else if name = ''X-Typesafe-Sdk'' then Some [sdk_identifier]
      else if name = ''User-Agent'' then Some [ua]
      else if name = ''Accept'' then Some [json_content_type]
      else if name = ''Authorization'' then Some [''Bearer '' @ key]
      else map_of h name)"
  by (cases rt) (simp_all only: set_own_headers_def Let_def header_set_map canonical_names option.case fun_upd_apply option.simps
      simp_thms if_True if_False option.map)

text \<open>C24: The SDK's own headers always win. A client is refused exactly when some header it was given has a name that holds
  the API key, is no field name, or has a value that is no field value. Otherwise the template of its requests holds
  the SDK's headers with the SDK's values, none of the headers the transport owns, and for every other name the
  last value given, compared without regard to case; and what was dropped is recorded by name.\<close>

theorem template_headers:
  "is_ok (header_template lower rt hos key ua) = list_all (acceptable lower key) hos \<and>
   (\<forall>h dropped. header_template lower rt hos key ua = Inr (h, dropped) \<longrightarrow>
      map_of h ''Authorization'' = Some [''Bearer '' @ key] \<and> map_of h ''Accept'' = Some [json_content_type] \<and>
      map_of h ''User-Agent'' = Some [ua] \<and> map_of h ''X-Typesafe-Sdk'' = Some [sdk_identifier] \<and>
      map_of h ''X-Typesafe-Runtime'' = map_option (\<lambda>v. [v]) rt \<and> map_of h ''Content-Type'' = None \<and>
      (\<forall>name. owned name = None \<longrightarrow> map_of h name = last_value name hos) \<and>
      (\<forall>name. owned name = Some ReasonTransportHeader \<or> owned name = Some ReasonRetryHeader \<longrightarrow> map_of h name = None) \<and>
      dropped = dropped_of hos)"
proof (intro conjI allI impI)
  let ?ap = "apply_headers lower key ''WithHeader call'' ''WithHeader'' hos []"
  show "is_ok (header_template lower rt hos key ua) = list_all (acceptable lower key) hos"
    using apply_from_is_ok [of lower key "''WithHeader call''" "''WithHeader''" 0 hos "([], [])"]
    unfolding header_template_def apply_headers_def [symmetric] by (cases ?ap) simp_all
  fix h dropped
  assume t: "header_template lower rt hos key ua = Inr (h, dropped)"
  then obtain h0 where h0: "?ap = Inr (h0, dropped)" and h: "h = set_own_headers rt key ua h0"
    unfolding header_template_def by (cases ?ap) auto
  have m: "map_of h0 name = (if owned name = None then last_value name hos else None)" for name
    using apply_from_ok [OF h0 [unfolded apply_headers_def]] by (simp split: option.split)
  show "dropped = dropped_of hos" using apply_from_ok [OF h0 [unfolded apply_headers_def]] by simp
  show "map_of h ''Authorization'' = Some [''Bearer '' @ key]" by (simp add: h set_own_headers_map)
  show "map_of h ''Accept'' = Some [json_content_type]" by (simp add: h set_own_headers_map)
  show "map_of h ''User-Agent'' = Some [ua]" by (simp add: h set_own_headers_map)
  show "map_of h ''X-Typesafe-Sdk'' = Some [sdk_identifier]" by (simp add: h set_own_headers_map)
  show "map_of h ''X-Typesafe-Runtime'' = map_option (\<lambda>v. [v]) rt"
    by (cases rt) (simp_all add: h set_own_headers_map m owned_names)
  show "map_of h ''Content-Type'' = None" by (simp add: h set_own_headers_map m owned_names)
  show "map_of h name = last_value name hos" if "owned name = None" for name
    using not_owned_names [of name] that by (simp add: h set_own_headers_map m)
  show "map_of h name = None" if "owned name = Some ReasonTransportHeader \<or> owned name = Some ReasonRetryHeader" for name
    using not_owned_names [of name] that by (elim disjE) (simp_all add: h set_own_headers_map m)
qed

lemma template_headers_witness:
  "\<exists>h dropped. header_template lower_ascii (Some ''go/1'') [\<lparr>ho_name = ''x-team'', ho_value = ''a''\<rparr>, \<lparr>ho_name = ''X-Team'', ho_value = ''b''\<rparr>,
       \<lparr>ho_name = ''accept'', ho_value = ''text/plain''\<rparr>] ''secret-key'' ''ua'' = Inr (h, dropped) \<and>
     map_of h ''X-Team'' = Some [''b''] \<and> map_of h ''Accept'' = Some [json_content_type] \<and> dropped = [(''Accept'', ReasonSDKHeader)]"
proof -
  define hos where "hos = [\<lparr>ho_name = ''x-team'', ho_value = ''a''\<rparr>, \<lparr>ho_name = ''X-Team'', ho_value = ''b''\<rparr>, \<lparr>ho_name = ''accept'', ho_value = ''text/plain''\<rparr>]"
  have c: "canonical_key ''x-team'' = ''X-Team''" "canonical_key ''X-Team'' = ''X-Team''" "canonical_key ''accept'' = ''Accept''" by code_simp+
  have a: "list_all (acceptable lower_ascii ''secret-key'') hos" "owned ''X-Team'' = None" "last_value ''X-Team'' hos = Some [''b'']"
    "dropped_of hos = [(''Accept'', ReasonSDKHeader)]"
    unfolding hos_def
    by (code_simp, simp_all add: owned_names last_value_def dropped_of_def List.map_filter_simps c)
  note t = template_headers [of lower_ascii "Some ''go/1''" hos "''secret-key''" "''ua''"]
  from t a(1) obtain h d where r: "header_template lower_ascii (Some ''go/1'') hos ''secret-key'' ''ua'' = Inr (h, d)"
    by (cases "header_template lower_ascii (Some ''go/1'') hos ''secret-key'' ''ua''") auto
  from t r a(2-4) have "map_of h ''X-Team'' = Some [''b'']" "map_of h ''Accept'' = Some [json_content_type]" "d = [(''Accept'', ReasonSDKHeader)]"
    by metis+
  with r show ?thesis unfolding hos_def by blast
qed

end
