(* ===== verification/H2_Call.thy ===== *)
theory H2_Call
  imports Prelude
begin

text \<open>
  One request's passage through the stock transport as its trace hooks see it, \<open>call\<close> of
  \<open>internal/h2gate/transport.go\<close>: the hold on the header-write token, the hold bound and the wait bound, and the
  connections a replay left unsettled. The hooks and the timers' callbacks run on goroutines of their own, so
  what follows speaks of every sequence of them.
\<close>

section \<open>Connections\<close>

text \<open>A connection is known by its identity; \<open>None\<close> is the nil interface. \<open>cn_negotiated\<close> is what the
  connection's TLS state negotiated, when it has one.\<close>

record conn =
  cn_id :: nat
  cn_comparable :: bool
  cn_negotiated :: "string option"

record conn_info =
  ci_conn :: "conn option"
  ci_reused :: bool

definition is_h2 :: "bool \<Rightarrow> conn option \<Rightarrow> bool" where
  "is_h2 h2c conn \<longleftrightarrow> h2c \<or> (case conn of None \<Rightarrow> False | Some c \<Rightarrow> cn_negotiated c = Some ''h2'')"

definition max_unsettled :: nat where
  "max_unsettled = 8"

section \<open>The state\<close>

record wait_state =
  ws_armed :: bool
  ws_waiting :: bool
  ws_kept :: bool

record call =
  cl_given :: bool
  cl_looked_up :: bool
  cl_proxied :: bool
  cl_connected :: bool
  cl_first :: bool
  cl_hold :: bool
  cl_marked :: "nat option"
  cl_bound :: "wait_state option"
  cl_canceled :: bool

text \<open>What the call touches of the transport; \<open>tp_freed\<close> counts the receives from the token's channel.\<close>

record transport =
  tp_h2c :: bool
  tp_freed :: nat
  tp_stalled :: bool
  tp_unsettled :: "nat list"
  tp_dials :: nat
  tp_first_holds :: nat
  tp_settle_holds :: nat
  tp_hold_expiries :: nat
  tp_wait_expiries :: nat

type_synonym call_state = "transport \<times> call"

text \<open>\<open>dialHooks\<close>: whether a trace has a hook of the dial phase.\<close>

record client_trace =
  ct_dns_start :: bool
  ct_dns_done :: bool
  ct_connect_start :: bool
  ct_connect_done :: bool
  ct_tls_start :: bool
  ct_tls_done :: bool

definition dial_hooks :: "client_trace option \<Rightarrow> bool" where
  "dial_hooks trace =
     (case trace of
        None \<Rightarrow> False
      | Some t \<Rightarrow> ct_dns_start t \<or> ct_dns_done t \<or> ct_connect_start t \<or> ct_connect_done t \<or> ct_tls_start t \<or> ct_tls_done t)"

text \<open>The call that \<open>send\<close> makes: with the token or without it, under the wait bound or not.\<close>

definition new_call :: "bool \<Rightarrow> transport \<Rightarrow> client_trace option \<Rightarrow> call" where
  "new_call held t trace =
     \<lparr>cl_given = \<not> held, cl_looked_up = False, cl_proxied = False, cl_connected = False, cl_first = False, cl_hold = False,
      cl_marked = None,
      cl_bound = (if \<not> held \<or> tp_stalled t \<or> dial_hooks trace then Some \<lparr>ws_armed = False, ws_waiting = False, ws_kept = False\<rparr> else None),
      cl_canceled = False\<rparr>"

section \<open>Unsettled connections\<close>

definition mark_unsettled :: "conn option \<Rightarrow> transport \<Rightarrow> bool \<times> transport" where
  "mark_unsettled conn t =
     (case conn of
        None \<Rightarrow> (False, t)
      | Some c \<Rightarrow>
          if \<not> cn_comparable c then (False, t)
          else
            let u = (if length (tp_unsettled t) = max_unsettled then tl (tp_unsettled t) else tp_unsettled t) in
            (True, t\<lparr>tp_unsettled := u @ [cn_id c]\<rparr>))"

definition take_unsettled :: "nat \<Rightarrow> transport \<Rightarrow> bool \<times> transport" where
  "take_unsettled c t =
     (if c \<in> set (tp_unsettled t) then (True, t\<lparr>tp_unsettled := remove1 c (tp_unsettled t)\<rparr>) else (False, t))"

section \<open>The hooks\<close>

definition call_give_back :: "bool \<Rightarrow> call_state \<Rightarrow> call_state" where
  "call_give_back expired s =
     (let (t, c) = s in
      if cl_given c then s
      else
        (t\<lparr>tp_hold_expiries := tp_hold_expiries t + (if expired then 1 else 0), tp_freed := tp_freed t + 1\<rparr>,
         c\<lparr>cl_given := True\<rparr>))"

definition get_conn :: "call_state \<Rightarrow> call_state" where
  "get_conn s =
     (let (t, c) = s in
      (t, c\<lparr>cl_looked_up := True, cl_bound := map_option (\<lambda>b. b\<lparr>ws_waiting := True, ws_armed := True\<rparr>) (cl_bound c)\<rparr>))"

text \<open>\<open>FirstHold\<close> engages once.\<close>

definition engage :: "call_state \<Rightarrow> call_state" where
  "engage s =
     (let (t, c) = s in
      (t\<lparr>tp_first_holds := tp_first_holds t + (if cl_first c then 0 else 1)\<rparr>, c\<lparr>cl_first := True\<rparr>))"

definition got_conn_case :: "conn_info \<Rightarrow> call_state \<Rightarrow> call_state" where
  "got_conn_case info s =
     (let (t, c) = s in
      if \<not> is_h2 (tp_h2c t) (ci_conn info) then call_give_back False s
      else if cl_given c then
        (if \<not> ci_reused info then
           let (marked, t') = mark_unsettled (ci_conn info) t in
           (t', if marked then c\<lparr>cl_marked := map_option cn_id (ci_conn info)\<rparr> else c)
         else s)
      else if \<not> ci_reused info then engage s
      else
        (case ci_conn info of
           None \<Rightarrow> s
         | Some conn \<Rightarrow>
             let (taken, t') = take_unsettled (cn_id conn) t in
             if taken then let (t'', c') = engage (t', c) in (t''\<lparr>tp_settle_holds := tp_settle_holds t'' + 1\<rparr>, c') else s))"

definition call_got_conn :: "conn_info \<Rightarrow> call_state \<Rightarrow> call_state" where
  "call_got_conn info s =
     (let (t, c) = s;
          c = c\<lparr>cl_bound := map_option (\<lambda>b. if ws_waiting b then b\<lparr>ws_waiting := False, ws_armed := False\<rparr> else b) (cl_bound c)\<rparr>;
          t = t\<lparr>tp_stalled := False, tp_dials := tp_dials t + (if ci_reused info then 0 else 1)\<rparr>;
          (t, c) = got_conn_case info (t, c)
      in (t, c\<lparr>cl_connected := True\<rparr>))"

definition wrote_headers :: "call_state \<Rightarrow> call_state" where
  "wrote_headers s =
     (let (t, c) = s in
      if \<not> cl_first c then call_give_back False s
      else if cl_given c then s
      else (t, c\<lparr>cl_hold := True\<rparr>))"

definition hold_fires :: "call_state \<Rightarrow> call_state" where
  "hold_fires s = call_give_back True s"

text \<open>The wait bound's callback. A response that came meanwhile took the context over.\<close>

definition expire :: "call_state \<Rightarrow> call_state" where
  "expire s =
     (let (t, c) = s in
      case cl_bound c of
        None \<Rightarrow> s
      | Some b \<Rightarrow>
          if \<not> ws_waiting b then s
          else (t\<lparr>tp_stalled := True, tp_wait_expiries := tp_wait_expiries t + 1\<rparr>,
                c\<lparr>cl_bound := Some (b\<lparr>ws_waiting := False\<rparr>), cl_canceled := True\<rparr>))"

definition finish_call :: "call_state \<Rightarrow> call_state" where
  "finish_call s =
     (let (t, c) = call_give_back False s in
      (t, c\<lparr>cl_hold := False,
            cl_bound := map_option (\<lambda>b. if ws_armed b then b\<lparr>ws_waiting := False, ws_armed := False\<rparr> else b) (cl_bound c)\<rparr>))"

definition responded :: "call_state \<Rightarrow> call_state" where
  "responded s = (let (t, c) = s in (case cl_marked c of None \<Rightarrow> t | Some conn \<Rightarrow> snd (take_unsettled conn t), c))"

definition release_call :: "call_state \<Rightarrow> call_state" where
  "release_call s =
     (let (t, c) = s in
      (t, case cl_bound c of None \<Rightarrow> c | Some b \<Rightarrow> if ws_kept b then c else c\<lparr>cl_canceled := True\<rparr>))"

text \<open>\<open>Proxied\<close> and the mark \<open>observeProxy\<close> sets.\<close>

definition observe_proxy :: "bool \<Rightarrow> call \<Rightarrow> call" where
  "observe_proxy chosen c = (if chosen then c\<lparr>cl_proxied := True\<rparr> else c)"

datatype hook =
    GetConn
  | GotConn conn_info
  | WroteHeaders
  | HoldFires
  | Expire
  | ProxyChosen bool

fun run_hook :: "hook \<Rightarrow> call_state \<Rightarrow> call_state" where
  "run_hook GetConn s = get_conn s"
| "run_hook (GotConn info) s = call_got_conn info s"
| "run_hook WroteHeaders s = wrote_headers s"
| "run_hook HoldFires s = hold_fires s"
| "run_hook Expire s = expire s"
| "run_hook (ProxyChosen p) s = (fst s, observe_proxy p (snd s))"

text \<open>The end of \<open>send\<close>: what the stock transport returned decides. The deferred calls run on every way out.\<close>

datatype 'e sent_end = SentResponse nat | SentError 'e | SentPanic

datatype ('e, 'd) send_result = SendResponse | SendError 'e | SendDialError 'd | SendNotNegotiated | SendPanic

definition end_send :: "('e \<Rightarrow> 'd) \<Rightarrow> bool \<Rightarrow> bool \<Rightarrow> 'e sent_end \<Rightarrow> call_state \<Rightarrow> call_state \<times> ('e, 'd) send_result" where
  "end_send classify http2_only ctx_alive res s =
     (let s = finish_call s in
      case res of
        SentPanic \<Rightarrow> (release_call s, SendPanic)
      | SentError e \<Rightarrow>
          (release_call s,
           if cl_looked_up (snd s) \<and> \<not> cl_connected (snd s) \<and> ctx_alive then SendDialError (classify e) else SendError e)
      | SentResponse major \<Rightarrow>
          let (t, c) = responded s in
          if http2_only \<and> major \<noteq> 2 then (release_call (t, c), SendNotNegotiated)
          else (release_call (t, c\<lparr>cl_bound := map_option (\<lambda>b. b\<lparr>ws_kept := True\<rparr>) (cl_bound c)\<rparr>), SendResponse))"

section \<open>Properties\<close>

definition call_inv :: "nat \<Rightarrow> nat \<Rightarrow> nat \<Rightarrow> bool \<Rightarrow> call_state \<Rightarrow> bool" where
  "call_inv freed expiries holds held s \<longleftrightarrow>
     tp_freed (fst s) = freed + (if held \<and> cl_given (snd s) then 1 else 0) \<and> (held \<or> cl_given (snd s)) \<and>
     tp_hold_expiries (fst s) \<le> expiries + (if held \<and> cl_given (snd s) then 1 else 0) \<and>
     tp_first_holds (fst s) = holds + (if cl_first (snd s) then 1 else 0) \<and> (held \<or> \<not> cl_first (snd s)) \<and>
     length (tp_unsettled (fst s)) \<le> max_unsettled"

text \<open>A step that leaves the token, the counters and the bits alone.\<close>

lemma call_inv_frame:
  assumes "call_inv f e h held s" "tp_freed (fst s') = tp_freed (fst s)" "tp_hold_expiries (fst s') = tp_hold_expiries (fst s)"
    "tp_first_holds (fst s') = tp_first_holds (fst s)" "length (tp_unsettled (fst s')) \<le> max_unsettled"
    "cl_given (snd s') = cl_given (snd s)" "cl_first (snd s') = cl_first (snd s)"
  shows "call_inv f e h held s'"
  using assms unfolding call_inv_def by simp

lemma call_inv_fields [simp]:
  "call_inv f e h held (t\<lparr>tp_settle_holds := n\<rparr>, c) = call_inv f e h held (t, c)"
  "call_inv f e h held (t\<lparr>tp_stalled := b\<rparr>, c) = call_inv f e h held (t, c)"
  "call_inv f e h held (t\<lparr>tp_dials := n\<rparr>, c) = call_inv f e h held (t, c)"
  "call_inv f e h held (t\<lparr>tp_wait_expiries := n\<rparr>, c) = call_inv f e h held (t, c)"
  "call_inv f e h held (t, c\<lparr>cl_hold := b\<rparr>) = call_inv f e h held (t, c)"
  "call_inv f e h held (t, c\<lparr>cl_marked := m\<rparr>) = call_inv f e h held (t, c)"
  "call_inv f e h held (t, c\<lparr>cl_bound := w\<rparr>) = call_inv f e h held (t, c)"
  "call_inv f e h held (t, c\<lparr>cl_canceled := b\<rparr>) = call_inv f e h held (t, c)"
  "call_inv f e h held (t, c\<lparr>cl_connected := b\<rparr>) = call_inv f e h held (t, c)"
  "call_inv f e h held (t, c\<lparr>cl_proxied := b\<rparr>) = call_inv f e h held (t, c)"
  "call_inv f e h held (t, c\<lparr>cl_looked_up := b\<rparr>) = call_inv f e h held (t, c)"
  by (simp_all add: call_inv_def)

lemma call_inv_unsettled: "call_inv f e h held s \<Longrightarrow> length (tp_unsettled (fst s)) \<le> max_unsettled"
  by (simp add: call_inv_def)

lemma unsettled_bound:
  "length (tp_unsettled t) \<le> max_unsettled \<Longrightarrow> length (tp_unsettled (snd (mark_unsettled conn t))) \<le> max_unsettled"
  "length (tp_unsettled t) \<le> max_unsettled \<Longrightarrow> length (tp_unsettled (snd (take_unsettled n t))) \<le> max_unsettled"
  by (auto simp: mark_unsettled_def take_unsettled_def Let_def max_unsettled_def length_remove1 split: option.split)

lemma unsettled_frame [simp]:
  "tp_freed (snd (mark_unsettled conn t)) = tp_freed t" "tp_freed (snd (take_unsettled n t)) = tp_freed t"
  "tp_hold_expiries (snd (mark_unsettled conn t)) = tp_hold_expiries t"
  "tp_hold_expiries (snd (take_unsettled n t)) = tp_hold_expiries t"
  "tp_first_holds (snd (mark_unsettled conn t)) = tp_first_holds t"
  "tp_first_holds (snd (take_unsettled n t)) = tp_first_holds t"
  by (auto simp: mark_unsettled_def take_unsettled_def Let_def split: option.split)

lemma call_inv_give_back: "call_inv f e h held s \<Longrightarrow> call_inv f e h held (call_give_back x s)"
  by (cases s; cases "cl_given (snd s)"; cases x) (simp_all add: call_inv_def call_give_back_def)

lemma call_inv_engage: "call_inv f e h held s \<Longrightarrow> \<not> cl_given (snd s) \<Longrightarrow> call_inv f e h held (engage s)"
  by (cases s) (simp add: call_inv_def engage_def)

lemma call_inv_case:
  assumes inv: "call_inv f e h held s"
  shows "call_inv f e h held (got_conn_case info s)"
proof -
  obtain t c where s: "s = (t, c)" by (cases s)
  note u = call_inv_unsettled [OF inv, unfolded s fst_conv]
  obtain m t' where m: "mark_unsettled (ci_conn info) t = (m, t')" by (cases "mark_unsettled (ci_conn info) t")
  have mark: "call_inv f e h held (t', if m then c\<lparr>cl_marked := x\<rparr> else c)" for x
    using unsettled_bound(1) [OF u, of "ci_conn info"] unsettled_frame(1,3,5) [of "ci_conn info" t]
    by (intro call_inv_frame [OF inv]) (simp_all add: m s)
  have take: "call_inv f e h held (let (taken, t') = take_unsettled n t in
      if taken then let (t'', c') = engage (t', c) in (t''\<lparr>tp_settle_holds := tp_settle_holds t'' + 1\<rparr>, c') else s)"
    if "\<not> cl_given c" for n
  proof -
    obtain k t' where k: "take_unsettled n t = (k, t')" by (cases "take_unsettled n t")
    have "call_inv f e h held (t', c)"
      using unsettled_bound(2) [OF u, of n] unsettled_frame(2,4,6) [of n t] by (intro call_inv_frame [OF inv]) (simp_all add: k s)
    then have "call_inv f e h held (engage (t', c))" using that by (simp add: call_inv_engage)
    moreover obtain t'' c' where "engage (t', c) = (t'', c')" by (cases "engage (t', c)")
    ultimately show ?thesis
      using inv by (cases k) (simp_all add: k)
  qed
  show ?thesis
    using inv call_inv_give_back [OF inv] mark take call_inv_engage [OF inv]
    unfolding got_conn_case_def s Let_def prod.case m by (simp split: option.split)
qed

lemma call_inv_got_conn:
  assumes inv: "call_inv f e h held s"
  shows "call_inv f e h held (call_got_conn info s)"
proof -
  obtain t c where s: "s = (t, c)" by (cases s)
  let ?c = "c\<lparr>cl_bound := map_option (\<lambda>b. if ws_waiting b then b\<lparr>ws_waiting := False, ws_armed := False\<rparr> else b) (cl_bound c)\<rparr>"
  let ?t = "t\<lparr>tp_stalled := False, tp_dials := tp_dials t + (if ci_reused info then 0 else 1)\<rparr>"
  have "call_inv f e h held (?t, ?c)" using inv by (simp add: call_inv_def s)
  then have "call_inv f e h held (got_conn_case info (?t, ?c))" by (rule call_inv_case)
  moreover obtain t' c' where "got_conn_case info (?t, ?c) = (t', c')" by (cases "got_conn_case info (?t, ?c)")
  ultimately show ?thesis unfolding call_got_conn_def s prod.case Let_def by simp
qed

lemma call_inv_expire: "call_inv f e h held s \<Longrightarrow> call_inv f e h held (expire s)"
  by (cases s; cases "cl_bound (snd s)") (simp_all add: expire_def)

lemma call_inv_hook: "call_inv f e h held s \<Longrightarrow> call_inv f e h held (run_hook k s)"
  by (cases k; cases s)
    (simp_all add: call_inv_got_conn call_inv_expire wrote_headers_def hold_fires_def call_inv_give_back get_conn_def observe_proxy_def)

lemma call_inv_run: "call_inv f e h held s \<Longrightarrow> call_inv f e h held (fold run_hook ks s)"
  by (induction ks arbitrary: s) (simp_all add: call_inv_hook)

lemma give_back_given: "cl_given (snd (call_give_back x s))"
  by (cases s) (simp add: call_give_back_def)

lemma call_inv_finish: "call_inv f e h held s \<Longrightarrow> call_inv f e h held (finish_call s) \<and> cl_given (snd (finish_call s))"
  using call_inv_give_back [of f e h held s False] give_back_given [of False s]
  by (cases "call_give_back False s") (simp add: finish_call_def call_inv_def)

lemma release_call_fields [simp]:
  "fst (release_call s) = fst s" "cl_given (snd (release_call s)) = cl_given (snd s)"
  "cl_first (snd (release_call s)) = cl_first (snd s)"
  by (cases s; cases "cl_bound (snd s)"; simp add: release_call_def)+

lemma call_inv_release [simp]: "call_inv f e h held (release_call s) = call_inv f e h held s"
  by (simp add: call_inv_def)

lemma call_inv_responded:
  assumes "call_inv f e h held s"
  shows "call_inv f e h held (responded s) \<and> snd (responded s) = snd s"
  using assms unsettled_bound(2) [OF call_inv_unsettled [OF assms]]
  by (cases s; cases "cl_marked (snd s)") (auto simp: responded_def intro: call_inv_frame)

lemma call_inv_end:
  assumes "call_inv f e h held s"
  shows "call_inv f e h held (fst (end_send cls only alive res s)) \<and> cl_given (snd (fst (end_send cls only alive res s)))"
proof -
  obtain t c where s: "finish_call s = (t, c)" by (cases "finish_call s")
  have inv: "call_inv f e h held (t, c)" and g: "cl_given c"
    using call_inv_finish [OF assms] s by simp_all
  obtain t' where t': "responded (t, c) = (t', c)" "call_inv f e h held (t', c)"
    using call_inv_responded [OF inv] by (cases "responded (t, c)") auto
  with inv g t' show ?thesis by (cases res) (simp_all add: end_send_def s)
qed

lemma given_stays:
  assumes "cl_given (snd s)"
  shows "cl_given (snd (run_hook k s))"
proof (cases k)
  case (GotConn info)
  obtain t c where s: "s = (t, c)" by (cases s)
  let ?c = "c\<lparr>cl_bound := map_option (\<lambda>b. if ws_waiting b then b\<lparr>ws_waiting := False, ws_armed := False\<rparr> else b) (cl_bound c)\<rparr>"
  let ?t = "t\<lparr>tp_stalled := False, tp_dials := tp_dials t + (if ci_reused info then 0 else 1)\<rparr>"
  have "cl_given ?c" using assms s by simp
  then have "cl_given (snd (got_conn_case info (?t, ?c)))"
    by (simp add: got_conn_case_def call_give_back_def Let_def split: prod.split)
  then show ?thesis unfolding GotConn run_hook.simps call_got_conn_def s prod.case Let_def
    by (cases "got_conn_case info (?t, ?c)") simp
next
  case Expire
  with assms show ?thesis by (cases s; cases "cl_bound (snd s)") (simp_all add: expire_def)
qed (use assms in \<open>cases s; simp add: get_conn_def wrote_headers_def hold_fires_def observe_proxy_def call_give_back_def\<close>)+

lemma given_run: "cl_given (snd s) \<Longrightarrow> cl_given (snd (fold run_hook ks s))"
  by (induction ks arbitrary: s) (simp_all add: given_stays)

text \<open>C20: Whatever hooks and timers run on a call, in whatever order and however often: on every way out of the stock
  transport, a panic included, the token the call took has gone back exactly once, a call that went out without the
  token returned none, the call counted at most one hold and one expired hold, and the transport remembers at
  most eight unsettled connections. A hook that still runs after that returns nothing more.\<close>

theorem token_goes_back_once:
  assumes "length (tp_unsettled t) \<le> max_unsettled"
  shows "let s = fst (end_send cls only alive res (fold run_hook ks (t, new_call held t trace))); s' = fold run_hook late s in
    tp_freed (fst s) = tp_freed t + (if held then 1 else 0) \<and> tp_freed (fst s') = tp_freed (fst s) \<and>
    tp_first_holds (fst s') \<le> tp_first_holds t + (if held then 1 else 0) \<and>
    tp_hold_expiries (fst s') \<le> tp_hold_expiries t + (if held then 1 else 0) \<and>
    length (tp_unsettled (fst s')) \<le> max_unsettled"
proof -
  let ?inv = "call_inv (tp_freed t) (tp_hold_expiries t) (tp_first_holds t) held"
  define s where "s = fst (end_send cls only alive res (fold run_hook ks (t, new_call held t trace)))"
  have "?inv (t, new_call held t trace)" using assms by (simp add: call_inv_def new_call_def)
  from call_inv_end [OF call_inv_run [OF this]] have s: "?inv s" "cl_given (snd s)" unfolding s_def by blast+
  from call_inv_run [OF s(1)] given_run [OF s(2)]
  have "?inv (fold run_hook late s)" "cl_given (snd (fold run_hook late s))" by blast+
  with s show ?thesis unfolding s_def [symmetric] Let_def call_inv_def by (auto split: if_splits)
qed

definition fresh_transport :: transport where
  "fresh_transport =
     \<lparr>tp_h2c = False, tp_freed = 0, tp_stalled = False, tp_unsettled = [], tp_dials = 0, tp_first_holds = 0, tp_settle_holds = 0,
      tp_hold_expiries = 0, tp_wait_expiries = 0\<rparr>"

definition sample_conn :: conn_info where
  "sample_conn = \<lparr>ci_conn = Some \<lparr>cn_id = 1, cn_comparable = True, cn_negotiated = Some ''h2''\<rparr>, ci_reused = False\<rparr>"

lemma token_goes_back_once_witness:
  "tp_freed (fst (fold run_hook [HoldFires] (fst (end_send (\<lambda>e :: string. e) True True (SentResponse 2)
     (fold run_hook [GetConn, GotConn sample_conn, WroteHeaders] (fresh_transport, new_call True fresh_transport None)))))) = 1"
proof -
  have f: "length (tp_unsettled fresh_transport) \<le> max_unsettled" "tp_freed fresh_transport = 0"
    by (simp_all add: fresh_transport_def)
  from token_goes_back_once [OF f(1), of "\<lambda>e :: string. e" True True "SentResponse 2"
      "[GetConn, GotConn sample_conn, WroteHeaders]" True None "[HoldFires]"] f(2)
  show ?thesis unfolding Let_def by presburger
qed

end
