(* ===== verification/H2_Config.thy ===== *)
theory H2_Config
  imports H2_Call Sdk_Errors
begin

text \<open>
  How the SDK's transport is configured, \<open>internal/h2gate/config.go\<close>: what the API URL and the mode decide, which
  TLS handshakes the ALPN check applies to, the settings of the stock transport \<open>NewTransport\<close> and \<open>Wrap\<close>
  build, the bounded dial and the thin check of a caller's TLS dialer.
\<close>

section \<open>Modes and durations\<close>

text \<open>A \<open>Mode\<close> is an \<open>int\<close>: 0 is \<open>HTTP2Only\<close>, 1 \<open>HTTPAuto\<close>, any other value is refused.\<close>

definition mode_http2_only :: int where "mode_http2_only = 0"
definition mode_http_auto :: int where "mode_http_auto = 1"

definition mode_name :: "int \<Rightarrow> bytes" where
  "mode_name m =
     (if m = mode_http2_only then ''HTTP2Only'' else if m = mode_http_auto then ''HTTPAuto''
      else ''Mode('' @ show_int m @ '')'')"

text \<open>A \<open>time.Duration\<close> is a 64-bit integer; its sums wrap.\<close>

definition wrap64 :: "int \<Rightarrow> int" where
  "wrap64 d = (d + 2 ^ 63) mod 2 ^ 64 - 2 ^ 63"

definition h2_default_connect_timeout :: int where "h2_default_connect_timeout = 10 * second"
definition send_ping_timeout :: int where "send_ping_timeout = 30 * second"
definition ping_timeout :: int where "ping_timeout = 15 * second"
definition idle_conn_timeout :: int where "idle_conn_timeout = 90 * second"
definition proxy_connect_limit :: int where "proxy_connect_limit = 60 * second"
definition dial_grace :: int where "dial_grace = 100 * millisecond"

section \<open>Hosts\<close>

text \<open>\<open>net.ParseIP\<close>, as far as whether it accepts: dotted decimal, or IPv6 without a zone.\<close>

definition ipv4_field :: "bytes \<Rightarrow> bool" where
  "ipv4_field f \<longleftrightarrow> f \<noteq> [] \<and> list_all is_digit f \<and> (length f = 1 \<or> hd f \<noteq> CHR ''0'') \<and> length f \<le> 3 \<and> nat_of_digits f \<le> 255"

definition parse_ipv4 :: "bytes \<Rightarrow> bool" where
  "parse_ipv4 s \<longleftrightarrow> length (split_on CHR ''.'' s) = 4 \<and> list_all ipv4_field (split_on CHR ''.'' s)"

text \<open>Groups of hex digits with \<open>n\<close> more allowed: \<open>i\<close> bytes are read, \<open>ell\<close> is whether \<open>::\<close> was seen.\<close>

fun ipv6_groups :: "nat \<Rightarrow> nat \<Rightarrow> bool \<Rightarrow> bytes \<Rightarrow> (nat \<times> bool \<times> bytes) option" where
  "ipv6_groups 0 i ell s = Some (i, ell, s)"
| "ipv6_groups (Suc n) i ell s =
     (let ds = takeWhile is_hex s; rest = dropWhile is_hex s in
      if ds = [] \<or> 4 < length ds then None
      else
        case rest of
          [] \<Rightarrow> Some (i + 2, ell, [])
        | c # s' \<Rightarrow>
            if c = CHR ''.'' then (if (\<not> ell \<and> i \<noteq> 12) \<or> 16 < i + 4 \<or> \<not> parse_ipv4 s then None else Some (i + 4, ell, []))
            else if c \<noteq> CHR '':'' \<or> s' = [] then None
            else if hd s' = CHR '':'' then
              (if ell then None else if tl s' = [] then Some (i + 2, True, []) else ipv6_groups n (i + 2) True (tl s'))
            else ipv6_groups n (i + 2) ell s')"

definition parse_ipv6 :: "bytes \<Rightarrow> bool" where
  "parse_ipv6 s =
     (case (if take 2 s = ''::'' then (if drop 2 s = [] then Some (0, True, []) else ipv6_groups 8 0 True (drop 2 s)) else ipv6_groups 8 0 False s) of
        None \<Rightarrow> False
      | Some (i, ell, rest) \<Rightarrow> rest = [] \<and> (if i < 16 then ell else \<not> ell))"

definition parse_ip :: "bytes \<Rightarrow> bool" where
  "parse_ip s =
     (CHR ''%'' \<notin> set s \<and>
      (case List.find (\<lambda>c. c = CHR ''.'' \<or> c = CHR '':'') s of
         None \<Rightarrow> False
       | Some c \<Rightarrow> if c = CHR ''.'' then parse_ipv4 s else parse_ipv6 s))"

definition strip_dots :: "bytes \<Rightarrow> bytes" where
  "strip_dots name = rev (dropWhile (\<lambda>c. c = CHR ''.'') (rev name))"

definition hostname_in_sni :: "bytes \<Rightarrow> bytes" where
  "hostname_in_sni name =
     (let host = (if name \<noteq> [] \<and> hd name = CHR ''['' \<and> last name = CHR '']'' then butlast (tl name) else name);
          host = (case last_index CHR ''%'' host of Some i \<Rightarrow> if 0 < i then take i host else host | None \<Rightarrow> host)
      in if parse_ip host then [] else strip_dots name)"

definition effective_sni :: "bytes \<Rightarrow> bytes \<Rightarrow> bytes" where
  "effective_sni server_name host = hostname_in_sni (if server_name \<noteq> [] then server_name else host)"

definition is_ascii :: "bytes \<Rightarrow> bool" where
  "is_ascii s \<longleftrightarrow> list_all (\<lambda>c. byte c < 128) s"

text \<open>\<open>Hostname\<close> and \<open>Port\<close> of \<open>net/url\<close>, and \<open>net.JoinHostPort\<close>.\<close>

definition split_host_port :: "bytes \<Rightarrow> bytes \<times> bytes" where
  "split_host_port hp =
     (let (host, port) =
        (case last_index CHR '':'' hp of
           Some i \<Rightarrow> if list_all is_digit (drop (i + 1) hp) then (take i hp, drop (i + 1) hp) else (hp, [])
         | None \<Rightarrow> (hp, []))
      in (if host \<noteq> [] \<and> hd host = CHR ''['' \<and> last host = CHR '']'' \<and> 2 \<le> length host then butlast (tl host) else host, port))"

definition join_host_port :: "bytes \<Rightarrow> bytes \<Rightarrow> bytes" where
  "join_host_port host port = (if CHR '':'' \<in> set host then ''['' @ host @ '']:'' @ port else host @ '':'' @ port)"

section \<open>What the API URL and the mode decide\<close>

type_synonym handle = nat

datatype build_error =
    ErrBadURL
  | ErrUnknownMode int
  | ErrNonASCIIHost bytes
  | ErrCallerHTTP2
  | ErrProxyEnvironment gerr
  | ErrWrapConfig
  | ErrNilTransport

datatype alpn_scope = ScopeNone | ScopeEvery | ScopeSNI | ScopePostCheck

record target =
  tg_scheme :: bytes
  tg_host :: bytes
  tg_addr :: bytes

text \<open>A \<open>Proxy\<close> func: none, \<open>http.ProxyFromEnvironment\<close>, or a func of the caller's.\<close>

datatype proxy_func = NoProxy | EnvProxy | CallerProxy handle

text \<open>A handshake's state, what a handshake fails with, and a TLS configuration.\<close>

record tls_state =
  ts_server_name :: bytes
  ts_negotiated :: bytes
  ts_complete :: bool

datatype tls_error = HookError gerr | NotNegotiatedError bytes

type_synonym verify = "tls_state \<Rightarrow> tls_error option"

record tls_config =
  tc_server_name :: bytes
  tc_min_version :: nat
  tc_root_cas :: "handle option"
  tc_verify :: "verify option"

definition empty_tls :: tls_config where
  "empty_tls = \<lparr>tc_server_name = [], tc_min_version = 0, tc_root_cas = None, tc_verify = None\<rparr>"

definition version_tls12 :: nat where "version_tls12 = 0x0303"

record h2_config =
  hc_api_url :: "url option"
  hc_mode :: int
  hc_connect :: int
  hc_logger :: "handle option"
  hc_root_cas :: "handle option"
  hc_tls :: "tls_config option"
  hc_proxy :: proxy_func
  hc_on_proxy :: bool
  hc_dial :: "handle option"
  hc_disable_compression :: bool

definition connect_timeout :: "h2_config \<Rightarrow> int" where
  "connect_timeout cfg = (if hc_connect cfg \<le> 0 then h2_default_connect_timeout else hc_connect cfg)"

definition resolve_target :: "h2_config \<Rightarrow> build_error + target" where
  "resolve_target cfg =
     (case hc_api_url cfg of
        None \<Rightarrow> Inl ErrBadURL
      | Some u \<Rightarrow>
          let (host, port) = split_host_port (url_host u) in
          if (url_scheme u \<noteq> ''http'' \<and> url_scheme u \<noteq> ''https'') \<or> host = [] then Inl ErrBadURL
          else if hc_mode cfg \<noteq> mode_http2_only \<and> hc_mode cfg \<noteq> mode_http_auto then Inl (ErrUnknownMode (hc_mode cfg))
          else if hc_mode cfg = mode_http2_only \<and> \<not> is_ascii host then Inl (ErrNonASCIIHost host)
          else
            let port = (if port = [] then (if url_scheme u = ''http'' then ''80'' else ''443'') else port) in
            Inr \<lparr>tg_scheme = url_scheme u, tg_host = host, tg_addr = join_host_port host port\<rparr>)"

record protocols =
  pr_http1 :: bool
  pr_http2 :: bool
  pr_unencrypted_http2 :: bool

definition protocols_of :: "int \<Rightarrow> bytes \<Rightarrow> protocols" where
  "protocols_of mode scheme =
     (if mode = mode_http_auto then \<lparr>pr_http1 = True, pr_http2 = True, pr_unencrypted_http2 = False\<rparr>
      else if scheme = ''http'' then \<lparr>pr_http1 = False, pr_http2 = False, pr_unencrypted_http2 = True\<rparr>
      else \<lparr>pr_http1 = False, pr_http2 = True, pr_unencrypted_http2 = False\<rparr>)"

text \<open>\<open>h2_other\<close> is whether any other field of the configuration is set.\<close>

record http2_config =
  h2_strict :: bool
  h2_send_ping :: int
  h2_ping :: int
  h2_other :: bool

definition strict_http2 :: http2_config where
  "strict_http2 = \<lparr>h2_strict = True, h2_send_ping = send_ping_timeout, h2_ping = ping_timeout, h2_other = False\<rparr>"

definition http2_is_zero :: "http2_config \<Rightarrow> bool" where
  "http2_is_zero h \<longleftrightarrow> \<not> h2_strict h \<and> h2_send_ping h = 0 \<and> h2_ping h = 0 \<and> \<not> h2_other h"

text \<open>\<open>env\<close> is \<open>http.ProxyFromEnvironment\<close>, which reads the environment once.\<close>

definition proxy_may_apply :: "(url \<Rightarrow> gerr + url option) \<Rightarrow> proxy_func \<Rightarrow> url \<Rightarrow> build_error + bool" where
  "proxy_may_apply env proxy api =
     (case proxy of
        NoProxy \<Rightarrow> Inr False
      | EnvProxy \<Rightarrow> (case env api of Inl e \<Rightarrow> Inl (ErrProxyEnvironment e) | Inr u \<Rightarrow> Inr (u \<noteq> None))
      | CallerProxy p \<Rightarrow> Inr True)"

definition scope_for :: "int \<Rightarrow> target \<Rightarrow> bool \<Rightarrow> bytes \<Rightarrow> alpn_scope" where
  "scope_for mode tg may_proxy server_name =
     (if mode \<noteq> mode_http2_only \<or> tg_scheme tg \<noteq> ''https'' then ScopeNone
      else if \<not> may_proxy then ScopeEvery
      else if effective_sni server_name (tg_host tg) = [] \<or> server_name \<noteq> [] then ScopePostCheck
      else ScopeSNI)"

definition alpn_check :: "(nat \<Rightarrow> bool) \<Rightarrow> alpn_scope \<Rightarrow> bytes \<Rightarrow> verify option \<Rightarrow> verify" where
  "alpn_check ip scope want nxt cs =
     (case (case nxt of Some f \<Rightarrow> f cs | None \<Rightarrow> None) of
        Some e \<Rightarrow> Some e
      | None \<Rightarrow>
          let api_hop = scope = ScopeEvery \<or> (scope = ScopeSNI \<and> hostname_in_sni (ts_server_name cs) = want) in
          if api_hop \<and> ts_negotiated cs \<noteq> ''h2''
          then Some (NotNegotiatedError (''the API host's TLS handshake negotiated '' @ [quote_char] @ quoted_form False ip (ts_negotiated cs) @ [quote_char]))
          else None)"

definition wait_bound :: "int \<Rightarrow> int \<Rightarrow> bool \<Rightarrow> int" where
  "wait_bound connect handshake may_proxy =
     (let d = wrap64 (connect + handshake) in
      if may_proxy then wrap64 (d + wrap64 (proxy_connect_limit + handshake)) else d)"

record h2_settings =
  hs_mode :: int
  hs_scope :: alpn_scope
  hs_wait_bound :: int
  hs_hold_bound :: int
  hs_log :: "handle option"

definition settings_for :: "h2_config \<Rightarrow> alpn_scope \<Rightarrow> int \<Rightarrow> bool \<Rightarrow> h2_settings" where
  "settings_for cfg scope handshake may_proxy =
     \<lparr>hs_mode = hc_mode cfg, hs_scope = scope, hs_wait_bound = wait_bound (connect_timeout cfg) handshake may_proxy,
      hs_hold_bound = wrap64 (connect_timeout cfg + handshake), hs_log = hc_logger cfg\<rparr>"

section \<open>The stock transport\<close>

text \<open>How a dialer is wrapped; \<open>ip\<close> is \<open>unicode.IsPrint\<close>.\<close>

datatype dialer =
    NetDialer
  | CallerDial handle
  | LegacyDial handle
  | BoundedDial dialer int
  | ThinDial dialer bytes int

record stock_transport =
  st_protocols :: "protocols option"
  st_max_conns :: int
  st_http2 :: "http2_config option"
  st_idle_timeout :: int
  st_tls_timeout :: int
  st_proxy :: proxy_func
  st_observed :: bool
  st_tls :: "tls_config option"
  st_refused_connect :: bool
  st_disable_compression :: bool
  st_dial :: dialer
  st_dial_tls :: "dialer option"
  st_legacy_dial_tls :: "handle option"
  st_own_h2 :: bool

definition install_alpn_check :: "(nat \<Rightarrow> bool) \<Rightarrow> alpn_scope \<Rightarrow> target \<Rightarrow> tls_config \<Rightarrow> tls_config" where
  "install_alpn_check ip scope tg c =
     (if scope \<noteq> ScopeEvery \<and> scope \<noteq> ScopeSNI then c
      else c\<lparr>tc_verify := Some (alpn_check ip scope (effective_sni (tc_server_name c) (tg_host tg)) (tc_verify c))\<rparr>)"

text \<open>A transport as \<open>newTransport\<close> leaves it: its settings, the stock transport, and whether every
  connection is HTTP/2 with prior knowledge.\<close>

record built =
  bt_settings :: h2_settings
  bt_base :: stock_transport
  bt_h2c :: bool

definition new_gate_transport :: "stock_transport \<Rightarrow> h2_settings \<Rightarrow> built" where
  "new_gate_transport base s =
     \<lparr>bt_settings = s, bt_base = base,
      bt_h2c = (case st_protocols base of Some p \<Rightarrow> pr_unencrypted_http2 p \<and> \<not> pr_http1 p \<and> \<not> pr_http2 p | None \<Rightarrow> False)\<rparr>"

definition new_transport :: "(nat \<Rightarrow> bool) \<Rightarrow> (url \<Rightarrow> gerr + url option) \<Rightarrow> h2_config \<Rightarrow> build_error + built" where
  "new_transport ip env cfg =
     rbind (resolve_target cfg) (\<lambda>tg.
     rbind (proxy_may_apply env (hc_proxy cfg) (the (hc_api_url cfg))) (\<lambda>may_proxy.
       let connect = connect_timeout cfg;
           tls = (case hc_tls cfg of Some c \<Rightarrow> c | None \<Rightarrow> empty_tls);
           tls = tls\<lparr>tc_min_version := max (tc_min_version tls) version_tls12\<rparr>;
           tls = (case hc_root_cas cfg of Some r \<Rightarrow> tls\<lparr>tc_root_cas := Some r\<rparr> | None \<Rightarrow> tls);
           scope = scope_for (hc_mode cfg) tg may_proxy (tc_server_name tls);
           dial = (case hc_dial cfg of Some d \<Rightarrow> CallerDial d | None \<Rightarrow> NetDialer)
       in Inr (new_gate_transport
         \<lparr>st_protocols = Some (protocols_of (hc_mode cfg) (tg_scheme tg)),
          st_max_conns = (if hc_mode cfg = mode_http_auto then 0 else 1), st_http2 = Some strict_http2,
          st_idle_timeout = idle_conn_timeout, st_tls_timeout = connect, st_proxy = hc_proxy cfg,
          st_observed = (hc_proxy cfg \<noteq> NoProxy), st_tls = Some (install_alpn_check ip scope tg tls), st_refused_connect = True,
          st_disable_compression = hc_disable_compression cfg, st_dial = BoundedDial dial connect, st_dial_tls = None,
          st_legacy_dial_tls = None, st_own_h2 = False\<rparr>
         (settings_for cfg scope connect may_proxy))))"

text \<open>\<open>Wrap\<close>, over \<open>tr\<close>, which is \<open>base.Clone()\<close>: what it fills in, its ALPN check, and its thin check of a
  TLS dialer.\<close>

definition fill_settings :: "h2_config \<Rightarrow> target \<Rightarrow> stock_transport \<Rightarrow> stock_transport" where
  "fill_settings cfg tg tr =
     (let only = hc_mode cfg = mode_http2_only;
          h = (case st_http2 tr of Some h \<Rightarrow> h | None \<Rightarrow> \<lparr>h2_strict = False, h2_send_ping = 0, h2_ping = 0, h2_other = False\<rparr>)
      in tr\<lparr>st_protocols := (case st_protocols tr of Some p \<Rightarrow> Some p | None \<Rightarrow> Some (protocols_of (hc_mode cfg) (tg_scheme tg))),
            st_max_conns := (if st_max_conns tr = 0 \<and> only then 1 else st_max_conns tr),
            st_http2 := Some (h\<lparr>h2_strict := (only \<or> http2_is_zero h \<or> h2_strict h),
                                h2_send_ping := (if h2_send_ping h \<noteq> 0 then h2_send_ping h else send_ping_timeout),
                                h2_ping := (if h2_ping h \<noteq> 0 then h2_ping h else ping_timeout)\<rparr>),
            st_tls_timeout := (if st_tls_timeout tr = 0 then connect_timeout cfg else st_tls_timeout tr)\<rparr>)"

definition wrap_alpn :: "(nat \<Rightarrow> bool) \<Rightarrow> alpn_scope \<Rightarrow> target \<Rightarrow> stock_transport \<Rightarrow> stock_transport" where
  "wrap_alpn ip scope tg tr =
     (if scope = ScopeEvery \<or> scope = ScopeSNI
      then tr\<lparr>st_tls := Some (install_alpn_check ip scope tg (case st_tls tr of Some c \<Rightarrow> c | None \<Rightarrow> empty_tls))\<rparr>
      else tr)"

definition wrap_dialer :: "h2_config \<Rightarrow> target \<Rightarrow> stock_transport \<Rightarrow> stock_transport" where
  "wrap_dialer cfg tg tr =
     (if hc_mode cfg = mode_http2_only \<and> tg_scheme tg = ''https'' then
        (case (case st_dial_tls tr of Some d \<Rightarrow> Some d | None \<Rightarrow> map_option LegacyDial (st_legacy_dial_tls tr)) of
           Some d \<Rightarrow>
             tr\<lparr>st_dial_tls := Some (ThinDial d (tg_addr tg) (wrap64 (connect_timeout cfg + st_tls_timeout tr))),
                st_legacy_dial_tls := None\<rparr>
         | None \<Rightarrow> tr)
      else tr)"

definition wrap_transport ::
  "(nat \<Rightarrow> bool) \<Rightarrow> (url \<Rightarrow> gerr + url option) \<Rightarrow> (stock_transport \<Rightarrow> stock_transport) \<Rightarrow> stock_transport option \<Rightarrow> h2_config \<Rightarrow>
    build_error + built" where
  "wrap_transport ip env clone base cfg =
     (case base of
        None \<Rightarrow> Inl ErrNilTransport
      | Some b \<Rightarrow>
          if hc_root_cas cfg \<noteq> None \<or> hc_tls cfg \<noteq> None \<or> hc_proxy cfg \<noteq> NoProxy \<or> hc_on_proxy cfg \<or> hc_dial cfg \<noteq> None \<or>
             hc_disable_compression cfg
          then Inl ErrWrapConfig
          else rbind (resolve_target cfg) (\<lambda>tg.
            if st_own_h2 (clone b) \<and> hc_mode cfg = mode_http2_only \<and> tg_scheme tg = ''https'' then Inl ErrCallerHTTP2
            else
              let tr = fill_settings cfg tg (clone b)
              in rbind (proxy_may_apply env (st_proxy tr) (the (hc_api_url cfg))) (\<lambda>may_proxy.
                let scope = scope_for (hc_mode cfg) tg may_proxy (case st_tls tr of Some c \<Rightarrow> tc_server_name c | None \<Rightarrow> []);
                    tr = wrap_dialer cfg tg (wrap_alpn ip scope tg tr)
                in Inr (new_gate_transport tr (settings_for cfg scope (st_tls_timeout tr) may_proxy)))))"

lemma fill_fields [simp]:
  "st_proxy (fill_settings cfg tg tr) = st_proxy tr" "st_tls (fill_settings cfg tg tr) = st_tls tr"
  "st_own_h2 (fill_settings cfg tg tr) = st_own_h2 tr"
  by (simp_all add: fill_settings_def Let_def)

lemma fill_strict:
  assumes "hc_mode cfg = mode_http2_only"
  shows "st_max_conns (fill_settings cfg tg tr) \<noteq> 0" "\<exists>h. st_http2 (fill_settings cfg tg tr) = Some h \<and> h2_strict h"
  using assms by (auto simp: fill_settings_def Let_def)

lemma wrap_alpn_fields [simp]:
  "st_proxy (wrap_alpn ip scope tg tr) = st_proxy tr" "st_max_conns (wrap_alpn ip scope tg tr) = st_max_conns tr"
  "st_http2 (wrap_alpn ip scope tg tr) = st_http2 tr"
  "st_tls (wrap_alpn ip scope tg tr) =
     (if scope = ScopeEvery \<or> scope = ScopeSNI
      then Some (install_alpn_check ip scope tg (case st_tls tr of Some c \<Rightarrow> c | None \<Rightarrow> empty_tls)) else st_tls tr)"
  by (simp_all add: wrap_alpn_def)

lemma wrap_dialer_fields [simp]:
  "st_proxy (wrap_dialer cfg tg tr) = st_proxy tr" "st_max_conns (wrap_dialer cfg tg tr) = st_max_conns tr"
  "st_http2 (wrap_dialer cfg tg tr) = st_http2 tr" "st_tls (wrap_dialer cfg tg tr) = st_tls tr"
  by (simp_all add: wrap_dialer_def split: option.split)

section \<open>Which handshakes pass\<close>

text \<open>Whether the TLS configuration's hook lets a handshake pass.\<close>

definition accepts :: "built \<Rightarrow> tls_state \<Rightarrow> bool" where
  "accepts t cs \<longleftrightarrow>
     (case st_tls (bt_base t) of
        None \<Rightarrow> True
      | Some c \<Rightarrow> (case tc_verify c of None \<Rightarrow> True | Some f \<Rightarrow> f cs = None))"

definition server_name_of :: "built \<Rightarrow> bytes" where
  "server_name_of t = (case st_tls (bt_base t) of Some c \<Rightarrow> tc_server_name c | None \<Rightarrow> [])"

lemma rbind_ok: "rbind x f = Inr y \<longleftrightarrow> (\<exists>a. x = Inr a \<and> f a = Inr y)"
  by (cases x) auto

lemma resolve_target_ok:
  assumes "resolve_target cfg = Inr tg" "hc_api_url cfg = Some u"
  shows "tg_scheme tg = url_scheme u" "tg_host tg = fst (split_host_port (url_host u))" "tg_host tg \<noteq> []"
    "url_scheme u = ''http'' \<or> url_scheme u = ''https''" "hc_mode cfg = mode_http2_only \<or> hc_mode cfg = mode_http_auto"
  using assms by (auto simp: resolve_target_def Let_def split: prod.splits if_splits)

lemma install_name [simp]: "tc_server_name (install_alpn_check ip scope tg c) = tc_server_name c"
  by (simp add: install_alpn_check_def)

text \<open>What every transport built for \<open>HTTP2Only\<close> on https is.\<close>

definition checked_transport :: "(nat \<Rightarrow> bool) \<Rightarrow> (url \<Rightarrow> gerr + url option) \<Rightarrow> url \<Rightarrow> built \<Rightarrow> bool" where
  "checked_transport ip env u t \<longleftrightarrow>
     (\<exists>may_proxy tg c.
        proxy_may_apply env (st_proxy (bt_base t)) u = Inr may_proxy \<and> tg_scheme tg = ''https'' \<and>
        tg_host tg = fst (split_host_port (url_host u)) \<and> tc_server_name c = server_name_of t \<and>
        (let scope = scope_for mode_http2_only tg may_proxy (server_name_of t) in
         hs_scope (bt_settings t) = scope \<and>
         (scope = ScopeEvery \<or> scope = ScopeSNI \<longrightarrow> st_tls (bt_base t) = Some (install_alpn_check ip scope tg c))) \<and>
        st_max_conns (bt_base t) \<noteq> 0 \<and> (\<exists>h. st_http2 (bt_base t) = Some h \<and> h2_strict h))"

lemma new_transport_checked:
  assumes t: "new_transport ip env cfg = Inr t" and m: "hc_mode cfg = mode_http2_only" and u: "hc_api_url cfg = Some u"
    and https: "url_scheme u = ''https''"
  shows "checked_transport ip env u t"
proof -
  obtain tg may where tg: "resolve_target cfg = Inr tg" and may: "proxy_may_apply env (hc_proxy cfg) u = Inr may"
    using t u by (auto simp: new_transport_def rbind_ok)
  note r = resolve_target_ok [OF tg u]
  let ?tls = "let tls = (case hc_tls cfg of Some c \<Rightarrow> c | None \<Rightarrow> empty_tls); tls = tls\<lparr>tc_min_version := max (tc_min_version tls) version_tls12\<rparr>
    in (case hc_root_cas cfg of Some r \<Rightarrow> tls\<lparr>tc_root_cas := Some r\<rparr> | None \<Rightarrow> tls)"
  have name: "server_name_of t = tc_server_name ?tls" and
    b: "st_proxy (bt_base t) = hc_proxy cfg" "hs_scope (bt_settings t) = scope_for mode_http2_only tg may (tc_server_name ?tls)"
    "st_tls (bt_base t) = Some (install_alpn_check ip (scope_for mode_http2_only tg may (tc_server_name ?tls)) tg ?tls)"
    "st_max_conns (bt_base t) = 1" "st_http2 (bt_base t) = Some strict_http2"
    using t tg may m u
    by (auto simp: new_transport_def Let_def new_gate_transport_def settings_for_def server_name_of_def mode_http_auto_def
        mode_http2_only_def)
  show ?thesis
    unfolding checked_transport_def name Let_def b
    by (rule exI [of _ may], rule exI [of _ tg], rule exI [of _ ?tls]) (simp add: may r https Let_def strict_http2_def)
qed

lemma wrap_transport_checked:
  assumes t: "wrap_transport ip env clone base cfg = Inr t" and m: "hc_mode cfg = mode_http2_only" and u: "hc_api_url cfg = Some u"
    and https: "url_scheme u = ''https''"
  shows "checked_transport ip env u t"
proof -
  from t obtain b tg where b: "base = Some b" and tg: "resolve_target cfg = Inr tg"
    by (auto simp: wrap_transport_def rbind_ok split: option.splits if_splits)
  note r = resolve_target_ok [OF tg u]
  let ?c = "case st_tls (clone b) of Some c \<Rightarrow> c | None \<Rightarrow> empty_tls"
  let ?name = "case st_tls (clone b) of Some c \<Rightarrow> tc_server_name c | None \<Rightarrow> []"
  have cn: "tc_server_name ?c = ?name" by (simp add: empty_tls_def split: option.split)
  from t obtain may where may: "proxy_may_apply env (st_proxy (clone b)) u = Inr may"
    by (auto simp: wrap_transport_def rbind_ok b tg u Let_def split: if_splits)
  let ?scope = "scope_for mode_http2_only tg may ?name"
  let ?tr = "wrap_dialer cfg tg (wrap_alpn ip ?scope tg (fill_settings cfg tg (clone b)))"
  have "t = new_gate_transport ?tr (settings_for cfg ?scope (st_tls_timeout ?tr) may)"
    using t by (simp add: wrap_transport_def b tg may m u Let_def split: if_splits)
  then have e: "st_proxy (bt_base t) = st_proxy (clone b)" "hs_scope (bt_settings t) = ?scope"
    "st_tls (bt_base t) = (if ?scope = ScopeEvery \<or> ?scope = ScopeSNI then Some (install_alpn_check ip ?scope tg ?c) else st_tls (clone b))"
    "st_max_conns (bt_base t) \<noteq> 0" "\<exists>h. st_http2 (bt_base t) = Some h \<and> h2_strict h"
    using fill_strict [OF m, of tg "clone b"] by (simp_all add: new_gate_transport_def settings_for_def)
  have name: "server_name_of t = ?name" by (simp add: server_name_of_def e(3) cn split: option.split)
  show ?thesis
    unfolding checked_transport_def name Let_def e(1,2)
    by (rule exI [of _ may], rule exI [of _ tg], rule exI [of _ ?c]) (use e(3-5) cn in \<open>simp add: may r https\<close>)
qed

lemma alpn_accepts:
  assumes "alpn_check ip scope want nxt cs = None"
    "scope = ScopeEvery \<or> scope = ScopeSNI \<and> hostname_in_sni (ts_server_name cs) = want"
  shows "ts_negotiated cs = ''h2''"
  using assms by (auto simp: alpn_check_def Let_def split: option.splits if_splits)

lemma alpn_other_hop:
  "scope = ScopeSNI \<Longrightarrow> hostname_in_sni (ts_server_name cs) \<noteq> want \<Longrightarrow>
    alpn_check ip scope want nxt cs = (case nxt of Some f \<Rightarrow> f cs | None \<Rightarrow> None)"
  by (simp add: alpn_check_def Let_def split: option.split)


definition sample_url :: url where
  "sample_url = \<lparr>url_scheme = ''https'', url_host = ''api.test'', url_path = ''/v1/systemone''\<rparr>"

definition sample_h2_config :: h2_config where
  "sample_h2_config =
     \<lparr>hc_api_url = Some sample_url, hc_mode = mode_http2_only, hc_connect = 0, hc_logger = None, hc_root_cas = None, hc_tls = None,
      hc_proxy = CallerProxy 1, hc_on_proxy = True, hc_dial = None, hc_disable_compression = False\<rparr>"

definition no_proxy_env :: "url \<Rightarrow> gerr + url option" where
  "no_proxy_env u = Inr None"

lemma sample_host: "split_host_port ''api.test'' = (''api.test'', [])" "hostname_in_sni ''api.test'' = ''api.test''"
  by code_simp+

lemma sample_built: "\<exists>t. new_transport (\<lambda>_. True) no_proxy_env sample_h2_config = Inr t \<and> server_name_of t = []"
  by (simp add: new_transport_def resolve_target_def sample_h2_config_def sample_url_def sample_host proxy_may_apply_def
      server_name_of_def new_gate_transport_def empty_tls_def is_ascii_def mode_http2_only_def mode_http_auto_def Let_def)


section \<open>Where the code falls short\<close>

text \<open>The check recognises the API hop by \<open>hostnameInSNI\<close> of the handshake's name, which is itself such a form.
  An IP address written with a trailing dot has the form without the dot, and that form's own form is empty: with
  a proxy that may apply, the API host's handshake is then accepted whatever it negotiated.\<close>

definition dotted_config :: h2_config where
  "dotted_config = sample_h2_config\<lparr>hc_api_url := Some \<lparr>url_scheme = ''https'', url_host = ''192.0.2.1.'', url_path = ''/v1/systemone''\<rparr>\<rparr>"

lemma dotted_host: "split_host_port ''192.0.2.1.'' = (''192.0.2.1.'', [])" "hostname_in_sni ''192.0.2.1.'' = ''192.0.2.1''"
  "hostname_in_sni ''192.0.2.1'' = []"
  by code_simp+

lemma dotted_address_unchecked:
  "\<exists>t. new_transport (\<lambda>_. True) no_proxy_env dotted_config = Inr t \<and> hs_scope (bt_settings t) = ScopeSNI \<and>
     accepts t \<lparr>ts_server_name = effective_sni [] ''192.0.2.1.'', ts_negotiated = ''http/1.1'', ts_complete = True\<rparr>"
  by (simp add: new_transport_def resolve_target_def dotted_config_def sample_h2_config_def dotted_host proxy_may_apply_def
      new_gate_transport_def empty_tls_def is_ascii_def mode_http2_only_def settings_for_def scope_for_def effective_sni_def
      install_alpn_check_def accepts_def alpn_check_def mode_http_auto_def Let_def)

text \<open>The bounds are sums of durations, which wrap: a connect timeout as large as a duration can be, which a client
  accepts, makes the hold bound and the wait bound negative, so that their timers end at once.\<close>

lemma huge_timeout_wraps:
  assumes "hc_connect cfg = max_duration"
  shows "hs_hold_bound (settings_for cfg scope (connect_timeout cfg) False) = - 2"
    "hs_wait_bound (settings_for cfg scope (connect_timeout cfg) False) = - 2"
  using assms by (simp_all add: settings_for_def connect_timeout_def wait_bound_def wrap64_def max_duration_def)

end
