(* ===== verification/H2_Dial.thy ===== *)
theory H2_Dial
  imports H2_Config
begin

text \<open>
  How the transport connects and what a failure becomes: \<open>boundedDial\<close> and \<open>thinDialTLS\<close> of
  \<open>internal/h2gate/config.go\<close>, and \<open>classify\<close>, \<open>refusedConnect\<close> and the error types of
  \<open>internal/h2gate/errors.go\<close>.
\<close>

section \<open>Classifying a failure\<close>

text \<open>An error of the transport's chain: its text; the operation and the inner text when it is a
  \<open>net.OpError\<close>; whether it is a \<open>net.Error\<close> that reports a timeout; whether it is \<open>ErrNotNegotiated\<close>; what
  it wraps.\<close>

datatype xerr = XErr (x_text: bytes) (x_op: "(bytes \<times> bytes option) option") (x_timeout: bool) (x_sentinel: bool)
  (x_links: "xerr option list")

fun walk :: "('s \<Rightarrow> xerr \<Rightarrow> 's) \<Rightarrow> xerr option \<Rightarrow> 's \<Rightarrow> 's" where
  "walk f None s = s"
| "walk f (Some (XErr t op tm sn links)) s = fold (walk f) links (f s (XErr t op tm sn links))"

definition alert_no_application_protocol :: bytes where
  "alert_no_application_protocol = ''tls: no application protocol''"

record dial_class =
  dc_proxy :: bool
  dc_timeout :: bool
  dc_not_negotiated :: bool

definition classify_node :: "dial_class \<Rightarrow> xerr \<Rightarrow> dial_class" where
  "classify_node d e =
     (let d = (case x_op e of
                 Some (op, inner) \<Rightarrow>
                   if op = ''proxyconnect'' then d\<lparr>dc_proxy := True\<rparr>
                   else if op = ''remote error'' \<and> inner = Some alert_no_application_protocol then d\<lparr>dc_not_negotiated := True\<rparr>
                   else d
               | None \<Rightarrow> d);
          d = (if x_timeout e then d\<lparr>dc_timeout := True\<rparr> else d)
      in if x_sentinel e then d\<lparr>dc_not_negotiated := True\<rparr> else d)"

definition classify :: "xerr \<Rightarrow> dial_class" where
  "classify e =
     (let d = walk classify_node (Some e) \<lparr>dc_proxy = False, dc_timeout = False, dc_not_negotiated = False\<rparr>
      in d\<lparr>dc_not_negotiated := dc_not_negotiated d \<and> \<not> dc_proxy d\<rparr>)"

definition dial_error_text :: "xerr \<Rightarrow> bytes" where
  "dial_error_text e =
     (let d = classify e in
      (if dc_proxy d then ''h2gate: proxy connection failed: ''
       else if dc_not_negotiated d then ''h2gate: HTTP/2 not negotiated: ''
       else if dc_timeout d then ''h2gate: dial timed out: ''
       else ''h2gate: dial failed: '') @ x_text e)"

definition dial_reason :: "xerr \<Rightarrow> bytes" where
  "dial_reason e =
     (let d = classify e in
      if dc_proxy d then ''proxy'' else if dc_not_negotiated d then ''not-negotiated''
      else if dc_timeout d then ''timeout'' else ''dial'')"

definition err_not_negotiated :: xerr where
  "err_not_negotiated = XErr ''h2gate: HTTP/2 not negotiated'' None False True []"

definition not_negotiated_error :: "bytes \<Rightarrow> xerr" where
  "not_negotiated_error detail =
     XErr (x_text err_not_negotiated @ '': '' @ detail) None False False [Some err_not_negotiated]"

definition dial_error_links :: "xerr \<Rightarrow> xerr list" where
  "dial_error_links e = (if dc_not_negotiated (classify e) then [err_not_negotiated, e] else [e])"

definition bound_error :: "bytes \<Rightarrow> bytes \<Rightarrow> xerr" where
  "bound_error what bound = XErr (''h2gate: '' @ what @ '' did not end within its bound ('' @ bound @ '')'') None True False []"

inductive node_of :: "xerr \<Rightarrow> xerr \<Rightarrow> bool" where
  node_self: "node_of e e"
| node_link: "Some x \<in> set (x_links e) \<Longrightarrow> node_of y x \<Longrightarrow> node_of y e"

fun nodes :: "xerr option \<Rightarrow> xerr list" where
  "nodes None = []"
| "nodes (Some (XErr t op tm sn links)) = XErr t op tm sn links # concat (map nodes links)"

lemma walk_nodes: "walk f e s = foldl f s (nodes e)"
proof (induction f e s rule: walk.induct)
  case (2 f t op tm sn links s)
  have "fold (walk f) ls s' = foldl f s' (concat (map nodes ls))" if "set ls \<subseteq> set links" for ls s'
    using that
  proof (induction ls arbitrary: s')
    case (Cons l ls)
    with "2.IH" [of l s'] show ?case by simp
  qed simp
  then show ?case by simp
qed simp

lemma nodes_node_of: "x \<in> set (nodes e) \<longleftrightarrow> (\<exists>y. e = Some y \<and> node_of x y)"
proof (induction e rule: nodes.induct)
  case (2 t op tm sn links)
  show ?case
  proof
    assume "x \<in> set (nodes (Some (XErr t op tm sn links)))"
    then show "\<exists>y. Some (XErr t op tm sn links) = Some y \<and> node_of x y"
      using "2.IH" by (auto intro: node_self node_link)
  next
    assume "\<exists>y. Some (XErr t op tm sn links) = Some y \<and> node_of x y"
    then show "x \<in> set (nodes (Some (XErr t op tm sn links)))"
      using "2.IH" by (auto elim!: node_of.cases [of x "XErr t op tm sn links"])
  qed
qed simp

lemma classify_fold:
  "foldl classify_node d es =
    \<lparr>dc_proxy = dc_proxy d \<or> (\<exists>e \<in> set es. \<exists>i. x_op e = Some (''proxyconnect'', i)),
     dc_timeout = dc_timeout d \<or> (\<exists>e \<in> set es. x_timeout e),
     dc_not_negotiated = dc_not_negotiated d \<or>
       (\<exists>e \<in> set es. x_sentinel e \<or> x_op e = Some (''remote error'', Some alert_no_application_protocol))\<rparr>"
proof (induction es arbitrary: d)
  case (Cons e es)
  have "classify_node d e =
    \<lparr>dc_proxy = dc_proxy d \<or> (\<exists>i. x_op e = Some (''proxyconnect'', i)), dc_timeout = dc_timeout d \<or> x_timeout e,
     dc_not_negotiated = dc_not_negotiated d \<or> x_sentinel e \<or> x_op e = Some (''remote error'', Some alert_no_application_protocol)\<rparr>"
    by (cases d; cases "x_op e") (auto simp: classify_node_def Let_def)
  with Cons show ?case by auto
qed simp

text \<open>\<open>classify\<close> reports what the whole chain holds, however deep and in whatever order: a proxy failure exactly
  when some error in it is a failed CONNECT, a timeout exactly when some error in it reports one, and a failure to
  negotiate HTTP/2 exactly when the sentinel or TLS alert 120 is in it and no proxy failure is.\<close>

theorem classify_reports_chain:
  "classify e =
    \<lparr>dc_proxy = (\<exists>x i. node_of x e \<and> x_op x = Some (''proxyconnect'', i)),
     dc_timeout = (\<exists>x. node_of x e \<and> x_timeout x),
     dc_not_negotiated =
       ((\<exists>x. node_of x e \<and> (x_sentinel x \<or> x_op x = Some (''remote error'', Some alert_no_application_protocol))) \<and>
        \<not> (\<exists>x i. node_of x e \<and> x_op x = Some (''proxyconnect'', i)))\<rparr>"
  unfolding classify_def walk_nodes classify_fold Let_def by (auto simp: nodes_node_of)

section \<open>A proxy's refusal\<close>

definition scrub_proxy_credential :: "bytes \<Rightarrow> userinfo option \<Rightarrow> bytes" where
  "scrub_proxy_credential s user =
     (case user of
        None \<Rightarrow> s
      | Some u \<Rightarrow>
          let (token, password, esc) = proxy_credential_forms u;
              s = replace_all token redacted s
          in if password = [] then s
             else
               let s = replace_all password redacted s
               in if esc \<noteq> password then replace_all esc redacted s else s)"

definition refused_connect :: "userinfo option \<Rightarrow> int \<Rightarrow> bytes \<Rightarrow> xerr option" where
  "refused_connect user status line =
     (if status = 200 then None
      else
        let text = scrub_proxy_credential line user
        in Some (XErr (''proxyconnect tcp: '' @ text) (Some (''proxyconnect'', Some text)) False False [Some (XErr text None False False [])]))"

lemma b64_star: "n < 64 \<Longrightarrow> CHR ''*'' \<noteq> b64_char n"
proof -
  assume "n < 64"
  then have "b64_char n \<in> set ''ABCDEFGHIJKLMNOPQRSTUVWXYZabcdefghijklmnopqrstuvwxyz0123456789+/''"
    unfolding b64_char_def by (intro nth_mem) simp
  then show ?thesis by auto
qed

lemma base64_star: "star_free (base64 s)"
proof (induction s rule: base64.induct)
  case (4 a b c s)
  have "byte a < 256" "byte b < 256" "byte c < 256" by simp_all
  then have "byte a div 4 < 64" "byte a mod 4 * 16 + byte b div 16 < 64" "byte b mod 16 * 4 + byte c div 64 < 64" "byte c mod 64 < 64"
    by linarith+
  from this [THEN b64_star] 4 show ?case by (simp add: star_free_def)
next
  case (2 a)
  have "byte a < 256" by simp
  then have "byte a div 4 < 64" "byte a mod 4 * 16 < 64" by linarith+
  from this [THEN b64_star] show ?case by (simp add: star_free_def)
next
  case (3 a b)
  have "byte a < 256" "byte b < 256" by simp_all
  then have "byte a div 4 < 64" "byte a mod 4 * 16 + byte b div 16 < 64" "byte b mod 16 * 4 < 64" by linarith+
  from this [THEN b64_star] show ?case by (simp add: star_free_def)
qed (simp add: star_free_def)

lemma base64_not_Nil: "s \<noteq> [] \<Longrightarrow> base64 s \<noteq> []"
  by (cases s rule: base64.cases) auto

lemma replaced_gone: "p \<noteq> [] \<Longrightarrow> star_free p \<Longrightarrow> \<not> contains (replace_all p redacted s) p"
  by (simp add: replace_all_def replace_gone)

lemma still_gone: "\<not> contains s w \<Longrightarrow> star_free w \<Longrightarrow> w \<noteq> [] \<Longrightarrow> p \<noteq> [] \<Longrightarrow> \<not> contains (replace_all p redacted s) w"
  unfolding replace_all_def using masked_contains [OF masked_replace [of p s]] by (simp only: if_False) blast

lemma url_escape_not_Nil: "p \<noteq> [] \<Longrightarrow> url_escape p \<noteq> []"
  by (cases p) (auto simp: url_escape_def)



section \<open>The bounded dial\<close>

text \<open>\<open>boundedDial\<close>: the goroutine that dials, the caller that waits for it, and the connections the goroutine
  closed. \<open>got\<close> is unbuffered, so a hand-over is one step of both.\<close>

type_synonym dialed = "nat option \<times> xerr option"

datatype worker = Dialing | Offering dialed | HandedOver dialed | Dropped dialed

datatype dial_end = GotDialed dialed | ContextError | BoundExpired

datatype waiter = Waiting | InGrace | Returned dial_end

record bounded =
  bd_worker :: worker
  bd_waiter :: waiter
  bd_abandoned :: bool
  bd_closed :: "nat list"
  bd_expiries :: nat

definition start_dial :: bounded where
  "start_dial = \<lparr>bd_worker = Dialing, bd_waiter = Waiting, bd_abandoned = False, bd_closed = [], bd_expiries = 0\<rparr>"

inductive dial_step :: "bounded \<Rightarrow> bounded \<Rightarrow> bool" where
  dialed: "bd_worker s = Dialing \<Longrightarrow> dial_step s (s\<lparr>bd_worker := Offering d\<rparr>)"
| hand_over: "bd_worker s = Offering d \<Longrightarrow> bd_waiter s = Waiting \<or> bd_waiter s = InGrace \<Longrightarrow>
    dial_step s (s\<lparr>bd_worker := HandedOver d, bd_waiter := Returned (GotDialed d)\<rparr>)"
| drop_dial: "bd_worker s = Offering d \<Longrightarrow> bd_abandoned s \<Longrightarrow>
    dial_step s (s\<lparr>bd_worker := Dropped d, bd_closed := (case fst d of Some c \<Rightarrow> c # bd_closed s | None \<Rightarrow> bd_closed s)\<rparr>)"
| canceled: "bd_waiter s = Waiting \<Longrightarrow> dial_step s (s\<lparr>bd_waiter := Returned ContextError, bd_abandoned := True\<rparr>)"
| deadline: "bd_waiter s = Waiting \<Longrightarrow> dial_step s (s\<lparr>bd_waiter := InGrace\<rparr>)"
| grace_ends: "bd_waiter s = InGrace \<Longrightarrow>
    dial_step s (s\<lparr>bd_waiter := Returned BoundExpired, bd_abandoned := True, bd_expiries := bd_expiries s + 1\<rparr>)"

inductive dial_reaches :: "bounded \<Rightarrow> bool" where
  dial_start: "dial_reaches start_dial"
| dial_more: "dial_reaches s \<Longrightarrow> dial_step s s' \<Longrightarrow> dial_reaches s'"

definition unclaimed :: "bounded \<Rightarrow> bool" where
  "unclaimed s \<longleftrightarrow>
     (case bd_worker s of
        HandedOver d \<Rightarrow> False
      | Dropped d \<Rightarrow> bd_closed s = (case fst d of Some c \<Rightarrow> [c] | None \<Rightarrow> [])
      | _ \<Rightarrow> bd_closed s = [])"

definition dial_inv :: "bounded \<Rightarrow> bool" where
  "dial_inv s \<longleftrightarrow>
     (case bd_waiter s of
        Returned (GotDialed d) \<Rightarrow> bd_worker s = HandedOver d \<and> \<not> bd_abandoned s \<and> bd_closed s = [] \<and> bd_expiries s = 0
      | Returned ContextError \<Rightarrow> bd_abandoned s \<and> bd_expiries s = 0 \<and> unclaimed s
      | Returned BoundExpired \<Rightarrow> bd_abandoned s \<and> bd_expiries s = 1 \<and> unclaimed s
      | _ \<Rightarrow> \<not> bd_abandoned s \<and> bd_expiries s = 0 \<and> unclaimed s \<and> (\<forall>d. bd_worker s \<noteq> Dropped d))"

lemma dial_inv_step:
  assumes "dial_step s s'" "dial_inv s"
  shows "dial_inv s'"
  using assms(1)
proof (cases rule: dial_step.cases)
  case (dialed d)
  with assms(2) show ?thesis
    by (cases "bd_waiter s" rule: waiter.exhaust; simp add: dial_inv_def unclaimed_def split: dial_end.splits)
next
  case (hand_over d)
  with assms(2) show ?thesis by (auto simp: dial_inv_def unclaimed_def)
next
  case (drop_dial d)
  with assms(2) show ?thesis
    by (cases "bd_waiter s" rule: waiter.exhaust; cases "fst d"; simp add: dial_inv_def unclaimed_def split: dial_end.splits)
next
  case canceled
  with assms(2) show ?thesis by (simp add: dial_inv_def unclaimed_def split: worker.splits)
next
  case deadline
  with assms(2) show ?thesis by (simp add: dial_inv_def unclaimed_def split: worker.splits)
next
  case grace_ends
  with assms(2) show ?thesis by (simp add: dial_inv_def unclaimed_def split: worker.splits)
qed

lemma dial_inv_start: "dial_inv start_dial"
  by (simp add: dial_inv_def start_dial_def unclaimed_def)

lemma dial_inv_reaches: "dial_reaches s \<Longrightarrow> dial_inv s"
  by (induction rule: dial_reaches.induct) (auto intro: dial_inv_start dial_inv_step)

text \<open>C23: The bounded dial neither leaks a connection nor closes one it gave away. However the dialer's answer, the
  context's end and the bound fall: what the dialer returned was handed to the caller and nothing was closed, or was
  dropped and its connection, if any, closed once; a goroutine that holds an answer can always go on; and the
  expiry is counted once, exactly when the bound ended the dial.\<close>

theorem bounded_dial_no_leak:
  assumes "dial_reaches s"
  shows "(\<forall>d. bd_waiter s = Returned (GotDialed d) \<longrightarrow> bd_worker s = HandedOver d \<and> bd_closed s = []) \<and>
    (\<forall>d. bd_worker s = Dropped d \<longrightarrow> bd_closed s = (case fst d of Some c \<Rightarrow> [c] | None \<Rightarrow> []) \<and>
       (bd_waiter s = Returned ContextError \<or> bd_waiter s = Returned BoundExpired)) \<and>
    (\<forall>d. bd_worker s = Offering d \<longrightarrow> bd_closed s = [] \<and>
       (\<exists>s'. dial_step s s' \<and> (bd_worker s' = HandedOver d \<or> bd_worker s' = Dropped d))) \<and>
    bd_expiries s = (if bd_waiter s = Returned BoundExpired then 1 else 0)"
proof -
  note inv = dial_inv_reaches [OF assms]
  have "\<exists>s'. dial_step s s' \<and> (bd_worker s' = HandedOver d \<or> bd_worker s' = Dropped d)" if o: "bd_worker s = Offering d" for d
  proof (cases "bd_abandoned s")
    case True
    from drop_dial [OF o True] show ?thesis by fastforce
  next
    case False
    with inv o have w: "bd_waiter s = Waiting \<or> bd_waiter s = InGrace"
      by (simp add: dial_inv_def split: waiter.splits dial_end.splits)
    from hand_over [OF o w] show ?thesis by fastforce
  qed
  with inv show ?thesis
    by (cases "bd_worker s") (auto simp: dial_inv_def unclaimed_def split: waiter.splits dial_end.splits)
qed

lemma bounded_dial_no_leak_witness:
  "dial_reaches (start_dial\<lparr>bd_worker := Offering (Some 3, None)\<rparr>) \<and>
    (\<exists>s'. dial_step (start_dial\<lparr>bd_worker := Offering (Some 3, None)\<rparr>) s' \<and>
      (bd_worker s' = HandedOver (Some 3, None) \<or> bd_worker s' = Dropped (Some 3, None)))"
proof -
  have "dial_reaches (start_dial\<lparr>bd_worker := Offering (Some 3, None)\<rparr>)"
    by (rule dial_more [OF dial_start dialed]) (simp add: start_dial_def)
  with bounded_dial_no_leak [OF this] show ?thesis by simp
qed

section \<open>The thin check\<close>

text \<open>A connection of a caller's TLS dialer: its state when it reports one, and what completing its handshake does
  when it can: the error, and the state after.\<close>

record tls_conn =
  kc_id :: nat
  kc_state :: "tls_state option"
  kc_handshake :: "(xerr option \<times> tls_state) option"

datatype thin_error = DialFailed xerr | NoTLSState | HandshakeFailed xerr | WrongProtocol bytes

text \<open>The result, and the connection that was closed. \<open>dialed\<close> is what the caller's dialer returns.\<close>

definition thin_dial_tls :: "bytes \<Rightarrow> bytes \<Rightarrow> xerr + tls_conn \<Rightarrow> (thin_error + tls_conn) \<times> nat option" where
  "thin_dial_tls api_addr addr dialed =
     (case dialed of
        Inl e \<Rightarrow> (Inl (DialFailed e), None)
      | Inr conn \<Rightarrow>
          if addr \<noteq> api_addr then (Inr conn, None)
          else
            case kc_state conn of
              None \<Rightarrow> (Inl NoTLSState, Some (kc_id conn))
            | Some cs \<Rightarrow>
                let (failed, cs) =
                  (case kc_handshake conn of
                     Some (e, after) \<Rightarrow> if \<not> ts_complete cs then (e, after) else (None, cs)
                   | None \<Rightarrow> (None, cs))
                in case failed of
                     Some e \<Rightarrow> (Inl (HandshakeFailed e), Some (kc_id conn))
                   | None \<Rightarrow>
                       if ts_negotiated cs \<noteq> ''h2'' then (Inl (WrongProtocol (ts_negotiated cs)), Some (kc_id conn))
                       else (Inr (conn\<lparr>kc_state := Some cs\<rparr>), None))"

text \<open>A connection the thin check lets through to the API address speaks h2, and so the stock transport serves it
  as HTTP/2; every other one the caller's dialer made for that address is closed, exactly once; other addresses pass
  unchecked.\<close>

theorem thin_dial_checks:
  "case thin_dial_tls api addr (Inr conn) of
     (Inr c, closed) \<Rightarrow> closed = None \<and> kc_id c = kc_id conn \<and>
       (if addr = api then \<exists>cs. kc_state c = Some cs \<and> ts_negotiated cs = ''h2'' else c = conn)
   | (Inl e, closed) \<Rightarrow> addr = api \<and> closed = Some (kc_id conn)"
  by (auto simp: thin_dial_tls_def Let_def split: option.split prod.split)

end
