(* ===== verification/Sdk_Config.thy ===== *)
theory Sdk_Config
  imports Sdk_Header H2_Dial
begin

text \<open>
  What a client is configured with: the options of \<open>config.go\<close> and \<open>transport.go\<close>, and \<open>resolve\<close>, which consults every
  source of a setting and checks every value. The environment is a function, \<open>url.Parse\<close> a parameter that gives
  the URL and whether it had a userinfo.
\<close>

section \<open>Options\<close>

text \<open>Go values the SDK only passes on (a logger, a pool, a func, a type) are handles.\<close>

record transport_options =
  to_version :: "int option"
  to_root_cas :: "handle option"
  to_root_cas_set :: bool
  to_tls :: "tls_config option"
  to_tls_set :: bool
  to_proxy :: proxy_func
  to_proxy_set :: bool
  to_http :: "stock_transport option"
  to_http_set :: bool
  to_round_tripper :: "handle option"
  to_round_tripper_set :: bool
  to_compression :: "bool option"
  to_trace :: "handle option"

record options =
  op_api_key :: "bytes option"
  op_base_url :: "bytes option"
  op_model :: "bytes option"
  op_timeout :: "int option"
  op_no_timeout :: bool
  op_connect :: "int option"
  op_max_response :: "int option"
  op_headers :: "header_option list"
  op_product :: "bytes option"
  op_no_runtime :: bool
  op_logger :: "handle option"
  op_hide_host :: bool
  op_transport :: transport_options
  op_pretouch :: "handle option list"
  op_retry :: "retry_policy option"

type_synonym client_option = "options \<Rightarrow> options"

definition no_options :: options where
  "no_options =
     \<lparr>op_api_key = None, op_base_url = None, op_model = None, op_timeout = None, op_no_timeout = False, op_connect = None,
      op_max_response = None, op_headers = [], op_product = None, op_no_runtime = False, op_logger = None, op_hide_host = False,
      op_transport =
        \<lparr>to_version = None, to_root_cas = None, to_root_cas_set = False, to_tls = None, to_tls_set = False, to_proxy = NoProxy,
         to_proxy_set = False, to_http = None, to_http_set = False, to_round_tripper = None, to_round_tripper_set = False,
         to_compression = None, to_trace = None\<rparr>,
      op_pretouch = [], op_retry = None\<rparr>"

definition with_api_key :: "bytes \<Rightarrow> client_option" where "with_api_key key x = x\<lparr>op_api_key := Some key\<rparr>"
definition with_base_url :: "bytes \<Rightarrow> client_option" where "with_base_url u x = x\<lparr>op_base_url := Some u\<rparr>"
definition with_model :: "bytes \<Rightarrow> client_option" where "with_model m x = x\<lparr>op_model := Some m\<rparr>"
definition with_timeout :: "int \<Rightarrow> client_option" where "with_timeout d x = x\<lparr>op_timeout := Some d\<rparr>"
definition with_no_timeout :: client_option where "with_no_timeout x = x\<lparr>op_no_timeout := True\<rparr>"
definition with_connect_timeout :: "int \<Rightarrow> client_option" where "with_connect_timeout d x = x\<lparr>op_connect := Some d\<rparr>"
definition with_max_response_bytes :: "int \<Rightarrow> client_option" where "with_max_response_bytes n x = x\<lparr>op_max_response := Some n\<rparr>"
definition with_header :: "bytes \<Rightarrow> bytes \<Rightarrow> client_option" where
  "with_header name v x = x\<lparr>op_headers := op_headers x @ [\<lparr>ho_name = name, ho_value = v\<rparr>]\<rparr>"
definition with_user_agent_product :: "bytes \<Rightarrow> client_option" where "with_user_agent_product p x = x\<lparr>op_product := Some p\<rparr>"
definition with_runtime_header :: "bool \<Rightarrow> client_option" where "with_runtime_header s x = x\<lparr>op_no_runtime := \<not> s\<rparr>"
definition with_logger :: "handle option \<Rightarrow> client_option" where "with_logger l x = x\<lparr>op_logger := l\<rparr>"
definition with_log_endpoint_host :: "bool \<Rightarrow> client_option" where "with_log_endpoint_host l x = x\<lparr>op_hide_host := \<not> l\<rparr>"
definition with_retry :: "retry_policy \<Rightarrow> client_option" where "with_retry p x = x\<lparr>op_retry := Some p\<rparr>"
definition with_pretouch :: "handle option list \<Rightarrow> client_option" where
  "with_pretouch ts x = x\<lparr>op_pretouch := op_pretouch x @ ts\<rparr>"

definition set_transport :: "(transport_options \<Rightarrow> transport_options) \<Rightarrow> client_option" where
  "set_transport f x = x\<lparr>op_transport := f (op_transport x)\<rparr>"

definition with_http_version :: "int \<Rightarrow> client_option" where
  "with_http_version v = set_transport (\<lambda>t. t\<lparr>to_version := Some v\<rparr>)"
definition with_root_cas :: "handle option \<Rightarrow> client_option" where
  "with_root_cas p = set_transport (\<lambda>t. t\<lparr>to_root_cas := p, to_root_cas_set := True\<rparr>)"
definition with_tls_config :: "tls_config option \<Rightarrow> client_option" where
  "with_tls_config c = set_transport (\<lambda>t. t\<lparr>to_tls := c, to_tls_set := True\<rparr>)"
definition with_proxy :: "proxy_func \<Rightarrow> client_option" where
  "with_proxy p = set_transport (\<lambda>t. t\<lparr>to_proxy := p, to_proxy_set := True\<rparr>)"
definition with_http_transport :: "stock_transport option \<Rightarrow> client_option" where
  "with_http_transport h = set_transport (\<lambda>t. t\<lparr>to_http := h, to_http_set := True\<rparr>)"
definition with_round_tripper :: "handle option \<Rightarrow> client_option" where
  "with_round_tripper r = set_transport (\<lambda>t. t\<lparr>to_round_tripper := r, to_round_tripper_set := True\<rparr>)"
definition with_compression :: "bool \<Rightarrow> client_option" where
  "with_compression c = set_transport (\<lambda>t. t\<lparr>to_compression := Some c\<rparr>)"
definition with_client_trace :: "handle option \<Rightarrow> client_option" where
  "with_client_trace h = set_transport (\<lambda>t. t\<lparr>to_trace := h\<rparr>)"

text \<open>\<open>collectOptions\<close>; a nil option is skipped.\<close>

definition collect_options :: "client_option option list \<Rightarrow> options" where
  "collect_options opts = fold (\<lambda>opt x. case opt of Some f \<Rightarrow> f x | None \<Rightarrow> x) opts no_options"

section \<open>The key and the URLs\<close>

definition api_key_env :: bytes where "api_key_env = ''DECISION_MODEL_API_KEY''"
definition base_url_env :: bytes where "base_url_env = ''DECISION_MODEL_BASE_URL''"
definition default_model_env :: bytes where "default_model_env = ''DECISION_MODEL_DEFAULT_MODEL''"
definition default_timeout :: int where "default_timeout = 10 * second"
definition default_connect_timeout :: int where "default_connect_timeout = 10 * second"
definition default_max_response_bytes :: int where "default_max_response_bytes = 16 * 2 ^ 20"
definition max_max_response_bytes :: int where "max_max_response_bytes = 2 ^ 30"
definition system_one_path :: bytes where "system_one_path = ''/v1/systemone''"
definition models_path :: bytes where "models_path = ''/v1/models''"

definition config_error :: "bytes \<Rightarrow> sdk_error" where
  "config_error msg = ConfigError msg []"

definition env_value :: "(bytes \<Rightarrow> bytes) \<Rightarrow> bytes \<Rightarrow> bytes" where
  "env_value getenv name = python_strip (getenv name)"

definition printable_byte :: "char \<Rightarrow> bool" where
  "printable_byte c \<longleftrightarrow> byte_between 33 126 c"

definition resolve_api_key :: "bytes option \<Rightarrow> (bytes \<Rightarrow> bytes) \<Rightarrow> sdk_error + bytes" where
  "resolve_api_key explicit getenv =
     (let key = (case explicit of Some k \<Rightarrow> python_strip k | None \<Rightarrow> env_value getenv api_key_env) in
      if key = [] then
        Inl (config_error
          (if explicit \<noteq> None
           then ''The API key passed to WithAPIKey is empty; the '' @ api_key_env @ '' environment variable is not read when WithAPIKey is given.''
           else ''No API key was provided. Pass WithAPIKey or set the '' @ api_key_env @ '' environment variable.''))
      else if list_all printable_byte key then Inr key
      else
        Inl (config_error
          (''The API key '' @ (if explicit \<noteq> None then ''passed to WithAPIKey'' else ''in the '' @ api_key_env @ '' environment variable'') @
           '' must contain only printable ASCII characters without whitespace.'')))"

text \<open>\<open>parse\<close> is \<open>url.Parse\<close>: the URL, and whether it has a userinfo.\<close>

type_synonym url_parser = "bytes \<Rightarrow> (url \<times> bool) option"

definition url_hostname :: "url \<Rightarrow> bytes" where
  "url_hostname u = fst (split_host_port (url_host u))"

definition base_url_rule :: "url_parser \<Rightarrow> bytes \<Rightarrow> bytes" where
  "base_url_rule parse raw =
     (if CHR ''#'' \<in> set raw then ''must not carry a fragment ('' @ [CHR 0x27] @ ''#...'' @ [CHR 0x27] @ '')''
      else if CHR ''?'' \<in> set raw then ''must not carry a query ('' @ [CHR 0x27] @ ''?...'' @ [CHR 0x27] @ '')''
      else case parse raw of
        None \<Rightarrow> ''is not a valid URL''
      | Some (u, user) \<Rightarrow>
          if url_scheme u = [] then ''must be absolute, with a scheme and a host, such as https://api.typesafe.ai''
          else if url_scheme u \<noteq> ''http'' \<and> url_scheme u \<noteq> ''https'' then ''must use http or https''
          else if user then ''must not carry credentials; pass the API key with WithAPIKey instead''
          else if url_hostname u = [] then ''has an empty host''
          else [])"

definition trim_right :: "char \<Rightarrow> bytes \<Rightarrow> bytes" where
  "trim_right c s = rev (dropWhile (\<lambda>x. x = c) (rev s))"

definition drop_default_port :: "(bytes \<Rightarrow> bytes) \<Rightarrow> bytes \<Rightarrow> bytes" where
  "drop_default_port lower raw =
     (case sub_index ''://'' raw of
        None \<Rightarrow> raw
      | Some i \<Rightarrow>
          let scheme = take i raw; rest = drop (i + 3) raw; authority = takeWhile (\<lambda>c. c \<noteq> CHR ''/'') rest;
              port = (if lower scheme = ''https'' then Some '':443'' else if lower scheme = ''http'' then Some '':80'' else None)
          in case port of
               None \<Rightarrow> raw
             | Some p \<Rightarrow>
                 let host = take (length authority - length p) authority in
                 if \<not> (length p \<le> length authority \<and> drop (length authority - length p) authority = p) \<or> host = [] \<or>
                    (CHR '':'' \<in> set host \<and> last host \<noteq> CHR '']'')
                 then raw
                 else scheme @ ''://'' @ host @ drop (length authority) rest)"

definition resolve_endpoints :: "(bytes \<Rightarrow> bytes) \<Rightarrow> url_parser \<Rightarrow> bytes option \<Rightarrow> (bytes \<Rightarrow> bytes) \<Rightarrow> sdk_error + url \<times> url" where
  "resolve_endpoints lower parse explicit getenv =
     (let v = env_value getenv base_url_env in
      if explicit = None \<and> v = [] then
        Inl (config_error (''No base URL was provided. Pass WithBaseURL or set the '' @ base_url_env @ '' environment variable.''))
      else
        let (raw, source) =
          (case explicit of
             Some u \<Rightarrow> (u, ''The base URL passed to WithBaseURL'')
           | None \<Rightarrow> (v, ''The base URL in the '' @ base_url_env @ '' environment variable''));
            raw = trim_right CHR ''/'' raw;
            rule = base_url_rule parse raw
        in if rule \<noteq> [] then Inl (config_error (source @ '' '' @ rule @ ''.''))
           else
             let raw = drop_default_port lower raw in
             case (parse (raw @ system_one_path), parse (raw @ models_path)) of
               (Some (s, su), Some (m, mu)) \<Rightarrow> Inr (s, m)
             | _ \<Rightarrow> Inl (config_error (source @ '' is not a valid URL.'')))"

definition resolve_model :: "bytes option \<Rightarrow> (bytes \<Rightarrow> bytes) \<Rightarrow> sdk_error + bytes" where
  "resolve_model explicit getenv =
     (let v = env_value getenv default_model_env in
      case explicit of
        Some m \<Rightarrow>
          if python_strip m = [] then
            Inl (config_error (''The model passed to WithModel is empty; leave WithModel out to use '' @ default_model_env @
              '', or name the model on each call with Model.''))
          else if valid_utf8 m then Inr m
          else Inl (config_error ''The model passed to WithModel is not valid UTF-8.'')
      | None \<Rightarrow>
          if v = [] \<or> valid_utf8 v then Inr v
          else Inl (config_error (''The model in the '' @ default_model_env @ '' environment variable is not valid UTF-8.'')))"

definition resolve_timeout :: "options \<Rightarrow> sdk_error + int" where
  "resolve_timeout x =
     (if op_timeout x \<noteq> None \<and> op_no_timeout x then
        Inl (config_error ''WithTimeout and WithNoTimeout cannot be used together: the first sets a timeout, the second removes it.'')
      else if op_no_timeout x then Inr 0
      else case op_timeout x of
        Some d \<Rightarrow> if d \<le> 0 then Inl (config_error ''The timeout passed to WithTimeout must be positive; use WithNoTimeout for no deadline.'') else Inr d
      | None \<Rightarrow> Inr default_timeout)"

section \<open>The product\<close>

definition max_product_bytes :: nat where "max_product_bytes = 64"

definition bad_product_byte :: "char \<Rightarrow> bytes" where
  "bad_product_byte c =
     (if 128 \<le> byte c then ''it contains a character that is not ASCII''
      else if c = CHR '' '' \<or> byte_between 9 13 c then ''it contains whitespace''
      else if byte c < 32 \<or> byte c = 127 then ''it contains a control character''
      else [])"

definition product_rule :: "bytes \<Rightarrow> bytes" where
  "product_rule p =
     (if p = [] then ''it is empty''
      else if max_product_bytes < length p then ''it is longer than 64 bytes''
      else case List.find (\<lambda>c. bad_product_byte c \<noteq> []) p of
        Some c \<Rightarrow> bad_product_byte c
      | None \<Rightarrow>
          (case find_index (\<lambda>c. c = CHR ''/'') p of
             None \<Rightarrow> ''it has no '' @ [CHR 0x27] @ ''/'' @ [CHR 0x27] @ '' between the name and the version''
           | Some i \<Rightarrow>
               let name = take i p; version = drop (i + 1) p in
               if CHR ''/'' \<in> set version then ''it has more than one '' @ [CHR 0x27] @ ''/'' @ [CHR 0x27]
               else if name = [] then ''the name before the '' @ [CHR 0x27] @ ''/'' @ [CHR 0x27] @ '' is empty''
               else if version = [] then ''the version after the '' @ [CHR 0x27] @ ''/'' @ [CHR 0x27] @ '' is empty''
               else if \<not> is_token name \<or> \<not> is_token version then ''it contains a character a token cannot hold (RFC 9110, section 5.6.2)''
               else []))"

section \<open>The transport\<close>

text \<open>A public \<open>HTTPVersion\<close>: 1 is \<open>HTTP2Only\<close>, 2 \<open>HTTPAuto\<close>.\<close>

definition http2_only :: int where "http2_only = 1"
definition http_auto :: int where "http_auto = 2"

definition http_version_name :: "int \<Rightarrow> bytes" where
  "http_version_name v =
     (if v = http2_only then ''HTTP2Only'' else if v = http_auto then ''HTTPAuto'' else ''HTTPVersion('' @ show_int v @ '')'')"

definition default_http_version :: "bytes \<Rightarrow> int" where
  "default_http_version scheme = (if scheme = ''http'' then http_auto else http2_only)"

definition given_name :: "(bool \<times> bytes) list \<Rightarrow> bytes option" where
  "given_name os = map_option snd (List.find fst os)"

definition conflict :: "transport_options \<Rightarrow> bool \<Rightarrow> bytes" where
  "conflict t connect_set =
     (if to_round_tripper_set t \<and> to_http_set t then
        ''WithRoundTripper and WithHTTPTransport cannot be combined: each supplies the client's transport.''
      else if to_round_tripper_set t then
        (case given_name [(to_version t \<noteq> None, ''WithHTTPVersion''), (to_root_cas_set t, ''WithRootCAs''), (to_tls_set t, ''WithTLSConfig''),
            (to_proxy_set t, ''WithProxy''), (connect_set, ''WithConnectTimeout''), (to_compression t \<noteq> None, ''WithCompression'')] of
           Some name \<Rightarrow> ''WithRoundTripper cannot be combined with '' @ name @
             '': the round tripper replaces the SDK's transport, which '' @ name @ '' configures.''
         | None \<Rightarrow> [])
      else if to_http_set t then
        (case given_name [(to_root_cas_set t, ''WithRootCAs''), (to_tls_set t, ''WithTLSConfig''), (to_proxy_set t, ''WithProxy'')] of
           Some name \<Rightarrow> ''WithHTTPTransport cannot be combined with '' @ name @
             '': the caller's transport keeps its own TLS configuration and proxy.''
         | None \<Rightarrow>
             if to_compression t \<noteq> None
             then ''WithHTTPTransport cannot be combined with WithCompression: the caller's transport keeps its own DisableCompression.''
             else [])
      else [])"

datatype round_tripper = CallerTripper handle | GateTripper built

record engine_transport =
  et_logger :: "handle option"
  et_trace :: "handle option"
  et_tripper :: round_tripper
  et_proxies :: bool

text \<open>The text and the chain of a build error whose own text the SDK keeps.\<close>

fun build_error_text :: "build_error \<Rightarrow> bytes" where
  "build_error_text ErrBadURL = ''h2gate: the API URL needs an http or https scheme and a host''"
| "build_error_text (ErrUnknownMode m) = ''h2gate: unknown mode '' @ mode_name m"
| "build_error_text ErrWrapConfig = ''h2gate: Wrap keeps the caller transport's dialer, TLS configuration, proxy and compression''"
| "build_error_text ErrNilTransport = ''h2gate: Wrap needs a transport''"
| "build_error_text _ = []"

definition plain_error :: "bytes \<Rightarrow> gerr" where
  "plain_error t = Gerr t t (''&errors.errorString{s:'' @ [quote_char] @ t @ [quote_char] @ ''}'') [] []"

fun build_sdk_error :: "build_error \<Rightarrow> sdk_error" where
  "build_sdk_error (ErrNonASCIIHost h) = config_error ''The base URL's host must be ASCII under HTTP2Only (write an internationalised name in its xn-- form), or use WithHTTPVersion(HTTPAuto).''"
| "build_sdk_error ErrCallerHTTP2 = config_error ''The transport passed to WithHTTPTransport carries its own HTTP/2 implementation in TLSNextProto, which HTTP2Only cannot check; remove it or use WithHTTPVersion(HTTPAuto).''"
| "build_sdk_error (ErrProxyEnvironment e) = config_error ''The proxy environment variables (HTTPS_PROXY, HTTP_PROXY) hold a proxy URL that cannot be used; fix them, or choose the proxy with WithProxy.''"
| "build_sdk_error e = ConfigError ''The client's transport cannot be built.'' [WrapsCause (Kept (Some (plain_error (build_error_text e))))]"

record build_env =
  be_print :: "nat \<Rightarrow> bool"
  be_proxy :: "url \<Rightarrow> gerr + url option"
  be_clone :: "stock_transport \<Rightarrow> stock_transport"

definition gate_config :: "transport_options \<Rightarrow> url \<Rightarrow> int \<Rightarrow> int \<Rightarrow> handle option \<Rightarrow> h2_config" where
  "gate_config t api mode connect logger =
     (let cfg = \<lparr>hc_api_url = Some api, hc_mode = (if mode = http_auto then mode_http_auto else mode_http2_only), hc_connect = connect,
          hc_logger = logger, hc_root_cas = None, hc_tls = None, hc_proxy = NoProxy, hc_on_proxy = False, hc_dial = None,
          hc_disable_compression = False\<rparr>
      in if to_http_set t then cfg
         else cfg\<lparr>hc_root_cas := to_root_cas t, hc_tls := to_tls t, hc_proxy := (if to_proxy_set t then to_proxy t else EnvProxy),
                  hc_on_proxy := True, hc_disable_compression := (to_compression t = Some False)\<rparr>)"

definition build_transport ::
  "build_env \<Rightarrow> transport_options \<Rightarrow> url \<Rightarrow> int \<Rightarrow> bool \<Rightarrow> handle option \<Rightarrow> sdk_error + engine_transport" where
  "build_transport be t api connect connect_set logger =
     (let msg = conflict t connect_set in
      if msg \<noteq> [] then Inl (config_error msg)
      else if to_round_tripper_set t then
        (case to_round_tripper t of
           None \<Rightarrow> Inl (config_error ''The round tripper passed to WithRoundTripper must not be nil.'')
         | Some r \<Rightarrow> Inr \<lparr>et_logger = logger, et_trace = to_trace t, et_tripper = CallerTripper r, et_proxies = False\<rparr>)
      else
        let mode = (case to_version t of Some v \<Rightarrow> v | None \<Rightarrow> default_http_version (url_scheme api)) in
        if mode \<noteq> http2_only \<and> mode \<noteq> http_auto
        then Inl (config_error ''The policy passed to WithHTTPVersion must be HTTP2Only or HTTPAuto.'')
        else if to_http_set t \<and> to_http t = None
        then Inl (config_error ''The transport passed to WithHTTPTransport must not be nil.'')
        else
          let cfg = gate_config t api mode connect logger
          in case (if to_http_set t then wrap_transport (be_print be) (be_proxy be) (be_clone be) (to_http t) cfg
                   else new_transport (be_print be) (be_proxy be) cfg) of
               Inl e \<Rightarrow> Inl (build_sdk_error e)
             | Inr g \<Rightarrow> Inr \<lparr>et_logger = logger, et_trace = to_trace t, et_tripper = GateTripper g, et_proxies = \<not> to_http_set t\<rparr>)"

end
