(* ===== verification/Sdk_Questions.thy ===== *)
theory Sdk_Questions
  imports Wire_Prepared Engine_Body Sdk_Config
begin

text \<open>
  Question sets under construction, \<open>content.go\<close> and \<open>questions.go\<close>: the SDK's \<open>Content\<close>, the four forms of a
  question, and \<open>Questions.Prepare\<close>, which checks the set and hands each question to the builder of \<open>Wire_Prepared\<close>.
  The questions of a raw field's value the root package knows are its own leaves. The text of a builder's error, which
  formats a Go value, is a parameter.
\<close>

section \<open>Content\<close>

record sdk_content =
  sc_w :: content
  sc_set :: bool

definition zero_content :: sdk_content where
  "zero_content = \<lparr>sc_w = empty_content, sc_set = False\<rparr>"

definition content_of_text :: "bytes \<Rightarrow> sdk_content" where
  "content_of_text s = \<lparr>sc_w = text_content s, sc_set = True\<rparr>"

text \<open>\<open>JSON\<close> of a slice that may be nil.\<close>

definition content_of_json :: "bytes option \<Rightarrow> sdk_content" where
  "content_of_json raw =
     \<lparr>sc_w = empty_content\<lparr>cjson := Some (case raw of None \<Rightarrow> [] | Some r \<Rightarrow> r)\<rparr>, sc_set = True\<rparr>"

definition content_is_zero :: "sdk_content \<Rightarrow> bool" where
  "content_is_zero c \<longleftrightarrow> \<not> sc_set c"

definition content_is_json :: "sdk_content \<Rightarrow> bool" where
  "content_is_json c = is_json (sc_w c)"

definition or_nil :: "sdk_content \<Rightarrow> content option" where
  "or_nil c = (if \<not> sc_set c then None else Some (sc_w c))"

definition marshal_content :: "sdk_content \<Rightarrow> bytes jres" where
  "marshal_content c = (if \<not> sc_set c then Inr ''null'' else append_content [] (sc_w c))"

text \<open>A \<open>RawJSON\<close> may be nil.\<close>

definition marshal_raw :: "bytes option \<Rightarrow> bytes jres" where
  "marshal_raw r = (case r of None \<Rightarrow> Inr ''null'' | Some r \<Rightarrow> append_json [] r)"

section \<open>Questions\<close>

record noul_question =
  nq_instructions :: sdk_content
  nq_yes :: sdk_content
  nq_no :: sdk_content

record choice_option =
  co_label :: bytes
  co_description :: sdk_content

record choice_question =
  cq_instructions :: sdk_content
  cq_options :: "choice_option list"

record score_question =
  sq_instructions :: sdk_content
  sq_levels :: "sdk_content list"

text \<open>The leaves of a raw field's value: the root package's own types, and any other type.\<close>

datatype root_leaf = LRaw "bytes option" | LContent sdk_content | LUnknown

type_synonym field_value = "root_leaf gval"

record raw_question =
  rq_type :: bytes
  rq_fields :: "(bytes \<times> field_value) list"

text \<open>An entry of a set: its form selects the one question it holds.\<close>

datatype question_form = FormNoul noul_question | FormChoice choice_question | FormScore score_question | FormRaw raw_question

record question_entry =
  qe_name :: bytes
  qe_form :: question_form

definition new_questions :: "question_entry list" where
  "new_questions = []"

definition questions_noul :: "bytes \<Rightarrow> noul_question \<Rightarrow> question_entry list \<Rightarrow> question_entry list" where
  "questions_noul name q qs = qs @ [\<lparr>qe_name = name, qe_form = FormNoul q\<rparr>]"

definition questions_choice :: "bytes \<Rightarrow> choice_question \<Rightarrow> question_entry list \<Rightarrow> question_entry list" where
  "questions_choice name q qs = qs @ [\<lparr>qe_name = name, qe_form = FormChoice q\<rparr>]"

definition questions_score :: "bytes \<Rightarrow> score_question \<Rightarrow> question_entry list \<Rightarrow> question_entry list" where
  "questions_score name q qs = qs @ [\<lparr>qe_name = name, qe_form = FormScore q\<rparr>]"

definition questions_raw :: "bytes \<Rightarrow> raw_question \<Rightarrow> question_entry list \<Rightarrow> question_entry list" where
  "questions_raw name q qs = qs @ [\<lparr>qe_name = name, qe_form = FormRaw q\<rparr>]"

section \<open>Names and labels\<close>

text \<open>\<open>quote\<close>, with \<open>strconv.Quote\<close> of text that is not UTF-8.\<close>

definition quote_text :: "(nat \<Rightarrow> bool) \<Rightarrow> bytes \<Rightarrow> bytes" where
  "quote_text ip s = quoted (if \<not> valid_utf8 s then quoted_form False ip s else s)"

definition repeated_before :: "bytes list \<Rightarrow> nat \<Rightarrow> bool" where
  "repeated_before s i = list_ex (\<lambda>j. s ! j = s ! i) [0..<i]"

definition check_name :: "(nat \<Rightarrow> bool) \<Rightarrow> bytes list \<Rightarrow> nat \<Rightarrow> bytes set option \<Rightarrow> sdk_error option" where
  "check_name ip names i seen =
     (let name = names ! i in
      if \<not> valid_utf8 name then Some (config_error (''Question name '' @ quoted (quoted_form False ip name) @ '' is not valid UTF-8.''))
      else if (case seen of Some m \<Rightarrow> name \<in> m | None \<Rightarrow> repeated_before names i)
      then Some (config_error (''Question '' @ quoted name @ '' is added more than once; question names must be unique.''))
      else None)"

fun first_seen :: "nat \<Rightarrow> bytes set \<Rightarrow> bytes list \<Rightarrow> nat option" where
  "first_seen i seen [] = None"
| "first_seen i seen (v # vs) = (if v \<in> seen then Some i else first_seen (Suc i) (insert v seen) vs)"

definition first_repeat :: "bytes list \<Rightarrow> nat option" where
  "first_repeat s =
     (if length s \<le> repeat_scan_limit then List.find (repeated_before s) [0..<length s]
      else first_seen 0 {} s)"

section \<open>Raw questions\<close>

fun falsy_leaf :: "root_leaf \<Rightarrow> bool" where
  "falsy_leaf (LContent c) =
     (if \<not> sc_set c then True
      else case cjson (sc_w c) of None \<Rightarrow> ctext (sc_w c) = [] | Some j \<Rightarrow> falsy_json j)"
| "falsy_leaf (LRaw r) = falsy_json (case r of None \<Rightarrow> [] | Some r \<Rightarrow> r)"
| "falsy_leaf LUnknown = False"

fun falsy :: "field_value \<Rightarrow> bool" where
  "falsy VNil = True"
| "falsy (VBool b) = (\<not> b)"
| "falsy (VString s) = (s = [])"
| "falsy (VInt n) = (n = 0)"
| "falsy (VUint n) = (n = 0)"
| "falsy (VFloat32 f) = is_zero f"
| "falsy (VFloat64 f) = is_zero f"
| "falsy (VList vs) = (vs = [])"
| "falsy (VStrings ss) = (ss = [])"
| "falsy (VMap m) = (m = [])"
| "falsy (VStrMap m) = (m = [])"
| "falsy (VOther x) = falsy_leaf x"

definition leaf_result :: "bytes \<Rightarrow> bytes jres \<Rightarrow> bytes \<times> bool \<times> json_error option" where
  "leaf_result dst r = (case r of Inl e \<Rightarrow> (dst, True, Some e) | Inr out \<Rightarrow> (out, True, None))"

fun append_leaf :: "root_leaf leaf" where
  "append_leaf dst (LRaw r) = leaf_result dst (append_json dst (case r of None \<Rightarrow> [] | Some r \<Rightarrow> r))"
| "append_leaf dst (LContent c) =
     (if \<not> sc_set c then (dst @ ''null'', True, None) else leaf_result dst (append_content dst (sc_w c)))"
| "append_leaf dst LUnknown = (dst, False, None)"

section \<open>Preparing one question\<close>

text \<open>A check of the SDK's own, which \<open>Prepare\<close> returns as it is, or an error of the builder.\<close>

datatype question_error = QConfig sdk_error | QBuild Wire_Prepared.build_error

type_synonym question_res = "question_error + builder"

definition no_criteria :: "bytes \<Rightarrow> sdk_error" where
  "no_criteria name = config_error (''Score question '' @ quoted name @ '' has no criteria; at least one score is required.'')"

definition prepare_choice :: "(nat \<Rightarrow> bool) \<Rightarrow> bytes \<Rightarrow> choice_question \<Rightarrow> builder \<Rightarrow> question_res" where
  "prepare_choice ip name q b =
     (let labels = map co_label (cq_options q) in
      case first_repeat labels of
        Some i \<Rightarrow>
          Inl (QConfig (config_error (''Choice question '' @ quoted name @ '' has option '' @ quote_text ip (labels ! i) @
            '' more than once; option labels must be unique.'')))
      | None \<Rightarrow>
          rmap_err QBuild
            (add_choice name (or_nil (cq_instructions q)) labels (\<lambda>i. or_nil (co_description (cq_options q ! i))) b))"

definition prepare_score :: "bytes \<Rightarrow> score_question \<Rightarrow> builder \<Rightarrow> question_res" where
  "prepare_score name q b =
     (if sq_levels q = [] then Inl (QConfig (no_criteria name))
      else
        case find_index (\<lambda>l. \<not> sc_set l) (sq_levels q) of
          Some i \<Rightarrow>
            Inl (QConfig (config_error (''Score question '' @ quoted name @ '' level '' @ show_nat i @
              '' is unset; every level needs text or JSON content.'')))
        | None \<Rightarrow> rmap_err QBuild (add_score name (or_nil (sq_instructions q)) (map sc_w (sq_levels q)) b))"

definition prepare_raw :: "bytes \<Rightarrow> raw_question \<Rightarrow> builder \<Rightarrow> question_res" where
  "prepare_raw name q b =
     (let criteria = map_of (rq_fields q) ''criteria'' in
      if map_of (rq_fields q) ''type'' \<noteq> None \<or> rq_type q = []
      then Inl (QConfig (config_error (''Question '' @ quoted name @ '' must be a question object or a dictionary with a nonempty string '' @
        quoted ''type'' @ ''.'')))
      else if (rq_type q = ''choice'' \<or> rq_type q = ''score'') \<and> criteria = None
      then Inl (QConfig (config_error (''Question '' @ quoted name @ '' requires '' @ quoted ''criteria'' @ ''.'')))
      else if rq_type q = ''score'' \<and> (case criteria of None \<Rightarrow> True | Some v \<Rightarrow> falsy v)
      then Inl (QConfig (no_criteria name))
      else rmap_err QBuild (add_raw (Some append_leaf) name (rq_type q) (rq_fields q) b))"

definition prepare_question :: "(nat \<Rightarrow> bool) \<Rightarrow> question_entry \<Rightarrow> builder \<Rightarrow> question_res" where
  "prepare_question ip e b =
     (case qe_form e of
        FormNoul q \<Rightarrow>
          rmap_err QBuild (add_noul (qe_name e) (or_nil (nq_instructions q)) (or_nil (nq_yes q)) (or_nil (nq_no q)) b)
      | FormChoice q \<Rightarrow> prepare_choice ip (qe_name e) q b
      | FormScore q \<Rightarrow> prepare_score (qe_name e) q b
      | FormRaw q \<Rightarrow> prepare_raw (qe_name e) q b)"

section \<open>Preparing a set\<close>

text \<open>The error \<open>Prepare\<close> returns for an error of a question.\<close>

fun question_failure :: "(Wire_Prepared.build_error \<Rightarrow> bytes) \<Rightarrow> bytes \<Rightarrow> question_error \<Rightarrow> sdk_error" where
  "question_failure text name (QConfig ce) = ce"
| "question_failure text name (QBuild e) =
     ConfigError (''Question '' @ quoted name @ '': '' @ text e) [WrapsCause (Kept (Some (plain_error (text e))))]"

fun prepare_from ::
  "(nat \<Rightarrow> bool) \<Rightarrow> (Wire_Prepared.build_error \<Rightarrow> bytes) \<Rightarrow> bytes list \<Rightarrow> nat \<Rightarrow> question_entry list \<Rightarrow>
   builder \<Rightarrow> bytes set option \<Rightarrow> sdk_error + builder" where
  "prepare_from ip text names i [] b seen = Inr b"
| "prepare_from ip text names i (e # es) b seen =
     (case check_name ip names i seen of
        Some err \<Rightarrow> Inl err
      | None \<Rightarrow>
          (case prepare_question ip e b of
             Inl err \<Rightarrow> Inl (question_failure text (qe_name e) err)
           | Inr b' \<Rightarrow> prepare_from ip text names (Suc i) es b' (map_option (insert (qe_name e)) seen)))"

definition prepare :: "(nat \<Rightarrow> bool) \<Rightarrow> (Wire_Prepared.build_error \<Rightarrow> bytes) \<Rightarrow> question_entry list \<Rightarrow> sdk_error + prepared" where
  "prepare ip text qs =
     (if qs = [] then Inl (config_error ''At least one question is required.'')
      else
        rmap finish
          (prepare_from ip text (map qe_name qs) 0 qs empty_builder
            (if repeat_scan_limit < length qs then Some {} else None)))"

section \<open>What is reserved\<close>

definition content_size :: "sdk_content \<Rightarrow> nat" where
  "content_size c = length (ctext (sc_w c)) + (case cjson (sc_w c) of None \<Rightarrow> 0 | Some j \<Rightarrow> length j) + 2"

fun raw_value_size :: "field_value \<Rightarrow> nat" where
  "raw_value_size (VString s) = length s + 2"
| "raw_value_size (VOther (LRaw r)) = (case r of None \<Rightarrow> 0 | Some r \<Rightarrow> length r)"
| "raw_value_size (VOther (LContent c)) = content_size c"
| "raw_value_size _ = 0"

record prepare_size =
  ps_bytes :: nat
  ps_json_levels :: nat
  ps_labels :: nat
  ps_levels :: nat

definition question_overhead :: nat where
  "question_overhead =
     length ('','' @ quoted [] @ '':'' @ [CHR ''{''] @ quoted ''type'' @ '':'' @ quoted ''choice'' @ '','' @ quoted ''instructions'' @ '':'' @
       '','' @ quoted ''criteria'' @ '':'' @ [CHR ''{'', CHR ''}'', CHR ''}''])"

definition entry_size :: "question_entry \<Rightarrow> nat" where
  "entry_size e = length (qe_name e) + question_overhead +
     (case qe_form e of
        FormNoul q \<Rightarrow> content_size (nq_instructions q) + content_size (nq_yes q) + content_size (nq_no q)
      | FormChoice q \<Rightarrow>
          content_size (cq_instructions q) +
          sum_list (map (\<lambda>c. length (co_label c) + content_size (co_description c) + length ('','' @ quoted [] @ '':'')) (cq_options q))
      | FormScore q \<Rightarrow> content_size (sq_instructions q) + sum_list (map (\<lambda>l. content_size l + 1) (sq_levels q))
      | FormRaw q \<Rightarrow> length (rq_type q) + 32 * length (rq_fields q) + sum_list (map (raw_value_size \<circ> snd) (rq_fields q)))"

text \<open>The tables a question cuts from each of the two arrays.\<close>

definition entry_labels :: "question_entry \<Rightarrow> nat list" where
  "entry_labels e = (case qe_form e of FormChoice q \<Rightarrow> [length (cq_options q)] | _ \<Rightarrow> [])"

definition entry_levels :: "question_entry \<Rightarrow> nat list" where
  "entry_levels e = (case qe_form e of FormScore q \<Rightarrow> [length (sq_levels q)] | _ \<Rightarrow> [])"

definition entry_json_levels :: "question_entry \<Rightarrow> nat" where
  "entry_json_levels e = (case qe_form e of FormScore q \<Rightarrow> length (filter content_is_json (sq_levels q)) | _ \<Rightarrow> 0)"

definition size_step :: "question_entry \<Rightarrow> prepare_size \<Rightarrow> prepare_size" where
  "size_step e h =
     \<lparr>ps_bytes = ps_bytes h + entry_size e, ps_json_levels = ps_json_levels h + entry_json_levels e,
      ps_labels = ps_labels h + sum_list (entry_labels e), ps_levels = ps_levels h + sum_list (entry_levels e)\<rparr>"

definition size_hint :: "question_entry list \<Rightarrow> prepare_size" where
  "size_hint qs = fold size_step qs \<lparr>ps_bytes = 0, ps_json_levels = 0, ps_labels = 0, ps_levels = 0\<rparr>"

text \<open>\<open>cut\<close>: an array's length and capacity, and where the table starts in it, or nowhere when it is allocated apart.\<close>

definition cut_table :: "nat \<times> nat \<Rightarrow> nat \<Rightarrow> nat option \<times> nat \<times> nat" where
  "cut_table arena n =
     (case arena of (i, cap) \<Rightarrow> if cap - i < n then (None, i, cap) else (Some i, i + n, cap))"

fun cuts :: "nat \<times> nat \<Rightarrow> nat list \<Rightarrow> nat option list" where
  "cuts arena [] = []"
| "cuts arena (n # ns) = (case cut_table arena n of (start, arena') \<Rightarrow> start # cuts arena' ns)"

section \<open>The checks, as a specification\<close>

text \<open>What is wrong with a question by itself, whatever else is in the set.\<close>

definition form_problem :: "(nat \<Rightarrow> bool) \<Rightarrow> question_entry \<Rightarrow> sdk_error option" where
  "form_problem ip e =
     (case qe_form e of
        FormNoul q \<Rightarrow> None
      | FormChoice q \<Rightarrow>
          (let labels = map co_label (cq_options q) in
           map_option (\<lambda>i. config_error (''Choice question '' @ quoted (qe_name e) @ '' has option '' @ quote_text ip (labels ! i) @
               '' more than once; option labels must be unique.''))
             (List.find (\<lambda>i. labels ! i \<in> set (take i labels)) [0..<length labels]))
      | FormScore q \<Rightarrow>
          if sq_levels q = [] then Some (no_criteria (qe_name e))
          else
            map_option (\<lambda>i. config_error (''Score question '' @ quoted (qe_name e) @ '' level '' @ show_nat i @
                '' is unset; every level needs text or JSON content.''))
              (find_index (\<lambda>l. \<not> sc_set l) (sq_levels q))
      | FormRaw q \<Rightarrow>
          if ''type'' \<in> fst ` set (rq_fields q) \<or> rq_type q = []
          then Some (config_error (''Question '' @ quoted (qe_name e) @
            '' must be a question object or a dictionary with a nonempty string '' @ quoted ''type'' @ ''.''))
          else
            (case map_of (rq_fields q) ''criteria'' of
               None \<Rightarrow>
                 if rq_type q \<in> {''choice'', ''score''}
                 then Some (config_error (''Question '' @ quoted (qe_name e) @ '' requires '' @ quoted ''criteria'' @ ''.''))
                 else None
             | Some v \<Rightarrow> if rq_type q = ''score'' \<and> falsy v then Some (no_criteria (qe_name e)) else None))"

definition name_problem :: "(nat \<Rightarrow> bool) \<Rightarrow> bytes set \<Rightarrow> bytes \<Rightarrow> sdk_error option" where
  "name_problem ip earlier name =
     (if \<not> valid_utf8 name then Some (config_error (''Question name '' @ quoted (quoted_form False ip name) @ '' is not valid UTF-8.''))
      else if name \<in> earlier
      then Some (config_error (''Question '' @ quoted name @ '' is added more than once; question names must be unique.''))
      else None)"

text \<open>The call of the builder a question makes once it has passed.\<close>

fun form_call :: "bytes \<Rightarrow> question_form \<Rightarrow> root_leaf question" where
  "form_call name (FormNoul q) = QNoul name (or_nil (nq_instructions q)) (or_nil (nq_yes q)) (or_nil (nq_no q))"
| "form_call name (FormChoice q) =
     QChoice name (or_nil (cq_instructions q)) (map co_label (cq_options q)) (\<lambda>i. or_nil (co_description (cq_options q ! i)))"
| "form_call name (FormScore q) = QScore name (or_nil (sq_instructions q)) (map sc_w (sq_levels q))"
| "form_call name (FormRaw q) = QRaw name (rq_type q) (rq_fields q)"

definition question_call :: "question_entry \<Rightarrow> root_leaf question" where
  "question_call e = form_call (qe_name e) (qe_form e)"

fun prepare_spec_from ::
  "(nat \<Rightarrow> bool) \<Rightarrow> (Wire_Prepared.build_error \<Rightarrow> bytes) \<Rightarrow> bytes set \<Rightarrow> question_entry list \<Rightarrow> builder \<Rightarrow> sdk_error + builder" where
  "prepare_spec_from ip text earlier [] b = Inr b"
| "prepare_spec_from ip text earlier (e # es) b =
     (case first_some [name_problem ip earlier (qe_name e), form_problem ip e] of
        Some err \<Rightarrow> Inl err
      | None \<Rightarrow>
          rbind (rmap_err (\<lambda>x. question_failure text (qe_name e) (QBuild x)) (add_question (Some append_leaf) (question_call e) b))
            (prepare_spec_from ip text (insert (qe_name e) earlier) es))"

section \<open>Repeats\<close>

lemma repeated_before_iff: "i < length s \<Longrightarrow> repeated_before s i \<longleftrightarrow> s ! i \<in> set (take i s)"
  by (auto simp: repeated_before_def list_ex_iff in_set_conv_nth Bex_def)

lemma first_seen_find:
  "first_seen (length pre) (set pre) vs =
     List.find (\<lambda>i. (pre @ vs) ! i \<in> set (take i (pre @ vs))) [length pre..<length (pre @ vs)]"
proof (induction vs arbitrary: pre)
  case (Cons v vs)
  have IH: "first_seen (Suc (length pre)) (insert v (set pre)) vs =
      List.find (\<lambda>i. (pre @ v # vs) ! i \<in> set (take i (pre @ v # vs))) [Suc (length pre)..<length (pre @ v # vs)]"
    using Cons [of "pre @ [v]"] by (simp del: upt_Suc)
  have "[length pre..<length (pre @ v # vs)] = length pre # [Suc (length pre)..<length (pre @ v # vs)]"
    by (simp add: upt_conv_Cons del: upt_Suc)
  with IH show ?case by (simp add: nth_append del: upt_Suc)
qed simp

lemma find_cong_set: "(\<And>x. x \<in> set xs \<Longrightarrow> P x = Q x) \<Longrightarrow> List.find P xs = List.find Q xs"
  by (induction xs) auto

lemma first_repeat_spec: "first_repeat s = List.find (\<lambda>i. s ! i \<in> set (take i s)) [0..<length s]"
  using first_seen_find [of "[]" s]
  by (auto simp: first_repeat_def repeated_before_iff intro!: find_cong_set)

lemma distinct_take: "distinct s \<longleftrightarrow> (\<forall>i < length s. s ! i \<notin> set (take i s))"
  by (induction s rule: rev_induct) (auto simp: nth_append less_Suc_eq)

lemma first_repeat_None: "first_repeat s = None \<longleftrightarrow> distinct s"
  by (auto simp: first_repeat_spec find_None_iff distinct_take)

lemma check_name_spec:
  assumes "i < length names" and "seen = None \<or> seen = Some (set (take i names))"
  shows "check_name ip names i seen = name_problem ip (set (take i names)) (names ! i)"
  using assms by (auto simp: check_name_def name_problem_def repeated_before_iff Let_def)

section \<open>A question against its specification\<close>

lemma map_of_in: "map_of fs k \<noteq> None \<longleftrightarrow> k \<in> fst ` set fs"
  by (metis dom_map_of_conv_image_fst domIff)

lemma prepare_question_spec:
  "prepare_question ip e b =
     (case form_problem ip e of
        Some err \<Rightarrow> Inl (QConfig err)
      | None \<Rightarrow> rmap_err QBuild (add_question (Some append_leaf) (question_call e) b))"
proof (cases "qe_form e")
  case (FormChoice q)
  then show ?thesis
    by (simp add: prepare_question_def form_problem_def question_call_def prepare_choice_def first_repeat_spec Let_def
        split: option.splits)
next
  case (FormScore q)
  then show ?thesis
    by (simp add: prepare_question_def form_problem_def question_call_def prepare_score_def split: option.splits)
next
  case (FormRaw q)
  then show ?thesis
    by (simp add: prepare_question_def form_problem_def question_call_def prepare_raw_def map_of_in [symmetric] Let_def
        split: option.splits)
qed (simp add: prepare_question_def form_problem_def question_call_def)

lemma question_failure_rmap:
  "(case rmap_err QBuild r of Inl err \<Rightarrow> Inl (question_failure text n err) | Inr b \<Rightarrow> k b) =
     rbind (rmap_err (\<lambda>x. question_failure text n (QBuild x)) r) k"
  by (cases r) simp_all

lemma prepare_from_spec:
  assumes "seen = None \<or> seen = Some (set (take i names))" and "drop i names = map qe_name es"
  shows "prepare_from ip text names i es b seen = prepare_spec_from ip text (set (take i names)) es b"
  using assms
proof (induction es arbitrary: i b seen)
  case (Cons e es)
  from Cons.prems(2) have l: "i < length names" by (metis drop_all list.distinct(1) list.simps(9) not_le)
  with Cons.prems(2) have i: "i < length names" "names ! i = qe_name e" "drop (Suc i) names = map qe_name es"
    by (simp_all add: Cons_nth_drop_Suc [symmetric])
  then have t: "set (take (Suc i) names) = insert (qe_name e) (set (take i names))"
    by (simp add: take_Suc_conv_app_nth)
  have s: "map_option (insert (qe_name e)) seen = None \<or>
      map_option (insert (qe_name e)) seen = Some (set (take (Suc i) names))"
    using Cons.prems(1) t by auto
  from Cons.IH [OF s i(3)] t show ?case
    by (simp add: check_name_spec [OF i(1) Cons.prems(1)] i(2) prepare_question_spec question_failure_rmap
        split: option.splits)
qed simp

lemma list_all_insert:
  "list_all (\<lambda>e. V e \<and> nm e \<noteq> n \<and> nm e \<notin> E \<and> F e) es \<longleftrightarrow> list_all (\<lambda>e. V e \<and> nm e \<notin> E \<and> F e) es \<and> n \<notin> nm ` set es"
  by (auto simp: list_all_iff)

lemma prepare_spec_ok:
  "prepare_spec_from ip text earlier es b = Inr b' \<longleftrightarrow>
     list_all (\<lambda>e. valid_utf8 (qe_name e) \<and> qe_name e \<notin> earlier \<and> form_problem ip e = None) es \<and>
     distinct (map qe_name es) \<and> rfold (add_question (Some append_leaf)) (map question_call es) b = Inr b'"
proof (induction es arbitrary: earlier b)
  case (Cons e es)
  show ?case
  proof (cases "name_problem ip earlier (qe_name e) = None \<and> form_problem ip e = None")
    case True
    then have "valid_utf8 (qe_name e)" "qe_name e \<notin> earlier" by (simp_all add: name_problem_def split: if_splits)
    with True show ?thesis by (simp add: rbind_Inr rmap_err_Inr Cons.IH list_all_insert) blast
  next
    case False
    then have "\<not> (valid_utf8 (qe_name e) \<and> qe_name e \<notin> earlier \<and> form_problem ip e = None)"
      by (metis name_problem_def)
    moreover from False have "\<not> is_ok (prepare_spec_from ip text earlier (e # es) b)"
      by (cases "name_problem ip earlier (qe_name e)") auto
    ultimately show ?thesis by (cases "prepare_spec_from ip text earlier (e # es) b") (auto simp del: prepare_spec_from.simps)
  qed
qed simp

lemma append_leaf_ok: "leaf_ok (Some append_leaf)"
  unfolding leaf_ok_def
proof (intro allI impI)
  fix l dst x dst'
  assume "Some append_leaf = Some l" "l dst x = (dst', True, None)"
  then have a: "append_leaf dst x = (dst', True, None)" by simp
  show "\<exists>c. dst' = dst @ c \<and> jval c c"
  proof (cases x)
    case (LRaw r)
    with a have "append_json dst (case r of None \<Rightarrow> [] | Some r \<Rightarrow> r) = Inr dst'"
      by (simp add: leaf_result_def split: sum.splits)
    from append_json_jval [OF this] show ?thesis by blast
  next
    case (LContent c)
    show ?thesis
    proof (cases "sc_set c")
      case True
      with a LContent have "append_content dst (sc_w c) = Inr dst'" by (simp add: leaf_result_def split: sum.splits)
      from append_content_ok [OF this] show ?thesis by blast
    next
      case False
      with a LContent have "dst' = dst @ ''null''" by simp
      then show ?thesis by (auto intro: J_lit)
    qed
  qed (use a in simp)
qed

lemma size_hint_tables:
  "ps_labels (fold size_step qs h) = ps_labels h + sum_list (concat (map entry_labels qs))"
  "ps_levels (fold size_step qs h) = ps_levels h + sum_list (concat (map entry_levels qs))"
  by (induction qs arbitrary: h) (simp_all add: size_step_def)

definition table_starts :: "nat \<Rightarrow> nat list \<Rightarrow> nat option list" where
  "table_starts i ns = map (\<lambda>k. Some (i + sum_list (take k ns))) [0..<length ns]"

lemma table_starts_Cons: "table_starts i (n # ns) = Some i # table_starts (i + n) ns"
  by (simp add: table_starts_def upt_conv_Cons map_Suc_upt [symmetric] comp_def add.assoc del: upt_Suc)

lemma cuts_starts: "i + sum_list ns \<le> cap \<Longrightarrow> cuts (i, cap) ns = table_starts i ns"
proof (induction ns arbitrary: i)
  case (Cons n ns)
  then show ?case by (simp add: table_starts_Cons cut_table_def add.assoc)
qed (simp add: table_starts_def)

lemma prepare_parts:
  assumes "prepare ip text qs = Inr p"
  shows "qs \<noteq> []" and "distinct (map qe_name qs)"
    and "list_all (\<lambda>e. valid_utf8 (qe_name e) \<and>
           (case qe_form e of
              FormChoice q \<Rightarrow> distinct (map co_label (cq_options q))
            | FormScore q \<Rightarrow> sq_levels q \<noteq> [] \<and> list_all sc_set (sq_levels q)
            | _ \<Rightarrow> True)) qs"
    and "append_json [] (p_questions p) = Inr (p_questions p)"
    and "p_entries p = map (expected_entry \<circ> question_call) qs"
proof -
  from assms show ne: "qs \<noteq> []" by (auto simp: prepare_def)
  have "prepare_from ip text (map qe_name qs) 0 qs empty_builder (if repeat_scan_limit < length qs then Some {} else None) =
      prepare_spec_from ip text {} qs empty_builder"
    using prepare_from_spec [of _ 0 "map qe_name qs" qs] by simp
  with assms ne obtain b where b: "prepare_spec_from ip text {} qs empty_builder = Inr b" "p = finish b"
    by (auto simp: prepare_def res_simps)
  from b(1) show "distinct (map qe_name qs)" by (simp add: prepare_spec_ok)
  from b(1) have bd: "build (Some append_leaf) (map question_call qs) = Inr b"
    by (simp add: prepare_spec_ok build_def)
  have f: "case qe_form e of
              FormChoice q \<Rightarrow> distinct (map co_label (cq_options q))
            | FormScore q \<Rightarrow> sq_levels q \<noteq> [] \<and> list_all sc_set (sq_levels q)
            | _ \<Rightarrow> True" if "form_problem ip e = None" for e
    using that
    by (auto simp: form_problem_def first_repeat_spec [symmetric] first_repeat_None find_index_None list_all_iff Let_def
        split: question_form.splits if_splits)
  from b(1) show "list_all (\<lambda>e. valid_utf8 (qe_name e) \<and>
           (case qe_form e of
              FormChoice q \<Rightarrow> distinct (map co_label (cq_options q))
            | FormScore q \<Rightarrow> sq_levels q \<noteq> [] \<and> list_all sc_set (sq_levels q)
            | _ \<Rightarrow> True)) qs"
    using f by (simp add: prepare_spec_ok list_all_iff)
  have "jval (p_questions p) (p_questions p)"
    using finish_jval [OF build_inv [OF bd append_leaf_ok]] b(2) by simp
  then show "append_json [] (p_questions p) = Inr (p_questions p)"
    unfolding append_json_iff by (intro exI [of _ "[]"] exI [of _ "p_questions p"]) simp
  from build_tables [OF bd append_leaf_ok] b(2) show "p_entries p = map (expected_entry \<circ> question_call) qs" by simp
qed

section \<open>The properties\<close>

text \<open>C26: \<open>Prepare\<close>, whose names and labels are compared pairwise in a small set and looked up in a map in a large
  one, and which writes while it checks, fails for the first question, in the order they were added, whose name is not
  UTF-8 or was used before, or that is wrong by itself, or that the builder cannot write, and with that problem's error.\<close>

theorem prepare_equivalent:
  "prepare ip text qs =
     (if qs = [] then Inl (config_error ''At least one question is required.'')
      else rmap finish (prepare_spec_from ip text {} qs empty_builder))"
  using prepare_from_spec [of None 0 "map qe_name qs" qs] prepare_from_spec [of "Some {}" 0 "map qe_name qs" qs]
  by (simp add: prepare_def)

text \<open>C27: a set \<open>Prepare\<close> returns has at least one question, distinct UTF-8 names, distinct labels in every choice and at
  least one level, all of them set, in every score; what it sends is one compact JSON object; its tables are those of the
  questions in the order they were added.\<close>

theorem prepare_sound:
  assumes "prepare ip text qs = Inr p"
  shows "qs \<noteq> [] \<and> distinct (map qe_name qs) \<and>
    list_all (\<lambda>e. valid_utf8 (qe_name e) \<and>
      (case qe_form e of
         FormChoice q \<Rightarrow> distinct (map co_label (cq_options q))
       | FormScore q \<Rightarrow> sq_levels q \<noteq> [] \<and> list_all sc_set (sq_levels q)
       | _ \<Rightarrow> True)) qs \<and>
    append_json [] (p_questions p) = Inr (p_questions p) \<and>
    p_entries p = map (expected_entry \<circ> question_call) qs"
  by (intro conjI prepare_parts [OF assms])

definition demo_question :: question_entry where
  "demo_question = \<lparr>qe_name = ''q'', qe_form = FormNoul \<lparr>nq_instructions = zero_content, nq_yes = zero_content, nq_no = zero_content\<rparr>\<rparr>"

theorem prepare_sound_witness:
  "\<exists>p. prepare (\<lambda>_. True) (\<lambda>_. []) [demo_question] = Inr p \<and> p_entries p = [expected_entry (QNoul ''q'' None None None)] \<and>
     append_json [] (p_questions p) = Inr (p_questions p)"
proof -
  obtain p where p: "prepare (\<lambda>_. True) (\<lambda>_. []) [demo_question] = Inr p"
    by (simp add: prepare_def demo_question_def check_name_def repeated_before_def prepare_question_def zero_content_def
        or_nil_def repeat_scan_limit_def empty_builder_def add_noul_def begin_question_def put_string_def append_string_eq
        put_member_def put_bytes_def)
  from prepare_sound [OF p] p show ?thesis
    by (auto simp: question_call_def demo_question_def zero_content_def or_nil_def)
qed

text \<open>the arrays \<open>Prepare\<close> reserves by \<open>sizeHint\<close> hold the option and level tables of every question exactly, one
  after the other: no table is allocated apart, and none reaches into the next.\<close>

theorem prepare_tables_fit:
  "cuts (0, ps_labels (size_hint qs)) (concat (map entry_labels qs)) = table_starts 0 (concat (map entry_labels qs)) \<and>
   cuts (0, ps_levels (size_hint qs)) (concat (map entry_levels qs)) = table_starts 0 (concat (map entry_levels qs))"
  by (simp_all add: cuts_starts size_hint_def size_hint_tables)

end
