(* ===== verification/Sdk_Resolve.thy ===== *)
theory Sdk_Resolve
  imports Sdk_Config
begin

text \<open>
  \<open>options.resolve\<close> of \<open>config.go\<close>, what every configuration it returns satisfies, and why the order of options of
  different kinds does not matter.
\<close>

section \<open>Resolving\<close>

record client_config =
  cf_key :: bytes
  cf_system_one_url :: url
  cf_models_url :: url
  cf_system_one_log :: bytes
  cf_models_log :: bytes
  cf_model :: bytes
  cf_timeout :: int
  cf_connect :: int
  cf_max_response :: int
  cf_logger :: "handle option"
  cf_system_one_header :: header
  cf_models_header :: header
  cf_transport :: engine_transport
  cf_retry :: retry_policy

text \<open>What the process gives: the environment, \<open>url.Parse\<close>, \<open>URL.String\<close>, \<open>strings.ToLower\<close>, the runtime's name, and
  what the transport is built with.\<close>

record resolve_env =
  re_getenv :: "bytes \<Rightarrow> bytes"
  re_parse :: url_parser
  re_url_string :: "url \<Rightarrow> bytes"
  re_lower :: "bytes \<Rightarrow> bytes"
  re_runtime :: bytes
  re_build :: build_env

definition resolve_connect :: "options \<Rightarrow> sdk_error + int" where
  "resolve_connect p =
     (case op_connect p of
        None \<Rightarrow> Inr default_connect_timeout
      | Some d \<Rightarrow> if d \<le> 0 then Inl (config_error ''The connect timeout passed to WithConnectTimeout must be positive.'') else Inr d)"

definition resolve_retry :: "options \<Rightarrow> sdk_error + retry_policy" where
  "resolve_retry p =
     (case op_retry p of
        None \<Rightarrow> Inr default_retry
      | Some r \<Rightarrow> (case check_policy r of Some e \<Rightarrow> Inl e | None \<Rightarrow> Inr r))"

definition resolve_max_response :: "options \<Rightarrow> sdk_error + int" where
  "resolve_max_response p =
     (case op_max_response p of
        None \<Rightarrow> Inr default_max_response_bytes
      | Some n \<Rightarrow>
          if n < 1 then Inl (config_error ''The limit passed to WithMaxResponseBytes must be at least 1: every response carries a body.'')
          else if max_max_response_bytes < n
          then Inl (config_error (''The limit passed to WithMaxResponseBytes must be at most 1 GiB ('' @ show_int max_max_response_bytes @ '' bytes).''))
          else Inr n)"

definition resolve_user_agent :: "options \<Rightarrow> sdk_error + bytes" where
  "resolve_user_agent p =
     (case op_product p of
        None \<Rightarrow> Inr sdk_identifier
      | Some q \<Rightarrow>
          if product_rule q \<noteq> []
          then Inl (config_error (''The product passed to WithUserAgentProduct must be a product token, name/version (RFC 9110, section 10.1.5): '' @
            product_rule q @ ''.''))
          else Inr (q @ '' '' @ sdk_identifier))"

definition resolve :: "resolve_env \<Rightarrow> options \<Rightarrow> sdk_error + client_config \<times> (bytes \<times> drop_reason) list" where
  "resolve re p =
     rbind (resolve_api_key (op_api_key p) (re_getenv re)) (\<lambda>key.
     rbind (resolve_endpoints (re_lower re) (re_parse re) (op_base_url p) (re_getenv re)) (\<lambda>urls.
     rbind (resolve_model (op_model p) (re_getenv re)) (\<lambda>model.
     rbind (resolve_timeout p) (\<lambda>timeout.
     rbind (resolve_connect p) (\<lambda>connect.
     rbind (resolve_retry p) (\<lambda>retry.
     rbind (resolve_max_response p) (\<lambda>limit.
     rbind (resolve_user_agent p) (\<lambda>user_agent.
     rbind (header_template (re_lower re) (if op_no_runtime p then None else Some (re_runtime re)) (op_headers p) key user_agent) (\<lambda>hd.
     rbind (build_transport (re_build re) (op_transport p) (fst urls) connect (op_connect p \<noteq> None) (op_logger p)) (\<lambda>tr.
       Inr (\<lparr>cf_key = key, cf_system_one_url = fst urls, cf_models_url = snd urls,
             cf_system_one_log = (if op_hide_host p then system_one_path else re_url_string re (fst urls)),
             cf_models_log = (if op_hide_host p then models_path else re_url_string re (snd urls)),
             cf_model = model, cf_timeout = timeout, cf_connect = connect, cf_max_response = limit, cf_logger = op_logger p,
             cf_system_one_header = header_set header_content_type json_content_type (fst hd), cf_models_header = fst hd,
             cf_transport = tr, cf_retry = retry\<rparr>, snd hd)))))))))))"

section \<open>What each setting satisfies\<close>

lemma resolve_api_key_ok: "resolve_api_key explicit getenv = Inr key \<Longrightarrow> key \<noteq> [] \<and> list_all printable_byte key"
  by (auto simp: resolve_api_key_def Let_def split: if_splits)

lemma resolve_model_ok: "resolve_model explicit getenv = Inr m \<Longrightarrow> valid_utf8 m"
  by (auto simp: resolve_model_def Let_def split: if_splits option.splits)

lemma resolve_timeout_ok: "resolve_timeout p = Inr d \<Longrightarrow> 0 \<le> d \<and> (d = 0 \<longleftrightarrow> op_no_timeout p)"
  by (auto simp: resolve_timeout_def default_timeout_def second_def split: if_splits option.splits)

lemma resolve_connect_ok: "resolve_connect p = Inr d \<Longrightarrow> 0 < d"
  by (auto simp: resolve_connect_def default_connect_timeout_def second_def split: if_splits option.splits)

lemma check_default_retry: "check_policy default_retry = None"
  by code_simp

lemma resolve_retry_ok: "resolve_retry p = Inr r \<Longrightarrow> check_policy r = None"
  by (auto simp: resolve_retry_def check_default_retry split: option.splits)

lemma resolve_max_response_ok: "resolve_max_response p = Inr n \<Longrightarrow> 1 \<le> n \<and> n \<le> 2 ^ 30"
  by (auto simp: resolve_max_response_def default_max_response_bytes_def max_max_response_bytes_def split: if_splits option.splits)

lemma resolve_endpoints_ok:
  assumes "resolve_endpoints lower parse explicit getenv = Inr (s, m)"
  shows "\<exists>base su mu. CHR ''?'' \<notin> set base \<and> CHR ''#'' \<notin> set base \<and> base_url_rule parse base = [] \<and>
    parse (drop_default_port lower base @ system_one_path) = Some (s, su) \<and> parse (drop_default_port lower base @ models_path) = Some (m, mu)"
  using assms unfolding resolve_endpoints_def Let_def
  by (auto split: if_splits prod.splits option.splits simp: base_url_rule_def [of _ "trim_right _ _"])

text \<open>A value that cannot end its header field.\<close>

lemma valid_value_append [simp]: "valid_field_value (a @ b) \<longleftrightarrow> valid_field_value a \<and> valid_field_value b"
  by (simp add: valid_field_value_def)

lemma valid_value_Cons [simp]:
  "valid_field_value (c # a) \<longleftrightarrow> \<not> ((byte c < 32 \<and> byte c \<noteq> 9) \<or> byte c = 127) \<and> valid_field_value a"
  by (simp add: valid_field_value_def)

lemma valid_value_Nil [simp]: "valid_field_value []"
  by (simp add: valid_field_value_def)

lemma printable_value: "list_all printable_byte key \<Longrightarrow> valid_field_value key"
  by (auto simp: valid_field_value_def printable_byte_def byte_between_def elim!: list.pred_mono_strong)

lemma good_product_byte: "bad_product_byte c = [] \<Longrightarrow> \<not> (byte c < 32 \<and> byte c \<noteq> 9) \<and> byte c \<noteq> 127"
  by (auto simp: bad_product_byte_def split: if_splits)

lemma product_value:
  assumes "product_rule q = []"
  shows "valid_field_value q"
proof -
  have "List.find (\<lambda>c. bad_product_byte c \<noteq> []) q = None"
    using assms by (auto simp: product_rule_def find_Some_iff split: if_splits option.splits)
  then show ?thesis by (auto simp: find_None_iff valid_field_value_def list_all_iff dest: good_product_byte)
qed

lemma sdk_values: "valid_field_value sdk_identifier" "valid_field_value json_content_type" "valid_field_value ''Bearer ''"
  by code_simp+

lemma resolve_user_agent_ok: "resolve_user_agent p = Inr ua \<Longrightarrow> valid_field_value ua \<and> suffix sdk_identifier ua"
  by (auto simp: resolve_user_agent_def sdk_values suffix_def dest!: product_value split: option.splits if_splits)

definition safe_header :: "header \<Rightarrow> bool" where
  "safe_header h \<longleftrightarrow> (\<forall>(n, vs) \<in> set h. list_all valid_field_value vs)"

lemma set_update: "set (AList.update k v al) \<subseteq> insert (k, v) (set al)"
  by (induction al) (auto split: if_splits)

lemma safe_update: "safe_header h \<Longrightarrow> valid_field_value v \<Longrightarrow> safe_header (AList.update k [v] h)"
  using set_update [of k "[v]" h] unfolding safe_header_def by fastforce

lemma safe_apply:
  "apply_from lower key nw vw i hos s = Inr s' \<Longrightarrow> safe_header (fst s) \<Longrightarrow> safe_header (fst s')"
proof (induction hos arbitrary: i s)
  case (Cons ho hos)
  from Cons.prems obtain s1 where s1: "apply_header lower key nw vw i ho s = Inr s1" "apply_from lower key nw vw (i + 1) hos s1 = Inr s'"
    by (cases "apply_header lower key nw vw i ho s") auto
  then have "valid_field_value (ho_value ho)" using apply_header_ok [of lower key nw vw i ho s] by (simp add: acceptable_def)
  with s1(1) Cons.prems(2) have "safe_header (fst s1)"
    by (auto simp: apply_header_def Let_def safe_update split: if_splits option.splits)
  from Cons.IH [OF s1(2) this] show ?case .
qed simp

lemma safe_template:
  assumes "header_template lower rt hos key ua = Inr (h, dropped)" "valid_field_value key" "valid_field_value ua"
    "\<forall>r. rt = Some r \<longrightarrow> valid_field_value r"
  shows "safe_header h"
proof -
  obtain h0 where h0: "apply_headers lower key ''WithHeader call'' ''WithHeader'' hos [] = Inr (h0, dropped)" "h = set_own_headers rt key ua h0"
    using assms(1) unfolding header_template_def by (cases "apply_headers lower key ''WithHeader call'' ''WithHeader'' hos []") auto
  from h0(1) have "safe_header h0" unfolding apply_headers_def by (rule safe_apply [where s' = "(h0, dropped)", simplified]) (simp add: safe_header_def)
  with assms(2-4) sdk_values show ?thesis
    unfolding h0(2) set_own_headers_def header_set_def Let_def by (cases rt) (auto intro!: safe_update)
qed

section \<open>What a configuration is\<close>

definition is_config_error :: "sdk_error \<Rightarrow> bool" where
  "is_config_error e \<longleftrightarrow> (case e of ConfigError m w \<Rightarrow> True | _ \<Rightarrow> False)"

definition well_formed :: "resolve_env \<Rightarrow> client_config \<Rightarrow> bool" where
  "well_formed re c \<longleftrightarrow>
     cf_key c \<noteq> [] \<and> list_all printable_byte (cf_key c) \<and> valid_utf8 (cf_model c) \<and> 0 \<le> cf_timeout c \<and> 0 < cf_connect c \<and>
     1 \<le> cf_max_response c \<and> cf_max_response c \<le> 2 ^ 30 \<and> check_policy (cf_retry c) = None \<and>
     (\<exists>base su mu. CHR ''?'' \<notin> set base \<and> CHR ''#'' \<notin> set base \<and> base_url_rule (re_parse re) base = [] \<and>
        re_parse re (drop_default_port (re_lower re) base @ system_one_path) = Some (cf_system_one_url c, su) \<and>
        re_parse re (drop_default_port (re_lower re) base @ models_path) = Some (cf_models_url c, mu)) \<and>
     safe_header (cf_models_header c) \<and> safe_header (cf_system_one_header c) \<and>
     map_of (cf_system_one_header c) = (map_of (cf_models_header c))(''Content-Type'' \<mapsto> [json_content_type]) \<and>
     map_of (cf_models_header c) ''Authorization'' = Some [''Bearer '' @ cf_key c]"

lemma config_error_is [simp]: "is_config_error (config_error m)" "is_config_error (ConfigError m w)"
  by (simp_all add: is_config_error_def config_error_def)

lemma apply_header_error: "apply_header lower key nw vw i ho s = Inl e \<Longrightarrow> is_config_error e"
  by (auto simp: apply_header_def Let_def split: if_splits option.splits)

lemma apply_from_error: "apply_from lower key nw vw i hos s = Inl e \<Longrightarrow> is_config_error e"
proof (induction hos arbitrary: i s)
  case (Cons ho hos)
  then show ?case by (cases "apply_header lower key nw vw i ho s") (auto dest: apply_header_error)
qed simp

lemma template_error: "header_template lower rt hos key ua = Inl e \<Longrightarrow> is_config_error e"
  unfolding header_template_def apply_headers_def
  by (cases "apply_from lower key ''WithHeader call'' ''WithHeader'' 0 hos ([], [])") (auto dest: apply_from_error)

lemma check_policy_error: "check_policy r = Some e \<Longrightarrow> is_config_error e"
  by (auto simp: check_policy_def split: if_splits)

lemma build_sdk_error_is: "is_config_error (build_sdk_error e)"
  by (cases e) simp_all

lemma build_transport_error: "build_transport be t api c cs l = Inl e \<Longrightarrow> is_config_error e"
  by (auto simp: build_transport_def Let_def build_sdk_error_is split: if_splits option.splits sum.splits)

lemma setting_errors:
  "resolve_api_key x env = Inl e \<Longrightarrow> is_config_error e" "resolve_endpoints lower parse x env = Inl e \<Longrightarrow> is_config_error e"
  "resolve_model x env = Inl e \<Longrightarrow> is_config_error e" "resolve_timeout p = Inl e \<Longrightarrow> is_config_error e"
  "resolve_connect p = Inl e \<Longrightarrow> is_config_error e" "resolve_retry p = Inl e \<Longrightarrow> is_config_error e"
  "resolve_max_response p = Inl e \<Longrightarrow> is_config_error e" "resolve_user_agent p = Inl e \<Longrightarrow> is_config_error e"
  by (auto simp: resolve_api_key_def resolve_endpoints_def resolve_model_def resolve_timeout_def resolve_connect_def resolve_retry_def
      resolve_max_response_def resolve_user_agent_def Let_def check_policy_error split: if_splits option.splits prod.splits)

lemma rbind_error: "rbind x f = Inl e \<longleftrightarrow> x = Inl e \<or> (\<exists>a. x = Inr a \<and> f a = Inl e)"
  by (cases x) auto

lemma resolve_error: "resolve re p = Inl e \<Longrightarrow> is_config_error e"
  unfolding resolve_def rbind_error
  by (elim disjE exE conjE) (simp_all add: setting_errors template_error build_transport_error)


section \<open>The order of options\<close>

text \<open>Actions of different kinds commute, so that only the order within a kind counts.\<close>

locale commuting =
  fixes kind :: "'a \<Rightarrow> nat" and act :: "'a \<Rightarrow> 's \<Rightarrow> 's"
  assumes commute: "kind a \<noteq> kind b \<Longrightarrow> act a (act b s) = act b (act a s)"
begin

lemma act_last: "\<forall>u \<in> set us. kind u \<noteq> kind x \<Longrightarrow> fold act us (act x s) = act x (fold act us s)"
proof (induction us arbitrary: s)
  case (Cons a us)
  then have "act a (act x s) = act x (act a s)" by (intro commute) simp
  with Cons show ?case by simp
qed simp

lemma order:
  assumes "\<And>k. filter (\<lambda>a. kind a = k) xs = filter (\<lambda>a. kind a = k) ys"
  shows "fold act xs s = fold act ys s"
  using assms
proof (induction xs arbitrary: ys s)
  case Nil
  have "ys = []"
  proof (cases ys)
    case (Cons y zs)
    with Nil [of "kind y"] show ?thesis by simp
  qed
  then show ?case by simp
next
  case (Cons x xs)
  have "x # filter (\<lambda>a. kind a = kind x) xs = filter (\<lambda>a. kind a = kind x) ys" using Cons.prems [of "kind x"] by simp
  then obtain us vs where ys: "ys = us @ x # vs" and us: "\<forall>u \<in> set us. kind u \<noteq> kind x"
    and tail: "filter (\<lambda>a. kind a = kind x) xs = filter (\<lambda>a. kind a = kind x) vs"
    by (auto simp: Cons_eq_filter_iff)
  have "filter (\<lambda>a. kind a = k) xs = filter (\<lambda>a. kind a = k) (us @ vs)" for k
    using Cons.prems [of k] tail us by (cases "kind x = k") (auto simp: ys filter_empty_conv)
  then have "fold act xs (act x s) = fold act (us @ vs) (act x s)" by (rule Cons.IH)
  with us show ?case by (simp add: ys act_last)
qed

end

datatype setting =
    SetAPIKey bytes | SetBaseURL bytes | SetModel bytes | SetTimeout int | SetNoTimeout | SetConnectTimeout int
  | SetMaxResponseBytes int | SetHeader bytes bytes | SetUserAgentProduct bytes | SetRuntimeHeader bool | SetLogger "handle option"
  | SetLogEndpointHost bool | SetRetry retry_policy | SetPretouch "handle option list" | SetHTTPVersion int | SetRootCAs "handle option"
  | SetTLSConfig "tls_config option" | SetProxy proxy_func | SetHTTPTransport "stock_transport option" | SetRoundTripper "handle option"
  | SetCompression bool | SetClientTrace "handle option"

fun option_of :: "setting \<Rightarrow> client_option" where
  "option_of (SetAPIKey k) = with_api_key k"
| "option_of (SetBaseURL u) = with_base_url u"
| "option_of (SetModel m) = with_model m"
| "option_of (SetTimeout d) = with_timeout d"
| "option_of SetNoTimeout = with_no_timeout"
| "option_of (SetConnectTimeout d) = with_connect_timeout d"
| "option_of (SetMaxResponseBytes n) = with_max_response_bytes n"
| "option_of (SetHeader n v) = with_header n v"
| "option_of (SetUserAgentProduct q) = with_user_agent_product q"
| "option_of (SetRuntimeHeader b) = with_runtime_header b"
| "option_of (SetLogger l) = with_logger l"
| "option_of (SetLogEndpointHost b) = with_log_endpoint_host b"
| "option_of (SetRetry r) = with_retry r"
| "option_of (SetPretouch ts) = with_pretouch ts"
| "option_of (SetHTTPVersion v) = with_http_version v"
| "option_of (SetRootCAs c) = with_root_cas c"
| "option_of (SetTLSConfig c) = with_tls_config c"
| "option_of (SetProxy q) = with_proxy q"
| "option_of (SetHTTPTransport h) = with_http_transport h"
| "option_of (SetRoundTripper r) = with_round_tripper r"
| "option_of (SetCompression b) = with_compression b"
| "option_of (SetClientTrace h) = with_client_trace h"

text \<open>The kind of an option: its constructor.\<close>

fun setting_kind :: "setting \<Rightarrow> nat" where
  "setting_kind (SetAPIKey k) = 0" | "setting_kind (SetBaseURL u) = 1" | "setting_kind (SetModel m) = 2"
| "setting_kind (SetTimeout d) = 3" | "setting_kind SetNoTimeout = 4" | "setting_kind (SetConnectTimeout d) = 5"
| "setting_kind (SetMaxResponseBytes n) = 6" | "setting_kind (SetHeader n v) = 7" | "setting_kind (SetUserAgentProduct q) = 8"
| "setting_kind (SetRuntimeHeader b) = 9" | "setting_kind (SetLogger l) = 10" | "setting_kind (SetLogEndpointHost b) = 11"
| "setting_kind (SetRetry r) = 12" | "setting_kind (SetPretouch ts) = 13" | "setting_kind (SetHTTPVersion v) = 14"
| "setting_kind (SetRootCAs c) = 15" | "setting_kind (SetTLSConfig c) = 16" | "setting_kind (SetProxy q) = 17"
| "setting_kind (SetHTTPTransport h) = 18" | "setting_kind (SetRoundTripper r) = 19" | "setting_kind (SetCompression b) = 20"
| "setting_kind (SetClientTrace h) = 21"

lemmas option_defs =
  with_api_key_def with_base_url_def with_model_def with_timeout_def with_no_timeout_def with_connect_timeout_def
  with_max_response_bytes_def with_header_def with_user_agent_product_def with_runtime_header_def with_logger_def
  with_log_endpoint_host_def with_retry_def with_pretouch_def set_transport_def with_http_version_def with_root_cas_def
  with_tls_config_def with_proxy_def with_http_transport_def with_round_tripper_def with_compression_def with_client_trace_def

interpretation settings: commuting setting_kind option_of
proof
  fix a b s
  assume "setting_kind a \<noteq> setting_kind b"
  then show "option_of a (option_of b s) = option_of b (option_of a s)"
    by (cases a; cases b; simp add: option_defs)
qed

lemma collect_settings: "collect_options (map (\<lambda>x. Some (option_of x)) xs) = fold option_of xs no_options"
  unfolding collect_options_def by (simp add: fold_map comp_def)

text \<open>The order of options of different kinds never decides anything: two lists of options that agree, kind by kind,
  on the options given and their order within the kind configure the same client, or fail with the same error; a nil
  option changes nothing.\<close>

theorem option_order_irrelevant:
  assumes "\<And>k. filter (\<lambda>x. setting_kind x = k) xs = filter (\<lambda>x. setting_kind x = k) ys"
  shows "resolve re (collect_options (map (\<lambda>x. Some (option_of x)) xs)) = resolve re (collect_options (None # map (\<lambda>x. Some (option_of x)) ys))"
  using settings.order [of xs ys no_options, OF assms] by (simp add: collect_settings) (simp add: collect_options_def flip: collect_settings)

definition sample_parse :: url_parser where
  "sample_parse raw =
     (if prefix ''https://api.test'' raw
      then Some (\<lparr>url_scheme = ''https'', url_host = ''api.test'', url_path = drop 16 raw\<rparr>, False) else None)"

definition sample_resolve :: resolve_env where
  "sample_resolve =
     \<lparr>re_getenv = (\<lambda>_. []), re_parse = sample_parse, re_url_string = (\<lambda>u. []), re_lower = lower_ascii,
      re_runtime = ''go/1.27.1 (linux; amd64)'', re_build = \<lparr>be_print = (\<lambda>_. True), be_proxy = no_proxy_env, be_clone = (\<lambda>t. t)\<rparr>\<rparr>"

definition sample_options :: options where
  "sample_options = collect_options [Some (with_api_key ''secret-key''), Some (with_base_url ''https://api.test/''), Some (with_round_tripper (Some 1))]"

lemma option_order_irrelevant_witness:
  "resolve sample_resolve (collect_options [Some (with_model ''m''), Some (with_timeout 5), Some (with_model ''n'')]) =
   resolve sample_resolve (collect_options [None, Some (with_timeout 5), Some (with_model ''m''), Some (with_model ''n'')])"
  using option_order_irrelevant [of "[SetModel ''m'', SetTimeout 5, SetModel ''n'']" "[SetTimeout 5, SetModel ''m'', SetModel ''n'']" sample_resolve]
  by simp

lemma sample_strip: "python_strip ''secret-key'' = ''secret-key''" "python_strip [] = []"
  by (simp_all add: python_strip_def trim_runes_def trim_left_runes.simps trim_right_runes.simps decode_last_rune_def is_python_space_def is_space_rune_def decode_rune_ascii)

lemma sample_key: "resolve_api_key (Some ''secret-key'') g = Inr ''secret-key''"
  by (simp add: resolve_api_key_def sample_strip printable_byte_def byte_between_def)

lemma sample_endpoints: "\<exists>u. resolve_endpoints lower_ascii sample_parse (Some ''https://api.test/'') g = Inr u"
proof -
  have "trim_right CHR ''/'' ''https://api.test/'' = ''https://api.test''" "drop_default_port lower_ascii ''https://api.test'' = ''https://api.test''"
    "split_host_port ''api.test'' = (''api.test'', [])"
    by code_simp+
  then show ?thesis by (simp add: resolve_endpoints_def base_url_rule_def sample_parse_def url_hostname_def)
qed

lemma sample_resolved: "\<exists>c d. resolve sample_resolve sample_options = Inr (c, d)"
proof -
  have o: "op_api_key sample_options = Some ''secret-key''" "op_base_url sample_options = Some ''https://api.test/''"
    "op_model sample_options = None" "op_timeout sample_options = None" "\<not> op_no_timeout sample_options" "op_connect sample_options = None"
    "op_retry sample_options = None" "op_max_response sample_options = None" "op_product sample_options = None" "op_headers sample_options = []"
    "op_transport sample_options = (op_transport no_options)\<lparr>to_round_tripper := Some 1, to_round_tripper_set := True\<rparr>"
    by (simp_all add: sample_options_def collect_options_def option_defs no_options_def)
  have e: "re_getenv sample_resolve = (\<lambda>_. [])" "re_parse sample_resolve = sample_parse" "re_lower sample_resolve = lower_ascii"
    by (simp_all add: sample_resolve_def)
  have t: "build_transport be (op_transport sample_options) u c False l =
      Inr \<lparr>et_logger = l, et_trace = None, et_tripper = CallerTripper 1, et_proxies = False\<rparr>" for be u c l
    by (simp add: o no_options_def build_transport_def conflict_def given_name_def)
  have m: "resolve_model None (\<lambda>_. []) = Inr []" by (simp add: resolve_model_def env_value_def sample_strip)
  have h: "header_template lower_ascii rt [] ''secret-key'' ua = Inr (set_own_headers rt ''secret-key'' ua [], [])" for rt ua
    by (simp add: header_template_def apply_headers_def)
  obtain u where u: "resolve_endpoints lower_ascii sample_parse (Some ''https://api.test/'') (\<lambda>_. []) = Inr u"
    using sample_endpoints by blast
  show ?thesis
    by (simp add: resolve_def o(1-10) e sample_key u m resolve_timeout_def resolve_connect_def resolve_retry_def resolve_max_response_def
        resolve_user_agent_def h t)
qed


end
