(* ===== verification/Sdk_Call.thy ===== *)
theory Sdk_Call
  imports Sdk_Questions Sdk_Resolve
begin

text \<open>
  The options of one call, \<open>call.go\<close>, and the request body of a System One call, \<open>body.go\<close>: what the options record,
  the settings and the model a call uses, what a list-models call refuses, and the errors of a body that cannot be
  encoded, with the texts of the scanner's errors (\<open>internal/wire/json.go\<close>).
\<close>

section \<open>The texts of errors\<close>

definition quote_byte :: "(nat \<Rightarrow> bool) \<Rightarrow> char \<Rightarrow> bytes" where
  "quote_byte ip c = quoted (quoted_form False ip [c])"

fun syntax_text :: "(nat \<Rightarrow> bool) \<Rightarrow> syntax_msg \<Rightarrow> bytes" where
  "syntax_text ip EndWantValue = ''unexpected end of input, want a value''"
| "syntax_text ip (UnexpectedWantValue c) = ''unexpected '' @ quote_byte ip c @ '', want a value''"
| "syntax_text ip (UnexpectedAfterValue c) = ''unexpected '' @ quote_byte ip c @ '' after the value''"
| "syntax_text ip EndWantClose = ''unexpected end of input, want ',' or a closing bracket''"
| "syntax_text ip (UnexpectedWantClose c) = ''unexpected '' @ quote_byte ip c @ '', want ',' or a closing bracket''"
| "syntax_text ip EndWantName = ''unexpected end of input, want a member name''"
| "syntax_text ip (UnexpectedWantName c) = ''unexpected '' @ quote_byte ip c @ '', want a member name''"
| "syntax_text ip WantColon = ''want ':' after a member name''"
| "syntax_text ip UnterminatedEscape = ''unterminated escape sequence''"
| "syntax_text ip InvalidUEscape = ''invalid '' @ [backslash] @ ''u escape sequence''"
| "syntax_text ip (InvalidEscape c) = ''invalid escape sequence '' @ quote_byte ip c"
| "syntax_text ip (RawControlChar c) = ''raw control character '' @ quote_byte ip c @ '' in a string''"
| "syntax_text ip InvalidUtf8Char = ''invalid UTF-8 in a string''"
| "syntax_text ip UnterminatedString = ''unterminated string''"
| "syntax_text ip (InvalidLiteral lit) = ''invalid literal, want '' @ lit"
| "syntax_text ip NumberWantDigit = ''invalid number, want a digit''"
| "syntax_text ip NumberWantFraction = ''invalid number, want a digit after '.'' @ [CHR 0x27]"
| "syntax_text ip NumberWantExponent = ''invalid number, want a digit in the exponent''"

fun json_error_text :: "(nat \<Rightarrow> bool) \<Rightarrow> json_error \<Rightarrow> bytes" where
  "json_error_text ip ErrInvalidUTF8 = ''string is not valid UTF-8''"
| "json_error_text ip ErrContentShape = ''JSON content must be an object or an array''"
| "json_error_text ip (SyntaxError i m) = ''invalid JSON at byte '' @ show_nat i @ '': '' @ syntax_text ip m"

fun enc_error_text :: "(nat \<Rightarrow> bool) \<Rightarrow> enc_error \<Rightarrow> bytes" where
  "enc_error_text ip (StateShape s) = s"
| "enc_error_text ip (PlainBytes s) = s"
| "enc_error_text ip (RawValue s) = s"
| "enc_error_text ip (SonicError s) = s"
| "enc_error_text ip (WireError e) = json_error_text ip e"

section \<open>Options\<close>

record 'a call_options =
  cp_model :: "bytes option"
  cp_timeout :: "int option"
  cp_headers :: "header_option list"
  cp_extra :: "'a extra"
  cp_retry :: "retry_policy option"

type_synonym 'a call_option = "'a call_options \<Rightarrow> 'a call_options"

definition no_call_options :: "'a call_options" where
  "no_call_options = \<lparr>cp_model = None, cp_timeout = None, cp_headers = [], cp_extra = [], cp_retry = None\<rparr>"

definition call_model :: "bytes \<Rightarrow> 'a call_option" where "call_model name x = x\<lparr>cp_model := Some name\<rparr>"
definition call_timeout :: "int \<Rightarrow> 'a call_option" where "call_timeout d x = x\<lparr>cp_timeout := Some d\<rparr>"
definition call_add_header :: "bytes \<Rightarrow> bytes \<Rightarrow> 'a call_option" where
  "call_add_header name v x = x\<lparr>cp_headers := cp_headers x @ [\<lparr>ho_name = name, ho_value = v\<rparr>]\<rparr>"
definition call_extra_body :: "bytes \<Rightarrow> 'a gvalue \<Rightarrow> 'a call_option" where
  "call_extra_body key v x = x\<lparr>cp_extra := cp_extra x @ [(key, v)]\<rparr>"
definition call_retry :: "retry_policy \<Rightarrow> 'a call_option" where "call_retry p x = x\<lparr>cp_retry := Some p\<rparr>"

text \<open>\<open>collectCallOptions\<close>; a nil option is skipped.\<close>

definition collect_call_options :: "'a call_option option list \<Rightarrow> 'a call_options" where
  "collect_call_options opts = fold (\<lambda>opt x. case opt of Some f \<Rightarrow> f x | None \<Rightarrow> x) opts no_call_options"

section \<open>Settings\<close>

record call_settings =
  cs_header :: header
  cs_timeout :: int
  cs_retry :: retry_policy

definition timeout_setting :: "'a call_options \<Rightarrow> client_config \<Rightarrow> sdk_error + int" where
  "timeout_setting p cfg =
     (case cp_timeout p of
        None \<Rightarrow> Inr (cf_timeout cfg)
      | Some d \<Rightarrow> if d \<le> 0 then Inl (config_error ''The timeout passed to Timeout must be positive.'') else Inr d)"

definition retry_setting :: "'a call_options \<Rightarrow> client_config \<Rightarrow> sdk_error + retry_policy" where
  "retry_setting p cfg =
     (case cp_retry p of
        None \<Rightarrow> Inr (cf_retry cfg)
      | Some r \<Rightarrow> (case check_policy r of Some e \<Rightarrow> Inl e | None \<Rightarrow> Inr r))"

definition header_setting ::
  "(bytes \<Rightarrow> bytes) \<Rightarrow> 'a call_options \<Rightarrow> client_config \<Rightarrow> header \<Rightarrow> sdk_error + header \<times> (bytes \<times> drop_reason) list" where
  "header_setting lower p cfg base =
     (if cp_headers p = [] then Inr (base, []) else call_header lower (cf_key cfg) base (cp_headers p))"

definition settings ::
  "(bytes \<Rightarrow> bytes) \<Rightarrow> 'a call_options \<Rightarrow> client_config \<Rightarrow> header \<Rightarrow> sdk_error + call_settings \<times> (bytes \<times> drop_reason) list" where
  "settings lower p cfg base =
     rbind (timeout_setting p cfg) (\<lambda>timeout.
     rbind (retry_setting p cfg) (\<lambda>retry.
     rmap (\<lambda>(h, dropped). (\<lparr>cs_header = h, cs_timeout = timeout, cs_retry = retry\<rparr>, dropped)) (header_setting lower p cfg base)))"

definition extra_names :: "bytes \<Rightarrow> 'a call_options \<Rightarrow> bool" where
  "extra_names key p = list_ex (\<lambda>m. fst m = key) (cp_extra p)"

definition system_one_model :: "'a call_options \<Rightarrow> client_config \<Rightarrow> sdk_error + bytes" where
  "system_one_model p cfg =
     (case cp_model p of
        None \<Rightarrow>
          if cf_model cfg = [] \<and> \<not> extra_names ''model'' p
          then Inl (config_error (''No model was named. Pass Model on the call, or set WithModel on the client or the '' @
            default_model_env @ '' environment variable.''))
          else Inr (cf_model cfg)
      | Some m \<Rightarrow>
          if python_strip m = []
          then Inl (config_error ''The model passed to Model is empty; leave Model out to use the client's model.'')
          else Inr m)"

definition for_models :: "'a call_options \<Rightarrow> sdk_error option" where
  "for_models p =
     (if cp_model p \<noteq> None then Some (config_error ''Model applies to SystemOne calls only; a list-models call names no model.'')
      else if cp_extra p \<noteq> [] then Some (config_error ''ExtraBody applies to SystemOne calls only; a list-models call sends no body.'')
      else None)"

section \<open>The body of a call\<close>

definition encode_error :: "(nat \<Rightarrow> bool) \<Rightarrow> bytes \<Rightarrow> enc_error \<Rightarrow> sdk_error" where
  "encode_error ip member e =
     InvalidRequestError
       (append_safe_text (''The request body could not be encoded as JSON: '' @ member @ '': '') (enc_error_text ip e) max_message_chars False @
        (case e of PlainBytes s \<Rightarrow> ''; send string(b) for text or RawJSON(b) for JSON'' | _ \<Rightarrow> []))"

definition body_error :: "(nat \<Rightarrow> bool) \<Rightarrow> bytes \<Rightarrow> failure_kind \<Rightarrow> sdk_error" where
  "body_error ip model f =
     (case f of
        FailNoQuestions \<Rightarrow> config_error ''At least one question is required.''
      | FailModel \<Rightarrow> config_error (''Model '' @ quoted (quoted_form False ip model) @ '' is not valid UTF-8.'')
      | FailEncode key extra e \<Rightarrow> encode_error ip (if extra then ''extra body member '' @ quoted_name key else key) e)"

definition encode_call_body ::
  "(nat \<Rightarrow> bool) \<Rightarrow> ('a \<Rightarrow> bytes + bytes) \<Rightarrow> 'a gvalue \<Rightarrow> bytes \<Rightarrow> prepared option \<Rightarrow> 'a extra \<Rightarrow> sdk_error + bytes" where
  "encode_call_body ip sonic state model q extra = rmap_err (body_error ip model) (encode_body sonic state model q extra)"

section \<open>What the settings satisfy\<close>

lemma settings_ok:
  assumes "settings lower p cfg base = Inr (s, dropped)"
  shows "0 < cs_timeout s \<or> cs_timeout s = cf_timeout cfg \<and> cp_timeout p = None"
    and "check_policy (cf_retry cfg) = None \<Longrightarrow> check_policy (cs_retry s) = None"
    and "safe_header base \<Longrightarrow> safe_header (cs_header s)"
proof -
  from assms obtain timeout retry h where s: "timeout_setting p cfg = Inr timeout" "retry_setting p cfg = Inr retry"
    "header_setting lower p cfg base = Inr (h, dropped)" "s = \<lparr>cs_header = h, cs_timeout = timeout, cs_retry = retry\<rparr>"
    by (auto simp: settings_def res_simps)
  from s(1,4) show "0 < cs_timeout s \<or> cs_timeout s = cf_timeout cfg \<and> cp_timeout p = None"
    by (auto simp: timeout_setting_def split: option.splits if_splits)
  from s(2,4) show "check_policy (cf_retry cfg) = None \<Longrightarrow> check_policy (cs_retry s) = None"
    by (auto simp: retry_setting_def split: option.splits)
  assume "safe_header base"
  then show "safe_header (cs_header s)"
    using s(3,4) safe_apply
    by (auto simp: header_setting_def call_header_def apply_headers_def split: if_splits)
qed

lemma settings_error: "settings lower p cfg base = Inl e \<Longrightarrow> is_config_error e"
  by (auto simp: settings_def rbind_error rmap_Inl timeout_setting_def retry_setting_def header_setting_def call_header_def
      apply_headers_def check_policy_error apply_from_error split: option.splits if_splits)

lemma system_one_model_error: "system_one_model p cfg = Inl e \<Longrightarrow> is_config_error e"
  by (auto simp: system_one_model_def split: option.splits if_splits)

lemma body_error_kind: "is_config_error (body_error ip model f) \<or> (\<exists>m. body_error ip model f = InvalidRequestError m)"
  by (cases f) (simp_all add: body_error_def encode_error_def)

section \<open>The order of a call's options\<close>

datatype 'a call_setting =
    CallModel bytes | CallTimeout int | CallHeader bytes bytes | CallExtraBody bytes "'a gvalue" | CallRetry retry_policy

fun call_option_of :: "'a call_setting \<Rightarrow> 'a call_option" where
  "call_option_of (CallModel m) = call_model m"
| "call_option_of (CallTimeout d) = call_timeout d"
| "call_option_of (CallHeader n v) = call_add_header n v"
| "call_option_of (CallExtraBody k v) = call_extra_body k v"
| "call_option_of (CallRetry r) = call_retry r"

fun call_setting_kind :: "'a call_setting \<Rightarrow> nat" where
  "call_setting_kind (CallModel m) = 0"
| "call_setting_kind (CallTimeout d) = 1"
| "call_setting_kind (CallHeader n v) = 2"
| "call_setting_kind (CallExtraBody k v) = 3"
| "call_setting_kind (CallRetry r) = 4"

lemmas call_option_defs = call_model_def call_timeout_def call_add_header_def call_extra_body_def call_retry_def

interpretation call_settings: commuting call_setting_kind call_option_of
proof unfold_locales
  fix a b :: "'a call_setting" and s :: "'a call_options"
  assume "call_setting_kind a \<noteq> call_setting_kind b"
  then show "call_option_of a (call_option_of b s) = call_option_of b (call_option_of a s)"
    by (cases a; cases b) (simp_all add: call_option_defs)
qed

lemma collect_call_settings:
  "collect_call_options (map (\<lambda>x. Some (call_option_of x)) xs) = fold call_option_of xs no_call_options"
  by (simp add: collect_call_options_def fold_map comp_def)

text \<open>options of a call of different kinds may be given in any order: two lists with the same options of each kind
  in the same order record the same, so only the last model, timeout and policy and the order among headers and among
  extra members count.\<close>

theorem call_option_order:
  assumes "\<And>k. filter (\<lambda>a. call_setting_kind a = k) xs = filter (\<lambda>a. call_setting_kind a = k) ys"
  shows "collect_call_options (map (\<lambda>x. Some (call_option_of x)) xs) = collect_call_options (map (\<lambda>x. Some (call_option_of x)) ys)"
  by (simp add: collect_call_settings call_settings.order [OF assms])

theorem call_option_order_witness:
  "collect_call_options [Some (call_timeout 5), Some (call_model ''m'')] =
    collect_call_options [Some (call_model ''m''), Some (call_timeout 5) :: unit call_option option]"
  using call_option_order [of "[CallTimeout 5, CallModel ''m'' :: unit call_setting]" "[CallModel ''m'', CallTimeout 5]"]
  by simp

end
