(* ===== verification/Engine_Transport.thy ===== *)
theory Engine_Transport
  imports Sdk_Config "HOL-Library.Multiset"
begin

text \<open>
  A client's transport, \<open>internal/engine/transport.go\<close>: the caller's trace hooks composed and shielded for one request,
  so that a hook's panic never unwinds through \<open>net/http\<close> and none is lost, the context without \<open>httptrace\<close>'s values,
  and the closing of the transport, once. Every access to a shield's fields is under its mutex, so its operations are
  taken one at a time; what \<open>httptrace\<close> composes is written out.
\<close>

section \<open>Hooks\<close>

text \<open>A hook either returns or panics with a value, on a goroutine with a stack.\<close>

datatype ('v, 'r) hook_end = HookReturns 'r | HookPanics 'v bytes

type_synonym ('a, 'v, 'r) hook = "'a \<Rightarrow> ('v, 'r) hook_end"
type_synonym ('a, 'v, 'r) trace = "bytes \<Rightarrow> ('a, 'v, 'r) hook option"

definition hook_names :: "bytes list" where
  "hook_names =
     [''GetConn'', ''GotConn'', ''PutIdleConn'', ''GotFirstResponseByte'', ''Got100Continue'', ''Got1xxResponse'', ''DNSStart'', ''DNSDone'',
      ''ConnectStart'', ''ConnectDone'', ''TLSHandshakeStart'', ''TLSHandshakeDone'', ''WroteHeaderField'', ''WroteHeaders'',
      ''Wait100Continue'', ''WroteRequest'']"

text \<open>\<open>httptrace.WithClientTrace\<close>: the new trace's hook is called first, then the one already there.\<close>

definition compose_hook :: "('a, 'v, 'r) hook \<Rightarrow> ('a, 'v, 'r) hook \<Rightarrow> ('a, 'v, 'r) hook" where
  "compose_hook f g a = (case f a of HookPanics v st \<Rightarrow> HookPanics v st | HookReturns r \<Rightarrow> g a)"

definition compose_trace :: "('a, 'v, 'r) trace \<Rightarrow> ('a, 'v, 'r) trace \<Rightarrow> ('a, 'v, 'r) trace" where
  "compose_trace new old name =
     (case new name of
        None \<Rightarrow> old name
      | Some f \<Rightarrow> (case old name of None \<Rightarrow> Some f | Some g \<Rightarrow> Some (compose_hook f g)))"

definition caller_trace :: "('a, 'v, 'r) trace option \<Rightarrow> ('a, 'v, 'r) trace option \<Rightarrow> ('a, 'v, 'r) trace option" where
  "caller_trace mine on_ctx =
     (case on_ctx of
        None \<Rightarrow> mine
      | Some c \<Rightarrow> (case mine of None \<Rightarrow> Some c | Some t \<Rightarrow> Some (compose_trace t c)))"

text \<open>The keys of a context: the two \<open>httptrace\<close> sets, and any other.\<close>

datatype ctx_key = ClientEventKey | NetTraceKey | OtherKey nat

definition trace_keys :: "ctx_key set" where
  "trace_keys = {ClientEventKey, NetTraceKey}"

definition untraced_value :: "(ctx_key \<Rightarrow> 'x option) \<Rightarrow> ctx_key \<Rightarrow> 'x option" where
  "untraced_value ctx key = (if key \<in> trace_keys then None else ctx key)"

section \<open>The shield\<close>

record 'v shield =
  sh_returned :: bool
  sh_panicked :: bool
  sh_hook :: bytes
  sh_value :: "'v option"
  sh_stack :: bytes

definition fresh_shield :: "'v shield" where
  "fresh_shield = \<lparr>sh_returned = False, sh_panicked = False, sh_hook = [], sh_value = None, sh_stack = []\<rparr>"

text \<open>A WARN record about a hook's panic: its message, the hook and the stack, never the value.\<close>

datatype panic_msg = PanicLate | PanicAfterEarlier | PanicRaised | PanicReplaced

fun panic_text :: "panic_msg \<Rightarrow> bytes" where
  "panic_text PanicLate = ''transport: trace hook panic after the request returned, recovered''"
| "panic_text PanicAfterEarlier = ''transport: trace hook panic after an earlier one, recovered''"
| "panic_text PanicRaised = ''transport: trace hook panic, raised again on the caller''"
| "panic_text PanicReplaced = ''transport: trace hook panic replaced by a RoundTrip panic, recovered''"

type_synonym panic_log = "(panic_msg \<times> bytes \<times> bytes) list"

definition shield_recover :: "bytes \<Rightarrow> 'v \<Rightarrow> bytes \<Rightarrow> 'v shield \<Rightarrow> 'v shield \<times> panic_log" where
  "shield_recover hook v stack s =
     (let late = sh_returned s; first = (\<not> sh_panicked s) in
      (if \<not> late \<and> first then s\<lparr>sh_panicked := True, sh_hook := hook, sh_value := Some v, sh_stack := stack\<rparr> else s,
       if late then [(PanicLate, hook, stack)] else if \<not> first then [(PanicAfterEarlier, hook, stack)] else []))"

text \<open>A wrapped hook: what net/http gets back of a hook that panicked is the zero result.\<close>

definition shielded_hook :: "bytes \<Rightarrow> ('a, 'v, 'r) hook \<Rightarrow> 'r \<Rightarrow> 'a \<Rightarrow> 'v shield \<Rightarrow> 'r \<times> 'v shield \<times> panic_log" where
  "shielded_hook name h zero a s =
     (case h a of
        HookReturns r \<Rightarrow> (r, s, [])
      | HookPanics v stack \<Rightarrow> (case shield_recover name v stack s of (s', l) \<Rightarrow> (zero, s', l)))"

definition new_shield :: "('a, 'v, 'r) trace \<Rightarrow> bytes \<Rightarrow> ('r \<Rightarrow> 'a \<Rightarrow> 'v shield \<Rightarrow> 'r \<times> 'v shield \<times> panic_log) option" where
  "new_shield c name = (if name \<in> set hook_names then map_option (shielded_hook name) (c name) else None)"

text \<open>\<open>done\<close>: whether it closes the response's body, and what it panics with.\<close>

definition shield_done :: "'v shield \<Rightarrow> 'v shield \<times> panic_log \<times> 'v option" where
  "shield_done s =
     (s\<lparr>sh_returned := True\<rparr>,
      if \<not> sh_panicked s then [] else [(PanicRaised, sh_hook s, sh_stack s)],
      if \<not> sh_panicked s then None else sh_value s)"

definition mark_returned :: "'v shield \<Rightarrow> 'v shield \<times> panic_log" where
  "mark_returned s =
     (if sh_returned s then (s, [])
      else (s\<lparr>sh_returned := True\<rparr>, if sh_panicked s then [(PanicReplaced, sh_hook s, sh_stack s)] else []))"

section \<open>A round trip\<close>

text \<open>The hooks' panics in the order they take the mutex: before \<open>RoundTrip\<close> returned or panicked, and after it.\<close>

type_synonym 'v hook_panic = "bytes \<times> 'v \<times> bytes"

fun recover_all :: "'v hook_panic list \<Rightarrow> 'v shield \<Rightarrow> 'v shield \<times> panic_log" where
  "recover_all [] s = (s, [])"
| "recover_all ((hook, v, stack) # ps) s =
     (case shield_recover hook v stack s of
        (s1, l1) \<Rightarrow> (case recover_all ps s1 of (s2, l2) \<Rightarrow> (s2, l1 @ l2)))"

datatype ('v, 'x) trip_end = TripReturns 'x | TripPanics 'v

text \<open>\<open>Transport.RoundTrip\<close> under a shield: what reaches the caller, and whether the response's body was closed.\<close>

definition shielded_round_trip ::
  "'v hook_panic list \<Rightarrow> ('v, 'x) trip_end \<Rightarrow> 'v hook_panic list \<Rightarrow> ('v, 'x) trip_end \<times> bool \<times> panic_log" where
  "shielded_round_trip early result later =
     (case recover_all early fresh_shield of
        (s1, l1) \<Rightarrow>
          (case result of
             TripReturns x \<Rightarrow>
               (case shield_done s1 of
                  (s2, l2, raised) \<Rightarrow>
                    (case mark_returned s2 of
                       (s3, l3) \<Rightarrow>
                         (case raised of None \<Rightarrow> TripReturns x | Some v \<Rightarrow> TripPanics v, raised \<noteq> None,
                          l1 @ l2 @ l3 @ snd (recover_all later s3))))
           | TripPanics v \<Rightarrow>
               (case mark_returned s1 of (s2, l2) \<Rightarrow> (TripPanics v, False, l1 @ l2 @ snd (recover_all later s2)))))"

section \<open>Closing, counters and texts\<close>

text \<open>What the round tripper of \<open>WithRoundTripper\<close> is besides one: it closes idle connections, and it is an
  \<open>io.Closer\<close> with the error its \<open>Close\<close> returns.\<close>

record tripper_methods =
  tm_idler :: bool
  tm_closer :: "gerr option option"

datatype close_call = CloseIdleConnections | CloseTripper

record close_once =
  oc_done :: bool
  oc_err :: "gerr option"

definition transport_close :: "tripper_methods \<Rightarrow> engine_transport \<Rightarrow> close_once \<Rightarrow> close_once \<times> close_call list \<times> gerr option" where
  "transport_close tm t c =
     (if oc_done c then (c, [], oc_err c)
      else
        case et_tripper t of
          GateTripper g \<Rightarrow> (c\<lparr>oc_done := True\<rparr>, [CloseIdleConnections], oc_err c)
        | CallerTripper r \<Rightarrow>
            (let err = (case tm_closer tm of None \<Rightarrow> oc_err c | Some e \<Rightarrow> e) in
             (\<lparr>oc_done = True, oc_err = err\<rparr>,
              (if tm_idler tm then [CloseIdleConnections] else []) @ (if tm_closer tm \<noteq> None then [CloseTripper] else []), err)))"

definition transport_stats :: "engine_transport \<Rightarrow> 64 word \<Rightarrow> 64 word" where
  "transport_stats t dials = (case et_tripper t of CallerTripper r \<Rightarrow> 0 | GateTripper g \<Rightarrow> dials)"

definition transport_error_text :: "bytes list \<Rightarrow> bytes \<Rightarrow> bytes" where
  "transport_error_text creds text = safe_message (fst (redact creds text))"

section \<open>Every panic is accounted for\<close>

lemma recover_returned:
  "sh_returned s \<Longrightarrow> recover_all ps s = (s, map (\<lambda>(hook, v, stack). (PanicLate, hook, stack)) ps)"
  by (induction ps) (auto simp: shield_recover_def Let_def)

lemma recover_panicked:
  "\<not> sh_returned s \<Longrightarrow> sh_panicked s \<Longrightarrow>
     recover_all ps s = (s, map (\<lambda>(hook, v, stack). (PanicAfterEarlier, hook, stack)) ps)"
  by (induction ps) (auto simp: shield_recover_def Let_def)

lemma recover_fresh:
  "recover_all ((hook, v, stack) # ps) fresh_shield =
     (\<lparr>sh_returned = False, sh_panicked = True, sh_hook = hook, sh_value = Some v, sh_stack = stack\<rparr>,
      map (\<lambda>(hook, v, stack). (PanicAfterEarlier, hook, stack)) ps)"
  by (simp add: shield_recover_def fresh_shield_def recover_panicked Let_def)

lemma panic_log_snd [simp]:
  "map (snd \<circ> (\<lambda>(hook, v, stack). (k, hook, stack))) ps = map (\<lambda>(hook, v, stack). (hook, stack)) ps"
  by (induction ps) auto

lemmas shield_simps = shielded_round_trip_def shield_done_def mark_returned_def


end
