(* ===== verification/Codec_Root.thy ===== *)
theory Codec_Root
  imports Codec_Finish
begin

text \<open>
  The whole decode against its reference: what the traversal of a body's root object leaves in
  the visitor are the views of its members, and \<open>finish\<close> reports the failure, or builds the
  result, that the reference computes from the tree.
\<close>

section \<open>The root's members\<close>

lemma enter_root_inv: "root_inv m (strip (enter_root body m))"
  by (simp add: root_inv_def strip_def enter_root_def reset_def set_inv_def)

lemma enter_root_views:
  "model_view (strip (enter_root body m)) = Absent" "usage_view (strip (enter_root body m)) = Absent"
  "answers_view (strip (enter_root body m)) = (None, [])" "cards_view (strip (enter_root body m)) = Absent"
  by (simp_all add: strip_def enter_root_def reset_def model_view_def usage_view_def answers_view_def
      cards_view_def set_dict_def)

definition root_summary :: "mode \<Rightarrow> (bytes \<times> jtree) list \<Rightarrow> visitor \<Rightarrow> bool" where
  "root_summary m kvs v \<longleftrightarrow>
     root_inv m v \<and>
     (m = ModeSystemOne \<longrightarrow>
        model_view v = field_of ref_string kvs ''model'' \<and> usage_view v = field_of ref_usage kvs ''usage'' \<and>
        answers_view v = ref_entries kvs) \<and>
     (m = ModeModels \<longrightarrow> cards_view v = field_of ref_models kvs ''models'')"

lemma root_fold: "root_summary m kvs (fold member_core kvs (strip (enter_root body m)))"
proof (induction kvs rule: rev_induct)
  case Nil
  show ?case by (simp add: root_summary_def enter_root_inv enter_root_views field_of_def ref_entries_def)
next
  case (snoc kt kvs)
  obtain k t where kt: "kt = (k, t)" by (cases kt)
  let ?v = "fold member_core kvs (strip (enter_root body m))"
  from snoc have "root_inv m ?v" by (simp add: root_summary_def)
  from root_member [OF this, of k t] snoc show ?case
    by (cases m) (auto simp: root_summary_def root_views_of_def kt field_of_def ref_entries_def)
qed

text \<open>What \<open>finish\<close> reads of the visitor when the traversal has succeeded.\<close>

definition decoded :: "mode \<Rightarrow> (bytes \<times> jtree) list \<Rightarrow> visitor \<Rightarrow> bool" where
  "decoded m kvs v \<longleftrightarrow> root_summary m kvs (v\<lparr>v_stack := [CtrRoot]\<rparr>)"

lemma views_frame:
  "model_view (strip v) = model_view v" "usage_view (strip v) = usage_view v" "answers_view (strip v) = answers_view v"
  "cards_view (strip v) = cards_view v" "set_inv (strip v) = set_inv v"
  "model_view (v\<lparr>v_stack := s\<rparr>) = model_view v" "usage_view (v\<lparr>v_stack := s\<rparr>) = usage_view v"
  "answers_view (v\<lparr>v_stack := s\<rparr>) = answers_view v" "cards_view (v\<lparr>v_stack := s\<rparr>) = cards_view v"
  "set_inv (v\<lparr>v_stack := s\<rparr>) = set_inv v"
  by (simp_all add: strip_def model_view_def usage_view_def answers_view_def cards_view_def set_dict_def set_inv_def
      in_view_def out_view_def)

lemma strip_errors:
  "v_model_err (strip v) = v_model_err v" "v_has_model (strip v) = v_has_model v"
  "v_usage_err (strip v) = v_usage_err v" "v_has_usage (strip v) = v_has_usage v"
  by (simp_all add: strip_def)

lemma root_done:
  assumes "run (events (TObj kvs)) (reset body m) = Inr v"
  shows "decoded m kvs v"
proof -
  from assms obtain w where w: "run (member_events kvs) (enter_root body m) = Inr w" "end_value w = Inr v"
    by (auto simp: root_run res_simps simp del: events.simps)
  from root_members_done(2) [OF w(1)] w(2) have v: "v = w\<lparr>v_stack := []\<rparr>" by simp
  have "strip w = fold member_core kvs (strip (enter_root body m))"
    using run_core [OF w(1)] by (simp add: member_events_def fold_members)
  with root_fold [of m kvs body] have "root_summary m kvs (strip w)" by simp
  then show ?thesis
    by (simp add: decoded_def v root_summary_def root_inv_def views_frame strip_errors)
qed

lemma root_decides:
  "case root_error body (TObj kvs) of
     Some r \<Rightarrow> run (events (TObj kvs)) (reset body m) = Inl (Refused r)
   | None \<Rightarrow> \<exists>v. run (events (TObj kvs)) (reset body m) = Inr v"
proof -
  have e: "root_error body (TObj kvs) = first_some (map (member_error body 1) kvs)"
    by (simp add: root_error_def tree_error_obj max_nesting_def del: tree_error.simps)
  show ?thesis
  proof (cases "first_some (map (member_error body 1) kvs)")
    case None
    with root_members_run [of body kvs m] obtain w where w: "run (member_events kvs) (enter_root body m) = Inr w"
      by (auto simp: value_ok_None)
    with root_members_done(2) [OF w] None show ?thesis by (simp add: e root_run del: events.simps)
  next
    case (Some r)
    with root_members_run [of body kvs m] show ?thesis by (simp add: e root_run value_ok_Some del: events.simps)
  qed
qed

section \<open>What finish reads\<close>

lemma decoded_answers:
  "decoded ModeSystemOne kvs v \<Longrightarrow> v_answers_err v = fst (ref_entries kvs) \<and> set_dict v = snd (ref_entries kvs)"
  unfolding decoded_def root_summary_def views_frame answers_view_def by (auto simp: set_dict_def dest: sym)

lemma decoded_fields:
  assumes "decoded ModeSystemOne kvs v"
  shows "field_of ref_string kvs ''model'' = model_view v" "field_of ref_usage kvs ''usage'' = usage_view v"
    "v_model_err v = None \<or> v_model_err v = top_pend ''model'' [] ErrNotString \<and> v_has_model v"
    "v_usage_err v = None \<or> v_usage_err v = top_pend ''usage'' [] ErrNotObject \<and> v_has_usage v"
  using assms by (simp_all add: decoded_def root_summary_def root_inv_def views_frame)

lemma ref_top_eq:
  assumes "decoded ModeSystemOne kvs v"
  shows "ref_top kvs =
    (case model_view v of
       Absent \<Rightarrow> top_pend ''model'' [] ErrMissing
     | Wrong \<Rightarrow> top_pend ''model'' [] ErrNotString
     | Val m \<Rightarrow>
         (case usage_view v of
            Absent \<Rightarrow> top_pend ''usage'' [] ErrMissing
          | Wrong \<Rightarrow> top_pend ''usage'' [] ErrNotObject
          | Val ((a, ha, in_bad), (b, hb, out_bad)) \<Rightarrow>
              if in_bad then top_pend ''usage'' ''input_tokens'' ErrNotCount
              else if out_bad then top_pend ''usage'' ''output_tokens'' ErrNotCount
              else v_answers_err v))"
  unfolding ref_top_def decoded_fields(1,2) [OF assms] decoded_answers [OF assms, THEN conjunct1] ..

lemma decoded_top:
  assumes d: "decoded ModeSystemOne kvs v"
  shows "top_error v = ref_top kvs"
proof -
  from decoded_fields(3,4) [OF d] show ?thesis
    unfolding ref_top_eq [OF d] top_error_def model_view_def usage_view_def in_view_def out_view_def
    by (cases "v_has_model v"; cases "v_has_usage v"; cases "v_model_err v"; cases "v_usage_err v") simp_all
qed

lemma decoded_values:
  assumes d: "decoded ModeSystemOne kvs v" and ok: "ref_top kvs = None"
  shows "field_of ref_string kvs ''model'' = Val (v_model v)" "ref_usage_of kvs = v_usage v"
proof -
  have "v_has_model v" "v_has_usage v" "v_model_err v = None" "v_usage_err v = None"
    using ok decoded_top [OF d] by (auto simp: top_error_def top_pend_def simp del: not_None_eq split: if_splits)
  then show "field_of ref_string kvs ''model'' = Val (v_model v)" "ref_usage_of kvs = v_usage v"
    unfolding ref_usage_of_def decoded_fields(1,2) [OF d]
    by (simp_all add: model_view_def usage_view_def in_view_def out_view_def)
qed

lemma decoded_entries:
  assumes "decoded ModeSystemOne kvs v"
  shows "map snd (snd (ref_entries kvs)) = map clean (v_set v)"
  unfolding decoded_answers [OF assms, THEN conjunct2, symmetric] by (simp add: set_dict_def)

section \<open>The decoder against the reference\<close>

text \<open>A body whose traversal succeeds is decoded to what the reference computes from its tree, where
  every member, every answer and every level is the last of its name at the position of the
  first: the same skipped answers and the same result, or the same first failure in the
  reference's order. Interning against the question set changes nothing.\<close>

lemma finish_reference:
  assumes d: "decoded ModeSystemOne kvs v" and q: "question_set_ok q"
  shows "finish_decode api body q model v = ref_decode (lazy_pass api body v) kvs"
proof -
  note es = decoded_entries [OF d]
  note pre = pre_pass_clean [of "v_set v" no_skipped, folded es]
  have errs: "first_some (map en_err (map snd (snd (ref_entries kvs)))) = entries_error (v_set v)"
    unfolding es clean_err entries_error_def ..
  have "ref_result rb kvs = result_of q model rb v" if "ref_top kvs = None" "entries_error (v_set v) = None" for rb
  proof -
    from that(2) have "\<forall>e \<in> set (v_set v). clean e = e" using clean_ok map_eq_conv [of clean "v_set v" "\<lambda>e. e"]
      by (simp add: entries_error_def)
    then have "map (\<lambda>e. (en_name e, e)) (v_set v) = set_dict v" by (simp add: set_dict_def)
    also note decoded_answers [OF d, THEN conjunct2]
    finally have "map (\<lambda>e. (en_name e, e)) (v_set v) = snd (ref_entries kvs)" .
    from result_pairs [OF q this] that(1) decoded_values [OF d] show ?thesis
      by (simp add: ref_result_def result_of_def intern_model_def)
  qed
  moreover have "map snd (snd (ref_entries kvs)) = v_set v" if "entries_error (v_set v) = None"
    using es that by (simp add: clean_ok entries_error_def)
  moreover obtain s f where p: "pre_pass (v_set v) no_skipped = (s, f)" by (cases "pre_pass (v_set v) no_skipped")
  ultimately show ?thesis
    unfolding finish_decode_def ref_decode_def Let_def pre errs decoded_top [OF d] p
    by (cases f; cases "ref_top kvs"; cases "entries_error (v_set v)") simp_all
qed

lemma finish_models_reference:
  assumes "decoded ModeModels kvs v"
  shows "finish_models v =
    (case field_of ref_models kvs ''models'' of
       Val r \<Rightarrow> r
     | _ \<Rightarrow> Inl (top_fail ''models'' [] ErrMissing))"
proof -
  from assms have "cards_view v = field_of ref_models kvs ''models''"
    by (simp add: decoded_def root_summary_def views_frame)
  then show ?thesis
    by (cases "v_cards_err v") (auto simp: finish_models_def cards_view_def top_fail_def split: field.splits if_splits)
qed

lemma plain_string: "list_all (\<lambda>c. byte c < 0x80 \<and> 0x20 \<le> byte c) s \<Longrightarrow> string_error body s = None"
  by (auto simp: string_error_def valid_string_iff valid_utf8_ascii_all list_all_iff list_ex_iff)

section \<open>Properties\<close>

text \<open>the answers of unknown types are reported in order, all of them counted and the first
  eight named.\<close>

theorem skipped_first_eight:
  assumes "pre_pass es no_skipped = (s, None)"
  defines "unknown \<equiv> filter (\<lambda>e. en_err e = None \<and> \<not> known e) es"
  shows "sk_count s = length unknown \<and>
    skipped_named s = map (\<lambda>e. (en_name e, en_typ e)) (take max_skipped unknown)"
proof -
  let ?u = "filter (\<lambda>e. en_err e = None \<and> \<not> known e)"
  have "sk_count s = sk_count s0 + length (?u es) \<and>
      sk_first s = map (\<lambda>e. (en_name e, en_typ e)) (take max_skipped (seen @ ?u es))"
    if "pre_pass es s0 = (s, None)" "sk_count s0 = length seen"
      "sk_first s0 = map (\<lambda>e. (en_name e, en_typ e)) (take max_skipped seen)" for s0 seen
    using that
  proof (induction es arbitrary: s0 seen)
    case (Cons e es)
    show ?case
    proof (cases "en_err e = None \<and> \<not> known e")
      case True
      then have "pre_pass es (skipped_add (en_name e) (en_typ e) s0) = (s, None)"
        using Cons.prems(1) by (simp add: known_def)
      from Cons.IH [OF this, of "seen @ [e]"] Cons.prems(2,3) True show ?thesis
        by (auto simp: skipped_add_def)
    next
      case False
      then have "pre_pass es s0 = (s, None)"
        using Cons.prems(1) by (auto simp: known_def split: option.splits if_splits)
      from Cons.IH [OF this Cons.prems(2,3)] False show ?thesis by auto
    qed
  qed simp
  from this [OF assms(1), of "[]"] show ?thesis
    by (simp add: no_skipped_def unknown_def skipped_named_def take_map min_def)
qed

theorem skipped_first_eight_witness:
  "(let e = \<lambda>n. (new_entry n)\<lparr>en_typ := ''t''\<rparr>; es = map e [''a'', ''b'', ''c'', ''d'', ''e'', ''f'', ''g'', ''h'', ''i''];
        s = fst (pre_pass es no_skipped) in
      sk_count s = 9 \<and> last (skipped_named s) = (''h'', ''t''))"
proof -
  let ?es = "map (\<lambda>n. (new_entry n)\<lparr>en_typ := ''t''\<rparr>) [''a'', ''b'', ''c'', ''d'', ''e'', ''f'', ''g'', ''h'', ''i'']"
  have none: "snd (pre_pass ?es no_skipped) = None" by code_simp
  then have "pre_pass ?es no_skipped = (fst (pre_pass ?es no_skipped), None)" by (metis prod.collapse)
  from skipped_first_eight [OF this] show ?thesis
    by (simp add: Let_def new_entry_def known_def zero_answer_def max_skipped_def)
qed

end
