(* ===== verification/Codec_Traverse.thy ===== *)
theory Codec_Traverse
  imports Codec_Root
begin

text \<open>
  The traversal of a body, \<open>internal/codec/decode.go\<close>: the cut just before the root's closing
  brace that lets one scan decide, the full traversal it falls back to with its trailing-data
  check, and the two entry points. sonic is a parameter (\<open>sonic_api\<close>): what \<open>ast.Preorder\<close>
  hands a visitor that never refuses and the error it ends with, \<open>decoder.Skip\<close>, and the lazy
  nodes.
\<close>

section \<open>The cut\<close>

definition skip_depth :: nat where
  "skip_depth = max_nesting - 1"

definition min_sonic_input :: nat where
  "min_sonic_input = 4"

text \<open>\<open>padShort\<close> returns the same bytes; what a copy adds is room after them.\<close>

definition pad_room :: "bytes \<Rightarrow> nat" where
  "pad_room body = (if body = [] \<or> min_sonic_input \<le> length body then 0 else 2 * min_sonic_input - length body)"

definition last_non_space :: "bytes \<Rightarrow> nat option" where
  "last_non_space b = (case dropWhile is_space (rev b) of [] \<Rightarrow> None | r \<Rightarrow> Some (length r - 1))"

text \<open>\<open>escapedQuotes\<close> from a backslash on, one run of backslashes at a time.\<close>

function escaped_quotes :: "bytes \<Rightarrow> nat" where
  "escaped_quotes b =
     (let r = dropWhile (\<lambda>c. c = backslash) b;
          n = (if odd (length b - length r) \<and> r \<noteq> [] \<and> hd r = quote_char then 1 else 0) in
      case dropWhile (\<lambda>c. c \<noteq> backslash) r of
        [] \<Rightarrow> n
      | d # ds \<Rightarrow> n + escaped_quotes (d # ds))"
  by pat_completeness auto

lemma drop_runs_shorter:
  assumes "dropWhile (\<lambda>c. c \<noteq> backslash) (dropWhile (\<lambda>c. c = backslash) b) = d # ds"
  shows "length (d # ds) < length b"
proof (cases b)
  case (Cons c cs)
  have le: "length (dropWhile P xs) \<le> length xs" for P and xs :: bytes by (induction xs) auto
  show ?thesis
  proof (cases "c = backslash")
    case True
    with Cons le [of "\<lambda>c. c \<noteq> backslash" "dropWhile (\<lambda>c. c = backslash) cs"] le [of "\<lambda>c. c = backslash" cs] assms show ?thesis by simp
  next
    case False
    with Cons assms le [of "\<lambda>c. c \<noteq> backslash" cs] show ?thesis by simp
  qed
qed (use assms in simp)

termination escaped_quotes
  by (relation "measure length") (use drop_runs_shorter in \<open>simp_all add: Let_def\<close>)

declare escaped_quotes.simps [simp del]

fun after_u :: "bytes \<Rightarrow> bytes option" where
  "after_u (c # d # cs) = (if c = backslash \<and> d = CHR ''u'' then Some cs else after_u (d # cs))"
| "after_u cs = None"

lemma after_u_shorter: "after_u b = Some r \<Longrightarrow> length r < length b"
  by (induction b rule: after_u.induct) (auto split: if_splits)

function u_escapes_complete :: "bytes \<Rightarrow> bool" where
  "u_escapes_complete b =
     (case after_u b of
        None \<Rightarrow> True
      | Some r \<Rightarrow>
          if length r < 4 \<or> \<not> is_hex (r ! 0) \<or> \<not> is_hex (r ! 1) \<or> \<not> is_hex (r ! 2) \<or> \<not> is_hex (r ! 3) then False
          else u_escapes_complete (drop 4 r))"
  by pat_completeness auto
termination
  by (relation "measure length") (auto dest: after_u_shorter)

declare u_escapes_complete.simps [simp del]

definition ends_value :: "char \<Rightarrow> bool" where
  "ends_value c \<longleftrightarrow> c = CHR ''{'' \<or> c = CHR ''}'' \<or> c = CHR '']'' \<or> c = quote_char"

definition cut_point :: "bytes \<Rightarrow> nat option" where
  "cut_point body =
     (case last_non_space body of
        None \<Rightarrow> None
      | Some n \<Rightarrow>
          if n < min_sonic_input \<or> body ! n \<noteq> CHR ''}'' then None
          else
            let cut = take n body in
            (case last_non_space cut of
               None \<Rightarrow> None
             | Some l \<Rightarrow>
                 if \<not> ends_value (cut ! l) then None
                 else
                   let quotes = count_list cut quote_char in
                   (case find_index (\<lambda>c. c = backslash) cut of
                      None \<Rightarrow> if odd quotes then None else Some n
                    | Some first \<Rightarrow>
                        if \<not> u_escapes_complete (drop first cut) then None
                        else if odd (quotes - escaped_quotes (drop first cut)) then None else Some n)))"

section \<open>sonic\<close>

record 'n sonic_api =
  sa_preorder :: "bytes \<Rightarrow> event list \<times> bytes option"
  sa_skip :: "bytes \<Rightarrow> int \<times> int"
  sa_nodes :: "'n node_api"

text \<open>\<open>ast.Preorder\<close> with the visitor: it stops at the first event the visitor refuses, with the
  visitor as it was, or at its own error.\<close>

fun run_partial :: "event list \<Rightarrow> visitor \<Rightarrow> visitor \<times> step_error option" where
  "run_partial [] v = (v, None)"
| "run_partial (e # es) v = (case step e v of Inl x \<Rightarrow> (v, Some x) | Inr w \<Rightarrow> run_partial es w)"

datatype preorder_error = Visitor step_error | Sonic bytes

definition preorder :: "'n sonic_api \<Rightarrow> bytes \<Rightarrow> visitor \<Rightarrow> visitor \<times> preorder_error option" where
  "preorder api s v =
     (case sa_preorder api s of
        (es, stop) \<Rightarrow>
          case run_partial es v of
            (w, Some x) \<Rightarrow> (w, Some (Visitor x))
          | (w, None) \<Rightarrow> (w, map_option Sonic stop))"

definition cut_error :: "'n sonic_api \<Rightarrow> preorder_error option" where
  "cut_error api = snd (preorder api ''{'' (reset ''{'' ModeSystemOne))"

fun refused :: "preorder_error \<Rightarrow> step_error" where
  "refused (Visitor x) = x"
| "refused (Sonic e) = Refused (ErrSonic e)"

section \<open>The traversal\<close>

definition trailing :: "'n sonic_api \<Rightarrow> bytes \<Rightarrow> step_error option" where
  "trailing api body =
     (case sa_skip api body of
        (start, stop) \<Rightarrow>
          if start < 0 \<or> int (length body) < stop then Some (Refused ErrNotJSON)
          else if stop < 0 then Some Panic
          else if list_all is_space (drop (nat stop) body) then None else Some (Refused ErrTrailing))"

definition traverse_whole :: "'n sonic_api \<Rightarrow> bytes \<Rightarrow> mode \<Rightarrow> outcome" where
  "traverse_whole api body m =
     (case preorder api body (reset body m) of
        (v, Some e) \<Rightarrow> Inl (refused e)
      | (v, None) \<Rightarrow> (case trailing api body of Some e \<Rightarrow> Inl e | None \<Rightarrow> Inr v))"

definition traverse :: "'n sonic_api \<Rightarrow> bytes \<Rightarrow> mode \<Rightarrow> outcome" where
  "traverse api body m =
     (case cut_point body of
        None \<Rightarrow> traverse_whole api body m
      | Some n \<Rightarrow>
          (case preorder api (take n body) (reset body m) of
             (v, e) \<Rightarrow>
               if e \<noteq> None \<and> e = cut_error api \<and> between_root_members v \<and> v_peak v \<le> skip_depth
               then end_value v
               else traverse_whole api body m))"

text \<open>\<open>DecodeError.Error\<close>; sonic's own error is its text, for a syntax error its position and
  message only.\<close>

fun reason_text :: "reason \<Rightarrow> bytes" where
  "reason_text ErrNotJSON = ''not a JSON value''"
| "reason_text ErrTrailing = ''data after the top-level value''"
| "reason_text ErrRootNotObject = ''the response is not a JSON object''"
| "reason_text ErrUTF8 = ''invalid UTF-8 in a string''"
| "reason_text ErrRawControl = ''raw control character in a string''"
| "reason_text ErrDepth = ''nested more than 4096 containers deep''"
| "reason_text ErrReadDepth = ''a container the decoder reads is nested too deep''"
| "reason_text ErrLazyMissed = ''a structured legend level was not found by the second pass''"
| "reason_text ErrMissing = ''missing''"
| "reason_text ErrNotString = ''not a string''"
| "reason_text ErrNotNumber = ''not a finite number''"
| "reason_text ErrNotObject = ''not an object''"
| "reason_text ErrNotArray = ''not an array''"
| "reason_text ErrNotCount = ''not an integer from 0 to 2^64-1''"
| "reason_text ErrNotLevel = ''not a level: want [+]digits up to 2^32-1''"
| "reason_text ErrLegendValue = ''not a string, an object or an array''"
| "reason_text (ErrSonic e) = e"

definition decode_error_text :: "failure \<Rightarrow> bytes" where
  "decode_error_text f =
     (if fp_top (fst f) = [] then ''invalid JSON: '' else ''invalid response data: '') @ reason_text (snd f)"

text \<open>\<open>DecodeSystemOne\<close> and \<open>DecodeModels\<close>: \<open>None\<close> is a panic.\<close>

definition decode_system_one ::
  "'n sonic_api \<Rightarrow> bytes \<Rightarrow> prepared option \<Rightarrow> bytes \<Rightarrow> (skipped \<times> (failure + system_one_result)) option" where
  "decode_system_one api body q model =
     (case traverse api body ModeSystemOne of
        Inl Panic \<Rightarrow> None
      | Inl (Refused r) \<Rightarrow> Some (no_skipped, Inl (json_fail r))
      | Inr v \<Rightarrow> Some (finish_decode (sa_nodes api) body q model v))"

definition decode_models :: "'n sonic_api \<Rightarrow> bytes \<Rightarrow> (failure + model_card list) option" where
  "decode_models api body =
     (case traverse api body ModeModels of
        Inl Panic \<Rightarrow> None
      | Inl (Refused r) \<Rightarrow> Some (Inl (json_fail r))
      | Inr v \<Rightarrow> Some (finish_models v))"

section \<open>Quotes and strings\<close>

text \<open>The scanner's view of a text: outside strings, inside one, or after a backslash inside one.\<close>

datatype place_in = Outside | Inside | Escaped

fun scan_step :: "place_in \<Rightarrow> char \<Rightarrow> place_in" where
  "scan_step Outside c = (if c = quote_char then Inside else Outside)"
| "scan_step Inside c = (if c = quote_char then Outside else if c = backslash then Escaped else Inside)"
| "scan_step Escaped c = Inside"

fun slash_outside :: "place_in \<Rightarrow> bytes \<Rightarrow> bool" where
  "slash_outside p [] \<longleftrightarrow> False"
| "slash_outside p (c # cs) \<longleftrightarrow> p = Outside \<and> c = backslash \<or> slash_outside (scan_step p c) cs"

text \<open>The escaped quotes counted in one pass, with the parity of the run of backslashes.\<close>

fun escaped_from :: "bool \<Rightarrow> bytes \<Rightarrow> nat" where
  "escaped_from p [] = 0"
| "escaped_from p (c # cs) =
     (if c = backslash then escaped_from (\<not> p) cs
      else (if p \<and> c = quote_char then 1 else 0) + escaped_from False cs)"

lemma escaped_run:
  "escaped_from p b =
     (let r = dropWhile (\<lambda>c. c = backslash) b in
      (if (odd (length b - length r) \<noteq> p) \<and> r \<noteq> [] \<and> hd r = quote_char then 1 else 0) +
      escaped_from False (tl r))"
proof (induction b arbitrary: p)
  case (Cons c cs)
  have "length (dropWhile (\<lambda>c. c = backslash) cs) \<le> length cs" by (induction cs) auto
  then show ?case using Cons.IH [of "\<not> p"] by (auto simp: Let_def Suc_diff_le)
qed simp

lemma escaped_skip: "escaped_from False b = escaped_from False (dropWhile (\<lambda>c. c \<noteq> backslash) b)"
  by (induction b) auto

lemma escaped_quotes_eq: "escaped_quotes b = escaped_from False b"
proof (induction b rule: escaped_quotes.induct)
  case (1 b)
  define r where "r = dropWhile (\<lambda>c. c = backslash) b"
  have hd: "r \<noteq> [] \<Longrightarrow> hd r \<noteq> backslash" unfolding r_def by (rule hd_dropWhile)
  have "escaped_from False (tl r) = escaped_from False (dropWhile (\<lambda>c. c \<noteq> backslash) r)"
    using hd escaped_skip [of "tl r"] by (cases r) auto
  then have run: "escaped_from False b =
      (if odd (length b - length r) \<and> r \<noteq> [] \<and> hd r = quote_char then 1 else 0) +
      escaped_from False (dropWhile (\<lambda>c. c \<noteq> backslash) r)"
    using escaped_run [of False b] by (simp add: Let_def r_def)
  show ?case
  proof (cases "dropWhile (\<lambda>c. c \<noteq> backslash) r")
    case Nil
    with run show ?thesis
      by (subst escaped_quotes.simps) (simp add: Let_def r_def [symmetric] del: dropWhile_eq_Nil_conv)
  next
    case (Cons d ds)
    from 1 [OF r_def refl Cons] Cons run show ?thesis
      by (subst escaped_quotes.simps) (simp add: Let_def r_def [symmetric] del: escaped_from.simps)
  qed
qed

lemma escaped_none: "backslash \<notin> set b \<Longrightarrow> escaped_from False b = 0"
  by (induction b) auto

lemma escaped_le: "escaped_from p b \<le> count_list b quote_char"
  by (induction p b rule: escaped_from.induct) auto

lemma scan_parity:
  "\<not> slash_outside p b \<Longrightarrow>
   (foldl scan_step p b = Outside) = (even (count_list b quote_char + escaped_from (p = Escaped) b) = (p = Outside))"
proof (induction b arbitrary: p)
  case (Cons c cs)
  from Cons.prems have "\<not> slash_outside (scan_step p c) cs" by simp
  from Cons.IH [OF this] Cons.prems show ?case
    by (cases p) auto
qed simp

lemma drop_find: "find_index P b = Some i \<Longrightarrow> drop i b = dropWhile (\<lambda>c. \<not> P c) b"
  by (induction b arbitrary: i) (auto split: if_splits)

lemma after_u_None: "after_u b = None \<Longrightarrow> Suc i < length b \<Longrightarrow> \<not> (b ! i = backslash \<and> b ! Suc i = CHR ''u'')"
proof (induction b arbitrary: i rule: after_u.induct)
  case (1 c d cs)
  then show ?case by (cases i) (auto split: if_splits)
qed simp_all

lemma after_u_Some:
  "after_u b = Some r \<Longrightarrow> \<exists>i. Suc i < length b \<and> b ! i = backslash \<and> b ! Suc i = CHR ''u'' \<and> r = drop (i + 2) b \<and>
     (\<forall>j < i. \<not> (b ! j = backslash \<and> b ! Suc j = CHR ''u''))"
proof (induction b arbitrary: r rule: after_u.induct)
  case (1 c d cs)
  show ?case
  proof (cases "c = backslash \<and> d = CHR ''u''")
    case True
    with 1 show ?thesis by (intro exI [of _ 0]) auto
  next
    case False
    with 1 obtain i where "Suc i < length (d # cs)" "(d # cs) ! i = backslash" "(d # cs) ! Suc i = CHR ''u''"
      "r = drop (i + 2) (d # cs)" "\<forall>j < i. \<not> ((d # cs) ! j = backslash \<and> (d # cs) ! Suc j = CHR ''u'')" by auto
    with False show ?thesis by (intro exI [of _ "Suc i"]) (auto simp: less_Suc_eq_0_disj)
  qed
qed simp_all

definition u_complete_at :: "bytes \<Rightarrow> nat \<Rightarrow> bool" where
  "u_complete_at b i \<longleftrightarrow> i + 6 \<le> length b \<and> (\<forall>k < 4. is_hex (b ! (i + 2 + k)))"

lemma hex_not_slash: "is_hex c \<Longrightarrow> c \<noteq> backslash"
  by (auto simp: is_hex_def is_digit_def byte_between_def)

lemma u_escapes_all:
  "u_escapes_complete b \<Longrightarrow> Suc i < length b \<Longrightarrow> b ! i = backslash \<Longrightarrow> b ! Suc i = CHR ''u'' \<Longrightarrow> u_complete_at b i"
proof (induction b arbitrary: i rule: u_escapes_complete.induct)
  case (1 b)
  show ?case
  proof (cases "after_u b")
    case None
    from after_u_None [OF this 1(3)] 1(4,5) show ?thesis by simp
  next
    case (Some r)
    from after_u_Some [OF this] obtain j where j: "Suc j < length b" "b ! j = backslash" "b ! Suc j = CHR ''u''"
      "r = drop (j + 2) b" "\<forall>k < j. \<not> (b ! k = backslash \<and> b ! Suc k = CHR ''u'')" by blast
    from "1.prems"(1) Some have r: "4 \<le> length r" "is_hex (r ! 0)" "is_hex (r ! 1)" "is_hex (r ! 2)" "is_hex (r ! 3)"
      "u_escapes_complete (drop 4 r)"
      by (subst (asm) u_escapes_complete.simps, simp split: if_splits)+
    have four: "k < 4 \<Longrightarrow> is_hex (b ! (j + 2 + k))" for k
      using r(1-5) j(1,4) by (auto simp: less_Suc_eq numeral_eq_Suc nth_drop)
    have len: "j + 6 \<le> length b" using r(1) j(1,4) by simp
    from j(5) "1.prems"(3,4) have le: "j \<le> i" by (metis not_le)
    show ?thesis
    proof (cases "j + 6 \<le> i")
      case True
      define k where "k = i - (j + 6)"
      with True have k: "i = j + 6 + k" by simp
      have d: "drop 4 r = drop (j + 6) b" by (simp add: j(4) add.commute)
      have nth: "drop 4 r ! n = b ! (j + 6 + n)" for n using len by (simp add: d)
      from "1.IH" [OF Some _ r(6), of k] r(1-5) have "u_complete_at (drop 4 r) k"
        using "1.prems"(2-4) by (simp add: nth k d)
      then show ?thesis using len unfolding u_complete_at_def nth by (auto simp: d k ac_simps)
    next
      case False
      have "i = j"
      proof (rule ccontr)
        assume "i \<noteq> j"
        moreover have "i \<noteq> Suc j" using "1.prems"(3) j(3) by auto
        ultimately have "i = j + 2 + (i - j - 2)" "i - j - 2 < 4" using le False by simp_all
        with four hex_not_slash "1.prems"(3) show False by metis
      qed
      with len four show ?thesis by (simp add: u_complete_at_def)
    qed
  qed
qed

lemma after_u_skip: "after_u (dropWhile (\<lambda>c. c \<noteq> backslash) b) = after_u b"
  by (induction b rule: after_u.induct) auto

lemma u_escapes_skip: "u_escapes_complete (dropWhile (\<lambda>c. c \<noteq> backslash) b) = u_escapes_complete b"
  by (subst (1 2) u_escapes_complete.simps) (simp add: after_u_skip)

section \<open>Properties\<close>

text \<open>C6: the cut stands at the root's closing brace and outside every string. It is the last byte
  that is not white space, it is a brace, and at least four bytes come before it; unless the body
  has a backslash outside its strings, which no JSON text has, the scanner is outside every string
  there, although the code only counts quotes and runs of backslashes; and each escape of four
  hexadecimal digits is complete before it.\<close>

theorem cut_point_outside_strings:
  assumes cut: "cut_point body = Some n"
  shows "n < length body \<and> body ! n = CHR ''}'' \<and> list_all is_space (drop (Suc n) body) \<and> min_sonic_input \<le> n \<and>
    (\<not> slash_outside Outside (take n body) \<longrightarrow> foldl scan_step Outside (take n body) = Outside) \<and>
    (\<forall>i. Suc i < n \<longrightarrow> body ! i = backslash \<longrightarrow> body ! Suc i = CHR ''u'' \<longrightarrow> u_complete_at (take n body) i)"
proof -
  let ?c = "take n body"
  from cut have last: "last_non_space body = Some n" and brace: "body ! n = CHR ''}''" and four: "min_sonic_input \<le> n"
    by (auto simp: cut_point_def Let_def split: option.splits if_splits)
  from last obtain d ds where ds: "dropWhile is_space (rev body) = d # ds" "n = length ds"
    by (auto simp: last_non_space_def split: list.splits)
  define w where "w = takeWhile is_space (rev body)"
  have "rev body = w @ d # ds" using ds(1) takeWhile_dropWhile_id [of is_space "rev body"] by (simp add: w_def)
  then have "body = rev (w @ d # ds)" by (metis rev_rev_ident)
  then have body: "body = rev ds @ d # rev w" by simp
  have "list_all is_space w" unfolding w_def list_all_iff using set_takeWhileD by fast
  with body ds(2) have pos: "n < length body" "list_all is_space (drop (Suc n) body)" by (simp_all add: list_all_iff)
  have quotes: "even (count_list ?c quote_char + escaped_from False ?c)"
    and escapes: "backslash \<in> set ?c \<Longrightarrow> u_escapes_complete ?c"
  proof -
    let ?f = "find_index (\<lambda>c. c = backslash) ?c"
    have "even (count_list ?c quote_char + escaped_from False ?c) \<and>
      (backslash \<in> set ?c \<longrightarrow> u_escapes_complete ?c)"
    proof (cases ?f)
      case None
      then have "backslash \<notin> set ?c" by (auto simp: find_index_None)
      moreover from this have "escaped_from False ?c = 0" by (rule escaped_none)
      ultimately show ?thesis using cut last None four brace
        by (auto simp: cut_point_def Let_def split: option.splits if_splits)
    next
      case (Some i)
      from drop_find [OF this] have d: "drop i ?c = dropWhile (\<lambda>c. c \<noteq> backslash) ?c" .
      from Some cut last four brace have "even (count_list ?c quote_char - escaped_quotes (drop i ?c))"
        "u_escapes_complete (drop i ?c)"
        by (auto simp: cut_point_def Let_def split: option.splits if_splits)
      then show ?thesis using escaped_le [of False ?c] unfolding d escaped_quotes_eq escaped_skip [symmetric] u_escapes_skip
        by simp
    qed
    then show "even (count_list ?c quote_char + escaped_from False ?c)"
      "backslash \<in> set ?c \<Longrightarrow> u_escapes_complete ?c" by simp_all
  qed
  have "u_complete_at ?c i" if i: "Suc i < n" "body ! i = backslash" "body ! Suc i = CHR ''u''" for i
  proof -
    from i pos(1) have c: "Suc i < length ?c" "?c ! i = backslash" "?c ! Suc i = CHR ''u''" by simp_all
    then have "backslash \<in> set ?c" by (metis Suc_lessD nth_mem)
    from u_escapes_all [OF escapes [OF this] c] show ?thesis .
  qed
  moreover from quotes scan_parity [of Outside ?c]
  have "\<not> slash_outside Outside ?c \<longrightarrow> foldl scan_step Outside ?c = Outside" by simp
  ultimately show ?thesis using pos brace four by blast
qed

theorem cut_point_outside_strings_witness:
  "foldl scan_step Outside (take 8 (''{'' @ [quote_char] @ ''a'' @ [backslash, quote_char] @ ''b'' @ [quote_char] @ '' }'')) = Outside"
proof -
  let ?b = "''{'' @ [quote_char] @ ''a'' @ [backslash, quote_char] @ ''b'' @ [quote_char] @ '' }''"
  have "cut_point ?b = Some 8" by code_simp
  from cut_point_outside_strings [OF this] have "\<not> slash_outside Outside (take 8 ?b) \<longrightarrow>
      foldl scan_step Outside (take 8 ?b) = Outside" by blast
  moreover have "\<not> slash_outside Outside (take 8 ?b)" by code_simp
  ultimately show ?thesis by blast
qed

section \<open>The whole decode\<close>

text \<open>What the code relies on in sonic: a body it parses hands the visitor the events of its tree
  and \<open>Skip\<close> ends where the value does, with white space after it; and cut before the root's
  closing brace the body hands the same events without the last, and the error of an unclosed
  object.\<close>

definition sonic_reads :: "'n sonic_api \<Rightarrow> bytes \<Rightarrow> (bytes \<times> jtree) list \<Rightarrow> bool" where
  "sonic_reads api body kvs \<longleftrightarrow>
     (\<exists>e. sa_preorder api ''{'' = ([EObjBegin], Some e)) \<and> sa_preorder api body = (events (TObj kvs), None) \<and>
     (case sa_skip api body of
        (a, b) \<Rightarrow> 0 \<le> a \<and> 0 \<le> b \<and> b \<le> int (length body) \<and> list_all is_space (drop (nat b) body)) \<and>
     (\<forall>n. cut_point body = Some n \<longrightarrow>
        sa_preorder api (take n body) = (EObjBegin # member_events kvs, snd (sa_preorder api ''{'')))"

lemma run_partial_run: "run es v = Inr w \<Longrightarrow> run_partial es v = (w, None)"
  by (induction es arbitrary: v) (auto simp: res_simps)

lemma run_partial_Inl: "run es v = Inl e \<Longrightarrow> \<exists>w. run_partial es v = (w, Some e)"
  by (induction es arbitrary: v) (auto simp: res_simps split: sum.splits)

lemma traverse_reads:
  assumes reads: "sonic_reads api body kvs"
  shows "traverse api body m = run (events (TObj kvs)) (reset body m)"
proof -
  have whole: "traverse_whole api body m = run (events (TObj kvs)) (reset body m)"
  proof (cases "run (events (TObj kvs)) (reset body m)")
    case (Inl e)
    with reads run_partial_Inl [OF Inl] show ?thesis
      by (auto simp: traverse_whole_def preorder_def sonic_reads_def simp del: events.simps)
  next
    case (Inr v)
    with reads run_partial_run [OF Inr] show ?thesis
      by (auto simp: traverse_whole_def preorder_def sonic_reads_def trailing_def simp del: events.simps)
  qed
  show ?thesis
  proof (cases "cut_point body")
    case None
    with whole show ?thesis by (simp add: traverse_def)
  next
    case (Some n)
    obtain v e where p: "preorder api (take n body) (reset body m) = (v, e)" by fastforce
    show ?thesis
    proof (cases "run (member_events kvs) (enter_root body m)")
      case (Inr w)
      then have "run (EObjBegin # member_events kvs) (reset body m) = Inr w" by (simp add: begin_root)
      from run_partial_run [OF this] Some reads p have "v = w"
        by (simp add: preorder_def sonic_reads_def)
      moreover have "run (events (TObj kvs)) (reset body m) = end_value w" unfolding root_run Inr by simp
      ultimately show ?thesis using whole by (simp add: traverse_def Some p del: events.simps)
    next
      case (Inl x)
      then have "run (EObjBegin # member_events kvs) (reset body m) = Inl x" by (simp add: begin_root)
      from run_partial_Inl [OF this] Some reads p have "e = Some (Visitor x)"
        by (auto simp: preorder_def sonic_reads_def)
      moreover have "cut_error api \<noteq> Some (Visitor x)"
        using reads by (auto simp: cut_error_def preorder_def sonic_reads_def begin_root)
      ultimately show ?thesis using whole by (simp add: traverse_def Some p del: events.simps)
    qed
  qed
qed


text \<open>a models body decodes to the reference's cards, or to the first failure of the first bad
  card in schema order.\<close>

theorem decode_models_reference:
  assumes reads: "sonic_reads api body kvs"
  shows "decode_models api body = Some
    (case root_error body (TObj kvs) of
       Some r \<Rightarrow> Inl (json_fail r)
     | None \<Rightarrow> (case field_of ref_models kvs ''models'' of
         Val r \<Rightarrow> r
       | _ \<Rightarrow> Inl (top_fail ''models'' [] ErrMissing)))"
proof (cases "root_error body (TObj kvs)")
  case None
  with root_decides [where body = body and kvs = kvs and m = ModeModels] obtain v where v: "run (events (TObj kvs)) (reset body ModeModels) = Inr v" by auto
  with finish_models_reference [OF root_done [OF v]] traverse_reads [OF reads, of ModeModels] None show ?thesis
    by (simp add: decode_models_def del: events.simps)
next
  case (Some r)
  with root_decides [where body = body and kvs = kvs and m = ModeModels] traverse_reads [OF reads, of ModeModels] show ?thesis
    by (simp add: decode_models_def del: events.simps)
qed

section \<open>Witnesses\<close>

text \<open>A node interface over the tree itself.\<close>

definition tree_api :: "jtree \<Rightarrow> jtree node_api" where
  "tree_api t =
     \<lparr>na_root = (\<lambda>_. Inr t), na_properties = (\<lambda>n. case n of TObj ms \<Rightarrow> Inr ms | _ \<Rightarrow> Inl (ErrSonic [])),
      na_raw = (\<lambda>n. case n of TObj ms \<Rightarrow> Inr ''{}'' | TArr ts \<Rightarrow> Inr ''[]'' | _ \<Rightarrow> Inr ''x''), na_zero = TNull\<rparr>"

definition sample_root :: "(bytes \<times> jtree) list" where
  "sample_root =
     [(''model'', TStr ''old''), (''usage'', TObj [(''input_tokens'', TNull)]),
      (''answers'', TObj [(''a'', TNull), (''b'', TObj [(''type'', TStr ''later'')]),
                        (''a'', TObj [(''type'', TStr ''soon''), (''type'', TStr ''now'')])]),
      (''model'', TStr ''m'')]"

definition sample_models :: "(bytes \<times> jtree) list" where
  "sample_models =
     [(''models'', TArr [TObj [(''name'', TStr ''m''), (''description'', TStr ''d''), (''release_date'', TStr ''2026'')],
                         TObj [(''name'', TStr ''n'')]])]"

text \<open>sonic on one body, whose tree is given.\<close>

definition tree_sonic :: "bytes \<Rightarrow> (bytes \<times> jtree) list \<Rightarrow> jtree sonic_api" where
  "tree_sonic body kvs =
     \<lparr>sa_preorder = (\<lambda>s. if s = ''{'' then ([EObjBegin], Some ''cut'')
        else if s = body then (events (TObj kvs), None) else (EObjBegin # member_events kvs, Some ''cut'')),
      sa_skip = (\<lambda>s. (0, int (length s))), sa_nodes = tree_api (TObj kvs)\<rparr>"

lemma cut_point_bounds: "cut_point body = Some n \<Longrightarrow> n < length body \<and> 4 \<le> n"
  using length_dropWhile_le [of is_space "rev body"]
  by (auto simp: cut_point_def min_sonic_input_def last_non_space_def Let_def split: option.splits if_splits list.splits)

lemma tree_sonic_reads: "body \<noteq> ''{'' \<Longrightarrow> sonic_reads (tree_sonic body kvs) body kvs"
proof -
  have "take n body \<noteq> ''{'' \<and> take n body \<noteq> body" if "cut_point body = Some n" for n
    using cut_point_bounds [OF that] by (auto dest!: arg_cong [of "take _ _" _ length])
  then show "body \<noteq> ''{'' \<Longrightarrow> sonic_reads (tree_sonic body kvs) body kvs"
    by (simp add: sonic_reads_def tree_sonic_def del: events.simps)
qed


theorem decode_models_reference_witness:
  "decode_models (tree_sonic ''{...}'' sample_models) ''{...}'' = Some (Inl (card_fail 1 ''description'' ErrMissing))"
proof -
  have reads: "sonic_reads (tree_sonic ''{...}'' sample_models) ''{...}'' sample_models"
    by (rule tree_sonic_reads) simp
  have "root_error ''{...}'' (TObj sample_models) = None"
    by (simp add: root_error_def plain_string sample_models_def max_nesting_def max_depth_def)
  moreover have "field_of ref_models sample_models ''models'' = Val (Inl (card_fail 1 ''description'' ErrMissing))"
    unfolding sample_models_def by code_simp
  ultimately show ?thesis using decode_models_reference [OF reads] by simp
qed

end
