(* ===== verification/Sdk_Client.thy ===== *)
theory Sdk_Client
  imports Sdk_Call Engine_Transport Codec_Traverse
begin

text \<open>
  The client, \<open>client.go\<close>, \<open>decode.go\<close> and \<open>internal/engine/client.go\<close>: building it, a System One and a list-models call
  from its options to its result, closing it and its counters. A call's environment gives the network, the clock, sonic
  and the encoder. A panic of the decoder ends a call with a panic. The WARN records of skipped answers are the
  decoder's list of them.
\<close>

section \<open>The client\<close>

record client =
  cl_config :: "client_config option"
  cl_closed :: bool
  cl_attempts :: "64 word"
  cl_once :: close_once

text \<open>The zero \<open>Client\<close>, which \<open>NewClient\<close> did not build.\<close>

definition zero_client :: client where
  "zero_client = \<lparr>cl_config = None, cl_closed = False, cl_attempts = 0, cl_once = \<lparr>oc_done = False, oc_err = None\<rparr>\<rparr>"

definition msg_not_built :: bytes where
  "msg_not_built = ''The client was not built by NewClient.''"

definition client_built :: "client \<Rightarrow> bool" where
  "client_built c \<longleftrightarrow> cl_config c \<noteq> None"

definition client_closed_error :: sdk_error where
  "client_closed_error = ConfigError ''The client is closed.'' [ErrClientClosed]"

definition usable :: "client \<Rightarrow> sdk_error option" where
  "usable c =
     (if \<not> client_built c then Some (config_error msg_not_built)
      else if cl_closed c then Some client_closed_error
      else None)"

text \<open>\<open>codec.Pretouch\<close> of a type: the text of its error, and the type's name; both are sonic's and reflection's.\<close>

record pretouch_env =
  pe_pretouch :: "handle option \<Rightarrow> bytes option"
  pe_name :: "handle \<Rightarrow> bytes"

fun pretouch_from :: "pretouch_env \<Rightarrow> nat \<Rightarrow> handle option list \<Rightarrow> sdk_error option" where
  "pretouch_from pe i [] = None"
| "pretouch_from pe i (t # ts) =
     (case pe_pretouch pe t of
        None \<Rightarrow> pretouch_from pe (i + 1) ts
      | Some text \<Rightarrow>
          Some (ConfigError (''The type '' @ show_nat (i + 1) @ '' passed to WithPretouch, '' @
            safe_name (case t of None \<Rightarrow> ''nil'' | Some t \<Rightarrow> pe_name pe t) @ '', cannot be prepared for the JSON encoder: '' @
            safe_message text @ ''.'') [WrapsCause (Kept (Some (plain_error text)))]))"

definition new_client :: "resolve_env \<Rightarrow> pretouch_env \<Rightarrow> client_option option list \<Rightarrow> sdk_error + client" where
  "new_client re pe opts =
     (let p = collect_options opts in
      rbind (resolve re p) (\<lambda>(cfg, dropped).
        case pretouch_from pe 0 (op_pretouch p) of
          Some e \<Rightarrow> Inl e
        | None \<Rightarrow> Inr (zero_client\<lparr>cl_config := Some cfg\<rparr>)))"

section \<open>What a call sends\<close>

record ('n, 'a) call_env =
  ce_std :: std
  ce_api :: "'n sonic_api"
  ce_sonic :: "'a \<Rightarrow> bytes + bytes"
  ce_proxies :: proxy_creds
  ce_attempts :: "nat \<Rightarrow> attempt_env"

definition send_config_of :: "('n, 'a) call_env \<Rightarrow> client_config \<Rightarrow> send_config" where
  "send_config_of env cfg =
     \<lparr>sc_max_response_bytes = cf_max_response cfg, sc_redactor = new_header_redactor (cf_key cfg),
      sc_proxies = (if et_proxies (cf_transport cfg) then Some (ce_proxies env) else None)\<rparr>"

definition system_one_request ::
  "('n, 'a) call_env \<Rightarrow> client_config \<Rightarrow> 'a gvalue \<Rightarrow> prepared option \<Rightarrow> 'a call_option option list \<Rightarrow>
   sdk_error + request \<times> retry_policy \<times> bytes" where
  "system_one_request env cfg state q opts =
     (let p = collect_call_options opts in
      rbind (system_one_model p cfg) (\<lambda>model.
      rbind (settings (std_lower (ce_std env)) p cfg (cf_system_one_header cfg)) (\<lambda>(s, dropped).
      rbind (encode_call_body (std_is_print (ce_std env)) (ce_sonic env) state model q (cp_extra p)) (\<lambda>body.
        Inr (\<lparr>rq_method = ''POST'', rq_url = cf_system_one_url cfg, rq_endpoint = endpoint_of ''POST'' (cf_system_one_url cfg),
              rq_header = cs_header s, rq_timeout = cs_timeout s, rq_body = Some body\<rparr>, cs_retry s, model)))))"

definition models_request ::
  "('n, 'a) call_env \<Rightarrow> client_config \<Rightarrow> 'a call_option option list \<Rightarrow> sdk_error + request \<times> retry_policy" where
  "models_request env cfg opts =
     (let p = collect_call_options opts in
      case for_models p of
        Some e \<Rightarrow> Inl e
      | None \<Rightarrow>
          rmap (\<lambda>(s, dropped).
              (\<lparr>rq_method = ''GET'', rq_url = cf_models_url cfg, rq_endpoint = endpoint_of ''GET'' (cf_models_url cfg),
                rq_header = cs_header s, rq_timeout = cs_timeout s, rq_body = None\<rparr>, cs_retry s))
            (settings (std_lower (ce_std env)) p cfg (cf_models_header cfg)))"

section \<open>What a call returns\<close>

record system_one_response =
  sr_result :: system_one_result
  sr_meta :: response_meta
  sr_redactor :: redactor
  sr_skipped :: skipped

record models_response =
  mr_models :: "model_card list"
  mr_meta :: response_meta

text \<open>\<open>decodeSystemOneInto\<close> and \<open>decodeModels\<close>: \<open>None\<close> is a panic, which ends the call.\<close>

definition decode_system_one_response :: "('n, 'a) call_env \<Rightarrow> bytes \<Rightarrow> prepared option \<Rightarrow> bytes \<Rightarrow> (skipped \<times> system_one_result) option decoder" where
  "decode_system_one_response env endpoint q model red meta =
     (case decode_system_one (ce_api env) (rm_body meta) q model of
        None \<Rightarrow> Inr None
      | Some (s, Inl f) \<Rightarrow> Inl (new_response_validation_error (std_lower (ce_std env)) meta endpoint red f)
      | Some (s, Inr r) \<Rightarrow> Inr (Some (s, r)))"

definition decode_models_response :: "('n, 'a) call_env \<Rightarrow> bytes \<Rightarrow> model_card list option decoder" where
  "decode_models_response env endpoint red meta =
     (case decode_models (ce_api env) (rm_body meta) of
        None \<Rightarrow> Inr None
      | Some (Inl f) \<Rightarrow> Inl (new_response_validation_error (std_lower (ce_std env)) meta endpoint red f)
      | Some (Inr ms) \<Rightarrow> Inr (Some ms))"

datatype 'r call_end = CallPanics | CallReturns "sdk_error + 'r"

definition count_attempts :: "sent list \<Rightarrow> client \<Rightarrow> client" where
  "count_attempts l c = c\<lparr>cl_attempts := cl_attempts c + of_nat (length l)\<rparr>"

definition system_one_end ::
  "client_config \<Rightarrow> sdk_error + (response_meta \<times> redactor \<times> (skipped \<times> system_one_result) option) \<Rightarrow> system_one_response call_end" where
  "system_one_end cfg r =
     (case r of
        Inl e \<Rightarrow> CallReturns (Inl e)
      | Inr (meta, red, None) \<Rightarrow> CallPanics
      | Inr (meta, red, Some (s, res)) \<Rightarrow>
          CallReturns (Inr \<lparr>sr_result = res, sr_meta = meta, sr_redactor = response_func (new_header_redactor (cf_key cfg)) red,
                            sr_skipped = s\<rparr>))"

definition system_one ::
  "('n, 'a) call_env \<Rightarrow> 'a gvalue \<Rightarrow> prepared option \<Rightarrow> 'a call_option option list \<Rightarrow> client \<Rightarrow>
   client \<times> sent list \<times> system_one_response call_end" where
  "system_one env state q opts c =
     (case usable c of
        Some e \<Rightarrow> (c, [], CallReturns (Inl e))
      | None \<Rightarrow>
          let cfg = the (cl_config c) in
          (case system_one_request env cfg state q opts of
             Inl e \<Rightarrow> (c, [], CallReturns (Inl e))
           | Inr (rq, retry, model) \<Rightarrow>
               (case send (ce_std env) (send_config_of env cfg) rq retry
                       (decode_system_one_response env (rq_endpoint rq) q model) (ce_attempts env) of
                  (l, r) \<Rightarrow> (count_attempts l c, l, system_one_end cfg r))))"

definition models_end :: "sdk_error + (response_meta \<times> redactor \<times> model_card list option) \<Rightarrow> models_response call_end" where
  "models_end r =
     (case r of
        Inl e \<Rightarrow> CallReturns (Inl e)
      | Inr (meta, red, None) \<Rightarrow> CallPanics
      | Inr (meta, red, Some ms) \<Rightarrow> CallReturns (Inr \<lparr>mr_models = ms, mr_meta = meta\<rparr>))"

definition list_models ::
  "('n, 'a) call_env \<Rightarrow> 'a call_option option list \<Rightarrow> client \<Rightarrow> client \<times> sent list \<times> models_response call_end" where
  "list_models env opts c =
     (case usable c of
        Some e \<Rightarrow> (c, [], CallReturns (Inl e))
      | None \<Rightarrow>
          let cfg = the (cl_config c) in
          (case models_request env cfg opts of
             Inl e \<Rightarrow> (c, [], CallReturns (Inl e))
           | Inr (rq, retry) \<Rightarrow>
               (case send (ce_std env) (send_config_of env cfg) rq retry (decode_models_response env (rq_endpoint rq)) (ce_attempts env) of
                  (l, r) \<Rightarrow> (count_attempts l c, l, models_end r))))"

definition warm_up :: "('n, 'a) call_env \<Rightarrow> client \<Rightarrow> client \<times> sent list \<times> unit call_end" where
  "warm_up env c =
     (case list_models env [] c of
        (c', l, CallPanics) \<Rightarrow> (c', l, CallPanics)
      | (c', l, CallReturns r) \<Rightarrow> (c', l, CallReturns (rmap (\<lambda>_. ()) r)))"

section \<open>Closing and counters\<close>

datatype close_end = ClosedNotBuilt sdk_error | Closed "gerr option"

definition client_close :: "tripper_methods \<Rightarrow> client \<Rightarrow> client \<times> close_call list \<times> close_end" where
  "client_close tm c =
     (if \<not> client_built c then (c, [], ClosedNotBuilt (config_error msg_not_built))
      else if cl_closed c then (c, [], Closed None)
      else
        case transport_close tm (cf_transport (the (cl_config c))) (cl_once c) of
          (oc, calls, e) \<Rightarrow> (c\<lparr>cl_closed := True, cl_once := oc\<rparr>, calls, Closed e))"

record client_stats =
  st_dials :: "64 word"
  st_attempts :: "64 word"

definition stats_of :: "64 word \<Rightarrow> client \<Rightarrow> client_stats" where
  "stats_of dials c =
     (if \<not> client_built c then \<lparr>st_dials = 0, st_attempts = 0\<rparr>
      else \<lparr>st_dials = transport_stats (cf_transport (the (cl_config c))) dials, st_attempts = cl_attempts c\<rparr>)"

section \<open>Sequences of operations\<close>

datatype ('n, 'a) client_op =
    OpSystemOne "('n, 'a) call_env" "'a gvalue" "prepared option" "'a call_option option list"
  | OpModels "('n, 'a) call_env" "'a call_option option list"
  | OpWarmUp "('n, 'a) call_env"
  | OpClose tripper_methods

text \<open>What an operation does to the network: the requests it sends and the calls that release the transport.\<close>

fun client_step :: "('n, 'a) client_op \<Rightarrow> client \<Rightarrow> client \<times> sent list \<times> close_call list" where
  "client_step (OpSystemOne env state q opts) c = (case system_one env state q opts c of (c', l, r) \<Rightarrow> (c', l, []))"
| "client_step (OpModels env opts) c = (case list_models env opts c of (c', l, r) \<Rightarrow> (c', l, []))"
| "client_step (OpWarmUp env) c = (case warm_up env c of (c', l, r) \<Rightarrow> (c', l, []))"
| "client_step (OpClose tm) c = (case client_close tm c of (c', calls, r) \<Rightarrow> (c', [], calls))"

fun client_run :: "('n, 'a) client_op list \<Rightarrow> client \<Rightarrow> client \<times> sent list \<times> close_call list" where
  "client_run [] c = (c, [], [])"
| "client_run (x # xs) c =
     (case client_step x c of
        (c1, l1, k1) \<Rightarrow> (case client_run xs c1 of (c2, l2, k2) \<Rightarrow> (c2, l1 @ l2, k1 @ k2)))"

section \<open>Lemmas\<close>

lemma usable_None: "usable c = None \<longleftrightarrow> (\<exists>cfg. cl_config c = Some cfg) \<and> \<not> cl_closed c"
  by (auto simp: usable_def client_built_def)

lemma usable_error: "usable c = Some e \<Longrightarrow> is_config_error e"
  by (auto simp: usable_def client_closed_error_def split: if_splits)

lemma request_error:
  assumes "system_one_request env cfg state q opts = Inl e"
  shows "is_config_error e \<or> (\<exists>m. e = InvalidRequestError m)"
proof -
  let ?p = "collect_call_options opts"
  from assms consider "system_one_model ?p cfg = Inl e"
    | s where "settings (std_lower (ce_std env)) ?p cfg (cf_system_one_header cfg) = Inl e"
    | model where "encode_call_body (std_is_print (ce_std env)) (ce_sonic env) state model q (cp_extra ?p) = Inl e"
    unfolding system_one_request_def Let_def rbind_error by (auto simp: rbind_error split: prod.splits)
  then show ?thesis
  proof cases
    case 3
    then obtain f where "e = body_error (std_is_print (ce_std env)) model f" by (auto simp: encode_call_body_def rmap_err_Inl)
    then show ?thesis using body_error_kind by blast
  qed (auto dest: system_one_model_error settings_error)
qed

lemma models_request_error: "models_request env cfg opts = Inl e \<Longrightarrow> is_config_error e"
  using settings_error by (auto simp: models_request_def for_models_def rmap_Inl Let_def split: option.splits if_splits)

lemma request_body:
  "system_one_request env cfg state q opts = Inr (rq, retry, model) \<Longrightarrow>
     \<exists>body. rq_body rq = Some body \<and> rq_method rq = ''POST'' \<and> rq_url rq = cf_system_one_url cfg \<and>
       encode_call_body (std_is_print (ce_std env)) (ce_sonic env) state model q (cp_extra (collect_call_options opts)) = Inr body"
  by (auto simp: system_one_request_def rbind_Inr Let_def)

lemma outcome_Inr:
  "outcome lib cfg rq decode env n = Inr (meta, red, x) \<Longrightarrow> decode red meta = Inr x \<and> success_status (rm_status meta)"
  by (auto simp: outcome_def attempt_def rmap_Inr Let_def split: sum.splits read_error.splits if_splits)

lemma send_ends:
  assumes "send lib cfg rq p decode env = (l, r)"
  shows "\<exists>k. l = map (sent_request rq) [0..<Suc k] \<and> (k = 0 \<or> int k \<le> retries p) \<and>
    (\<forall>meta red x. r = Inr (meta, red, x) \<longrightarrow> decode red meta = Inr x \<and> success_status (rm_status meta))"
proof -
  from send_from_run [of 0 lib cfg rq p decode env] assms obtain k where k:
    "l = map (sent_request rq) [0..<Suc k]" "\<And>i. i < k \<Longrightarrow> goes_on lib cfg rq p decode env i" "ends_at lib cfg rq p decode env k r"
    unfolding send_def by auto
  have "k = 0 \<or> int k \<le> retries p"
  proof (cases k)
    case (Suc m)
    with k(2) [of m] decide_bound show ?thesis by (fastforce simp: goes_on_def)
  qed simp
  moreover have "decode red meta = Inr x \<and> success_status (rm_status meta)" if "r = Inr (meta, red, x)" for meta red x
    using k(3) that by (auto simp: ends_at_def split: sum.splits dest: outcome_Inr)
  ultimately show ?thesis using k(1) by blast
qed

lemma count_attempts_simps [simp]:
  "cl_config (count_attempts l c) = cl_config c" "cl_closed (count_attempts l c) = cl_closed c" "cl_once (count_attempts l c) = cl_once c"
  "cl_attempts (count_attempts l c) = cl_attempts c + of_nat (length l)"
  by (simp_all add: count_attempts_def)

lemma unusable_step: "usable c \<noteq> None \<Longrightarrow> cl_closed c \<or> \<not> client_built c \<Longrightarrow> client_step x c = (c, [], [])"
  by (cases x) (auto simp: system_one_def list_models_def warm_up_def client_close_def)

lemma unusable_run: "usable c \<noteq> None \<Longrightarrow> client_run xs c = (c, [], [])"
  by (induction xs) (auto simp: unusable_step usable_None client_built_def)

lemma close_unusable: "client_close tm c = (c', calls, e) \<Longrightarrow> usable c' \<noteq> None"
  by (auto simp: client_close_def usable_None client_built_def split: if_splits prod.splits)

lemma client_run_append:
  "client_run (xs @ ys) c =
     (case client_run xs c of (c1, l1, k1) \<Rightarrow> (case client_run ys c1 of (c2, l2, k2) \<Rightarrow> (c2, l1 @ l2, k1 @ k2)))"
  by (induction xs arbitrary: c) (auto split: prod.splits)

section \<open>Properties\<close>



definition sample_client_config :: client_config where
  "sample_client_config =
     \<lparr>cf_key = ''secret-key'', cf_system_one_url = \<lparr>url_scheme = ''https'', url_host = ''h'', url_path = system_one_path\<rparr>,
      cf_models_url = \<lparr>url_scheme = ''https'', url_host = ''h'', url_path = models_path\<rparr>, cf_system_one_log = system_one_path,
      cf_models_log = models_path, cf_model = ''m'', cf_timeout = 10 * second, cf_connect = second, cf_max_response = 100,
      cf_logger = None, cf_system_one_header = [], cf_models_header = [],
      cf_transport = \<lparr>et_logger = None, et_trace = None, et_tripper = CallerTripper 1, et_proxies = False\<rparr>, cf_retry = default_retry\<rparr>"

definition sample_call_env :: "(jtree, unit) call_env" where
  "sample_call_env =
     \<lparr>ce_std = sample_std, ce_api = tree_sonic ''{...}'' sample_root, ce_sonic = (\<lambda>_. Inl []), ce_proxies = no_proxies,
      ce_attempts = sample_env\<rparr>"

definition sample_set :: prepared where
  "sample_set = prepared_init ''{}'' [expected_entry (QNoul ''q'' None None None :: unit question)]"

lemma sample_system_one_request: "\<exists>x. system_one_request sample_call_env sample_client_config (gvalue.Raw ''[]'') (Some sample_set) [] = Inr x"
proof -
  have "\<exists>body. encode_body (\<lambda>_. Inl []) (gvalue.Raw ''[]'' :: unit gvalue) ''m'' (Some sample_set) [] = Inr body"
    by (simp add: encode_body_def sample_set_def prepared_init_def last_at_def append_raw_state_def starts_state_def body_failure_def
        append_extra_def repeat_scan_limit_def append_string_eq Let_def)
  then show ?thesis
    by (auto simp: system_one_request_def collect_call_options_def no_call_options_def system_one_model_def sample_client_config_def
        settings_def timeout_setting_def retry_setting_def header_setting_def sample_call_env_def encode_call_body_def)
qed


text \<open>C32: closing is final: whatever operations come before and after, once a client has been closed it sends no request,
  and its transport is not released again.\<close>

theorem close_is_final:
  "client_run (xs @ OpClose tm # ys) c =
     (case client_run xs c of (c1, l1, k1) \<Rightarrow>
        (case client_close tm c1 of (c2, k2, e) \<Rightarrow> (c2, l1, k1 @ k2)))"
proof -
  obtain c1 l1 k1 where x: "client_run xs c = (c1, l1, k1)" by (cases "client_run xs c") auto
  obtain c2 k2 e where y: "client_close tm c1 = (c2, k2, e)" by (cases "client_close tm c1") auto
  from unusable_run [OF close_unusable [OF y], of ys] x y show ?thesis by (simp add: client_run_append)
qed

end
