(* ===== verification/Sdk_Response.thy ===== *)
theory Sdk_Response
  imports Sdk_Client Wire_Payload
begin

text \<open>
  What a caller reads of a response, \<open>answers.go\<close> and \<open>response.go\<close>: the views of one answer, of the answers by name and in
  order, the metadata, and the JSON forms. An iterator is the list of what it yields; \<open>iterate\<close> is a range loop over it,
  whose body may stop.
\<close>

section \<open>Answers of one kind\<close>

text \<open>\<open>NoulAnswer\<close>, \<open>ChoiceAnswer\<close> and \<open>ScoreAnswer\<close>: the decoded answer and whether a response carried it.\<close>

record 'a answer_view =
  av_answer :: 'a
  av_present :: bool

definition zero_noul :: "noul_answer answer_view" where
  "zero_noul = \<lparr>av_answer = ans_noul zero_answer, av_present = False\<rparr>"

definition zero_choice :: "choice_answer answer_view" where
  "zero_choice = \<lparr>av_answer = ans_choice zero_answer, av_present = False\<rparr>"

definition zero_score :: "score_answer answer_view" where
  "zero_score = \<lparr>av_answer = ans_score zero_answer, av_present = False\<rparr>"

definition marshal_view :: "(bytes \<Rightarrow> 'a \<Rightarrow> payload_res) \<Rightarrow> 'a answer_view \<Rightarrow> payload_res" where
  "marshal_view app a = (if \<not> av_present a then Inr ''null'' else app [] (av_answer a))"

definition marshal_noul :: "noul_answer answer_view \<Rightarrow> payload_res" where "marshal_noul = marshal_view append_noul"
definition marshal_choice :: "choice_answer answer_view \<Rightarrow> payload_res" where "marshal_choice = marshal_view append_choice"
definition marshal_score :: "score_answer answer_view \<Rightarrow> payload_res" where "marshal_score = marshal_view append_score"

definition view_description :: "score_answer answer_view \<Rightarrow> 32 word \<Rightarrow> sdk_content \<times> bool" where
  "view_description a level =
     (case score_description (av_answer a) level of
        None \<Rightarrow> (zero_content, False)
      | Some d \<Rightarrow> (\<lparr>sc_w = d, sc_set = True\<rparr>, True))"

definition view_legend :: "score_answer answer_view \<Rightarrow> (32 word \<times> sdk_content) list" where
  "view_legend a = map (\<lambda>e. (le_level e, \<lparr>sc_w = le_description e, sc_set = True\<rparr>)) (legend (av_answer a))"

definition choice_view_probabilities :: "choice_answer answer_view \<Rightarrow> (bytes \<times> float64) list" where
  "choice_view_probabilities a = map (\<lambda>p. (lp_label p, lp_probability p)) (choice_probabilities (av_answer a))"

definition score_view_probabilities :: "score_answer answer_view \<Rightarrow> (32 word \<times> float64) list" where
  "score_view_probabilities a = map (\<lambda>p. (vp_level p, vp_probability p)) (score_probabilities (av_answer a))"

text \<open>\<open>Answer.Noul\<close>, \<open>Answer.Choice\<close> and \<open>Answer.Score\<close>.\<close>

definition as_noul :: "answer \<Rightarrow> noul_answer answer_view \<times> bool" where
  "as_noul a = (let ok = (ans_kind a = KindNoul) in (\<lparr>av_answer = ans_noul a, av_present = ok\<rparr>, ok))"

definition as_choice :: "answer \<Rightarrow> choice_answer answer_view \<times> bool" where
  "as_choice a = (let ok = (ans_kind a = KindChoice) in (\<lparr>av_answer = ans_choice a, av_present = ok\<rparr>, ok))"

definition as_score :: "answer \<Rightarrow> score_answer answer_view \<times> bool" where
  "as_score a = (let ok = (ans_kind a = KindScore) in (\<lparr>av_answer = ans_score a, av_present = ok\<rparr>, ok))"

definition marshal_answer :: "answer \<Rightarrow> payload_res" where
  "marshal_answer a = append_answer [] a"

section \<open>The answers of a response\<close>

text \<open>\<open>Answers\<close> is a view, nil for the zero value.\<close>

definition view_len :: "answers option \<Rightarrow> nat" where
  "view_len a = (case a of None \<Rightarrow> 0 | Some s \<Rightarrow> length (as_entries s))"

definition view_get :: "answers option \<Rightarrow> bytes \<Rightarrow> answer \<times> bool" where
  "view_get a name =
     (case a of
        None \<Rightarrow> (zero_answer, False)
      | Some s \<Rightarrow> (case answers_get s name of None \<Rightarrow> (zero_answer, False) | Some w \<Rightarrow> (w, True)))"

definition view_as :: "(answer \<Rightarrow> 'a answer_view \<times> bool) \<Rightarrow> 'a answer_view \<Rightarrow> answers option \<Rightarrow> bytes \<Rightarrow> 'a answer_view \<times> bool" where
  "view_as as zero a name = (case view_get a name of (ans, ok) \<Rightarrow> if ok then as ans else (zero, False))"

definition view_noul :: "answers option \<Rightarrow> bytes \<Rightarrow> noul_answer answer_view \<times> bool" where "view_noul = view_as as_noul zero_noul"
definition view_choice :: "answers option \<Rightarrow> bytes \<Rightarrow> choice_answer answer_view \<times> bool" where
  "view_choice = view_as as_choice zero_choice"
definition view_score :: "answers option \<Rightarrow> bytes \<Rightarrow> score_answer answer_view \<times> bool" where "view_score = view_as as_score zero_score"

definition view_all :: "answers option \<Rightarrow> (bytes \<times> answer) list" where
  "view_all a = map (\<lambda>e. (ae_name e, ae_answer e)) (entries_or_nil a)"

definition view_kind :: "kind \<Rightarrow> (answer \<Rightarrow> 'a) \<Rightarrow> answers option \<Rightarrow> (bytes \<times> 'a answer_view) list" where
  "view_kind k f a =
     map (\<lambda>e. (ae_name e, \<lparr>av_answer = f (ae_answer e), av_present = True\<rparr>))
       (filter (\<lambda>e. ans_kind (ae_answer e) = k) (entries_or_nil a))"

definition view_nouls :: "answers option \<Rightarrow> (bytes \<times> noul_answer answer_view) list" where "view_nouls = view_kind KindNoul ans_noul"
definition view_choices :: "answers option \<Rightarrow> (bytes \<times> choice_answer answer_view) list" where
  "view_choices = view_kind KindChoice ans_choice"
definition view_scores :: "answers option \<Rightarrow> (bytes \<times> score_answer answer_view) list" where "view_scores = view_kind KindScore ans_score"

definition marshal_answers :: "answers option \<Rightarrow> payload_res" where
  "marshal_answers a = append_answers [] a"

text \<open>A range loop over an iterator: its body gets the next pair and its own state, and says whether to go on.\<close>

fun iterate :: "('x \<Rightarrow> 's \<Rightarrow> 's \<times> bool) \<Rightarrow> 'x list \<Rightarrow> 's \<Rightarrow> 's" where
  "iterate yield [] s = s"
| "iterate yield (x # xs) s = (case yield x s of (s', go_on) \<Rightarrow> if \<not> go_on then s' else iterate yield xs s')"

text \<open>\<open>Nouls\<close>, \<open>Choices\<close> and \<open>Scores\<close> as they are written: one loop over all entries, which skips those of other kinds.\<close>

fun kind_loop ::
  "kind \<Rightarrow> (answer \<Rightarrow> 'a) \<Rightarrow> (bytes \<times> 'a answer_view \<Rightarrow> 's \<Rightarrow> 's \<times> bool) \<Rightarrow> answer_entry list \<Rightarrow> 's \<Rightarrow> 's" where
  "kind_loop k f yield [] s = s"
| "kind_loop k f yield (e # es) s =
     (if ans_kind (ae_answer e) = k then
        (case yield (ae_name e, \<lparr>av_answer = f (ae_answer e), av_present = True\<rparr>) s of
           (s', go_on) \<Rightarrow> if \<not> go_on then s' else kind_loop k f yield es s')
      else kind_loop k f yield es s)"

section \<open>The response\<close>

definition usage_input :: "usage \<Rightarrow> 64 word \<times> bool" where "usage_input u = (u_input u, u_has_input u)"
definition usage_output :: "usage \<Rightarrow> 64 word \<times> bool" where "usage_output u = (u_output u, u_has_output u)"
definition marshal_usage :: "usage \<Rightarrow> payload_res" where "marshal_usage u = Inr (append_usage [] u)"

definition response_answers :: "system_one_response \<Rightarrow> answers option" where
  "response_answers r = Some (so_answers (sr_result r))"

definition marshal_response :: "system_one_response \<Rightarrow> payload_res" where
  "marshal_response r = append_system_one_result [] (sr_result r)"

text \<open>\<open>UnmarshalJSON\<close>: the new response and the error; \<open>None\<close> is a panic of the decoder.\<close>

definition unmarshal_response ::
  "(bytes \<Rightarrow> bytes) \<Rightarrow> 'n sonic_api \<Rightarrow> bytes \<Rightarrow> system_one_response \<Rightarrow> (system_one_response \<times> sdk_error option) option" where
  "unmarshal_response lower api data r =
     (if data = ''null'' then Some (r, None)
      else
        case decode_system_one api data None [] of
          None \<Rightarrow> None
        | Some (s, Inl f) \<Rightarrow> Some (r, Some (new_response_validation_error lower no_meta [] zero_redactor f))
        | Some (s, Inr res) \<Rightarrow> Some (\<lparr>sr_result = res, sr_meta = no_meta, sr_redactor = zero_redactor, sr_skipped = s\<rparr>, None))"

definition marshal_card :: "model_card \<Rightarrow> payload_res" where "marshal_card c = append_model_card [] c"

definition marshal_models :: "models_response \<Rightarrow> payload_res" where
  "marshal_models r = append_model_list [] (mr_models r)"

definition unmarshal_models ::
  "(bytes \<Rightarrow> bytes) \<Rightarrow> 'n sonic_api \<Rightarrow> bytes \<Rightarrow> models_response \<Rightarrow> (models_response \<times> sdk_error option) option" where
  "unmarshal_models lower api data r =
     (if data = ''null'' then Some (r, None)
      else
        case decode_models api data of
          None \<Rightarrow> None
        | Some (Inl f) \<Rightarrow> Some (r, Some (new_response_validation_error lower no_meta [] zero_redactor f))
        | Some (Inr ms) \<Rightarrow> Some (\<lparr>mr_models = ms, mr_meta = no_meta\<rparr>, None))"

section \<open>Lemmas\<close>

lemma kind_loop_iterate:
  "kind_loop k f yield es s =
     iterate yield (map (\<lambda>e. (ae_name e, \<lparr>av_answer = f (ae_answer e), av_present = True\<rparr>)) (filter (\<lambda>e. ans_kind (ae_answer e) = k) es)) s"
  by (induction es arbitrary: s) (auto split: prod.split)

lemma view_all_distinct: "Wire_Answers.answers_inv s \<Longrightarrow> distinct (map fst (view_all (Some s)))"
  by (simp add: view_all_def entries_or_nil_def comp_def Wire_Answers.answers_inv_def)

lemma view_get_all:
  assumes "Wire_Answers.answers_inv s"
  shows "view_get (Some s) name = (case map_of (view_all (Some s)) name of None \<Rightarrow> (zero_answer, False) | Some w \<Rightarrow> (w, True))"
  by (simp add: view_get_def view_all_def entries_or_nil_def answers_get_def answers_find_scan [OF assms] map_of_find_index)

lemma view_kind_all:
  "view_kind k f a = map (\<lambda>(name, w). (name, \<lparr>av_answer = f w, av_present = True\<rparr>)) (filter (\<lambda>(name, w). ans_kind w = k) (view_all a))"
  by (simp add: view_kind_def view_all_def filter_map comp_def)

lemma view_as_kind:
  assumes "Wire_Answers.answers_inv s" and as: "\<And>w. as w = (\<lparr>av_answer = f w, av_present = (ans_kind w = k)\<rparr>, ans_kind w = k)"
  shows "view_as as zero (Some s) name = (v, True) \<longleftrightarrow> (name, v) \<in> set (view_kind k f (Some s))"
proof -
  have "(name, w) \<in> set (view_all (Some s)) \<longleftrightarrow> map_of (view_all (Some s)) name = Some w" for w
    using view_all_distinct [OF assms(1)] by (auto dest: map_of_SomeD)
  then show ?thesis
    by (auto simp: view_as_def view_get_all [OF assms(1)] as view_kind_all image_iff split: option.splits)
qed

text \<open>A card as the JSON object that spells it.\<close>

definition card_tree :: "model_card \<Rightarrow> jtree" where
  "card_tree c = TObj [(''name'', TStr (mc_name c)), (''description'', TStr (mc_description c)), (''release_date'', TStr (mc_release_date c))]"

definition card_text :: "model_card \<Rightarrow> bool" where
  "card_text c \<longleftrightarrow> valid_utf8 (mc_name c) \<and> valid_utf8 (mc_description c) \<and> valid_utf8 (mc_release_date c)"

lemma put_str_valid: "put_str dst s = Inr out \<Longrightarrow> valid_utf8 s"
  by (auto simp: put_str_def res_simps append_string_eq split: if_splits)

lemma append_cards_valid: "append_cards i cs dst = Inr out \<Longrightarrow> list_all card_text cs"
proof (induction i cs dst rule: append_cards.induct)
  case (2 i c cs dst)
  then show ?case by (auto simp: res_simps append_model_card_def card_text_def dest!: put_str_valid)
qed simp

lemma ref_card_tree: "ref_card i (card_tree c) = Inr c"
  by (simp add: card_tree_def card_member_error_def card_field_def field_of_def)

lemma ref_cards_trees: "ref_cards i (map card_tree cs) = Inr cs"
  by (induction cs arbitrary: i) (simp_all add: ref_card_tree)

lemma first_some_all_None: "(\<And>x. x \<in> set xs \<Longrightarrow> f x = None) \<Longrightarrow> first_some (map f xs) = None"
  by (auto simp: first_some_None)

lemma valid_in_json: "\<not> raw_control_in_string body \<Longrightarrow> valid_utf8 s \<Longrightarrow> string_error body s = None"
  by (simp add: string_error_def)

lemma card_tree_error:
  assumes "\<not> raw_control_in_string body" and "card_text c" and "d < 3"
  shows "tree_error body d (card_tree c) = None"
  using assms by (simp add: card_tree_def card_text_def valid_in_json plain_string max_nesting_def max_depth_def)

lemma models_body:
  assumes "append_model_list [] cards = Inr body"
  shows "\<not> raw_control_in_string body" and "list_all card_text cards"
proof -
  from append_model_list_text [OF assms] obtain c where "jval c body" by (auto simp: json_text_def)
  then have "append_json [] body = Inr c" unfolding append_json_iff by (intro exI [of _ "[]"] exI [of _ body] exI [of _ c]) simp
  then show "\<not> raw_control_in_string body" by (rule valid_json_no_raw_control)
  from assms show "list_all card_text cards" by (auto simp: append_model_list_def res_simps dest: append_cards_valid)
qed

lemma models_open: "append_model_list [] cards = Inr body \<Longrightarrow> \<exists>t. body = CHR ''{'' # t"
  by (auto simp: append_model_list_def res_simps open_member_def dest!: append_cards_text)

lemma decoded_models:
  assumes "sonic_reads api body kvs" and "root_error body (TObj kvs) = None"
  shows "decode_models api body =
    Some (case field_of ref_models kvs ''models'' of Val r \<Rightarrow> r | _ \<Rightarrow> Inl (top_fail ''models'' [] ErrMissing))"
proof -
  from root_decides [where body = body and kvs = kvs and m = ModeModels] assms(2)
  obtain v where v: "run (events (TObj kvs)) (reset body ModeModels) = Inr v" by auto
  with finish_models_reference [OF root_done [OF v]] traverse_reads [OF assms(1), of ModeModels] show ?thesis
    by (simp add: decode_models_def del: events.simps)
qed

section \<open>Properties\<close>

text \<open>C33: reading answers by name and in order agree, for every kind: \<open>Get\<close> finds exactly what \<open>All\<close> yields; the accessor of
  a kind finds an answer exactly when the iterator of that kind yields it; and a loop over that iterator, which skips the
  other entries and may stop, runs over exactly those answers in order.\<close>

theorem answer_views_agree:
  assumes "Wire_Answers.answers_inv s"
  shows "(view_get (Some s) name = (w, True) \<longleftrightarrow> (name, w) \<in> set (view_all (Some s))) \<and>
    (view_noul (Some s) name = (n, True) \<longleftrightarrow> (name, n) \<in> set (view_nouls (Some s))) \<and>
    (view_choice (Some s) name = (c, True) \<longleftrightarrow> (name, c) \<in> set (view_choices (Some s))) \<and>
    (view_score (Some s) name = (x, True) \<longleftrightarrow> (name, x) \<in> set (view_scores (Some s))) \<and>
    kind_loop KindNoul ans_noul yield (entries_or_nil (Some s)) st = iterate yield (view_nouls (Some s)) st"
proof -
  have "view_get (Some s) name = (w, True) \<longleftrightarrow> (name, w) \<in> set (view_all (Some s))"
    using map_of_eq_Some_iff [OF view_all_distinct [OF assms], of name w] by (auto simp: view_get_all [OF assms] split: option.splits)
  moreover have "as_noul w = (\<lparr>av_answer = ans_noul w, av_present = (ans_kind w = KindNoul)\<rparr>, ans_kind w = KindNoul)"
    "as_choice w = (\<lparr>av_answer = ans_choice w, av_present = (ans_kind w = KindChoice)\<rparr>, ans_kind w = KindChoice)"
    "as_score w = (\<lparr>av_answer = ans_score w, av_present = (ans_kind w = KindScore)\<rparr>, ans_kind w = KindScore)" for w
    by (simp_all add: as_noul_def as_choice_def as_score_def Let_def)
  ultimately show ?thesis
    by (simp add: view_noul_def view_choice_def view_score_def view_nouls_def view_choices_def view_scores_def view_as_kind [OF assms]
        kind_loop_iterate view_kind_def [of KindNoul])
qed

theorem answer_views_agree_witness:
  "view_noul (Some (answers_put empty_answers ''a'' (zero_answer\<lparr>ans_kind := KindNoul\<rparr>))) ''a'' = (\<lparr>av_answer = ans_noul zero_answer, av_present = True\<rparr>, True)"
proof -
  let ?s = "answers_put empty_answers ''a'' (zero_answer\<lparr>ans_kind := KindNoul\<rparr>)"
  have e: "as_entries ?s = [\<lparr>ae_name = ''a'', ae_answer = zero_answer\<lparr>ans_kind := KindNoul\<rparr>\<rparr>]" "as_index ?s = None"
    by (simp_all add: answers_put_def answers_find_def empty_answers_def linear_limit_def)
  then have "Wire_Answers.answers_inv ?s" by (simp add: Wire_Answers.answers_inv_def linear_limit_def)
  note views = answer_views_agree [OF this, where name = "''a''" and n = "\<lparr>av_answer = ans_noul zero_answer, av_present = True\<rparr>"]
  have "view_noul (Some ?s) ''a'' = (\<lparr>av_answer = ans_noul zero_answer, av_present = True\<rparr>, True) \<longleftrightarrow>
      (''a'', \<lparr>av_answer = ans_noul zero_answer, av_present = True\<rparr>) \<in> set (view_nouls (Some ?s))"
    by (rule views [THEN conjunct2, THEN conjunct1])
  then show ?thesis by (simp add: e view_nouls_def view_kind_def entries_or_nil_def)
qed


definition sample_cards :: models_response where
  "sample_cards = \<lparr>mr_models = [\<lparr>mc_name = ''m'', mc_description = ''d'', mc_release_date = ''2026-01-01''\<rparr>], mr_meta = no_meta\<rparr>"


end
