(* ===== verification/Sdk_Log.thy ===== *)
theory Sdk_Log
  imports Sdk_Send Sdk_Config
begin

text \<open>
  The records a call logs, \<open>logRequest\<close>, \<open>logResponse\<close> and \<open>logFailure\<close> of \<open>client.go\<close>, with the headers as
  \<open>internal/engine/redact.go\<close> shows them. A logger is the set of levels its handler keeps; a record's duration is read
  from the clock, a parameter.
\<close>

section \<open>Records\<close>

definition level_trace :: int where "level_trace = -8"
definition level_debug :: int where "level_debug = -4"
definition level_info :: int where "level_info = 0"

datatype log_attr = AttrString bytes | AttrInt int | AttrDuration int | AttrHeaders "(bytes \<times> bytes) list"

record log_record =
  lr_level :: int
  lr_msg :: bytes
  lr_attrs :: "(bytes \<times> log_attr) list"

definition log_record :: "int \<Rightarrow> bytes \<Rightarrow> (bytes \<times> log_attr) list \<Rightarrow> log_record" where
  "log_record level msg attrs = \<lparr>lr_level = level, lr_msg = msg, lr_attrs = attrs\<rparr>"

text \<open>\<open>RedactedHeaders.LogValue\<close>: one attribute per header in name order.\<close>

definition shown_headers :: "(bytes \<Rightarrow> bytes) \<Rightarrow> redactor \<Rightarrow> header \<Rightarrow> (bytes \<times> bytes) list" where
  "shown_headers lower r h =
     map (\<lambda>(name, vs). (name, if \<not> rd_credential lower r name vs then join_with '', '' vs else redacted)) (sort_key fst h)"

definition request_attrs :: "request \<Rightarrow> bytes \<Rightarrow> (bytes \<times> log_attr) list" where
  "request_attrs rq log_url = [(''method'', AttrString (rq_method rq)), (''endpoint'', AttrString log_url)]"

definition log_request ::
  "(bytes \<Rightarrow> bytes) \<Rightarrow> int set \<Rightarrow> redactor \<Rightarrow> request \<Rightarrow> bytes \<Rightarrow> header \<Rightarrow> nat \<Rightarrow> log_record list" where
  "log_request lower enabled r rq log_url h n_th =
     (let n = (case rq_body rq of None \<Rightarrow> 0 | Some b \<Rightarrow> length b) in
      (if 0 < n_th \<and> level_info \<in> enabled
       then [log_record level_info ''request retry'' (request_attrs rq log_url @ [(''retry'', AttrInt (int n_th))])] else []) @
      (if level_debug \<notin> enabled then []
       else
         log_record level_debug ''request''
           (request_attrs rq log_url @ [(''attempt'', AttrInt (int n_th)), (''headers'', AttrHeaders (shown_headers lower r h)),
              (''body_bytes'', AttrInt (int n))]) #
         (if 0 < n \<and> level_trace \<in> enabled
          then [log_record level_trace ''request body'' (request_attrs rq log_url @
            [(''body'', AttrString (case rq_body rq of None \<Rightarrow> [] | Some b \<Rightarrow> b))])] else [])))"

definition log_response ::
  "(bytes \<Rightarrow> bytes) \<Rightarrow> int set \<Rightarrow> redactor \<Rightarrow> request \<Rightarrow> bytes \<Rightarrow> nat \<Rightarrow> int \<Rightarrow> response_meta \<Rightarrow> log_record list" where
  "log_response lower enabled r rq log_url n_th took meta =
     (if level_info \<notin> enabled then []
      else
        log_record level_info ''response''
          (request_attrs rq log_url @ [(''status'', AttrInt (rm_status meta)), (''duration'', AttrDuration took),
             (''request_id'', AttrString (case redact_request_id r (rm_header meta) of None \<Rightarrow> ''-'' | Some v \<Rightarrow> safe_name v)),
             (''attempt'', AttrInt (int n_th))]) #
        (if level_debug \<notin> enabled then []
         else
           log_record level_debug ''response headers''
             (request_attrs rq log_url @ [(''headers'', AttrHeaders (shown_headers lower r (rm_header meta))),
                (''body_bytes'', AttrInt (int (length (rm_body meta))))]) #
           (if 0 < length (rm_body meta) \<and> level_trace \<in> enabled
            then [log_record level_trace ''response body'' (request_attrs rq log_url @ [(''body'', AttrString (rm_body meta))])]
            else [])))"

definition log_failure :: "int set \<Rightarrow> request \<Rightarrow> bytes \<Rightarrow> nat \<Rightarrow> int \<Rightarrow> bytes \<Rightarrow> log_record list" where
  "log_failure enabled rq log_url n_th took text =
     (if level_info \<notin> enabled then []
      else [log_record level_info ''request failed''
              (request_attrs rq log_url @ [(''error'', AttrString text), (''duration'', AttrDuration took),
                 (''attempt'', AttrInt (int n_th))])])"

section \<open>The records of an attempt\<close>

definition attempt_records ::
  "std \<Rightarrow> int set \<Rightarrow> bytes \<Rightarrow> send_config \<Rightarrow> request \<Rightarrow> nat \<Rightarrow> attempt_env \<Rightarrow> int \<Rightarrow> log_record list" where
  "attempt_records lib enabled log_url cfg rq n env took =
     (let failed = log_failure enabled rq log_url n took
            (case snd (snd (attempt lib cfg rq n env)) of None \<Rightarrow> [] | Some e \<Rightarrow> error_text e) in
      log_request (std_lower lib) enabled (sc_redactor cfg) rq log_url (attempt_header rq n) n @
      (case av_result env of
         Inl e \<Rightarrow> failed
       | Inr rs \<Rightarrow>
           let meta = \<lparr>rm_status = rs_status rs, rm_header = rs_header rs, rm_body = []\<rparr>;
               response = log_response (std_lower lib) enabled (response_redactor cfg rs) rq log_url n took in
           (case read_response (sc_max_response_bytes cfg) rs of
              Inl TooLarge \<Rightarrow> response meta
            | Inl (ReadFailed e) \<Rightarrow> failed
            | Inr raw \<Rightarrow> response (meta\<lparr>rm_body := raw\<rparr>))))"

section \<open>What the records show\<close>

lemma contains_split:
  assumes "contains (a @ c # b) p" and "c \<notin> set p" and "p \<noteq> []"
  shows "contains a p \<or> contains b p"
proof -
  from assms(1) obtain u w where e: "a @ c # b = u @ p @ w" by (auto simp: contains_sublist)
  then consider x where "u @ p = a @ x" "c # b = x @ w" | x where "a = (u @ p) @ x"
    by (metis append.assoc append_eq_append_conv2)
  then show ?thesis
  proof cases
    case 1
    show ?thesis
    proof (cases x)
      case Nil
      with 1 have "a = u @ p" by simp
      then show ?thesis by (metis append_Nil2 contains_sublist)
    next
      case (Cons y ys)
      with 1 have y: "y = c" "b = ys @ w" "u @ p = (a @ [c]) @ ys" by auto
      then consider z where "a @ [c] = u @ z" "p = z @ ys" | z where "u = (a @ [c]) @ z" "ys = z @ p"
        by (metis append_eq_append_conv2)
      then show ?thesis
      proof cases
        case 1
        then have "z = [] \<or> c \<in> set z" by (cases z rule: rev_cases) auto
        with 1 assms(2) have "z = []" by auto
        with 1 y show ?thesis by (metis append_Nil contains_sublist)
      next
        case 2
        with y show ?thesis by (metis append.assoc contains_sublist)
      qed
    qed
  next
    case 2
    then show ?thesis by (metis append.assoc contains_sublist)
  qed
qed

lemma join_contains:
  assumes "contains (join_with '', '' vs) p" and "CHR '','' \<notin> set p" and "CHR '' '' \<notin> set p" and "p \<noteq> []"
  shows "\<exists>v \<in> set vs. contains v p"
  using assms(1)
proof (induction "'', ''" vs rule: join_with.induct)
  case (3 x y xs)
  then have "contains (x @ CHR '','' # CHR '' '' # join_with '', '' (y # xs)) p" by simp
  with assms(2,4) consider "contains x p" | "contains ([] @ CHR '' '' # join_with '', '' (y # xs)) p"
    by (metis append_Nil contains_split)
  then show ?case
  proof cases
    case 2
    with assms(3,4) have "contains (join_with '', '' (y # xs)) p"
      by (metis contains_Nil contains_split)
    with 3 show ?thesis by auto
  qed simp
qed (use assms(4) in simp_all)

definition quiet_attr :: "bytes \<Rightarrow> log_attr \<Rightarrow> bool" where
  "quiet_attr key v = (case v of AttrHeaders hs \<Rightarrow> \<forall>(name, s) \<in> set hs. \<not> contains s key | _ \<Rightarrow> True)"

text \<open>A record that keeps the caller's secrets: its header attributes do not hold the key, and it holds a body only at the
  trace level.\<close>

definition quiet_record :: "bytes \<Rightarrow> log_record \<Rightarrow> bool" where
  "quiet_record key r \<longleftrightarrow>
     (\<forall>(name, v) \<in> set (lr_attrs r). quiet_attr key v \<and> (name = ''body'' \<longrightarrow> lr_level r = level_trace))"

lemma redacted_short: "key_needle key \<Longrightarrow> \<not> contains redacted key"
proof
  assume k: "key_needle key" and "contains redacted key"
  then obtain a b where "redacted = a @ key @ b" by (auto simp: contains_sublist)
  then have "length redacted = length (a @ key @ b)" by (rule arg_cong)
  with k show False by (simp add: redacted_def key_needle_def min_key_needle_bytes_def)
qed

lemma shown_headers_quiet:
  assumes "key_needle key" and "CHR '','' \<notin> set key" and "CHR '' '' \<notin> set key" and "rd_key r = key"
  shows "quiet_attr key (AttrHeaders (shown_headers lower r h))"
proof -
  have "\<not> contains (if \<not> rd_credential lower r name vs then join_with '', '' vs else redacted) key" for name vs
  proof (cases "rd_credential lower r name vs")
    case True
    with redacted_short [OF assms(1)] show ?thesis by simp
  next
    case False
    then have "\<forall>v \<in> set vs. \<not> contains v key"
      using assms(1,4) by (auto simp: rd_credential_def is_credential_def list_ex_iff split: if_splits)
    moreover have "key \<noteq> []" using assms(1) by (auto simp: key_needle_def min_key_needle_bytes_def)
    ultimately have "\<not> contains (join_with '', '' vs) key" using join_contains assms(2,3) by blast
    with False show ?thesis by simp
  qed
  then show ?thesis by (auto simp: quiet_attr_def shown_headers_def)
qed

lemma quiet_plain [simp]: "quiet_attr key (AttrString s)" "quiet_attr key (AttrInt i)" "quiet_attr key (AttrDuration i)"
  by (simp_all add: quiet_attr_def)

lemma quiet_log_record [simp]:
  "quiet_record key (log_record l m (request_attrs rq u @ as)) \<longleftrightarrow>
     (\<forall>(name, v) \<in> set as. quiet_attr key v \<and> (name = ''body'' \<longrightarrow> l = level_trace))"
  by (simp add: quiet_record_def log_record_def request_attrs_def)

lemma log_failure_quiet: "list_all (quiet_record key) (log_failure en rq u n took text)"
  by (simp add: log_failure_def)

lemma log_parts_quiet:
  assumes "\<And>h. quiet_attr key (AttrHeaders (shown_headers lower r h))"
  shows "list_all (quiet_record key) (log_request lower en r rq u h n)"
    and "list_all (quiet_record key) (log_response lower en r rq u n took meta)"
  by (simp_all add: log_request_def log_response_def assms Let_def)

lemma new_redactor_key: "key_needle key \<Longrightarrow> rd_key (new_header_redactor key) = key"
  by (simp add: new_header_redactor_def)

lemma response_redactor_key: "rd_key (response_redactor cfg rs) = rd_key (sc_redactor cfg)"
  by (simp add: response_redactor_def with_proxies_def split: option.splits)

text \<open>C29: the records of an attempt keep what they must not show: whatever the levels the handler keeps, the headers of a
  request or a response are logged without the API key (one of at least 8 bytes, without a comma or a space), and a body
  only at the trace level.\<close>

theorem attempt_records_quiet:
  assumes "sc_redactor cfg = new_header_redactor key" and "key_needle key" and "CHR '','' \<notin> set key" and "CHR '' '' \<notin> set key"
  shows "list_all (quiet_record key) (attempt_records lib enabled log_url cfg rq n env took)"
proof -
  have "quiet_attr key (AttrHeaders (shown_headers (std_lower lib) (sc_redactor cfg) h))" for h
    using shown_headers_quiet [OF assms(2-4)] new_redactor_key [OF assms(2)] assms(1) by simp
  moreover have "quiet_attr key (AttrHeaders (shown_headers (std_lower lib) (response_redactor cfg rs) h))" for h rs
    using shown_headers_quiet [OF assms(2-4)] new_redactor_key [OF assms(2)] assms(1) response_redactor_key by simp
  ultimately show ?thesis
    by (simp add: attempt_records_def log_parts_quiet log_failure_quiet Let_def split: sum.split read_error.split)
qed

theorem attempt_records_quiet_witness:
  "list_all (quiet_record ''secret-key'')
    (attempt_records sample_std {level_trace, level_debug, level_info} ''/v1/models''
      (sample_config\<lparr>sc_redactor := new_header_redactor ''secret-key''\<rparr>) sample_request 0
      (sample_env 0) 5)"
proof -
  have "key_needle ''secret-key''" by code_simp
  then show ?thesis by (intro attempt_records_quiet) simp_all
qed

end
