(* ===== verification/H2_Gate.thy ===== *)
theory H2_Gate
  imports Prelude
begin

text \<open>
  The cold-start gate and the header-write token of the SDK's transport, \<open>internal/h2gate/transport.go\<close>, as
  a transition system. Every critical section of the mutex, every operation on the token's channel and
  every compare-and-swap is one step, so the steps of any number of requests interleave as the code's
  do. A generation's channel \<open>done\<close> is closed exactly when its outcome is set. Timers and contexts may
  end at any time; which case a \<open>select\<close> takes when several are ready is open.
\<close>

section \<open>The state\<close>

datatype gate_state = StateCold | StateDialing | StateWarm

datatype verdict = Pending | Released | Failed | LeaderGone

record generation =
  gn_outcome :: verdict
  gn_waiters :: nat

definition new_generation :: generation where
  "new_generation = \<lparr>gn_outcome = Pending, gn_waiters = 0\<rparr>"

text \<open>How the stock transport's \<open>RoundTrip\<close> returned: a response, an error before a connection was had with
  the request's context alive (a \<open>DialError\<close>), any other error, or a panic.\<close>

datatype wire_result = WireResponse | WireDialError | WireError | WirePanic

datatype ending = Answered | WireFailed | DialFailed | ContextEnded | Panicked

text \<open>Where a request is: not begun, at the top of the loop of \<open>RoundTrip\<close>, parked on a generation, in
  \<open>send\<close> before it has the token, in the stock transport (with the token or without), back from it, or
  done. The generation it leads, if any, goes with it.\<close>

datatype place =
    Idle
  | AtGate
  | Parked nat
  | AtToken "nat option"
  | OnWire "nat option" bool
  | Returning "nat option" wire_result
  | Ended ending

record gate =
  gt_state :: gate_state
  gt_gens :: "generation list"
  gt_handover :: bool
  gt_warm :: bool
  gt_token :: bool
  gt_at :: "nat \<Rightarrow> place"
  gt_leaders :: nat
  gt_releases :: nat
  gt_failures :: nat
  gt_handovers :: nat
  gt_cold_resets :: nat
  gt_fall_throughs :: nat
  gt_token_expiries :: nat

definition new_gate :: gate where
  "new_gate =
     \<lparr>gt_state = StateCold, gt_gens = [], gt_handover = False, gt_warm = False, gt_token = False, gt_at = (\<lambda>r. Idle),
      gt_leaders = 0, gt_releases = 0, gt_failures = 0, gt_handovers = 0, gt_cold_resets = 0, gt_fall_throughs = 0,
      gt_token_expiries = 0\<rparr>"

definition move :: "nat \<Rightarrow> place \<Rightarrow> gate \<Rightarrow> gate" where
  "move r p g = g\<lparr>gt_at := (gt_at g)(r := p)\<rparr>"

definition set_outcome :: "nat \<Rightarrow> verdict \<Rightarrow> gate \<Rightarrow> gate" where
  "set_outcome i v g = g\<lparr>gt_gens := (gt_gens g)[i := (gt_gens g ! i)\<lparr>gn_outcome := v\<rparr>]\<rparr>"

definition set_waiters :: "nat \<Rightarrow> nat \<Rightarrow> gate \<Rightarrow> gate" where
  "set_waiters i n g = g\<lparr>gt_gens := (gt_gens g)[i := (gt_gens g ! i)\<lparr>gn_waiters := n\<rparr>]\<rparr>"

definition outcome_of :: "gate \<Rightarrow> nat \<Rightarrow> verdict" where
  "outcome_of g i = gn_outcome (gt_gens g ! i)"

definition current :: "gate \<Rightarrow> nat" where
  "current g = length (gt_gens g) - 1"

section \<open>The operations\<close>

text \<open>One turn of the loop of \<open>RoundTrip\<close>. The load of \<open>warm\<close> before the lock only skips the lock.\<close>

definition enter :: "nat \<Rightarrow> gate \<Rightarrow> gate" where
  "enter r g =
     (if gt_warm g \<or> gt_state g = StateWarm then move r (AtToken None) g
      else if gt_state g = StateCold \<or> gt_handover g then
        let gens = (if gt_state g = StateCold then gt_gens g @ [new_generation] else gt_gens g) in
        move r (AtToken (Some (length gens - 1)))
          (g\<lparr>gt_gens := gens, gt_state := StateDialing, gt_handover := False, gt_leaders := gt_leaders g + 1\<rparr>)
      else move r (Parked (current g)) (set_waiters (current g) (gn_waiters (gt_gens g ! current g) + 1) g))"

text \<open>A waiter whose generation's channel is closed.\<close>

definition wake :: "nat \<Rightarrow> nat \<Rightarrow> gate \<Rightarrow> gate" where
  "wake r i g =
     (case outcome_of g i of
        Released \<Rightarrow> move r (AtToken None) g
      | Failed \<Rightarrow> move r (Ended DialFailed) g
      | _ \<Rightarrow> move r AtGate g)"

definition leave :: "nat \<Rightarrow> gate \<Rightarrow> gate" where
  "leave i g = set_waiters i (gn_waiters (gt_gens g ! i) - 1) g"

definition leave_context :: "nat \<Rightarrow> nat \<Rightarrow> gate \<Rightarrow> gate" where
  "leave_context r i g = move r (Ended ContextEnded) (leave i g)"

definition fall_through :: "nat \<Rightarrow> nat \<Rightarrow> gate \<Rightarrow> gate" where
  "fall_through r i g =
     move r (AtToken None) ((leave i g)\<lparr>gt_fall_throughs := gt_fall_throughs g + 1\<rparr>)"

definition release :: "nat \<Rightarrow> gate \<Rightarrow> gate" where
  "release i g =
     (if outcome_of g i \<noteq> Pending then g
      else (set_outcome i Released g)\<lparr>gt_state := StateWarm, gt_warm := True, gt_releases := gt_releases g + 1\<rparr>)"

definition abandon :: "nat \<Rightarrow> gate \<Rightarrow> gate" where
  "abandon i g =
     (if gn_waiters (gt_gens g ! i) = 0
      then (set_outcome i LeaderGone g)\<lparr>gt_state := StateCold, gt_cold_resets := gt_cold_resets g + 1\<rparr>
      else
        let g' = set_outcome i LeaderGone g in
        g'\<lparr>gt_handover := True, gt_handovers := gt_handovers g + 1, gt_gens := gt_gens g' @ [new_generation]\<rparr>)"

definition fail_dial :: "nat \<Rightarrow> gate \<Rightarrow> gate" where
  "fail_dial i g =
     (set_outcome i Failed g)
       \<lparr>gt_state := StateCold, gt_failures := gt_failures g + 1, gt_cold_resets := gt_cold_resets g + 1\<rparr>"

text \<open>The end of \<open>lead\<close>, the deferred function included.\<close>

definition lead_end :: "nat \<Rightarrow> wire_result \<Rightarrow> gate \<Rightarrow> gate" where
  "lead_end i res g =
     (case res of
        WireResponse \<Rightarrow> release i g
      | WireDialError \<Rightarrow> if outcome_of g i \<noteq> Pending then g else fail_dial i g
      | _ \<Rightarrow> if outcome_of g i \<noteq> Pending then g else abandon i g)"

fun ending_of :: "wire_result \<Rightarrow> ending" where
  "ending_of WireResponse = Answered"
| "ending_of WireDialError = DialFailed"
| "ending_of WireError = WireFailed"
| "ending_of WirePanic = Panicked"

text \<open>\<open>giveBack\<close>: the compare-and-swap of \<open>given\<close>, then the receive that frees the token.\<close>

definition give_back :: "nat \<Rightarrow> nat option \<Rightarrow> gate \<Rightarrow> gate" where
  "give_back r gen g = move r (OnWire gen False) (g\<lparr>gt_token := False\<rparr>)"

section \<open>The steps\<close>

text \<open>\<open>step r g g'\<close>: request \<open>r\<close> takes a step.\<close>

inductive step :: "nat \<Rightarrow> gate \<Rightarrow> gate \<Rightarrow> bool" where
  start: "gt_at g r = Idle \<Longrightarrow> step r g (move r AtGate g)"
| enter: "gt_at g r = AtGate \<Longrightarrow> step r g (enter r g)"
| wake: "gt_at g r = Parked i \<Longrightarrow> outcome_of g i \<noteq> Pending \<Longrightarrow> step r g (wake r i g)"
| leave_context: "gt_at g r = Parked i \<Longrightarrow> step r g (leave_context r i g)"
| fall_through: "gt_at g r = Parked i \<Longrightarrow> step r g (fall_through r i g)"
| take_token: "gt_at g r = AtToken gen \<Longrightarrow> \<not> gt_token g \<Longrightarrow> step r g (move r (OnWire gen True) (g\<lparr>gt_token := True\<rparr>))"
| token_context: "gt_at g r = AtToken gen \<Longrightarrow> step r g (move r (Returning gen WireError) g)"
| token_expires: "gt_at g r = AtToken gen \<Longrightarrow>
    step r g (move r (OnWire gen False) (g\<lparr>gt_token_expiries := gt_token_expiries g + 1\<rparr>))"
| give_back: "gt_at g r = OnWire gen True \<Longrightarrow> step r g (give_back r gen g)"
| got_conn: "gt_at g r = OnWire (Some i) held \<Longrightarrow> outcome_of g i = Pending \<Longrightarrow> step r g (release i g)"
| returns: "gt_at g r = OnWire gen False \<Longrightarrow> step r g (move r (Returning gen res) g)"
| led: "gt_at g r = Returning (Some i) res \<Longrightarrow> step r g (move r (Ended (ending_of res)) (lead_end i res g))"
| sent: "gt_at g r = Returning None res \<Longrightarrow> step r g (move r (Ended (ending_of res)) g)"

inductive reachable :: "gate \<Rightarrow> bool" where
  init: "reachable new_gate"
| steps: "reachable g \<Longrightarrow> step r g g' \<Longrightarrow> reachable g'"

section \<open>The token\<close>

fun lead_of :: "place \<Rightarrow> nat option" where
  "lead_of (AtToken gen) = gen"
| "lead_of (OnWire gen held) = gen"
| "lead_of (Returning gen res) = gen"
| "lead_of _ = None"

fun holds :: "place \<Rightarrow> bool" where
  "holds (OnWire gen held) = held"
| "holds _ = False"

definition token_inv :: "gate \<Rightarrow> bool" where
  "token_inv g \<longleftrightarrow>
     (gt_token g \<longleftrightarrow> (\<exists>r. holds (gt_at g r))) \<and> (\<forall>r s. holds (gt_at g r) \<longrightarrow> holds (gt_at g s) \<longrightarrow> r = s)"

lemmas gate_ops = move_def set_outcome_def set_waiters_def leave_def

lemma token_ops [simp]:
  "gt_token (enter r g) = gt_token g" "gt_token (wake r i g) = gt_token g" "gt_token (leave_context r i g) = gt_token g"
  "gt_token (fall_through r i g) = gt_token g" "gt_token (release i g) = gt_token g" "gt_token (abandon i g) = gt_token g"
  "gt_token (fail_dial i g) = gt_token g" "gt_token (lead_end i res g) = gt_token g"
  by (auto simp: enter_def wake_def leave_context_def fall_through_def release_def abandon_def fail_dial_def lead_end_def
      gate_ops Let_def split: verdict.splits wire_result.splits)

lemma at_ops [simp]:
  "gt_at (move r p g) = (gt_at g)(r := p)" "gt_at (release i g) = gt_at g" "gt_at (abandon i g) = gt_at g"
  "gt_at (fail_dial i g) = gt_at g" "gt_at (lead_end i res g) = gt_at g" "gt_at (set_waiters i n g) = gt_at g"
  "gt_at (set_outcome i v g) = gt_at g"
  by (auto simp: release_def abandon_def fail_dial_def lead_end_def gate_ops Let_def split: wire_result.splits)

definition enter_place :: "gate \<Rightarrow> place" where
  "enter_place g =
     (if gt_warm g \<or> gt_state g = StateWarm then AtToken None
      else if gt_state g = StateCold then AtToken (Some (length (gt_gens g)))
      else if gt_handover g then AtToken (Some (current g))
      else Parked (current g))"

definition wake_place :: "verdict \<Rightarrow> place" where
  "wake_place v = (case v of Released \<Rightarrow> AtToken None | Failed \<Rightarrow> Ended DialFailed | _ \<Rightarrow> AtGate)"

lemma at_enter [simp]: "gt_at (enter r g) = (gt_at g)(r := enter_place g)"
  by (auto simp: enter_def enter_place_def current_def Let_def)

lemma at_wake [simp]: "gt_at (wake r i g) = (gt_at g)(r := wake_place (outcome_of g i))"
  by (auto simp: wake_def wake_place_def split: verdict.splits)

lemma at_leave [simp]:
  "gt_at (leave_context r i g) = (gt_at g)(r := Ended ContextEnded)" "gt_at (fall_through r i g) = (gt_at g)(r := AtToken None)"
  by (simp_all add: leave_context_def fall_through_def leave_def)

lemma at_token [simp]:
  "gt_at (give_back r gen g) = (gt_at g)(r := OnWire gen False)" "gt_at (g\<lparr>gt_token := b\<rparr>) = gt_at g"
  "gt_at (g\<lparr>gt_token_expiries := n\<rparr>) = gt_at g"
  by (simp_all add: give_back_def)

lemma not_holding [simp]: "\<not> holds (enter_place g)" "\<not> holds (wake_place v)"
  by (auto simp: enter_place_def wake_place_def split: verdict.splits)

lemma token_inv_move:
  assumes "token_inv g" "gt_token g' = gt_token g" "gt_at g' = (gt_at g)(r := p)" "holds p \<longleftrightarrow> holds (gt_at g r)"
  shows "token_inv g'"
  using assms unfolding token_inv_def by (metis fun_upd_apply)

lemma token_inv_step:
  assumes "step r g g'" "token_inv g"
  shows "token_inv g'"
  using assms
proof (cases rule: step.cases)
  case (take_token gen)
  with assms(2) show ?thesis by (auto simp: token_inv_def move_def)
next
  case (give_back gen)
  then have "holds (gt_at g r)" by simp
  with give_back assms(2) show ?thesis unfolding token_inv_def give_back_def by (auto simp: move_def)
next
  case (got_conn i held)
  with assms(2) show ?thesis by (simp add: token_inv_def)
qed (auto intro!: token_inv_move [OF assms(2), of _ r] simp: move_def)

lemma token_inv_new: "token_inv new_gate"
  by (simp add: token_inv_def new_gate_def)

lemma token_inv_reachable: "reachable g \<Longrightarrow> token_inv g"
  by (induction rule: reachable.induct) (auto intro: token_inv_new token_inv_step)

section \<open>The gate\<close>

lemma nth_update: "xs[j := x] ! i = (if i = j \<and> j < length xs then x else xs ! i)"
  by (cases "i = j") (auto simp: list_update_beyond)

lemma outcome_ops [simp]:
  "outcome_of (move r p g) i = outcome_of g i" "outcome_of (set_waiters j n g) i = outcome_of g i"
  "outcome_of (set_outcome j v g) i = (if i = j \<and> j < length (gt_gens g) then v else outcome_of g i)"
  by (auto simp: outcome_of_def gate_ops nth_update)

lemma gens_ops [simp]:
  "gt_gens (move r p g) = gt_gens g" "length (gt_gens (set_waiters j n g)) = length (gt_gens g)"
  "length (gt_gens (set_outcome j v g)) = length (gt_gens g)"
  by (simp_all add: gate_ops)

definition gate_inv :: "gate \<Rightarrow> bool" where
  "gate_inv g \<longleftrightarrow>
     (gt_warm g \<longleftrightarrow> gt_state g = StateWarm) \<and> (gt_handover g \<longrightarrow> gt_state g = StateDialing) \<and>
     (\<forall>i < length (gt_gens g). outcome_of g i = Pending \<longleftrightarrow> i = current g \<and> gt_state g = StateDialing) \<and>
     (gt_state g = StateDialing \<longrightarrow> gt_gens g \<noteq> []) \<and>
     (\<forall>r i. lead_of (gt_at g r) = Some i \<or> gt_at g r = Parked i \<longrightarrow> i < length (gt_gens g)) \<and>
     (\<forall>r s i. lead_of (gt_at g r) = Some i \<longrightarrow> lead_of (gt_at g s) = Some i \<longrightarrow> r = s) \<and>
     (gt_handover g \<longrightarrow> (\<forall>r. lead_of (gt_at g r) \<noteq> Some (current g) \<and> gt_at g r \<noteq> Parked (current g))) \<and>
     (gt_state g = StateDialing \<and> \<not> gt_handover g \<longrightarrow> (\<exists>r. lead_of (gt_at g r) = Some (current g)))"

lemma gate_invD:
  assumes "gate_inv g"
  shows "gt_warm g \<longleftrightarrow> gt_state g = StateWarm" "gt_handover g \<Longrightarrow> gt_state g = StateDialing"
    "i < length (gt_gens g) \<Longrightarrow> outcome_of g i = Pending \<longleftrightarrow> i = current g \<and> gt_state g = StateDialing"
    "gt_state g = StateDialing \<Longrightarrow> gt_gens g \<noteq> []"
    "lead_of (gt_at g r) = Some i \<Longrightarrow> i < length (gt_gens g)" "gt_at g r = Parked i \<Longrightarrow> i < length (gt_gens g)"
    "lead_of (gt_at g r) = Some i \<Longrightarrow> lead_of (gt_at g s) = Some i \<Longrightarrow> r = s"
    "gt_handover g \<Longrightarrow> lead_of (gt_at g r) \<noteq> Some (current g) \<and> gt_at g r \<noteq> Parked (current g)"
    "gt_state g = StateDialing \<Longrightarrow> \<not> gt_handover g \<Longrightarrow> \<exists>r. lead_of (gt_at g r) = Some (current g)"
  using assms unfolding gate_inv_def by blast+

text \<open>A step that moves a request which leads what it led and does not park.\<close>

definition same_gate :: "gate \<Rightarrow> gate \<Rightarrow> bool" where
  "same_gate g g' \<longleftrightarrow>
     gt_state g' = gt_state g \<and> gt_handover g' = gt_handover g \<and> gt_warm g' = gt_warm g \<and>
     length (gt_gens g') = length (gt_gens g) \<and> (\<forall>i. outcome_of g' i = outcome_of g i)"

lemma gate_inv_move:
  assumes "gate_inv g" "same_gate g g'" "gt_at g' = (gt_at g)(r := p)" "lead_of p = lead_of (gt_at g r)" "\<forall>i. p \<noteq> Parked i"
  shows "gate_inv g'"
proof -
  have l: "lead_of (gt_at g' s) = lead_of (gt_at g s)" for s using assms(3,4) by simp
  have k: "gt_at g' s = Parked i \<Longrightarrow> gt_at g s = Parked i" for s i using assms(3,5) by (auto split: if_splits)
  have n: "length (gt_gens g') = length (gt_gens g)" "current g' = current g" "gt_gens g' = [] \<longleftrightarrow> gt_gens g = []"
    using assms(2) by (simp_all add: same_gate_def current_def flip: length_0_conv)
  have e: "gt_state g' = gt_state g" "gt_handover g' = gt_handover g" "gt_warm g' = gt_warm g" "outcome_of g' i = outcome_of g i" for i
    using assms(2) by (simp_all add: same_gate_def)
  show ?thesis
    using assms(1) k unfolding gate_inv_def l n e by blast
qed

lemma same_gate_ops [simp]:
  "same_gate g (move r p g)" "same_gate g (set_waiters i n g)" "same_gate g (leave_context r i g)" "same_gate g (fall_through r i g)"
  "same_gate g (wake r i g)" "same_gate g (give_back r gen g)"
  "same_gate g (move r p (g\<lparr>gt_token := b\<rparr>))" "same_gate g (move r p (g\<lparr>gt_token_expiries := n\<rparr>))"
  by (auto simp: same_gate_def leave_context_def fall_through_def wake_def give_back_def gate_ops outcome_of_def nth_update
      split: verdict.splits)

lemma gate_inv_enter:
  assumes inv: "gate_inv g" and r: "lead_of (gt_at g r) = None"
  shows "gate_inv (enter r g)"
proof -
  have none: "lead_of (gt_at g s) \<noteq> Some (length (gt_gens g))" for s using inv by (auto simp: gate_inv_def)
  consider (warm) "gt_state g = StateWarm" | (cold) "gt_state g = StateCold"
    | (lead) "gt_state g = StateDialing" "gt_handover g" | (park) "gt_state g = StateDialing" "\<not> gt_handover g"
    by (cases "gt_state g") auto
  then show ?thesis
  proof cases
    case warm
    then have "enter r g = move r (AtToken None) g" by (simp add: enter_def)
    with inv r show ?thesis by (auto intro: gate_inv_move [where r = r])
  next
    case cold
    with inv have g: "\<not> gt_warm g" "\<not> gt_handover g" "\<forall>i < length (gt_gens g). outcome_of g i \<noteq> Pending" by (auto simp: gate_inv_def)
    from cold g(1) have e: "enter r g = move r (AtToken (Some (length (gt_gens g))))
        (g\<lparr>gt_gens := gt_gens g @ [new_generation], gt_state := StateDialing, gt_handover := False, gt_leaders := gt_leaders g + 1\<rparr>)"
      by (simp add: enter_def Let_def)
    have o: "outcome_of (enter r g) i = Pending \<longleftrightarrow> i = length (gt_gens g)" if "i < Suc (length (gt_gens g))" for i
      using that g(3) by (auto simp: e outcome_of_def move_def nth_append new_generation_def less_Suc_eq)
    have s: "gt_state (enter r g) = StateDialing" "gt_handover (enter r g) = False" "gt_warm (enter r g) = False"
      "length (gt_gens (enter r g)) = Suc (length (gt_gens g))" "current (enter r g) = length (gt_gens g)"
      using g(1) by (simp_all add: e current_def move_def)
    have p: "enter_place g = AtToken (Some (length (gt_gens g)))" using cold g(1) by (simp add: enter_place_def)
    have ne: "gt_gens (enter r g) \<noteq> []" using s(4) by auto
    have b: "lead_of (gt_at g q) = Some i \<or> gt_at g q = Parked i \<Longrightarrow> i < length (gt_gens g)"
      "lead_of (gt_at g q) = Some i \<Longrightarrow> lead_of (gt_at g t) = Some i \<Longrightarrow> q = t" for q t i
      using inv unfolding gate_inv_def by blast+
    show ?thesis
      using b none o ne unfolding gate_inv_def s at_enter p by (auto split: if_splits dest: less_SucI)
  next
    case lead
    with inv have g: "\<not> gt_warm g" "gt_gens g \<noteq> []" by (auto simp: gate_inv_def)
    with lead have e: "enter r g = move r (AtToken (Some (current g)))
        (g\<lparr>gt_state := StateDialing, gt_handover := False, gt_leaders := gt_leaders g + 1\<rparr>)"
      by (simp add: enter_def Let_def current_def)
    have "outcome_of (enter r g) i = outcome_of g i" "current (enter r g) = current g" for i by (simp_all add: e outcome_of_def current_def move_def)
    with inv lead g show ?thesis unfolding gate_inv_def by (auto simp: e move_def current_def)
  next
    case park
    with inv have g: "\<not> gt_warm g" "gt_gens g \<noteq> []" by (auto simp: gate_inv_def)
    with park have e: "enter r g = move r (Parked (current g)) (set_waiters (current g) (gn_waiters (gt_gens g ! current g) + 1) g)"
      by (simp add: enter_def)
    have s: "gt_state (enter r g) = gt_state g" "gt_handover (enter r g) = gt_handover g" "gt_warm (enter r g) = gt_warm g"
      "outcome_of (enter r g) i = outcome_of g i" "current (enter r g) = current g" "length (gt_gens (enter r g)) = length (gt_gens g)" for i
      by (simp_all add: e current_def) (simp_all add: gate_ops)
    have l: "lead_of (gt_at (enter r g) s) = lead_of (gt_at g s)" for s using r by (simp add: e)
    have "gt_gens (enter r g) \<noteq> []" using s(6) g(2) by (metis length_0_conv)
    moreover have "gt_at (enter r g) q = Parked i \<Longrightarrow> i < length (gt_gens g)" for q i
      using inv g(2) by (auto simp: e gate_inv_def current_def split: if_splits)
    ultimately show ?thesis using inv park unfolding gate_inv_def s l by blast
  qed
qed

text \<open>A generation whose leader resolves it.\<close>

lemma gate_inv_release:
  assumes inv: "gate_inv g" and r: "lead_of (gt_at g r) = Some i"
  shows "gate_inv (release i g)"
proof (cases "outcome_of g i = Pending")
  case True
  with inv r have i: "i = current g" "gt_state g = StateDialing" "i < length (gt_gens g)" by (auto simp: gate_inv_def)
  with inv r have "\<not> gt_handover g" by (auto simp: gate_inv_def)
  then show ?thesis
    using inv i True unfolding gate_inv_def
    by (auto simp: release_def current_def set_outcome_def outcome_of_def nth_update)
qed (use inv in \<open>simp add: release_def\<close>)

lemma gate_inv_fail:
  assumes inv: "gate_inv g" and r: "lead_of (gt_at g r) = Some i" and p: "outcome_of g i = Pending"
  shows "gate_inv (fail_dial i g)"
proof -
  from inv r p have i: "i = current g" "gt_state g = StateDialing" "i < length (gt_gens g)" by (auto simp: gate_inv_def)
  with inv r have "\<not> gt_handover g" by (auto simp: gate_inv_def)
  then show ?thesis
    using inv i p unfolding gate_inv_def
    by (auto simp: fail_dial_def current_def set_outcome_def outcome_of_def nth_update)
qed

lemma gate_inv_abandon:
  assumes inv: "gate_inv g" and r: "lead_of (gt_at g r) = Some i" and p: "outcome_of g i = Pending"
  shows "gate_inv (abandon i g)"
proof -
  from inv r p have i: "i = current g" "gt_state g = StateDialing" "i < length (gt_gens g)" by (auto simp: gate_inv_def)
  with inv r have h: "\<not> gt_handover g" by (auto simp: gate_inv_def)
  show ?thesis
  proof (cases "gn_waiters (gt_gens g ! i) = 0")
    case True
    with inv i p h show ?thesis unfolding gate_inv_def
      by (auto simp: abandon_def current_def set_outcome_def outcome_of_def nth_update)
  next
    case False
    have o: "outcome_of (abandon i g) j = (if j = length (gt_gens g) then Pending else if j = i then LeaderGone else outcome_of g j)"
      if "j < Suc (length (gt_gens g))" for j
      using that False i by (auto simp: abandon_def Let_def set_outcome_def outcome_of_def nth_append nth_update new_generation_def)
    have a: "gt_state (abandon i g) = StateDialing" "gt_handover (abandon i g) = True" "gt_warm (abandon i g) = gt_warm g"
      "length (gt_gens (abandon i g)) = Suc (length (gt_gens g))"
      using False i by (simp_all add: abandon_def Let_def set_outcome_def)
    have c: "current (abandon i g) = length (gt_gens g)" using a(4) by (simp add: current_def)
    have ne: "gt_gens (abandon i g) \<noteq> []" using a(4) by auto
    have "outcome_of (abandon i g) j = Pending \<longleftrightarrow> j = length (gt_gens g)" if "j < Suc (length (gt_gens g))" for j
      using o [OF that] inv i that by (auto simp: gate_inv_def less_Suc_eq)
    then show ?thesis using inv i ne unfolding gate_inv_def a c at_ops by (auto simp: less_Suc_eq)
  qed
qed

lemma gate_inv_done:
  assumes inv: "gate_inv g" and r: "lead_of (gt_at g r) = Some i" and p: "outcome_of g i \<noteq> Pending"
  shows "gate_inv (move r (Ended x) g)"
proof -
  have i: "i < length (gt_gens g)" "\<not> (i = current g \<and> gt_state g = StateDialing)"
    using inv r p unfolding gate_inv_def by blast+
  have k: "lead_of (((gt_at g)(r := Ended x)) s) = Some j \<Longrightarrow> lead_of (gt_at g s) = Some j"
    "((gt_at g)(r := Ended x)) s = Parked j \<Longrightarrow> gt_at g s = Parked j"
    "lead_of (gt_at g s) = Some j \<Longrightarrow> j \<noteq> i \<Longrightarrow> lead_of (((gt_at g)(r := Ended x)) s) = Some j" for s j
    using r by (auto split: if_splits)
  have e: "gt_state (move r (Ended x) g) = gt_state g" "gt_handover (move r (Ended x) g) = gt_handover g"
    "gt_warm (move r (Ended x) g) = gt_warm g" "current (move r (Ended x) g) = current g"
    by (simp_all add: move_def current_def)
  show ?thesis
    unfolding gate_inv_def e outcome_ops gens_ops at_ops
  proof (intro conjI)
    show "gt_state g = StateDialing \<and> \<not> gt_handover g \<longrightarrow> (\<exists>q. lead_of (((gt_at g)(r := Ended x)) q) = Some (current g))"
      using gate_invD(9) [OF inv] k(3) i(2) by blast
    show "\<forall>q j. lead_of (((gt_at g)(r := Ended x)) q) = Some j \<or> ((gt_at g)(r := Ended x)) q = Parked j \<longrightarrow> j < length (gt_gens g)"
      using gate_invD(5,6) [OF inv] k(1,2) by blast
    show "\<forall>q s j. lead_of (((gt_at g)(r := Ended x)) q) = Some j \<longrightarrow> lead_of (((gt_at g)(r := Ended x)) s) = Some j \<longrightarrow> q = s"
      using gate_invD(7) [OF inv] k(1) by blast
    show "gt_handover g \<longrightarrow> (\<forall>q. lead_of (((gt_at g)(r := Ended x)) q) \<noteq> Some (current g) \<and> ((gt_at g)(r := Ended x)) q \<noteq> Parked (current g))"
      using gate_invD(8) [OF inv] k(1,2) by blast
  qed (use gate_invD [OF inv] in blast)+
qed

lemma lead_end_resolves:
  assumes "i < length (gt_gens g)"
  shows "outcome_of (lead_end i res g) i \<noteq> Pending"
  using assms
  by (cases res) (auto simp: lead_end_def release_def fail_dial_def abandon_def Let_def set_outcome_def outcome_of_def nth_update nth_append)

lemma gate_inv_lead_end:
  assumes "gate_inv g" "lead_of (gt_at g r) = Some i"
  shows "gate_inv (lead_end i res g)"
  using assms gate_inv_release [OF assms] gate_inv_fail [OF assms] gate_inv_abandon [OF assms]
  by (cases res) (auto simp: lead_end_def)

lemma gate_inv_step:
  assumes "step r g g'" "gate_inv g"
  shows "gate_inv g'"
  using assms
proof (cases rule: step.cases)
  case (led i res)
  then have l: "lead_of (gt_at g r) = Some i" by simp
  with assms(2) have i: "i < length (gt_gens g)" by (auto simp: gate_inv_def)
  from gate_inv_done [OF gate_inv_lead_end [OF assms(2) l, of res], of r i] lead_end_resolves [OF i] l led show ?thesis by simp
next
  case enter
  with gate_inv_enter [OF assms(2), of r] show ?thesis by simp
next
  case (got_conn i held)
  with gate_inv_release [OF assms(2), of r i] show ?thesis by simp
qed (auto intro!: gate_inv_move [OF assms(2), of _ r] simp: wake_place_def split: verdict.splits)

lemma gate_inv_new: "gate_inv new_gate"
  by (simp add: gate_inv_def new_gate_def)

lemma gate_inv_reachable: "reachable g \<Longrightarrow> gate_inv g"
  by (induction rule: reachable.induct) (auto intro: gate_inv_new gate_inv_step)

section \<open>The waiters\<close>

definition parked :: "gate \<Rightarrow> nat \<Rightarrow> nat set" where
  "parked g i = {r. gt_at g r = Parked i}"

definition waiters_of :: "gate \<Rightarrow> nat \<Rightarrow> nat" where
  "waiters_of g i = gn_waiters (gt_gens g ! i)"

definition waiters_inv :: "gate \<Rightarrow> bool" where
  "waiters_inv g \<longleftrightarrow>
     (\<forall>i. finite (parked g i)) \<and>
     (\<forall>i < length (gt_gens g). card (parked g i) \<le> waiters_of g i \<and>
        (outcome_of g i = Pending \<longrightarrow> waiters_of g i = card (parked g i)))"

lemma parked_move: "gt_at g' = (gt_at g)(r := p) \<Longrightarrow>
    parked g' i = (if p = Parked i then insert r (parked g i) else parked g i - {r})"
  by (auto simp: parked_def)

lemma parked_same [simp]:
  "parked (release j g) i = parked g i" "parked (fail_dial j g) i = parked g i" "parked (abandon j g) i = parked g i"
  by (simp_all add: parked_def)

lemma not_parked: "gt_at g r = p \<Longrightarrow> p \<noteq> Parked i \<Longrightarrow> r \<notin> parked g i"
  by (simp add: parked_def)

lemma waiters_ops [simp]:
  "waiters_of (move r p g) i = waiters_of g i" "waiters_of (set_outcome j v g) i = waiters_of g i"
  "waiters_of (set_waiters j n g) i = (if i = j \<and> j < length (gt_gens g) then n else waiters_of g i)"
  by (auto simp: waiters_of_def gate_ops nth_update)

text \<open>A step that neither parks nor unparks, and resolves at most.\<close>

lemma waiters_inv_quiet:
  assumes "waiters_inv g" "\<And>i. parked g' i = parked g i" "length (gt_gens g') = length (gt_gens g)"
    "\<And>i. waiters_of g' i = waiters_of g i" "\<And>i. outcome_of g' i = Pending \<Longrightarrow> i < length (gt_gens g) \<Longrightarrow> outcome_of g i = Pending"
  shows "waiters_inv g'"
  using assms by (auto simp: waiters_inv_def)

lemma waiters_inv_fresh:
  assumes "waiters_inv g" "\<And>i. parked g' i = parked g i" "\<And>i. i < length (gt_gens g) \<Longrightarrow> waiters_of g' i = waiters_of g i"
    "\<And>i. i < length (gt_gens g) \<Longrightarrow> outcome_of g' i = Pending \<Longrightarrow> outcome_of g i = Pending"
    "length (gt_gens g') = Suc (length (gt_gens g))" "waiters_of g' (length (gt_gens g)) = 0" "parked g (length (gt_gens g)) = {}"
  shows "waiters_inv g'"
  using assms by (auto simp: waiters_inv_def less_Suc_eq)

lemma parked_in_range: "gate_inv g \<Longrightarrow> length (gt_gens g) \<le> i \<Longrightarrow> parked g i = {}"
  using gate_invD(6) [of g] by (fastforce simp: parked_def)

lemma waiters_inv_abandon:
  assumes w: "waiters_inv g" and i: "gate_inv g" "i < length (gt_gens g)"
  shows "waiters_inv (abandon i g)"
proof (cases "gn_waiters (gt_gens g ! i) = 0")
  case True
  then have a: "abandon i g = (set_outcome i LeaderGone g)\<lparr>gt_state := StateCold, gt_cold_resets := gt_cold_resets g + 1\<rparr>"
    by (simp add: abandon_def)
  have "parked (abandon i g) j = parked g j" for j by simp
  then show ?thesis
    unfolding a by (elim waiters_inv_quiet [OF w])
      (auto simp: waiters_of_def outcome_of_def set_outcome_def nth_update split: if_splits)
next
  case False
  then have a: "gt_gens (abandon i g) = (gt_gens g)[i := (gt_gens g ! i)\<lparr>gn_outcome := LeaderGone\<rparr>] @ [new_generation]"
    by (simp add: abandon_def Let_def set_outcome_def)
  show ?thesis
    using parked_in_range [OF i(1), of "length (gt_gens g)"]
    by (intro waiters_inv_fresh [OF w])
      (auto simp: a waiters_of_def outcome_of_def nth_append nth_update new_generation_def split: if_splits)
qed

lemma waiters_inv_lead_end:
  assumes "waiters_inv g" "gate_inv g" "i < length (gt_gens g)"
  shows "waiters_inv (lead_end i res g)"
proof -
  have r: "waiters_inv (release i g)"
    by (rule waiters_inv_quiet [OF assms(1) parked_same(1)])
      (auto simp: release_def waiters_of_def outcome_of_def set_outcome_def nth_update split: if_splits)
  have f: "waiters_inv (fail_dial i g)"
    by (rule waiters_inv_quiet [OF assms(1) parked_same(2)])
      (auto simp: fail_dial_def waiters_of_def outcome_of_def set_outcome_def nth_update split: if_splits)
  show ?thesis
    using r f assms(1) waiters_inv_abandon [OF assms] by (cases res) (simp_all add: lead_end_def)
qed

lemma waiters_inv_unpark:
  assumes w: "waiters_inv g" and r: "gt_at g r = Parked i"
    and a: "gt_at g' = (gt_at g)(r := p)" "\<And>j. p \<noteq> Parked j" "length (gt_gens g') = length (gt_gens g)"
    and n: "\<And>j. outcome_of g' j = outcome_of g j"
      "\<And>j. waiters_of g' j = (if j = i \<and> i < length (gt_gens g) \<and> left then waiters_of g i - 1 else waiters_of g j)"
      "left \<or> outcome_of g i \<noteq> Pending"
  shows "waiters_inv g'"
proof -
  have i: "r \<in> parked g i" "finite (parked g i)" and o: "\<And>j. j \<noteq> i \<Longrightarrow> r \<notin> parked g j" and fin: "\<And>j. finite (parked g j)"
    using r w by (auto simp: parked_def waiters_inv_def)
  have c: "card (parked g' j) = (if j = i then card (parked g i) - 1 else card (parked g j))" "finite (parked g' j)" for j
    using i o [of j] a(2) fin [of j] by (auto simp: parked_move [OF a(1)])
  have b: "0 < card (parked g i)"
    "j < length (gt_gens g) \<Longrightarrow> card (parked g j) \<le> waiters_of g j"
    "j < length (gt_gens g) \<Longrightarrow> outcome_of g j = Pending \<Longrightarrow> waiters_of g j = card (parked g j)" for j
    using i w unfolding waiters_inv_def card_gt_0_iff by blast+
  have "card (parked g' j) \<le> waiters_of g' j \<and> (outcome_of g' j = Pending \<longrightarrow> waiters_of g' j = card (parked g' j))"
    if "j < length (gt_gens g)" for j
    using b(1) b(2,3) [OF that] n(3) that unfolding c(1) n(1,2) by auto
  with c(2) a(3) show ?thesis by (simp add: waiters_inv_def)
qed

lemma waiters_inv_move:
  assumes w: "waiters_inv g" and a: "gt_at g' = (gt_at g)(r := p)" "\<And>j. p \<noteq> Parked j" "\<And>j. gt_at g r \<noteq> Parked j"
    and n: "gt_gens g' = gt_gens g"
  shows "waiters_inv g'"
proof -
  have "parked g' j = parked g j" for j using a(2,3) by (auto simp: parked_def a(1))
  with w n show ?thesis by (simp add: waiters_inv_def waiters_of_def outcome_of_def)
qed

lemma waiters_inv_enter:
  assumes w: "waiters_inv g" and i: "gate_inv g" and r: "gt_at g r = AtGate"
  shows "waiters_inv (enter r g)"
proof -
  have np: "r \<notin> parked g j" for j using r by (simp add: parked_def)
  consider (send) "gt_gens (enter r g) = gt_gens g" "\<And>j. enter_place g \<noteq> Parked j"
    | (cold) "gt_gens (enter r g) = gt_gens g @ [new_generation]" "\<And>j. enter_place g \<noteq> Parked j"
    | (park) "\<not> gt_warm g" "gt_state g = StateDialing" "\<not> gt_handover g"
    by (cases "gt_warm g"; cases "gt_state g"; cases "gt_handover g") (simp_all add: enter_def enter_place_def Let_def)
  then show ?thesis
  proof cases
    case send
    then show ?thesis using r by (intro waiters_inv_move [OF w, of _ r]) auto
  next
    case cold
    have p: "parked (enter r g) j = parked g j" for j
      using cold(2) np [of j] by (simp add: parked_move [OF at_enter])
    show ?thesis
      using parked_in_range [OF i, of "length (gt_gens g)"]
      by (intro waiters_inv_fresh [OF w p]) (simp_all add: cold(1) waiters_of_def outcome_of_def nth_append new_generation_def)
  next
    case park
    then have e: "enter r g = move r (Parked (current g)) (set_waiters (current g) (gn_waiters (gt_gens g ! current g) + 1) g)"
      by (simp add: enter_def)
    have p: "parked (enter r g) j = (if j = current g then insert r (parked g j) else parked g j)" for j
      using np [of j] by (auto simp: parked_move [OF at_enter] enter_place_def park)
    have n: "waiters_of (enter r g) j = (if j = current g \<and> current g < length (gt_gens g) then waiters_of g j + 1 else waiters_of g j)"
      "outcome_of (enter r g) j = outcome_of g j" "length (gt_gens (enter r g)) = length (gt_gens g)" for j
      by (simp_all add: e) (simp add: waiters_of_def)
    show ?thesis using w np unfolding waiters_inv_def p n by auto
  qed
qed

lemma waiters_inv_step:
  assumes "step r g g'" "gate_inv g" "waiters_inv g"
  shows "waiters_inv g'"
  using assms(1)
proof (cases rule: step.cases)
  case enter
  then show ?thesis using waiters_inv_enter assms by blast
next
  case (wake i)
  show ?thesis unfolding wake(1)
    by (rule waiters_inv_unpark [OF assms(3) wake(2) at_wake, where left = False])
      (auto simp: wake(3) wake_place_def H2_Gate.wake_def split: verdict.splits)
next
  case (leave_context i)
  show ?thesis unfolding leave_context(1)
    by (rule waiters_inv_unpark [OF assms(3) leave_context(2), where left = True])
      (auto simp: leave_context_def leave_def, auto simp: waiters_of_def)
next
  case (fall_through i)
  show ?thesis unfolding fall_through(1)
    by (rule waiters_inv_unpark [OF assms(3) fall_through(2), where left = True])
      (auto simp: fall_through_def leave_def gate_ops outcome_of_def waiters_of_def nth_update)
next
  case (got_conn i held)
  then have "i < length (gt_gens g)" using gate_invD(5) [OF assms(2), of r i] by simp
  with waiters_inv_lead_end [OF assms(3,2), of i WireResponse] got_conn show ?thesis by (simp add: lead_end_def)
next
  case (led i res)
  then have "i < length (gt_gens g)" using gate_invD(5) [OF assms(2), of r i] by simp
  then have w: "waiters_inv (lead_end i res g)" by (rule waiters_inv_lead_end [OF assms(3,2)])
  show ?thesis unfolding led(1) by (rule waiters_inv_move [OF w]) (auto simp: led(2))
qed (use assms(3) in \<open>auto intro!: waiters_inv_move [of g _ r] simp: give_back_def\<close>)

lemma waiters_inv_new: "waiters_inv new_gate"
  by (simp add: waiters_inv_def new_gate_def parked_def)

lemma waiters_inv_reachable: "reachable g \<Longrightarrow> waiters_inv g"
  by (induction rule: reachable.induct) (auto intro: waiters_inv_new waiters_inv_step gate_inv_reachable)

section \<open>Verdicts and the counters\<close>

lemma outcome_ops_stay:
  assumes "i < length (gt_gens g)" "outcome_of g i \<noteq> Pending"
  shows "outcome_of (enter r g) i = outcome_of g i" "outcome_of (lead_end j res g) i = outcome_of g i"
proof -
  show "outcome_of (enter r g) i = outcome_of g i"
    using assms by (auto simp: enter_def Let_def gate_ops outcome_of_def nth_append nth_update)
  have "outcome_of (release j g) i = outcome_of g i"
    using assms(2) by (auto simp: release_def outcome_of_def set_outcome_def nth_update)
  moreover have "outcome_of (fail_dial j g) i = outcome_of g i" if "outcome_of g j = Pending"
    using assms(2) that by (auto simp: fail_dial_def outcome_of_def set_outcome_def nth_update)
  moreover have "outcome_of (abandon j g) i = outcome_of g i" if "outcome_of g j = Pending"
    using assms that by (auto simp: abandon_def Let_def outcome_of_def set_outcome_def nth_update nth_append)
  ultimately show "outcome_of (lead_end j res g) i = outcome_of g i" by (cases res) (simp_all add: lead_end_def)
qed

lemma gens_grow:
  assumes "step r g g'"
  shows "length (gt_gens g) \<le> length (gt_gens g')"
proof -
  have "length (gt_gens g) \<le> length (gt_gens (lead_end j res g))" for j res
    by (cases res) (simp_all add: lead_end_def release_def fail_dial_def abandon_def Let_def set_outcome_def)
  moreover have "length (gt_gens g) \<le> length (gt_gens (enter r g))" by (simp add: enter_def Let_def gate_ops)
  moreover have "length (gt_gens (release j g)) = length (gt_gens g)" for j by (simp add: release_def)
  moreover note assms
  ultimately show ?thesis
    using assms by - (erule step.cases, simp_all add: wake_def leave_context_def fall_through_def leave_def give_back_def split: verdict.split)
qed

lemma outcome_token [simp]:
  "outcome_of (g\<lparr>gt_token := b\<rparr>) i = outcome_of g i" "outcome_of (g\<lparr>gt_token_expiries := n\<rparr>) i = outcome_of g i"
  by (simp_all add: outcome_of_def)

lemma same_gate_outcome: "same_gate g g' \<Longrightarrow> outcome_of g' i = outcome_of g i"
  by (simp add: same_gate_def)

lemma verdict_step:
  assumes "step r g g'" "i < length (gt_gens g)" "outcome_of g i \<noteq> Pending"
  shows "outcome_of g' i = outcome_of g i"
  using assms(1)
proof (cases rule: step.cases)
  case (got_conn j held)
  with outcome_ops_stay(2) [OF assms(2,3), of j WireResponse] show ?thesis by (simp add: lead_end_def)
qed (simp_all add: outcome_ops_stay [OF assms(2,3)] same_gate_outcome)

definition release_inv :: "gate \<Rightarrow> bool" where
  "release_inv g \<longleftrightarrow> gt_releases g = (if gt_warm g then 1 else 0)"

lemma counters_ops [simp]:
  "gt_warm (move r p g) = gt_warm g" "gt_releases (move r p g) = gt_releases g" "gt_leaders (move r p g) = gt_leaders g"
  "gt_warm (enter r g) = gt_warm g" "gt_releases (enter r g) = gt_releases g"
  "gt_warm (wake r i g) = gt_warm g" "gt_releases (wake r i g) = gt_releases g" "gt_leaders (wake r i g) = gt_leaders g"
  "gt_warm (leave_context r i g) = gt_warm g" "gt_releases (leave_context r i g) = gt_releases g"
  "gt_leaders (leave_context r i g) = gt_leaders g" "gt_warm (fall_through r i g) = gt_warm g"
  "gt_releases (fall_through r i g) = gt_releases g" "gt_leaders (fall_through r i g) = gt_leaders g"
  "gt_warm (give_back r gen g) = gt_warm g" "gt_releases (give_back r gen g) = gt_releases g"
  "gt_leaders (give_back r gen g) = gt_leaders g" "gt_leaders (release i g) = gt_leaders g"
  "gt_leaders (lead_end i res g) = gt_leaders g"
  by (auto simp: enter_def wake_def leave_context_def fall_through_def give_back_def release_def lead_end_def fail_dial_def
      abandon_def gate_ops Let_def split: verdict.splits wire_result.splits)

lemma release_counters:
  assumes "gate_inv g" "lead_of (gt_at g r) = Some i"
  shows "gt_warm (release i g) = (gt_warm g \<or> outcome_of g i = Pending)"
    "gt_releases (release i g) = gt_releases g + (if outcome_of g i = Pending then 1 else 0)"
    "outcome_of g i = Pending \<Longrightarrow> \<not> gt_warm g"
  using gate_invD(1) [OF assms(1)] gate_invD(3,5) [OF assms(1)] assms(2) by (auto simp: release_def set_outcome_def)

lemma lead_end_counters: "res \<noteq> WireResponse \<Longrightarrow> gt_warm (lead_end i res g) = gt_warm g"
  "res \<noteq> WireResponse \<Longrightarrow> gt_releases (lead_end i res g) = gt_releases g"
  by (cases res; simp add: lead_end_def fail_dial_def abandon_def set_outcome_def Let_def)+

lemma release_inv_step:
  assumes "step r g g'" "gate_inv g" "release_inv g"
  shows "release_inv g'"
  using assms(1)
proof (cases rule: step.cases)
  case (got_conn i held)
  with release_counters [OF assms(2), of r i] assms(3) show ?thesis by (simp add: release_inv_def)
next
  case (led i res)
  with release_counters [OF assms(2), of r i] assms(3) lead_end_counters [of res i g] show ?thesis
    by (cases "res = WireResponse") (simp_all add: release_inv_def lead_end_def)
qed (use assms(3) in \<open>simp_all add: release_inv_def\<close>)

lemma release_inv_new: "release_inv new_gate"
  by (simp add: new_gate_def release_inv_def)

lemma release_inv_reachable: "reachable g \<Longrightarrow> release_inv g"
  by (induction rule: reachable.induct) (auto intro: release_inv_new release_inv_step gate_inv_reachable)

lemma warm_step: "step r g g' \<Longrightarrow> gt_warm g \<Longrightarrow> gt_warm g'"
  by (cases rule: step.cases, assumption) (auto simp: release_def lead_end_def fail_dial_def abandon_def set_outcome_def Let_def
      split: wire_result.splits)

section \<open>Runs\<close>

text \<open>\<open>run g rs g'\<close>: the requests \<open>rs\<close> take their steps in that order.\<close>

inductive run :: "gate \<Rightarrow> nat list \<Rightarrow> gate \<Rightarrow> bool" where
  none: "run g [] g"
| more: "step r g g' \<Longrightarrow> run g' rs g'' \<Longrightarrow> run g (r # rs) g''"

inductive_cases run_NilE: "run g [] g'"
inductive_cases run_ConsE: "run g (r # rs) g'"

lemma run_reachable: "run g rs g' \<Longrightarrow> reachable g \<Longrightarrow> reachable g'"
  by (induction rule: run.induct) (auto intro: reachable.steps)

lemma verdict_run:
  "run g rs g' \<Longrightarrow> i < length (gt_gens g) \<Longrightarrow> outcome_of g i \<noteq> Pending \<Longrightarrow>
    outcome_of g' i = outcome_of g i \<and> i < length (gt_gens g')"
proof (induction rule: run.induct)
  case (more r g g' rs g'')
  from verdict_step [OF more.hyps(1) more.prems] gens_grow [OF more.hyps(1)] more show ?case by simp
qed simp

fun lead_rank :: "place \<Rightarrow> nat" where
  "lead_rank (AtToken gen) = 4"
| "lead_rank (OnWire gen held) = (if held then 3 else 2)"
| "lead_rank (Returning gen res) = 1"
| "lead_rank _ = 0"

text \<open>A step of the leader of a pending generation brings its verdict nearer, and no step of another request
  moves the leader.\<close>

lemma leader_step:
  assumes "step r g g'" "gate_inv g" "lead_of (gt_at g s) = Some i" "outcome_of g i = Pending"
  shows "outcome_of g' i \<noteq> Pending \<or> lead_of (gt_at g' s) = Some i \<and>
    lead_rank (gt_at g' s) + (if r = s then 1 else 0) \<le> lead_rank (gt_at g s)"
proof (cases "r = s")
  case False
  from assms(1) have "gt_at g' s = gt_at g s" using False by (cases rule: step.cases) simp_all
  with assms(3) False show ?thesis by simp
next
  case True
  have i: "i < length (gt_gens g)" using gate_invD(5) [OF assms(2,3)] .
  from assms(1) show ?thesis
  proof (cases rule: step.cases)
    case (led j res)
    with assms(3) True have "j = i" by simp
    with led lead_end_resolves [OF i, of res] show ?thesis by simp
  next
    case (got_conn j held)
    with assms(3) True have "j = i" by simp
    with got_conn lead_end_resolves [OF i, of WireResponse] show ?thesis by (simp add: lead_end_def)
  qed (use assms(3) True in auto)
qed

lemma lead_rank_4: "lead_rank p \<le> 4"
  by (cases p) auto

lemma lead_rank_pos: "lead_of p = Some i \<Longrightarrow> 0 < lead_rank p"
  by (cases p) auto

lemma leader_run:
  "run g rs g' \<Longrightarrow> reachable g \<Longrightarrow> lead_of (gt_at g s) = Some i \<Longrightarrow> outcome_of g i = Pending \<Longrightarrow>
    outcome_of g' i \<noteq> Pending \<or> lead_of (gt_at g' s) = Some i \<and> lead_rank (gt_at g' s) + count_list rs s \<le> lead_rank (gt_at g s)"
proof (induction rule: run.induct)
  case (more r g g' rs g'')
  have i: "i < length (gt_gens g)" using gate_invD(5) [OF gate_inv_reachable [OF more.prems(1)] more.prems(2)] .
  from leader_step [OF more.hyps(1) gate_inv_reachable [OF more.prems(1)] more.prems(2,3)] show ?case
  proof (elim disjE conjE)
    assume "outcome_of g' i \<noteq> Pending"
    with verdict_run [OF more.hyps(2)] gens_grow [OF more.hyps(1)] i show ?thesis by auto
  next
    assume l: "lead_of (gt_at g' s) = Some i" and k: "lead_rank (gt_at g' s) + (if r = s then 1 else 0) \<le> lead_rank (gt_at g s)"
    show ?thesis
    proof (cases "outcome_of g' i = Pending")
      case True
      from more.IH [OF reachable.steps [OF more.prems(1) more.hyps(1)] l True] k show ?thesis by (auto split: if_splits)
    next
      case False
      with verdict_run [OF more.hyps(2)] gens_grow [OF more.hyps(1)] i show ?thesis by auto
    qed
  qed
qed simp

lemma warm_run: "run g rs g' \<Longrightarrow> gt_warm g \<Longrightarrow> gt_warm g'"
  by (induction rule: run.induct) (auto intro: warm_step)

lemma warm_leaders:
  assumes "run g rs g'" "gt_warm g"
  shows "gt_leaders g' = gt_leaders g"
  using assms
proof (induction rule: run.induct)
  case (more r g g' rs g'')
  from more.hyps(1) have "gt_leaders g' = gt_leaders g"
    using more.prems by (cases rule: step.cases) (simp_all add: enter_def)
  with more warm_step show ?case by metis
qed simp

section \<open>What the gate promises\<close>

text \<open>C18: In every state the gate can reach: the header-write token is taken exactly when one request in the stock
  transport holds it, and no two hold it; one request at most leads a generation; a generation without a verdict is
  the current one, of a gate that dials, and its count of waiters is the number of requests parked on it; and the
  gate was released once if it is warm, never before.\<close>

theorem gate_keeps_its_promises:
  assumes "reachable g"
  shows "(gt_token g \<longleftrightarrow> (\<exists>r. holds (gt_at g r))) \<and> (\<forall>r s. holds (gt_at g r) \<longrightarrow> holds (gt_at g s) \<longrightarrow> r = s) \<and>
    (\<forall>r s i. lead_of (gt_at g r) = Some i \<longrightarrow> lead_of (gt_at g s) = Some i \<longrightarrow> r = s) \<and>
    (\<forall>i < length (gt_gens g). outcome_of g i = Pending \<longrightarrow>
       i = current g \<and> gt_state g = StateDialing \<and> finite (parked g i) \<and> gn_waiters (gt_gens g ! i) = card (parked g i)) \<and>
    gt_releases g = (if gt_state g = StateWarm then 1 else 0)"
proof (intro conjI)
  note inv = gate_inv_reachable [OF assms]
  show "gt_token g \<longleftrightarrow> (\<exists>r. holds (gt_at g r))" "\<forall>r s. holds (gt_at g r) \<longrightarrow> holds (gt_at g s) \<longrightarrow> r = s"
    using token_inv_reachable [OF assms] unfolding token_inv_def by blast+
  show "\<forall>r s i. lead_of (gt_at g r) = Some i \<longrightarrow> lead_of (gt_at g s) = Some i \<longrightarrow> r = s"
    using gate_invD(7) [OF inv] by blast
  show "\<forall>i < length (gt_gens g). outcome_of g i = Pending \<longrightarrow>
       i = current g \<and> gt_state g = StateDialing \<and> finite (parked g i) \<and> gn_waiters (gt_gens g ! i) = card (parked g i)"
    using gate_invD(3) [OF inv] waiters_inv_reachable [OF assms] by (simp add: waiters_inv_def waiters_of_def)
  show "gt_releases g = (if gt_state g = StateWarm then 1 else 0)"
    using release_inv_reachable [OF assms] gate_invD(1) [OF inv] by (simp add: release_inv_def)
qed

text \<open>C19: No request waits at the gate for nothing. A request is parked on a generation that has its verdict, and then
  can leave the gate at once; or another request leads that generation, and however the steps interleave, the
  verdict is there once the leader took four steps of its own.\<close>

theorem waiter_gets_verdict:
  assumes "reachable g" "gt_at g r = Parked i"
  shows "outcome_of g i \<noteq> Pending \<and> step r g (wake r i g) \<or>
    (\<exists>s. s \<noteq> r \<and> lead_of (gt_at g s) = Some i \<and>
      (\<forall>rs g'. run g rs g' \<longrightarrow> 4 \<le> count_list rs s \<longrightarrow> outcome_of g' i \<noteq> Pending))"
proof (cases "outcome_of g i = Pending")
  case False
  with assms(2) show ?thesis by (auto intro: step.wake)
next
  case True
  note inv = gate_inv_reachable [OF assms(1)]
  have i: "i = current g" "gt_state g = StateDialing"
    using gate_invD(3) [OF inv gate_invD(6) [OF inv assms(2)]] True by simp_all
  with gate_invD(8) [OF inv, of r] assms(2) have "\<not> gt_handover g" by auto
  with gate_invD(9) [OF inv] i obtain s where s: "lead_of (gt_at g s) = Some i" by auto
  moreover have "outcome_of g' i \<noteq> Pending" if "run g rs g'" "4 \<le> count_list rs s" for rs g'
    using leader_run [OF that(1) assms(1) s True] that(2) lead_rank_4 [of "gt_at g s"] lead_rank_pos [of "gt_at g' s" i] by auto
  moreover have "s \<noteq> r" using s assms(2) by auto
  ultimately show ?thesis by blast
qed

text \<open>A verdict is final, and so is the warm state: whatever runs from a reachable state, a generation that has a
  verdict keeps it, a warm gate stays warm and leads no further dial, and every request that begins then goes on to
  the token without waiting.\<close>

theorem verdicts_are_final:
  assumes "reachable g" "run g rs g'"
  shows "(\<forall>i < length (gt_gens g). outcome_of g i \<noteq> Pending \<longrightarrow> outcome_of g' i = outcome_of g i) \<and>
    (gt_warm g \<longrightarrow> gt_warm g' \<and> gt_leaders g' = gt_leaders g \<and> (\<forall>r. enter r g' = move r (AtToken None) g'))"
  using verdict_run [OF assms(2)] warm_run [OF assms(2)] warm_leaders [OF assms(2)] by (auto simp: enter_def)

definition two_parked :: gate where
  "two_parked = enter 1 (move 1 AtGate (enter 0 (move 0 AtGate new_gate)))"

lemmas sample_simps = two_parked_def new_gate_def enter_def Let_def new_generation_def outcome_of_def current_def gate_ops

lemma reachable_sample: "reachable two_parked"
  unfolding two_parked_def
  by (intro reachable.steps [OF _ step.enter] reachable.steps [OF _ step.start] reachable.init) (simp_all add: sample_simps)

lemma gate_keeps_its_promises_witness:
  "gn_waiters (gt_gens two_parked ! 0) = card (parked two_parked 0) \<and> gt_releases two_parked = 0"
  using gate_keeps_its_promises [OF reachable_sample] by (auto simp: sample_simps)

lemma waiter_gets_verdict_witness:
  "gt_at two_parked 1 = Parked 0 \<and> (\<exists>s. s \<noteq> 1 \<and> lead_of (gt_at two_parked s) = Some 0 \<and>
      (\<forall>rs g'. run two_parked rs g' \<longrightarrow> 4 \<le> count_list rs s \<longrightarrow> outcome_of g' 0 \<noteq> Pending))"
proof -
  have p: "gt_at two_parked 1 = Parked 0" "outcome_of two_parked 0 = Pending" by (simp_all add: sample_simps)
  with waiter_gets_verdict [OF reachable_sample p(1)] show ?thesis by blast
qed

definition warmed :: gate where
  "warmed = release 0 (move 0 (OnWire (Some 0) True) (two_parked\<lparr>gt_token := True\<rparr>))"

lemma reachable_warmed: "reachable warmed"
  unfolding warmed_def
  by (intro reachable.steps [OF _ step.got_conn [where r = 0 and held = True]] reachable.steps [OF _ step.take_token] reachable_sample)
    (simp_all add: sample_simps)

lemma verdicts_are_final_witness:
  "outcome_of (wake 1 0 warmed) 0 = Released \<and> gt_warm (wake 1 0 warmed) \<and> gt_leaders (wake 1 0 warmed) = gt_leaders warmed"
proof -
  have w: "gt_warm warmed" "0 < length (gt_gens warmed)" "outcome_of warmed 0 = Released" "gt_at warmed 1 = Parked 0"
    by (simp_all add: warmed_def release_def sample_simps)
  have "run warmed [1] (wake 1 0 warmed)"
    by (rule run.more [OF step.wake [OF w(4)] run.none]) (simp add: w(3))
  from verdicts_are_final [OF reachable_warmed this] w show ?thesis by simp
qed

end
