(* ===== verification/Adapter_Json.thy ===== *)
theory Adapter_Json
  imports Codec_Errorbody Sdk_Number
begin

text \<open>
  The JSON of the adapter, \<open>adapter/internal/jsonx\<close>: a document read the way Python's \<open>json.loads\<close> holds it,
  and its value written the way pydantic-core and \<open>json.dumps\<close> write it. The decoder of the JSON library is
  third-party code; a document is the tokens it delivers and whether they end or fail (\<open>jstream\<close>).
\<close>

section \<open>Documents\<close>

datatype jnode =
    NNull | NFalse | NTrue | NNumber bytes | NString bytes
  | NArray "jnode list" | NObject "(bytes \<times> jnode) list"

datatype jsonx_error = JxSyntax | JxDepth | JxReadDepth | JxIntDigits

datatype jtoken =
    TokNull | TokFalse | TokTrue | TokString bytes | TokNumber bytes
  | TokBeginArray | TokEndArray | TokBeginObject | TokEndObject

text \<open>What is left of a document: the tokens to come, and whether \<open>io.EOF\<close> follows them or a syntax error.\<close>

record jstream =
  js_tokens :: "jtoken list"
  js_eof :: bool

definition jx_value_depth :: nat where "jx_value_depth = 255"
definition jx_read_depth :: nat where "jx_read_depth = 10000"
definition jx_max_int_digits :: nat where "jx_max_int_digits = 4300"

definition is_int_literal :: "bytes \<Rightarrow> bool" where
  "is_int_literal lit \<longleftrightarrow> list_all (\<lambda>c. c \<noteq> CHR ''.'' \<and> c \<noteq> CHR ''e'' \<and> c \<noteq> CHR ''E'') lit"

definition trim_minus :: "bytes \<Rightarrow> bytes" where
  "trim_minus lit = (case lit of c # cs \<Rightarrow> if c = CHR ''-'' then cs else lit | [] \<Rightarrow> [])"

text \<open>\<open>Token.String\<close>: the text of a string, any other token as the document spells it.\<close>

fun token_text :: "jtoken \<Rightarrow> bytes" where
  "token_text TokNull = ''null''"
| "token_text TokFalse = ''false''"
| "token_text TokTrue = ''true''"
| "token_text (TokString s) = s"
| "token_text (TokNumber s) = s"
| "token_text TokBeginArray = ''[''"
| "token_text TokEndArray = '']''"
| "token_text TokBeginObject = ''{''"
| "token_text TokEndObject = ''}''"

text \<open>A member: a repeated name keeps its first position and takes the later value.\<close>

definition jx_put_member :: "bytes \<Rightarrow> jnode \<Rightarrow> (bytes \<times> jnode) list \<Rightarrow> (bytes \<times> jnode) list" where
  "jx_put_member name value ms = AList.update name value ms"

text \<open>The reader. The outer option is the fuel: every call takes one.\<close>

fun read_value :: "nat \<Rightarrow> nat \<Rightarrow> jtoken list \<Rightarrow> (jsonx_error + jnode \<times> jtoken list) option"
and read_array :: "nat \<Rightarrow> nat \<Rightarrow> jnode list \<Rightarrow> jtoken list \<Rightarrow> (jsonx_error + jnode \<times> jtoken list) option"
and read_object :: "nat \<Rightarrow> nat \<Rightarrow> (bytes \<times> jnode) list \<Rightarrow> jtoken list \<Rightarrow> (jsonx_error + jnode \<times> jtoken list) option" where
  "read_value 0 lvl ts = None"
| "read_value (Suc n) lvl ts =
     (case ts of
        [] \<Rightarrow> Some (Inl JxSyntax)
      | t # ts \<Rightarrow>
          if (t = TokBeginArray \<or> t = TokBeginObject) \<and> jx_read_depth < lvl then Some (Inl JxReadDepth)
          else case t of
            TokNull \<Rightarrow> Some (Inr (NNull, ts))
          | TokFalse \<Rightarrow> Some (Inr (NFalse, ts))
          | TokTrue \<Rightarrow> Some (Inr (NTrue, ts))
          | TokString s \<Rightarrow> Some (Inr (NString s, ts))
          | TokNumber lit \<Rightarrow>
              if is_int_literal lit \<and> jx_max_int_digits < length (trim_minus lit) then Some (Inl JxIntDigits)
              else Some (Inr (NNumber lit, ts))
          | TokBeginArray \<Rightarrow> read_array n lvl [] ts
          | TokBeginObject \<Rightarrow> read_object n lvl [] ts
          | _ \<Rightarrow> Some (Inl JxSyntax))"
| "read_array 0 lvl es ts = None"
| "read_array (Suc n) lvl es ts =
     (if ts \<noteq> [] \<and> hd ts = TokEndArray then Some (Inr (NArray es, tl ts))
      else
        case read_value n (lvl + 1) ts of
          None \<Rightarrow> None
        | Some (Inl e) \<Rightarrow> Some (Inl e)
        | Some (Inr (v, ts)) \<Rightarrow> read_array n lvl (es @ [v]) ts)"
| "read_object 0 lvl ms ts = None"
| "read_object (Suc n) lvl ms ts =
     (case ts of
        [] \<Rightarrow> Some (Inl JxSyntax)
      | t # ts \<Rightarrow>
          if t = TokEndObject then Some (Inr (NObject ms, ts))
          else
            case read_value n (lvl + 1) ts of
              None \<Rightarrow> None
            | Some (Inl e) \<Rightarrow> Some (Inl e)
            | Some (Inr (v, ts)) \<Rightarrow> read_object n lvl (jx_put_member (token_text t) v ms) ts)"

definition read_document :: "jstream \<Rightarrow> (jsonx_error + jnode) option" where
  "read_document d =
     (case read_value (2 * length (js_tokens d) + 2) 1 (js_tokens d) of
        None \<Rightarrow> None
      | Some (Inl e) \<Rightarrow> Some (Inl e)
      | Some (Inr (root, ts)) \<Rightarrow> Some (if ts = [] \<and> js_eof d then Inr root else Inl JxSyntax))"

section \<open>Nodes\<close>

datatype jkind = KindNull | KindFalse | KindTrue | KindNumber | KindString | KindArray | KindObject

text \<open>A \<open>Node\<close> points to a value of a document; the zero \<open>Node\<close> is null.\<close>

type_synonym jref = "jnode option"

fun node_kind :: "jref \<Rightarrow> jkind" where
  "node_kind None = KindNull"
| "node_kind (Some NNull) = KindNull"
| "node_kind (Some NFalse) = KindFalse"
| "node_kind (Some NTrue) = KindTrue"
| "node_kind (Some (NNumber _)) = KindNumber"
| "node_kind (Some (NString _)) = KindString"
| "node_kind (Some (NArray _)) = KindArray"
| "node_kind (Some (NObject _)) = KindObject"

fun node_text :: "jref \<Rightarrow> bytes" where
  "node_text (Some (NNumber s)) = s"
| "node_text (Some (NString s)) = s"
| "node_text _ = []"

definition node_is_int :: "jref \<Rightarrow> bool" where
  "node_is_int v \<longleftrightarrow> node_kind v = KindNumber \<and> is_int_literal (node_text v)"

fun node_elems :: "jref \<Rightarrow> jnode list" where
  "node_elems (Some (NArray es)) = es"
| "node_elems (Some (NObject ms)) = map snd ms"
| "node_elems _ = []"

fun node_members :: "jref \<Rightarrow> (bytes \<times> jnode) list" where
  "node_members (Some (NObject ms)) = ms"
| "node_members _ = []"

text \<open>The value of a member; the zero \<open>Node\<close> when there is none.\<close>

definition node_member :: "jref \<Rightarrow> bytes \<Rightarrow> jref" where
  "node_member v name = map_of (node_members v) name"

section \<open>Floats\<close>

text \<open>\<open>strconv.AppendFloat(nil, f, 'e', -1, 64)\<close> taken apart: the digits and the exponent of the first one.\<close>

definition split_scientific :: "float64 \<Rightarrow> bytes \<times> int" where
  "split_scientific f =
     (if is_zero f then (''0'', 0) else case f64_ratio f of (p, q) \<Rightarrow> shortest 52 (-1074) p q)"

definition append_mantissa :: "bytes \<Rightarrow> bytes" where
  "append_mantissa ds = hd ds # (if 1 < length ds then CHR ''.'' # tl ds else [])"

definition append_positional :: "bytes \<Rightarrow> int \<Rightarrow> bytes" where
  "append_positional ds x =
     (if int (length ds) - 1 \<le> x then ds @ replicate (nat (x - (int (length ds) - 1))) (CHR ''0'') @ ''.0''
      else if 0 \<le> x then take (nat x + 1) ds @ ''.'' @ drop (nat x + 1) ds
      else ''0.'' @ replicate (nat (- x - 1)) (CHR ''0'') @ ds)"

definition float_sign :: "float64 \<Rightarrow> bytes" where
  "float_sign f = (if f64_neg f then ''-'' else [])"

definition exponent_sign :: "int \<Rightarrow> bytes" where
  "exponent_sign x = (if x < 0 then ''-'' else ''+'')"

definition pydantic_float :: "float64 \<Rightarrow> bytes" where
  "pydantic_float f =
     (if is_nan f then ''NaN''
      else if is_inf f then (if f64_neg f then ''-Infinity'' else ''Infinity'')
      else case split_scientific f of (ds, x) \<Rightarrow>
        float_sign f @
        (if -5 \<le> x \<and> x \<le> 15 then append_positional ds x
         else append_mantissa ds @ ''e'' @ exponent_sign x @ show_nat (nat \<bar>x\<bar>)))"

definition repr_float :: "float64 \<Rightarrow> bytes" where
  "repr_float f =
     (if is_nan f then ''nan''
      else if is_inf f then (if f64_neg f then ''-inf'' else ''inf'')
      else case split_scientific f of (ds, x) \<Rightarrow>
        float_sign f @
        (if -4 \<le> x \<and> x \<le> 15 then append_positional ds x
         else append_mantissa ds @ ''e'' @ exponent_sign x @ (if \<bar>x\<bar> < 10 then ''0'' else []) @ show_nat (nat \<bar>x\<bar>)))"

definition number_float :: "bytes \<Rightarrow> float64" where
  "number_float lit = parse_clean lit"

section \<open>Writing\<close>

definition jx_hex :: bytes where "jx_hex = ''0123456789abcdef''"

definition jx_escape :: "char \<Rightarrow> bytes" where
  "jx_escape c =
     (if \<not> byte c < 0x20 \<and> c \<noteq> quote_char \<and> c \<noteq> backslash then [c]
      else if c = quote_char \<or> c = backslash then [backslash, c]
      else if byte c = 8 then [backslash, CHR ''b'']
      else if byte c = 9 then [backslash, CHR ''t'']
      else if byte c = 10 then [backslash, CHR ''n'']
      else if byte c = 12 then [backslash, CHR ''f'']
      else if byte c = 13 then [backslash, CHR ''r'']
      else [backslash, CHR ''u'', CHR ''0'', CHR ''0'', jx_hex ! (byte c div 16), jx_hex ! (byte c mod 16)])"

definition jx_string :: "bytes \<Rightarrow> bytes" where
  "jx_string s = quote_char # concat (map jx_escape s) @ [quote_char]"

definition jx_number :: "bytes \<Rightarrow> bytes" where
  "jx_number lit =
     (if \<not> is_int_literal lit then pydantic_float (number_float lit) else if lit = ''-0'' then ''0'' else lit)"

fun jx_node :: "jnode \<Rightarrow> nat \<Rightarrow> jsonx_error + bytes"
and jx_elems :: "bool \<Rightarrow> jnode list \<Rightarrow> nat \<Rightarrow> jsonx_error + bytes"
and jx_members :: "bool \<Rightarrow> (bytes \<times> jnode) list \<Rightarrow> nat \<Rightarrow> jsonx_error + bytes" where
  "jx_node v lvl =
     (if jx_value_depth < lvl then Inl JxDepth
      else case v of
        NNull \<Rightarrow> Inr ''null''
      | NFalse \<Rightarrow> Inr ''false''
      | NTrue \<Rightarrow> Inr ''true''
      | NNumber lit \<Rightarrow> Inr (jx_number lit)
      | NString s \<Rightarrow> Inr (jx_string s)
      | NArray es \<Rightarrow> rmap (\<lambda>b. ''['' @ b @ '']'') (jx_elems True es (lvl + 1))
      | NObject ms \<Rightarrow> rmap (\<lambda>b. ''{'' @ b @ ''}'') (jx_members True ms (lvl + 1)))"
| "jx_elems first [] lvl = Inr []"
| "jx_elems first (v # vs) lvl =
     rbind (jx_node v lvl) (\<lambda>b. rmap (\<lambda>r. (if first then [] else '','') @ b @ r) (jx_elems False vs lvl))"
| "jx_members first [] lvl = Inr []"
| "jx_members first ((name, v) # ms) lvl =
     rbind (jx_node v lvl)
       (\<lambda>b. rmap (\<lambda>r. (if first then [] else '','') @ jx_string name @ '':'' @ b @ r) (jx_members False ms lvl))"

definition node_pydantic_json :: "jref \<Rightarrow> jsonx_error + bytes" where
  "node_pydantic_json v = (case v of None \<Rightarrow> Inr ''null'' | Some n \<Rightarrow> jx_node n 1)"

definition pydantic_json :: "jstream \<Rightarrow> (jsonx_error + bytes) option" where
  "pydantic_json d = map_option (\<lambda>r. rbind r (\<lambda>root. jx_node root 1)) (read_document d)"

section \<open>Values to write\<close>

datatype float_style = Pydantic | Repr

datatype jvalue =
    VNull | VBool bool | VString bytes | VNumber bytes | VFloat float64 float_style | VRaw bytes
  | VArray "jvalue list" | VObject "(bytes \<times> jvalue) list"

fun node_value :: "float_style \<Rightarrow> jnode \<Rightarrow> nat \<Rightarrow> jsonx_error + jvalue"
and node_values :: "float_style \<Rightarrow> jnode list \<Rightarrow> nat \<Rightarrow> jsonx_error + jvalue list"
and node_member_values :: "float_style \<Rightarrow> (bytes \<times> jnode) list \<Rightarrow> nat \<Rightarrow> jsonx_error + (bytes \<times> jvalue) list" where
  "node_value style v lvl =
     (if jx_value_depth < lvl then Inl JxDepth
      else case v of
        NNull \<Rightarrow> Inr VNull
      | NFalse \<Rightarrow> Inr (VBool False)
      | NTrue \<Rightarrow> Inr (VBool True)
      | NNumber lit \<Rightarrow>
          Inr (if is_int_literal lit then VNumber (if lit = ''-0'' then ''0'' else lit)
               else if is_inf (number_float lit) then VNull else VFloat (number_float lit) style)
      | NString s \<Rightarrow> Inr (VString s)
      | NArray es \<Rightarrow> rmap VArray (node_values style es (lvl + 1))
      | NObject ms \<Rightarrow> rmap VObject (node_member_values style ms (lvl + 1)))"
| "node_values style [] lvl = Inr []"
| "node_values style (v # vs) lvl = rbind (node_value style v lvl) (\<lambda>x. rmap (\<lambda>xs. x # xs) (node_values style vs lvl))"
| "node_member_values style [] lvl = Inr []"
| "node_member_values style ((name, v) # ms) lvl =
     rbind (node_value style v lvl) (\<lambda>x. rmap (\<lambda>xs. (name, x) # xs) (node_member_values style ms lvl))"

definition ref_value :: "float_style \<Rightarrow> jref \<Rightarrow> jsonx_error + jvalue" where
  "ref_value style v = (case v of None \<Rightarrow> Inr VNull | Some n \<Rightarrow> node_value style n 1)"

section \<open>The state in a prompt\<close>

definition escaped_less :: bytes where "escaped_less = backslash # ''u003c''"
definition escaped_greater :: bytes where "escaped_greater = backslash # ''u003e''"

definition replace_char :: "char \<Rightarrow> bytes \<Rightarrow> bytes \<Rightarrow> bytes" where
  "replace_char c new s = concat (map (\<lambda>x. if x = c then new else [x]) s)"

definition jx_encode_state :: "jstream \<Rightarrow> (jsonx_error + bytes) option" where
  "jx_encode_state d =
     map_option (rmap (\<lambda>out. replace_char (CHR ''>'') escaped_greater (replace_char (CHR ''<'') escaped_less out)))
       (pydantic_json d)"

section \<open>Reading ends\<close>

text \<open>Every value takes a token, so twice the tokens are fuel enough.\<close>

definition takes_token :: "jtoken list \<Rightarrow> (jsonx_error + jnode \<times> jtoken list) option \<Rightarrow> bool" where
  "takes_token ts r \<longleftrightarrow> (\<exists>x. r = Some x \<and> (\<forall>v ts'. x = Inr (v, ts') \<longrightarrow> length ts' < length ts))"

lemma takes_token_intros [intro, simp]:
  "takes_token ts (Some (Inl e))"
  "takes_token ts (Some (Inr (v, ts'))) \<longleftrightarrow> length ts' < length ts"
  "\<not> takes_token ts None"
  by (auto simp: takes_token_def)

lemma takes_token_mono: "takes_token ts r \<Longrightarrow> length ts \<le> length ts' \<Longrightarrow> takes_token ts' r"
  by (force simp: takes_token_def)

lemma takes_tokenE:
  assumes "takes_token ts r"
  obtains (error) e where "r = Some (Inl e)" | (node) v ts' where "r = Some (Inr (v, ts'))" "length ts' < length ts"
proof -
  from assms obtain x where x: "r = Some x" "\<forall>v ts'. x = Inr (v, ts') \<longrightarrow> length ts' < length ts"
    by (auto simp: takes_token_def)
  show thesis by (cases x) (use x error node in auto)
qed

lemma read_takes:
  "2 * length ts + 1 \<le> n \<Longrightarrow> takes_token ts (read_value n lvl ts)"
  "2 * length ts + 2 \<le> n \<Longrightarrow> takes_token ts (read_array n lvl es ts)"
  "2 * length ts + 2 \<le> n \<Longrightarrow> takes_token ts (read_object n lvl ms ts)"
proof (induction n lvl ts and n lvl es ts and n lvl ms ts rule: read_value_read_array_read_object.induct)
  case (2 n lvl ts)
  show ?case
  proof (cases ts)
    case (Cons t us)
    then have "2 * length us + 2 \<le> n" using 2(3) by simp
    then show ?thesis
      using 2(1) [OF Cons _ _] 2(2) [OF Cons _ _] Cons
      by (cases t) (auto intro: takes_token_mono [of us])
  qed simp
next
  case (4 n lvl es ts)
  show ?case
  proof (cases "ts \<noteq> [] \<and> hd ts = TokEndArray")
    case True
    then show ?thesis by (cases ts) auto
  next
    case False
    have "takes_token ts (read_value n (lvl + 1) ts)" using 4 False by simp
    then show ?thesis
    proof (cases rule: takes_tokenE)
      case (node v us)
      then have "takes_token us (read_array n lvl (es @ [v]) us)" using 4(2) [OF False node(1) refl refl] "4.prems" by simp
      then show ?thesis using False node by (auto intro: takes_token_mono)
    qed (use False in auto)
  qed
next
  case (6 n lvl ms ts)
  show ?case
  proof (cases ts)
    case (Cons t us)
    show ?thesis
    proof (cases "t = TokEndObject")
      case False
      have "takes_token us (read_value n (lvl + 1) us)" using 6(1) [OF Cons False] "6.prems" Cons by simp
      then show ?thesis
      proof (cases rule: takes_tokenE)
        case (node v ws)
        then have "takes_token ws (read_object n lvl (jx_put_member (token_text t) v ms) ws)"
          using 6(2) [OF Cons False node(1) refl refl] "6.prems" Cons by simp
        then show ?thesis using False node Cons by (auto intro: takes_token_mono)
      qed (use False Cons in auto)
    qed (use Cons in auto)
  qed simp
qed simp_all

lemma read_document_total: "\<exists>r. read_document d = Some r"
  using read_takes(1) [of "js_tokens d" "2 * length (js_tokens d) + 2" 1]
  by (auto simp: read_document_def elim!: takes_tokenE)

section \<open>What is read\<close>

fun wf_node :: "jnode \<Rightarrow> bool" where
  "wf_node (NArray es) \<longleftrightarrow> (\<forall>v \<in> set es. wf_node v)"
| "wf_node (NObject ms) \<longleftrightarrow> distinct (map fst ms) \<and> (\<forall>m \<in> set ms. wf_node (snd m))"
| "wf_node (NNumber lit) \<longleftrightarrow> \<not> (is_int_literal lit \<and> jx_max_int_digits < length (trim_minus lit))"
| "wf_node _ \<longleftrightarrow> True"

fun nesting :: "jnode \<Rightarrow> nat" where
  "nesting (NArray es) = Suc (fold max (map nesting es) 0)"
| "nesting (NObject ms) = Suc (fold max (map (\<lambda>m. nesting (snd m)) ms) 0)"
| "nesting _ = 0"

fun node_tokens :: "jnode \<Rightarrow> jtoken list" where
  "node_tokens NNull = [TokNull]"
| "node_tokens NFalse = [TokFalse]"
| "node_tokens NTrue = [TokTrue]"
| "node_tokens (NNumber s) = [TokNumber s]"
| "node_tokens (NString s) = [TokString s]"
| "node_tokens (NArray es) = TokBeginArray # concat (map node_tokens es) @ [TokEndArray]"
| "node_tokens (NObject ms) =
     TokBeginObject # concat (map (\<lambda>m. TokString (fst m) # node_tokens (snd m)) ms) @ [TokEndObject]"

lemma fold_max_le: "fold max xs (a :: nat) \<le> b \<longleftrightarrow> a \<le> b \<and> (\<forall>x \<in> set xs. x \<le> b)"
  by (induction xs arbitrary: a) auto

lemma jx_put_member_new: "name \<notin> fst ` set ms \<Longrightarrow> jx_put_member name v ms = ms @ [(name, v)]"
  by (simp add: jx_put_member_def update_append_new)

lemma node_tokens_hd: "node_tokens v = t # ts \<Longrightarrow> t \<noteq> TokEndArray \<and> t \<noteq> TokEndObject"
  by (cases v) auto

lemma node_tokens_not_Nil [simp]: "node_tokens v \<noteq> []"
  by (cases v) auto

lemma read_elems:
  assumes "\<And>v n rest. v \<in> set es \<Longrightarrow> 2 * length (node_tokens v @ rest) + 1 \<le> n \<Longrightarrow>
      read_value n (lvl + 1) (node_tokens v @ rest) = Some (Inr (v, rest))"
    and "2 * length (concat (map node_tokens es) @ TokEndArray # rest) + 2 \<le> n"
  shows "read_array n lvl acc (concat (map node_tokens es) @ TokEndArray # rest) = Some (Inr (NArray (acc @ es), rest))"
  using assms
proof (induction es arbitrary: n acc)
  case (Cons v es)
  obtain k where k: "n = Suc k" using "Cons.prems"(2) by (cases n) auto
  obtain t ts where t: "node_tokens v = t # ts" by (cases "node_tokens v") auto
  let ?rest = "concat (map node_tokens es) @ TokEndArray # rest"
  have "read_value k (lvl + 1) (node_tokens v @ ?rest) = Some (Inr (v, ?rest))"
    using "Cons.prems"(2) k by (intro "Cons.prems"(1)) auto
  moreover have "read_array k lvl (acc @ [v]) ?rest = Some (Inr (NArray ((acc @ [v]) @ es), rest))"
    using "Cons.prems" k t by (intro Cons.IH) auto
  ultimately show ?case using k t node_tokens_hd [OF t] by simp
next
  case Nil
  then show ?case by (cases n) auto
qed

lemma read_members:
  assumes "\<And>m n rest. m \<in> set ms \<Longrightarrow> 2 * length (node_tokens (snd m) @ rest) + 1 \<le> n \<Longrightarrow>
      read_value n (lvl + 1) (node_tokens (snd m) @ rest) = Some (Inr (snd m, rest))"
    and "2 * length (concat (map (\<lambda>m. TokString (fst m) # node_tokens (snd m)) ms) @ TokEndObject # rest) + 2 \<le> n"
    and "distinct (map fst (acc @ ms))"
  shows "read_object n lvl acc (concat (map (\<lambda>m. TokString (fst m) # node_tokens (snd m)) ms) @ TokEndObject # rest) =
    Some (Inr (NObject (acc @ ms), rest))"
  using assms
proof (induction ms arbitrary: n acc)
  case (Cons m ms)
  obtain k where k: "n = Suc k" using "Cons.prems"(2) by (cases n) auto
  let ?rest = "concat (map (\<lambda>m. TokString (fst m) # node_tokens (snd m)) ms) @ TokEndObject # rest"
  have "read_value k (lvl + 1) (node_tokens (snd m) @ ?rest) = Some (Inr (snd m, ?rest))"
    using "Cons.prems"(2) k by (intro "Cons.prems"(1)) auto
  moreover have "read_object k lvl (acc @ [(fst m, snd m)]) ?rest = Some (Inr (NObject ((acc @ [(fst m, snd m)]) @ ms), rest))"
    using "Cons.prems" k by (intro Cons.IH) auto
  moreover have "jx_put_member (fst m) (snd m) acc = acc @ [(fst m, snd m)]"
    using "Cons.prems"(3) by (intro jx_put_member_new) auto
  ultimately show ?case using k by (cases m) simp
next
  case Nil
  then show ?case by (cases n) auto
qed

lemma read_scalar:
  "nesting v = 0 \<Longrightarrow> wf_node v \<Longrightarrow> 0 < n \<Longrightarrow> read_value n lvl (node_tokens v @ rest) = Some (Inr (v, rest))"
  by (cases v; cases n) auto

lemma read_tokens:
  "wf_node v \<Longrightarrow> lvl + nesting v \<le> jx_read_depth + 1 \<Longrightarrow> 2 * length (node_tokens v @ rest) + 1 \<le> n \<Longrightarrow>
   read_value n lvl (node_tokens v @ rest) = Some (Inr (v, rest))"
proof (induction v arbitrary: lvl n rest rule: node_tokens.induct)
  case (6 es)
  obtain k where k: "n = Suc k" using 6(4) by (cases n) auto
  have "read_array k lvl [] (concat (map node_tokens es) @ TokEndArray # rest) = Some (Inr (NArray ([] @ es), rest))"
  proof (rule read_elems)
    fix v n rest
    assume v: "v \<in> set es" and n: "2 * length (node_tokens v @ rest) + 1 \<le> n"
    have "nesting v \<le> fold max (map nesting es) 0" using v fold_max_le [of "map nesting es" 0 "fold max (map nesting es) 0"] by auto
    then show "read_value n (lvl + 1) (node_tokens v @ rest) = Some (Inr (v, rest))" using v n 6 by (intro "6.IH") auto
  qed (use 6(4) k in auto)
  then show ?case using k 6(3) by auto
next
  case (7 ms)
  obtain k where k: "n = Suc k" using 7(4) by (cases n) auto
  have "read_object k lvl [] (concat (map (\<lambda>m. TokString (fst m) # node_tokens (snd m)) ms) @ TokEndObject # rest) =
      Some (Inr (NObject ([] @ ms), rest))"
  proof (rule read_members)
    fix m :: "bytes \<times> jnode" and n rest
    assume m: "m \<in> set ms" and n: "2 * length (node_tokens (snd m) @ rest) + 1 \<le> n"
    have "nesting (snd m) \<le> fold max (map (\<lambda>m. nesting (snd m)) ms) 0"
      using m fold_max_le [of "map (\<lambda>m. nesting (snd m)) ms" 0 "fold max (map (\<lambda>m. nesting (snd m)) ms) 0"] by auto
    then show "read_value n (lvl + 1) (node_tokens (snd m) @ rest) = Some (Inr (snd m, rest))" using m n 7 by (intro "7.IH") auto
  qed (use 7(2,4) k in auto)
  then show ?case using k 7(3) by auto
qed (rule read_scalar; simp)+

section \<open>What is written\<close>

text \<open>The levels of a value, a scalar counted as one.\<close>

fun jx_levels :: "jnode \<Rightarrow> nat" where
  "jx_levels (NArray es) = Suc (fold max (map jx_levels es) 0)"
| "jx_levels (NObject ms) = Suc (fold max (map (\<lambda>m. jx_levels (snd m)) ms) 0)"
| "jx_levels _ = 1"

lemma rmap_ok [simp]: "is_ok (rmap f r) \<longleftrightarrow> is_ok r"
  by (cases r) auto

lemma jx_rbind_ok: "is_ok (rbind r f) \<longleftrightarrow> (\<exists>x. r = Inr x \<and> is_ok (f x))"
  by (cases r) auto

lemma is_ok_iff: "is_ok r \<longleftrightarrow> (\<exists>x. r = Inr x)"
  by (cases r) auto

declare jx_node.simps [simp del]

lemma jx_levels_pos: "0 < jx_levels v"
  by (cases v) auto

lemma jx_max_levels: "l \<le> k \<Longrightarrow> l + Suc (fold max xs 0) \<le> k + 1 \<longleftrightarrow> (\<forall>x \<in> set xs. (l + 1) + x \<le> k + (1 :: nat))"
proof -
  assume "l \<le> k"
  then have "l + Suc (fold max xs 0) \<le> k + 1 \<longleftrightarrow> fold max xs 0 \<le> k - l" by auto
  also have "\<dots> \<longleftrightarrow> (\<forall>x \<in> set xs. (l + 1) + x \<le> k + 1)" using \<open>l \<le> k\<close> by (auto simp: fold_max_le)
  finally show ?thesis .
qed

lemma jx_node_ok:
  "l \<le> jx_value_depth \<Longrightarrow>
   is_ok (jx_node v l) \<longleftrightarrow>
     (case v of NArray es \<Rightarrow> is_ok (jx_elems True es (l + 1)) | NObject ms \<Rightarrow> is_ok (jx_members True ms (l + 1)) | _ \<Rightarrow> True)"
  by (cases v; subst jx_node.simps) auto

lemma jx_ok_iff:
  "is_ok (jx_node v l) \<longleftrightarrow> l + jx_levels v \<le> jx_value_depth + 1"
  "is_ok (jx_elems first vs l) \<longleftrightarrow> (\<forall>v \<in> set vs. l + jx_levels v \<le> jx_value_depth + 1)"
  "is_ok (jx_members first ms l) \<longleftrightarrow> (\<forall>m \<in> set ms. l + jx_levels (snd m) \<le> jx_value_depth + 1)"
proof (induction v l and first vs l and first ms l rule: jx_node_jx_elems_jx_members.induct)
  case (1 v l)
  show ?case
  proof (cases "jx_value_depth < l")
    case True
    with jx_levels_pos [of v] show ?thesis by (subst jx_node.simps) simp
  next
    case False
    then have l: "l \<le> jx_value_depth" by simp
    show ?thesis
    proof (cases v)
      case (NArray es)
      with 1(1) [OF False NArray] jx_node_ok [OF l, of v] jx_max_levels [OF l, of "map jx_levels es"] show ?thesis by simp
    next
      case (NObject ms)
      with 1(2) [OF False NObject] jx_node_ok [OF l, of v] jx_max_levels [OF l, of "map (\<lambda>m. jx_levels (snd m)) ms"]
      show ?thesis by simp
    qed (use jx_node_ok [OF l, of v] l in simp_all)
  qed
next
  case (3 first v vs l)
  show ?case
  proof (cases "jx_node v l")
    case (Inr b)
    with 3 show ?thesis by simp
  qed (use 3(1) in simp)
next
  case (5 first name v ms l)
  show ?case
  proof (cases "jx_node v l")
    case (Inr b)
    with 5 show ?thesis by simp
  qed (use 5(1) in simp)
qed simp_all

lemma jx_error:
  "jx_node v l = Inl e \<Longrightarrow> e = JxDepth" "jx_elems first vs l = Inl e \<Longrightarrow> e = JxDepth"
  "jx_members first ms l = Inl e \<Longrightarrow> e = JxDepth"
proof (induction v l and first vs l and first ms l rule: jx_node_jx_elems_jx_members.induct)
  case (1 v l)
  show ?case
  proof (cases "jx_value_depth < l")
    case False
    then show ?thesis using 1 by (cases v) (simp_all add: jx_node.simps res_simps)
  qed (use 1(3) in \<open>simp add: jx_node.simps\<close>)
next
  case (3 first v vs l)
  then show ?case by (auto simp: res_simps)
next
  case (5 first name v ms l)
  then show ?case by (auto simp: res_simps)
qed simp_all

section \<open>The state in the prompt\<close>

lemma replace_char_gone: "c \<notin> set new \<Longrightarrow> c \<notin> set (replace_char c new s)"
  by (auto simp: replace_char_def)

lemma replace_char_other: "d \<notin> set new \<Longrightarrow> d \<notin> set s \<Longrightarrow> d \<notin> set (replace_char c new s)"
  by (auto simp: replace_char_def)

lemma escapes_plain: "CHR ''<'' \<notin> set escaped_less" "CHR ''<'' \<notin> set escaped_greater" "CHR ''>'' \<notin> set escaped_greater"
  by (simp_all add: escaped_less_def escaped_greater_def)

lemma jx_encode_state_plain: "jx_encode_state d = Some (Inr out) \<Longrightarrow> CHR ''<'' \<notin> set out \<and> CHR ''>'' \<notin> set out"
  by (auto simp: jx_encode_state_def res_simps
      intro!: replace_char_gone replace_char_other escapes_plain dest: replace_char_gone [THEN notE, rotated] replace_char_other [THEN notE, rotated 2])

section \<open>What is written is JSON\<close>

lemma jx_escape_eq: "jx_escape c = escape_char c"
proof -
  have "list_all (\<lambda>d. jx_hex ! d = hex_digit d) [0..<16]" by code_simp
  then have "jx_hex ! d = hex_digit d" if "d < 16" for d using that by (auto simp: list_all_iff)
  then have "jx_hex ! (byte c div 16) = hex_digit (byte c div 16)" "jx_hex ! (byte c mod 16) = hex_digit (byte c mod 16)"
    using of_char_mod_256 [of c] by (auto simp: less_mult_imp_div_less)
  then show ?thesis by (auto simp: jx_escape_def escape_char_def escape_byte_def)
qed

lemma jx_string_eq: "jx_string s = quote_char # escape s @ [quote_char]"
  by (simp add: jx_string_def escape_def jx_escape_eq cong: map_cong)

lemma jx_string_tok: "valid_utf8 s \<Longrightarrow> str_tok (jx_string s)"
  unfolding jx_string_eq str_tok_def by (auto dest: escape_str_chars)

text \<open>Digits as \<open>strconv\<close> writes them: no zero first, except for zero itself.\<close>

definition sci_digits :: "bytes \<Rightarrow> int \<Rightarrow> bool" where
  "sci_digits ds x \<longleftrightarrow> ds = ''0'' \<and> x = 0 \<or> ds \<noteq> [] \<and> byte_between 49 57 (hd ds) \<and> list_all is_digit ds"

lemma split_scientific_digits:
  assumes "split_scientific f = (ds, x)"
  shows "sci_digits ds x"
proof (cases "is_zero f")
  case False
  obtain p q where r: "f64_ratio f = (p, q)" by fastforce
  from f64_ratio_pos [OF False r] have pq: "0 < p" "0 < q" by auto
  from shortest_from_digits [OF pq refl, of 1 52 "-1074"] obtain n e where
    n: "0 < n" "shortest 52 (-1074) p q = (show_nat n, e)" by (auto simp: shortest_def)
  with assms False r have "ds = show_nat n" by (simp add: split_scientific_def)
  with n show_nat_hd show_nat_digits show ?thesis by (auto simp: sci_digits_def)
qed (use assms in \<open>auto simp: split_scientific_def sci_digits_def\<close>)

lemma jx_digit_zero [simp]: "is_digit CHR ''0''"
  by (simp add: is_digit_def byte_between_def)

lemma jx_num_tokI: "s \<in> {[], ''-''} \<Longrightarrow> int_tok i \<Longrightarrow> frac_tok f \<Longrightarrow> exp_tok e \<Longrightarrow> num_tok (s @ i @ f @ e)"
  unfolding num_tok_def by blast

lemma append_positional_tok:
  assumes "sci_digits ds x"
  shows "\<exists>i f. append_positional ds x = i @ f \<and> int_tok i \<and> frac_tok f"
proof -
  from assms have ne: "ds \<noteq> []" and dig: "list_all is_digit ds" by (auto simp: sci_digits_def)
  have hd: "0 < length ds \<and> int_tok (take (Suc n) ds @ replicate m (CHR ''0''))" if "ds = ''0'' \<longrightarrow> m = 0" for n m
    using assms that ne by (cases ds) (auto simp: sci_digits_def int_tok_def list_all_iff dest: in_set_takeD)
  consider "int (length ds) - 1 \<le> x" | "\<not> int (length ds) - 1 \<le> x" "0 \<le> x" | "\<not> int (length ds) - 1 \<le> x" "\<not> 0 \<le> x" by blast
  then show ?thesis
  proof cases
    case 1
    let ?m = "nat (x - (int (length ds) - 1))"
    have "ds = ''0'' \<longrightarrow> ?m = 0" using assms by (auto simp: sci_digits_def byte_between_def)
    with hd [of ?m "length ds"] have "int_tok (ds @ replicate ?m (CHR ''0''))" by simp
    with 1 show ?thesis
      by (intro exI [of _ "ds @ replicate ?m (CHR ''0'')"] exI [of _ "''.0''"]) (simp add: append_positional_def frac_tok_def)
  next
    case 2
    have "list_all is_digit (drop (nat x + 1) ds)" "drop (nat x + 1) ds \<noteq> []"
      using dig 2 by (auto simp: list_all_iff dest: in_set_dropD)
    with 2 hd [of 0 "nat x"] show ?thesis
      by (intro exI [of _ "take (nat x + 1) ds"] exI [of _ "''.'' @ drop (nat x + 1) ds"])
        (auto simp: append_positional_def frac_tok_def)
  next
    case 3
    with ne dig show ?thesis
      by (intro exI [of _ "''0''"] exI [of _ "''.'' @ replicate (nat (- x - 1)) (CHR ''0'') @ ds"])
        (auto simp: append_positional_def frac_tok_def int_tok_def list_all_iff)
  qed
qed

lemma append_mantissa_tok:
  assumes "sci_digits ds x"
  shows "\<exists>i f. append_mantissa ds = i @ f \<and> int_tok i \<and> frac_tok f"
proof -
  obtain d es where d: "ds = d # es" using assms by (cases ds) (auto simp: sci_digits_def)
  with assms have "int_tok [d]" "list_all is_digit es" by (auto simp: sci_digits_def int_tok_def)
  with d show ?thesis
    by (intro exI [of _ "[d]"] exI [of _ "if es = [] then [] else ''.'' @ es"]) (auto simp: append_mantissa_def frac_tok_def)
qed

lemma pydantic_float_tok:
  assumes "\<not> is_nan f" "\<not> is_inf f"
  shows "num_tok (pydantic_float f)"
proof -
  obtain ds x where ds: "split_scientific f = (ds, x)" by fastforce
  note ok = split_scientific_digits [OF ds]
  have s: "float_sign f \<in> {[], ''-''}" by (simp add: float_sign_def)
  show ?thesis
  proof (cases "-5 \<le> x \<and> x \<le> 15")
    case True
    from append_positional_tok [OF ok] obtain i r where "append_positional ds x = i @ r" "int_tok i" "frac_tok r" by blast
    with True assms ds jx_num_tokI [OF s, of i r "[]"] show ?thesis by (simp add: pydantic_float_def exp_tok_def)
  next
    case False
    from append_mantissa_tok [OF ok] obtain i r where m: "append_mantissa ds = i @ r" "int_tok i" "frac_tok r" by blast
    have "exp_tok (CHR ''e'' # exponent_sign x @ show_nat (nat \<bar>x\<bar>))"
      unfolding exp_tok_def exponent_sign_def
      by (intro disjI2 exI [of _ "CHR ''e''"] exI [of _ "exponent_sign x"] exI [of _ "show_nat (nat \<bar>x\<bar>)"])
        (simp add: exponent_sign_def show_nat_digits)
    with False assms ds m jx_num_tokI [OF s m(2,3) this] show ?thesis by (auto simp: pydantic_float_def)
  qed
qed

text \<open>A document as the decoder delivers it: strings in UTF-8, numbers as JSON spells them, and no number past
  the range of a float, which is written \<open>Infinity\<close>.\<close>

definition number_ok :: "bytes \<Rightarrow> bool" where
  "number_ok lit \<longleftrightarrow> num_tok lit \<and> (is_int_literal lit \<or> \<not> is_nan (number_float lit) \<and> \<not> is_inf (number_float lit))"

fun json_node :: "jnode \<Rightarrow> bool" where
  "json_node (NNumber lit) \<longleftrightarrow> number_ok lit"
| "json_node (NString s) \<longleftrightarrow> valid_utf8 s"
| "json_node (NArray es) \<longleftrightarrow> (\<forall>v \<in> set es. json_node v)"
| "json_node (NObject ms) \<longleftrightarrow> (\<forall>m \<in> set ms. valid_utf8 (fst m) \<and> json_node (snd m))"
| "json_node _ \<longleftrightarrow> True"

lemma jx_number_tok: "number_ok lit \<Longrightarrow> num_tok (jx_number lit)"
  using jx_num_tokI [of "[]" "''0''" "[]" "[]"]
  by (auto simp: number_ok_def jx_number_def pydantic_float_tok int_tok_def frac_tok_def exp_tok_def)

lemma jx_json:
  "jx_node v l = Inr b \<Longrightarrow> json_node v \<Longrightarrow> jval b b"
  "jx_elems first vs l = Inr b \<Longrightarrow> \<forall>v \<in> set vs. json_node v \<Longrightarrow>
    (if first \<and> vs \<noteq> [] then \<exists>c e. b = c @ e \<and> jval c c \<and> jelems e e else jelems b b)"
  "jx_members first ms l = Inr b \<Longrightarrow> \<forall>m \<in> set ms. valid_utf8 (fst m) \<and> json_node (snd m) \<Longrightarrow>
    (if first \<and> ms \<noteq> [] then \<exists>k c e. b = k @ CHR '':'' # c @ e \<and> str_tok k \<and> jval c c \<and> jmembers e e else jmembers b b)"
proof (induction v l and first vs l and first ms l arbitrary: b and b and b rule: jx_node_jx_elems_jx_members.induct)
  case (1 v l)
  then have l: "\<not> jx_value_depth < l" by (auto simp: jx_node.simps)
  show ?case
  proof (cases v)
    case (NArray es)
    with 1(3) l obtain c where c: "jx_elems True es (l + 1) = Inr c" "b = ''['' @ c @ '']''"
      by (auto simp: jx_node.simps res_simps)
    have e: "if True \<and> es \<noteq> [] then \<exists>x e. c = x @ e \<and> jval x x \<and> jelems e e else jelems c c"
      using 1(1) [OF l NArray c(1)] 1(4) NArray by simp
    show ?thesis
    proof (cases "es = []")
      case True
      with c have "b = ''[]''" by simp
      then show ?thesis using J_arr0 [of "[]"] by simp
    next
      case False
      with e obtain x y where "c = x @ y" "jval x x" "jelems y y" by auto
      with c J_arr [of "[]" x x y y] show ?thesis by simp
    qed
  next
    case (NObject ms)
    with 1(3) l obtain c where c: "jx_members True ms (l + 1) = Inr c" "b = ''{'' @ c @ ''}''"
      by (auto simp: jx_node.simps res_simps)
    have e: "if True \<and> ms \<noteq> [] then \<exists>k x e. c = k @ CHR '':'' # x @ e \<and> str_tok k \<and> jval x x \<and> jmembers e e else jmembers c c"
      using 1(2) [OF l NObject c(1)] 1(4) NObject by simp
    show ?thesis
    proof (cases "ms = []")
      case True
      with c have "b = ''{}''" by simp
      then show ?thesis using J_obj0 [of "[]"] by simp
    next
      case False
      with e obtain k x y where "c = k @ CHR '':'' # x @ y" "str_tok k" "jval x x" "jmembers y y" by auto
      with c J_obj [of "[]" k "[]" "[]" x x y y] show ?thesis by simp
    qed
  qed (use 1(3,4) l in \<open>auto simp: jx_node.simps intro: J_num J_lit J_str jx_number_tok jx_string_tok\<close>)
next
  case (2 first l)
  then show ?case using J_elems0 [of "[]"] by simp
next
  case (3 first v vs l)
  from 3(3) obtain c r where c: "jx_node v l = Inr c" "jx_elems False vs l = Inr r" "b = (if first then [] else '','') @ c @ r"
    by (auto simp: res_simps)
  from 3(1) [OF c(1)] 3(4) have j: "jval c c" by simp
  from 3(2) [OF c(2)] 3(4) have r: "jelems r r" by simp
  show ?case
  proof (cases first)
    case True
    with c j r show ?thesis by auto
  next
    case False
    with c j r J_elems [of "[]" "[]" c c r r] show ?thesis by simp
  qed
next
  case (4 first l)
  then show ?case using J_members0 [of "[]"] by simp
next
  case (5 first name v ms l)
  from 5(3) obtain c r where c: "jx_node v l = Inr c" "jx_members False ms l = Inr r"
      "b = (if first then [] else '','') @ jx_string name @ '':'' @ c @ r"
    by (auto simp: res_simps)
  from 5(1) [OF c(1)] 5(4) have j: "jval c c" by simp
  from 5(2) [OF c(2)] 5(4) have r: "jmembers r r" by simp
  from 5(4) have k: "str_tok (jx_string name)" by (simp add: jx_string_tok)
  show ?case
  proof (cases first)
    case True
    with c j r k show ?thesis by auto
  next
    case False
    with c j r k J_members [of "[]" "[]" "jx_string name" "[]" "[]" c c r r] show ?thesis by simp
  qed
qed

lemma jval_append_json: "jval b b \<Longrightarrow> append_json [] b = Inr b"
  unfolding append_json_iff by (intro exI [of _ "[]"] exI [of _ b]) simp

section \<open>What the reader accepts\<close>

definition fits :: "nat \<Rightarrow> jnode \<Rightarrow> bool" where
  "fits lvl v \<longleftrightarrow> wf_node v \<and> (nesting v = 0 \<or> lvl + nesting v \<le> jx_read_depth + 1)"

lemma fits_array: "lvl \<le> jx_read_depth \<Longrightarrow> \<forall>v \<in> set es. fits (lvl + 1) v \<Longrightarrow> fits lvl (NArray es)"
proof -
  assume l: "lvl \<le> jx_read_depth" and es: "\<forall>v \<in> set es. fits (lvl + 1) v"
  then have "\<forall>x \<in> set (map nesting es). (lvl + 1) + x \<le> jx_read_depth + 1" by (force simp: fits_def)
  then show ?thesis unfolding fits_def using jx_max_levels [OF l, of "map nesting es"] es by (auto simp: fits_def)
qed

lemma fits_object:
  "lvl \<le> jx_read_depth \<Longrightarrow> distinct (map fst ms) \<Longrightarrow> \<forall>m \<in> set ms. fits (lvl + 1) (snd m) \<Longrightarrow> fits lvl (NObject ms)"
proof -
  assume l: "lvl \<le> jx_read_depth" and d: "distinct (map fst ms)" and ms: "\<forall>m \<in> set ms. fits (lvl + 1) (snd m)"
  then have "\<forall>x \<in> set (map (\<lambda>m. nesting (snd m)) ms). (lvl + 1) + x \<le> jx_read_depth + 1" by (force simp: fits_def)
  then show ?thesis unfolding fits_def using jx_max_levels [OF l, of "map (\<lambda>m. nesting (snd m)) ms"] ms d by (auto simp: fits_def)
qed

lemma update_values: "\<forall>m \<in> set ms. P (snd m) \<Longrightarrow> P v \<Longrightarrow> \<forall>m \<in> set (AList.update k v ms). P (snd m)"
  by (induction ms) auto

lemma put_member_fits:
  "distinct (map fst ms) \<Longrightarrow> \<forall>m \<in> set ms. P (snd m) \<Longrightarrow> P v \<Longrightarrow>
   distinct (map fst (jx_put_member k v ms)) \<and> (\<forall>m \<in> set (jx_put_member k v ms). P (snd m))"
  unfolding jx_put_member_def by (intro conjI distinct_update update_values)

lemma read_fits:
  "read_value n lvl ts = Some (Inr (v, ts')) \<Longrightarrow> fits lvl v"
  "read_array n lvl es ts = Some (Inr (v, ts')) \<Longrightarrow> lvl \<le> jx_read_depth \<Longrightarrow> \<forall>v \<in> set es. fits (lvl + 1) v \<Longrightarrow> fits lvl v"
  "read_object n lvl ms ts = Some (Inr (v, ts')) \<Longrightarrow> lvl \<le> jx_read_depth \<Longrightarrow> distinct (map fst ms) \<Longrightarrow>
     \<forall>m \<in> set ms. fits (lvl + 1) (snd m) \<Longrightarrow> fits lvl v"
proof (induction n lvl ts and n lvl es ts and n lvl ms ts arbitrary: v ts' and v ts' and v ts' rule: read_value_read_array_read_object.induct)
  case (2 n lvl ts)
  from 2(3) obtain t us where t: "ts = t # us" by (cases ts) auto
  show ?case
    using 2(1) [OF t] 2(2) [OF t] 2(3) t by (cases t) (auto simp: fits_def split: if_splits)
next
  case (4 n lvl es ts)
  show ?case
  proof (cases "ts \<noteq> [] \<and> hd ts = TokEndArray")
    case True
    with 4(3-5) show ?thesis using fits_array by auto
  next
    case False
    with 4(3) obtain x us where x: "read_value n (lvl + 1) ts = Some (Inr (x, us))" "read_array n lvl (es @ [x]) us = Some (Inr (v, ts'))"
      by (auto split: option.splits sum.splits)
    show ?thesis using 4(2) [OF False x(1) refl refl x(2) 4(4)] 4(5) 4(1) [OF False x(1)] by auto
  qed
next
  case (6 n lvl ms ts)
  from 6(3) obtain t us where t: "ts = t # us" by (cases ts) auto
  show ?case
  proof (cases "t = TokEndObject")
    case True
    with 6(3-) t show ?thesis using fits_object by auto
  next
    case False
    with 6(3) t obtain x ws where x: "read_value n (lvl + 1) us = Some (Inr (x, ws))"
      "read_object n lvl (jx_put_member (token_text t) x ms) ws = Some (Inr (v, ts'))"
      by (auto split: option.splits sum.splits)
    note p = put_member_fits [where P = "fits (lvl + 1)", OF 6(5,6) 6(1) [OF t False x(1)], of "token_text t"]
    show ?thesis using 6(2) [OF t False x(1) refl refl x(2) 6(4)] p by blast
  qed
qed simp_all

lemma jx_read_error:
  "read_value n lvl ts = Some (Inl e) \<Longrightarrow> e \<noteq> JxDepth"
  "read_array n lvl es ts = Some (Inl e) \<Longrightarrow> e \<noteq> JxDepth"
  "read_object n lvl ms ts = Some (Inl e) \<Longrightarrow> e \<noteq> JxDepth"
proof (induction n lvl ts and n lvl es ts and n lvl ms ts rule: read_value_read_array_read_object.induct)
  case (2 n lvl ts)
  show ?case
  proof (cases ts)
    case (Cons t us)
    with 2(1) [OF Cons] 2(2) [OF Cons] 2(3) show ?thesis by (cases t) (auto split: if_splits)
  qed (use 2(3) in auto)
next
  case (4 n lvl es ts)
  then show ?case by (auto split: if_splits option.splits sum.splits) blast+
next
  case (6 n lvl ms ts)
  then show ?case by (auto split: if_splits option.splits sum.splits list.splits) blast
qed simp_all

section \<open>Properties\<close>

text \<open>C35: the reader returns the one value whose tokens a document holds: a value with distinct member names,
  integers of at most 4300 digits and at most 10000 arrays and objects inside one another is read back from its
  tokens.\<close>

theorem read_tokens_roundtrip:
  assumes "wf_node v" "nesting v \<le> jx_read_depth"
  shows "read_document \<lparr>js_tokens = node_tokens v, js_eof = True\<rparr> = Some (Inr v)"
  using read_tokens [of v 1 "[]" "2 * length (node_tokens v) + 2"] assms by (simp add: read_document_def)

theorem read_tokens_roundtrip_witness:
  "read_document \<lparr>js_tokens = [TokBeginObject, TokString ''a'', TokNumber ''1'', TokEndObject], js_eof = True\<rparr> =
     Some (Inr (NObject [(''a'', NNumber ''1'')]))"
  using read_tokens_roundtrip [of "NObject [(''a'', NNumber ''1'')]"]
  by (simp add: jx_max_int_digits_def trim_minus_def jx_read_depth_def)

text \<open>reading a document always ends, and what it returns holds each member name once, no integer of more
  than 4300 digits and no more than 10000 arrays and objects inside one another, whatever the tokens are.\<close>

theorem read_document_bounded:
  "\<exists>r. read_document d = Some r \<and> (case r of Inl e \<Rightarrow> e \<noteq> JxDepth | Inr v \<Rightarrow> wf_node v \<and> nesting v \<le> jx_read_depth)"
proof -
  let ?ts = "js_tokens d"
  have "takes_token ?ts (read_value (2 * length ?ts + 2) 1 ?ts)" by (rule read_takes(1)) simp
  then show ?thesis
  proof (cases rule: takes_tokenE)
    case (error e)
    with jx_read_error(1) [OF error] show ?thesis by (simp add: read_document_def)
  next
    case (node v ts')
    with read_fits(1) [OF node(1)] show ?thesis by (auto simp: read_document_def fits_def)
  qed
qed


definition sample_state :: jnode where
  "sample_state = NObject [(''a'', NArray [NNumber ''-0'', NNull])]"

lemma sample_state_written:
  "node_pydantic_json (Some sample_state) = Inr (''{'' @ jx_string ''a'' @ '':[0,null]}'')" "json_node sample_state"
  "jx_levels sample_state = 3"
proof -
  have "num_tok ''-0''" using jx_num_tokI [of "''-''" "''0''" "[]" "[]"] by (simp add: int_tok_def frac_tok_def exp_tok_def)
  then show "json_node sample_state" by (simp add: sample_state_def number_ok_def is_int_literal_def)
qed (simp_all add: sample_state_def node_pydantic_json_def jx_node.simps jx_value_depth_def jx_number_def is_int_literal_def)


end
