(* ===== verification/Adapter_Error.thy ===== *)
theory Adapter_Error
  imports Adapter_Json Engine_Text Sdk_Retry
begin

text \<open>
  The errors of the adapter: a provider's typed errors, \<open>adapter/llm/error.go\<close>, and the texts written for
  them, \<open>adapter/reason.go\<close> and the classes of \<open>adapter/evaluate.go\<close>; and the adapter's own error,
  \<open>adapter/error.go\<close>. An error is its chain of links (\<open>perr\<close>), which \<open>errors.As\<close> walks. \<open>unicode.IsPrint\<close> and the
  JSON library's decoder are parameters.
\<close>

section \<open>A provider's errors\<close>

text \<open>The sentinels of a context, the four typed errors of package llm, and any other error: its text and what
  it wraps. A \<open>nil\<close> body is not an empty one.\<close>

record llm_status =
  ls_code :: int
  ls_header :: header
  ls_body :: "bytes option"

datatype perr =
    PTimeout "perr option" | PConnection "perr option" | PStatus llm_status | PNonAnswer bytes
  | PDeadline | PCanceled | POther bytes "perr list"

fun perr_links :: "perr \<Rightarrow> perr list" where
  "perr_links (PTimeout None) = [PTimeout None, PDeadline]"
| "perr_links (PTimeout (Some e)) = PTimeout (Some e) # perr_links e"
| "perr_links (PConnection None) = [PConnection None]"
| "perr_links (PConnection (Some e)) = PConnection (Some e) # perr_links e"
| "perr_links (PStatus s) = [PStatus s]"
| "perr_links (PNonAnswer m) = [PNonAnswer m]"
| "perr_links PDeadline = [PDeadline]"
| "perr_links PCanceled = [PCanceled]"
| "perr_links (POther t es) = POther t es # concat (map perr_links es)"

fun is_timeout_link :: "perr \<Rightarrow> bool" where
  "is_timeout_link (PTimeout _) = True" | "is_timeout_link _ = False"

fun is_connection_link :: "perr \<Rightarrow> bool" where
  "is_connection_link (PConnection _) = True" | "is_connection_link _ = False"

fun link_status :: "perr \<Rightarrow> llm_status option" where
  "link_status (PStatus s) = Some s" | "link_status _ = None"

fun link_non_answer :: "perr \<Rightarrow> bytes option" where
  "link_non_answer (PNonAnswer m) = Some m" | "link_non_answer _ = None"

text \<open>\<open>errors.As\<close> with each of the types.\<close>

definition as_timeout :: "perr \<Rightarrow> bool" where
  "as_timeout e \<longleftrightarrow> list_ex is_timeout_link (perr_links e)"

definition as_connection :: "perr \<Rightarrow> bool" where
  "as_connection e \<longleftrightarrow> list_ex is_connection_link (perr_links e)"

definition as_status :: "perr \<Rightarrow> llm_status option" where
  "as_status e = first_some (map link_status (perr_links e))"

definition as_non_answer :: "perr \<Rightarrow> bytes option" where
  "as_non_answer e = first_some (map link_non_answer (perr_links e))"

definition timeout_text :: bytes where
  "timeout_text = ''Request timed out (timeout=Timeout(timeout=None)).''"

definition connection_text :: bytes where
  "connection_text = ''Connection error.''"

definition max_error_body_chars :: nat where "max_error_body_chars = 200"

text \<open>The cut after 200 characters: the characters counted so far, and the text from the next one on.\<close>

function cut_from :: "nat \<Rightarrow> bytes \<Rightarrow> bytes" where
  "cut_from n s =
     (if s = [] then []
      else if n = max_error_body_chars then ellipsis
      else take (rune_size s) s @ cut_from (n + 1) (drop (rune_size s) s))"
  by pat_completeness auto
termination
  by (relation "measure (\<lambda>(n, s). length s)") (use drop_rune_shorter in auto)

declare cut_from.simps [simp del]

definition cut_chars :: "bytes \<Rightarrow> bytes" where
  "cut_chars s = cut_from 0 s"

definition no_body_message :: bytes where
  "no_body_message = ''status code (no body)''"

definition llm_status_text :: "llm_status \<Rightarrow> bytes" where
  "llm_status_text s =
     show_int (ls_code s) @ '' '' @
     (case ls_body s of None \<Rightarrow> no_body_message | Some b \<Rightarrow> if b = [] then no_body_message else cut_from 0 b)"

fun perr_text :: "perr \<Rightarrow> bytes" where
  "perr_text (PTimeout _) = timeout_text"
| "perr_text (PConnection _) = connection_text"
| "perr_text (PStatus s) = llm_status_text s"
| "perr_text (PNonAnswer m) = m"
| "perr_text PDeadline = ''context deadline exceeded''"
| "perr_text PCanceled = ''context canceled''"
| "perr_text (POther t _) = t"

section \<open>Ill-formed text\<close>

function ad_subpart_loop :: "bytes \<Rightarrow> nat \<Rightarrow> nat \<Rightarrow> nat \<Rightarrow> nat \<Rightarrow> nat" where
  "ad_subpart_loop b n lo hi i =
     (if i < n \<and> i < length b then
        (if byte (b ! i) < lo \<or> hi < byte (b ! i) then i else ad_subpart_loop b n 0x80 0xBF (i + 1))
      else i)"
  by pat_completeness auto
termination
  by (relation "measure (\<lambda>(b, n, lo, hi, i). n - i)") auto

declare ad_subpart_loop.simps [simp del]

definition ad_maximal_subpart :: "bytes \<Rightarrow> nat" where
  "ad_maximal_subpart b =
     (let c = byte (hd b) in
      if 0xC2 \<le> c \<and> c \<le> 0xDF then ad_subpart_loop b 2 0x80 0xBF 1
      else if c = 0xE0 then ad_subpart_loop b 3 0xA0 0xBF 1
      else if c = 0xED then ad_subpart_loop b 3 0x80 0x9F 1
      else if 0xE1 \<le> c \<and> c \<le> 0xEF then ad_subpart_loop b 3 0x80 0xBF 1
      else if c = 0xF0 then ad_subpart_loop b 4 0x90 0xBF 1
      else if 0xF1 \<le> c \<and> c \<le> 0xF3 then ad_subpart_loop b 4 0x80 0xBF 1
      else if c = 0xF4 then ad_subpart_loop b 4 0x80 0x8F 1
      else 1)"

lemma ad_subpart_loop_eq: "i \<le> length b \<Longrightarrow> i \<le> n \<Longrightarrow> ad_subpart_loop b n lo hi i = i + subpart_tail (n - i) lo hi (drop i b)"
proof (induction b n lo hi i rule: ad_subpart_loop.induct)
  case (1 b n lo hi i)
  show ?case
  proof (cases "i < n \<and> i < length b")
    case True
    then obtain m where m: "n - i = Suc m" "n - (i + 1) = m" by (cases "n - i") auto
    from True have d: "drop i b = b ! i # drop (i + 1) b" by (simp add: Cons_nth_drop_Suc)
    from 1 True m d show ?thesis by (subst ad_subpart_loop.simps) (auto simp: byte_between_def)
  next
    case False
    with 1 have "n - i = 0 \<or> drop i b = []" by auto
    then have "subpart_tail (n - i) lo hi (drop i b) = 0" by (cases "n - i") auto
    with False show ?thesis by (subst ad_subpart_loop.simps) auto
  qed
qed

lemma ad_maximal_subpart_eq: "b \<noteq> [] \<Longrightarrow> ad_maximal_subpart b = maximal_subpart b"
  by (cases b) (simp_all add: ad_maximal_subpart_def ad_subpart_loop_eq utf8_class_def Let_def)

function ad_replace_loop :: "bytes \<Rightarrow> bytes" where
  "ad_replace_loop b =
     (if b = [] then []
      else if fst (decode_rune b) \<noteq> rune_error \<or> 1 < rune_size b then take (rune_size b) b @ ad_replace_loop (drop (rune_size b) b)
      else encode_rune rune_error @ ad_replace_loop (drop (ad_maximal_subpart b) b))"
  by pat_completeness auto
termination
  by (relation "measure length")
    (use drop_rune_shorter maximal_subpart_pos in \<open>auto simp del: length_drop simp: diff_less ad_maximal_subpart_eq\<close>,
     simp add: maximal_subpart_pos ad_maximal_subpart_eq)

declare ad_replace_loop.simps [simp del]

definition decode_replace :: "bytes \<Rightarrow> bytes" where
  "decode_replace b = (if valid_utf8 b then b else ad_replace_loop b)"

section \<open>The message of a body\<close>

definition is_py_space :: "nat \<Rightarrow> bool" where
  "is_py_space r \<longleftrightarrow>
     0x09 \<le> r \<and> r \<le> 0x0D \<or> 0x1C \<le> r \<and> r \<le> 0x20 \<or> r = 0x85 \<or> r = 0xA0 \<or> r = 0x1680 \<or>
     0x2000 \<le> r \<and> r \<le> 0x200A \<or> r = 0x2028 \<or> r = 0x2029 \<or> r = 0x202F \<or> r = 0x205F \<or> r = 0x3000"

definition py_trim :: "bytes \<Rightarrow> bytes" where
  "py_trim s = trim_runes is_py_space s"

definition not_py_printable :: "(nat \<times> nat) list" where
  "not_py_printable =
     [(0x088f, 0x088f), (0x0c5c, 0x0c5c), (0x0cdc, 0x0cdc), (0x1acf, 0x1add), (0x1ae0, 0x1aeb), (0x20c1, 0x20c1),
      (0x2b96, 0x2b96), (0xa7ce, 0xa7cf), (0xa7d2, 0xa7d2), (0xa7d4, 0xa7d4), (0xa7f1, 0xa7f1), (0xfbc3, 0xfbd2),
      (0xfd90, 0xfd91), (0xfdc8, 0xfdce),
      (0x10940, 0x10959), (0x10ec5, 0x10ec7), (0x10ed0, 0x10ed8), (0x10efa, 0x10efb), (0x11b60, 0x11b67),
      (0x11db0, 0x11ddb), (0x11de0, 0x11de9), (0x16ea0, 0x16eb8), (0x16ebb, 0x16ed3), (0x16ff2, 0x16ff6),
      (0x187f8, 0x187ff), (0x18d09, 0x18d1e), (0x18d80, 0x18df2), (0x1ccfa, 0x1ccfc), (0x1ceba, 0x1ced0),
      (0x1cee0, 0x1cef0), (0x1e6c0, 0x1e6de), (0x1e6e0, 0x1e6f5), (0x1e6fe, 0x1e6ff), (0x1f6d8, 0x1f6d8),
      (0x1f777, 0x1f77a), (0x1f8d0, 0x1f8d8), (0x1fa54, 0x1fa57), (0x1fa8a, 0x1fa8a), (0x1fa8e, 0x1fa8e),
      (0x1fac8, 0x1fac8), (0x1facd, 0x1facd), (0x1faea, 0x1faea), (0x1faef, 0x1faef), (0x1fbfa, 0x1fbfa),
      (0x2b73a, 0x2b73f), (0x2cea2, 0x2cead), (0x323b0, 0x33479)]"

definition is_py_printable :: "(nat \<Rightarrow> bool) \<Rightarrow> nat \<Rightarrow> bool" where
  "is_py_printable is_print r \<longleftrightarrow> is_print r \<and> \<not> list_ex (\<lambda>(lo, hi). lo \<le> r \<and> r \<le> hi) not_py_printable"

text \<open>\<open>appendHexEscape\<close>: \<open>r\<close> has at most \<open>width\<close> digits.\<close>

definition hex_escape :: "char \<Rightarrow> nat \<Rightarrow> nat \<Rightarrow> bytes" where
  "hex_escape letter r width = [backslash, letter] @ hex_digits width r"

definition py_rune_repr :: "(nat \<Rightarrow> bool) \<Rightarrow> char \<Rightarrow> nat \<Rightarrow> bytes" where
  "py_rune_repr is_print quote r =
     (if r = byte quote \<or> r = byte backslash then backslash # encode_rune r
      else if r = 9 then [backslash, CHR ''t'']
      else if r = 10 then [backslash, CHR ''n'']
      else if r = 13 then [backslash, CHR ''r'']
      else if r < 0x20 \<or> r = 0x7F then hex_escape (CHR ''x'') r 2
      else if r < 0x80 \<or> is_py_printable is_print r then encode_rune r
      else if r \<le> 0xFF then hex_escape (CHR ''x'') r 2
      else if r \<le> 0xFFFF then hex_escape (CHR ''u'') r 4
      else hex_escape (CHR ''U'') r 8)"

function py_runes_repr :: "(nat \<Rightarrow> bool) \<Rightarrow> char \<Rightarrow> bytes \<Rightarrow> bytes" where
  "py_runes_repr is_print quote s =
     (if s = [] then []
      else py_rune_repr is_print quote (fst (decode_rune s)) @ py_runes_repr is_print quote (drop (rune_size s) s))"
  by pat_completeness auto
termination
  by (relation "measure (\<lambda>(p, q, s). length s)") (use drop_rune_shorter in auto)

declare py_runes_repr.simps [simp del]

definition py_str_repr :: "(nat \<Rightarrow> bool) \<Rightarrow> bytes \<Rightarrow> bytes" where
  "py_str_repr is_print s =
     (let quote = (if CHR 0x27 \<in> set s \<and> quote_char \<notin> set s then quote_char else CHR 0x27) in
      quote # py_runes_repr is_print quote s @ [quote])"

definition py_number_repr :: "bytes \<Rightarrow> bytes" where
  "py_number_repr lit =
     (if is_int_literal lit then (if lit = ''-0'' then ''0'' else lit) else repr_float (number_float lit))"

fun py_repr :: "(nat \<Rightarrow> bool) \<Rightarrow> jnode \<Rightarrow> bytes" where
  "py_repr is_print NFalse = ''False''"
| "py_repr is_print NTrue = ''True''"
| "py_repr is_print (NNumber lit) = py_number_repr lit"
| "py_repr is_print (NString s) = py_str_repr is_print s"
| "py_repr is_print (NArray es) = ''['' @ join_with '', '' (map (py_repr is_print) es) @ '']''"
| "py_repr is_print (NObject ms) =
     ''{'' @ join_with '', '' (map (\<lambda>m. py_str_repr is_print (fst m) @ '': '' @ py_repr is_print (snd m)) ms) @ ''}''"
| "py_repr is_print NNull = ''None''"

definition py_str :: "(nat \<Rightarrow> bool) \<Rightarrow> jnode \<Rightarrow> bytes" where
  "py_str is_print v = (case v of NString s \<Rightarrow> s | _ \<Rightarrow> py_repr is_print v)"

definition string_member :: "jref \<Rightarrow> bytes \<Rightarrow> bytes option" where
  "string_member v name =
     (if node_kind (node_member v name) = KindString then Some (node_text (node_member v name)) else None)"

definition loc_parts :: "(nat \<Rightarrow> bool) \<Rightarrow> jref \<Rightarrow> bytes list" where
  "loc_parts is_print loc =
     (if node_kind loc \<noteq> KindArray then []
      else map (py_str is_print) (filter (\<lambda>item. item \<noteq> NString ''body'') (node_elems loc)))"

definition detail_part :: "(nat \<Rightarrow> bool) \<Rightarrow> jnode \<Rightarrow> bytes option" where
  "detail_part is_print entry =
     map_option (\<lambda>msg.
       let joined = join_with ''.'' (loc_parts is_print (node_member (Some entry) ''loc'')) in
       if joined \<noteq> [] then joined @ '': '' @ msg else msg) (string_member (Some entry) ''msg'')"

definition ad_extract_message :: "(nat \<Rightarrow> bool) \<Rightarrow> jref \<Rightarrow> bytes" where
  "ad_extract_message is_print body =
     (if node_kind body = KindString then node_text body
      else if node_kind body \<noteq> KindObject then []
      else
        let err = node_member body ''error''; message = node_member body ''message''; detail = node_member body ''detail'' in
        if node_kind err = KindString then node_text err
        else case string_member err ''message'' of Some m \<Rightarrow> m | None \<Rightarrow>
        if node_kind message = KindString then node_text message
        else if node_kind detail = KindString then node_text detail
        else case string_member detail ''message'' of Some m \<Rightarrow> m | None \<Rightarrow>
        if node_kind detail \<noteq> KindArray then []
        else join_with ''; '' (List.map_filter (detail_part is_print) (node_elems detail)))"

text \<open>\<open>jsonx.Read\<close> of a text, with the decoder's tokens of it.\<close>

definition jx_read :: "(bytes \<Rightarrow> jstream) \<Rightarrow> bytes \<Rightarrow> jsonx_error + jnode" where
  "jx_read tokens text = (case read_document (tokens text) of Some r \<Rightarrow> r | None \<Rightarrow> Inl JxSyntax)"

definition body_message :: "(nat \<Rightarrow> bool) \<Rightarrow> (bytes \<Rightarrow> jstream) \<Rightarrow> bytes option \<Rightarrow> bytes" where
  "body_message is_print tokens body =
     (case body of
        None \<Rightarrow> no_body_message
      | Some b \<Rightarrow>
          let text = py_trim (decode_replace b) in
          if text = [] then []
          else case jx_read tokens text of
            Inl _ \<Rightarrow> text
          | Inr root \<Rightarrow>
              let msg = ad_extract_message is_print (Some root) in
              if msg \<noteq> [] then msg
              else if node_kind (Some root) = KindNull then no_body_message
              else if node_kind (Some root) = KindString then []
              else case node_pydantic_json (Some root) of Inl _ \<Rightarrow> text | Inr raw \<Rightarrow> cut_chars raw)"

definition status_message :: "(nat \<Rightarrow> bool) \<Rightarrow> (bytes \<Rightarrow> jstream) \<Rightarrow> llm_status \<Rightarrow> bytes" where
  "status_message is_print tokens s =
     (let msg = body_message is_print tokens (ls_body s); ids = header_values (ls_header s) ''X-Typesafe-Request-Id'' in
      show_int (ls_code s) @ (if msg \<noteq> [] then '' '' @ msg else []) @
      (if ids \<noteq> [] then '' (request_id='' @ join_with '', '' ids @ '')'' else []))"

section \<open>The class of an attempt's error\<close>

definition status_class :: "int \<Rightarrow> bytes" where
  "status_class status =
     (if status = 400 then ''TypeSafeBadRequestError''
      else if status = 401 then ''TypeSafeAuthenticationError''
      else if status = 403 then ''TypeSafePermissionDeniedError''
      else if status = 404 then ''TypeSafeNotFoundError''
      else if status = 422 then ''TypeSafeUnprocessableEntityError''
      else if status = 429 then ''TypeSafeRateLimitError''
      else if 500 \<le> status then ''TypeSafeInternalServerError''
      else ''TypeSafeAPIError'')"

definition typed_error_class :: "(nat \<Rightarrow> bool) \<Rightarrow> (bytes \<Rightarrow> jstream) \<Rightarrow> perr \<Rightarrow> (bytes \<times> bytes) option" where
  "typed_error_class is_print tokens err =
     (if as_timeout err then Some (timeout_text, ''TypeSafeAPITimeoutError'')
      else if as_connection err then Some (connection_text, ''TypeSafeAPIConnectionError'')
      else case as_status err of
        Some s \<Rightarrow> Some (status_message is_print tokens s, status_class (ls_code s))
      | None \<Rightarrow> map_option (\<lambda>m. (m, ''TypeSafeError'')) (as_non_answer err))"

text \<open>The context's error is \<open>None\<close> while it is not done.\<close>

definition classify_error ::
  "(nat \<Rightarrow> bool) \<Rightarrow> (bytes \<Rightarrow> jstream) \<Rightarrow> ctx_end option \<Rightarrow> perr \<Rightarrow> (bytes \<times> bytes) option" where
  "classify_error is_print tokens cerr err =
     (if cerr = Some CtxCanceled then None
      else case typed_error_class is_print tokens err of
        Some r \<Rightarrow> Some r
      | None \<Rightarrow>
          if cerr = Some CtxDeadline then Some (timeout_text, ''TypeSafeAPITimeoutError'')
          else Some (perr_text err, ''TypeSafeError''))"

section \<open>The adapter's own error\<close>

datatype ad_kind = KindTimeout | KindFailure | KindClosed | KindOther nat

text \<open>An adapter's error; its report is of any type, and its cause a sentinel.\<close>

record 'r ad_error =
  ad_kind :: ad_kind
  ad_provider :: bytes
  ad_model :: bytes
  ad_report :: "'r option"
  ad_cause :: "perr option"

fun ad_kind_text :: "ad_kind \<Rightarrow> bytes" where
  "ad_kind_text KindTimeout = ''timeout''"
| "ad_kind_text KindFailure = ''connection failure''"
| "ad_kind_text KindClosed = ''closed''"
| "ad_kind_text (KindOther k) = ''ErrorKind('' @ show_nat k @ '')''"

definition ad_error_text :: "('r, 'x) ad_error_scheme \<Rightarrow> bytes" where
  "ad_error_text e =
     (if ad_provider e = [] \<and> ad_model e = [] then ''adapter: '' @ ad_kind_text (ad_kind e)
      else ''adapter: '' @ ad_kind_text (ad_kind e) @ '' from '' @ ad_provider e @ '' model '' @ ad_model e)"

definition err_closed :: perr where
  "err_closed = POther ''adapter: the adapter is closed'' []"

definition ad_error_unwrap :: "('r, 'x) ad_error_scheme \<Rightarrow> perr option" where
  "ad_error_unwrap e =
     (case ad_kind e of KindTimeout \<Rightarrow> Some PDeadline | KindClosed \<Rightarrow> Some err_closed | _ \<Rightarrow> ad_cause e)"

definition ad_error_timeout :: "('r, 'x) ad_error_scheme \<Rightarrow> bool" where
  "ad_error_timeout e \<longleftrightarrow> ad_kind e = KindTimeout"

section \<open>Properties\<close>

lemma rune_ok_iff: "b \<noteq> [] \<Longrightarrow> fst (decode_rune b) \<noteq> rune_error \<or> 1 < rune_size b \<longleftrightarrow> \<not> rune_bad b"
  using rune_size_pos [of b] by (cases "decode_rune b") (auto simp: rune_bad_def)

lemma ad_replace_loop_eq: "ad_replace_loop b = replace_from_utf8 b"
proof (induction b rule: replace_from_utf8.induct)
  case (1 b)
  show ?case
  proof (cases "b = []")
    case False
    with 1 rune_ok_iff [OF False] ad_maximal_subpart_eq [OF False] show ?thesis
      by (subst ad_replace_loop.simps, subst replace_from_utf8.simps) auto
  qed (subst ad_replace_loop.simps, simp)
qed

text \<open>the adapter's reading of a body as UTF-8 is the SDK's: although it looks at the bytes one by one, with a
  switch of its own, each maximal ill-formed sequence is replaced where the SDK's error reader replaces it, and
  what is left is UTF-8.\<close>

theorem decode_replace_equivalent:
  "decode_replace b = replace_invalid_utf8 b \<and> valid_utf8 (decode_replace b)"
  by (auto simp: decode_replace_def replace_invalid_utf8_def ad_replace_loop_eq replace_from_utf8_valid)

end
