(* ===== verification/Adapter_Retry.thy ===== *)
theory Adapter_Retry
  imports Adapter_Error
begin

text \<open>
  The adapter's retries of a provider request, \<open>adapter/retry.go\<close>: the policy and its builders, which failures it
  retries, the wait, and the loop. The clock, the context, the jitter, the timer and the provider are what one
  attempt reads of them (\<open>ad_env\<close>), a function of the attempt's number; the policy's predicate is a function on
  errors.
\<close>

section \<open>Policies\<close>

datatype ad_setting = AdBackoff | AdStatuses | AdBudget

record ad_policy =
  adp_max_retries :: int
  adp_initial :: int
  adp_maximum :: int
  adp_jitter :: float64
  adp_statuses :: "int list"
  adp_predicate :: "(perr \<Rightarrow> bool) option"
  adp_budget :: int
  adp_set :: "ad_setting set"
  adp_ignore_retry_after :: bool
  adp_no_connection :: bool
  adp_no_timeout :: bool
  adp_unbounded :: bool

definition ad_default_initial :: int where "ad_default_initial = 500 * millisecond"
definition ad_default_maximum :: int where "ad_default_maximum = 5 * second"
definition ad_default_jitter :: float64 where "ad_default_jitter = 0x3FD0000000000000"
definition ad_default_budget :: int where "ad_default_budget = 30 * second"

definition ad_no_retry :: ad_policy where
  "ad_no_retry =
     \<lparr>adp_max_retries = 0, adp_initial = 0, adp_maximum = 0, adp_jitter = 0, adp_statuses = [], adp_predicate = None,
      adp_budget = 0, adp_set = {}, adp_ignore_retry_after = False, adp_no_connection = False, adp_no_timeout = False,
      adp_unbounded = False\<rparr>"

definition ad_max_retries :: "int \<Rightarrow> ad_policy \<Rightarrow> ad_policy" where
  "ad_max_retries n p = p\<lparr>adp_max_retries := n\<rparr>"

definition ad_default_retry :: ad_policy where
  "ad_default_retry = ad_max_retries 2 ad_no_retry"

definition ad_backoff :: "int \<Rightarrow> int \<Rightarrow> float64 \<Rightarrow> ad_policy \<Rightarrow> ad_policy" where
  "ad_backoff initial maximum jitter p =
     p\<lparr>adp_initial := initial, adp_maximum := maximum, adp_jitter := jitter, adp_set := insert AdBackoff (adp_set p)\<rparr>"

definition ad_statuses :: "int list \<Rightarrow> ad_policy \<Rightarrow> ad_policy" where
  "ad_statuses codes p = p\<lparr>adp_statuses := remdups_adj (sort codes), adp_set := insert AdStatuses (adp_set p)\<rparr>"

definition ad_respect_retry_after :: "bool \<Rightarrow> ad_policy \<Rightarrow> ad_policy" where
  "ad_respect_retry_after on p = p\<lparr>adp_ignore_retry_after := \<not> on\<rparr>"

definition ad_connection_errors :: "bool \<Rightarrow> ad_policy \<Rightarrow> ad_policy" where
  "ad_connection_errors on p = p\<lparr>adp_no_connection := \<not> on\<rparr>"

definition ad_timeout_errors :: "bool \<Rightarrow> ad_policy \<Rightarrow> ad_policy" where
  "ad_timeout_errors on p = p\<lparr>adp_no_timeout := \<not> on\<rparr>"

definition ad_predicate :: "(perr \<Rightarrow> bool) option \<Rightarrow> ad_policy \<Rightarrow> ad_policy" where
  "ad_predicate accept p = p\<lparr>adp_predicate := accept\<rparr>"

definition ad_budget :: "int \<Rightarrow> ad_policy \<Rightarrow> ad_policy" where
  "ad_budget d p = p\<lparr>adp_budget := d, adp_unbounded := False, adp_set := insert AdBudget (adp_set p)\<rparr>"

definition ad_no_budget :: "ad_policy \<Rightarrow> ad_policy" where
  "ad_no_budget p = p\<lparr>adp_budget := 0, adp_unbounded := True, adp_set := insert AdBudget (adp_set p)\<rparr>"

text \<open>The error of a setting out of range is a plain error with its message.\<close>

definition ad_check :: "ad_policy \<Rightarrow> perr option" where
  "ad_check p =
     (if adp_max_retries p < 0 then Some (POther ''max_retries must be a non-negative integer.'' [])
      else if adp_initial p < 0 then Some (POther ''backoff_initial must be a non-negative, finite number of seconds.'' [])
      else if adp_maximum p < 0 then Some (POther ''backoff_max must be a non-negative, finite number of seconds.'' [])
      else if \<not> between_zero_and_one (adp_jitter p) then Some (POther ''backoff_jitter must be between zero and one.'' [])
      else if \<not> adp_unbounded p \<and> AdBudget \<in> adp_set p \<and> adp_budget p \<le> 0
      then Some (POther ''timeout must be a positive, finite number of seconds.'' [])
      else None)"

section \<open>Which failures are retried\<close>

definition ad_retries_status :: "ad_policy \<Rightarrow> int \<Rightarrow> bool" where
  "ad_retries_status p status \<longleftrightarrow>
     (if AdStatuses \<notin> adp_set p then status = 408 \<or> status = 429 \<or> (500 \<le> status \<and> status \<le> 599)
      else found_in (adp_statuses p) status)"

definition ad_accepts :: "ad_policy \<Rightarrow> perr \<Rightarrow> bool" where
  "ad_accepts p err \<longleftrightarrow> (case adp_predicate p of Some accept \<Rightarrow> accept err | None \<Rightarrow> False)"

definition ad_retryable :: "ad_policy \<Rightarrow> perr \<Rightarrow> bool" where
  "ad_retryable p err \<longleftrightarrow>
     (if as_non_answer err \<noteq> None then False
      else if as_timeout err then \<not> adp_no_timeout p \<or> ad_accepts p err
      else if as_connection err then \<not> adp_no_connection p \<or> ad_accepts p err
      else case as_status err of
        Some s \<Rightarrow> ad_retries_status p (ls_code s) \<or> ad_accepts p err
      | None \<Rightarrow> ad_accepts p err)"

text \<open>What one attempt reads of the clock, the context, the jitter and the timer: the context's error when the
  attempt has failed, the date and the jitter of the wait, the time since the start, the deadline and the time
  when it is compared, the context's end once it is done, whether the timer ends the wait, and the context's
  error after it.\<close>

record ad_env =
  aw_ctx :: "ctx_end option"
  aw_date :: int
  aw_random :: float64
  aw_elapsed :: int
  aw_deadline :: "int option"
  aw_now :: int
  aw_done :: ctx_end
  aw_timer :: bool
  aw_after :: "ctx_end option"

definition ad_delay ::
  "(bytes \<Rightarrow> bytes) \<Rightarrow> (bytes \<Rightarrow> int option) \<Rightarrow> (float64 \<Rightarrow> float64) \<Rightarrow> ad_policy \<Rightarrow> nat \<Rightarrow> perr \<Rightarrow> ad_env \<Rightarrow> int" where
  "ad_delay lower parse_time log2 p retry err w =
     (case (if adp_ignore_retry_after p then None
            else case as_status err of
                Some s \<Rightarrow> retry_after lower parse_time (ls_header s) (aw_date w)
              | None \<Rightarrow> None) of
        Some d \<Rightarrow> d
      | None \<Rightarrow>
          if AdBackoff \<in> adp_set p
          then backoff log2 retry (adp_initial p) (adp_maximum p) (adp_jitter p) (aw_random w)
          else backoff log2 retry ad_default_initial ad_default_maximum ad_default_jitter (aw_random w))"

definition ad_budget_of :: "ad_policy \<Rightarrow> int option" where
  "ad_budget_of p =
     (if adp_unbounded p then None else if AdBudget \<in> adp_set p then Some (adp_budget p) else Some ad_default_budget)"

definition ctx_perr :: "ctx_end \<Rightarrow> perr" where
  "ctx_perr e = (case e of CtxDeadline \<Rightarrow> PDeadline | CtxCanceled \<Rightarrow> PCanceled)"

definition ad_wait :: "int \<Rightarrow> ad_env \<Rightarrow> ctx_end option" where
  "ad_wait d w =
     (if (case aw_deadline w of Some dl \<Rightarrow> dl \<le> aw_now w + d | None \<Rightarrow> False) then Some (aw_done w)
      else if 0 < d \<and> \<not> aw_timer w then Some (aw_done w)
      else aw_after w)"

definition retry_message :: "(nat \<Rightarrow> bool) \<Rightarrow> (bytes \<Rightarrow> jstream) \<Rightarrow> perr \<Rightarrow> bytes" where
  "retry_message is_print tokens err =
     (if as_timeout err then timeout_text
      else if as_connection err then connection_text
      else case as_status err of Some s \<Rightarrow> status_message is_print tokens s | None \<Rightarrow> perr_text err)"

record retry_reason =
  re_category :: bytes
  re_message :: bytes

section \<open>The loop\<close>

text \<open>The parts of the environment: Go's library, and what each attempt reads.\<close>

record ad_std =
  adx_print :: "nat \<Rightarrow> bool"
  adx_tokens :: "bytes \<Rightarrow> jstream"
  adx_lower :: "bytes \<Rightarrow> bytes"
  adx_parse_time :: "bytes \<Rightarrow> int option"
  adx_log2 :: "float64 \<Rightarrow> float64"

text \<open>The decision after attempt \<open>n\<close>, from 0, has failed: the error that ends the loop, or the reason of the
  retry. A wait the context ends keeps its reason.\<close>

definition after_failure :: "ad_std \<Rightarrow> ad_policy \<Rightarrow> nat \<Rightarrow> perr \<Rightarrow> ad_env \<Rightarrow> perr option \<times> retry_reason option" where
  "after_failure std p n err w =
     (case aw_ctx w of
        Some e \<Rightarrow> (Some (ctx_perr e), None)
      | None \<Rightarrow>
          if \<not> ad_retryable p err then (Some err, None)
          else
            let d = ad_delay (adx_lower std) (adx_parse_time std) (adx_log2 std) p (n + 1) err w in
            if adp_max_retries p \<le> int n then (Some err, None)
            else if (case ad_budget_of p of Some b \<Rightarrow> b - aw_elapsed w \<le> d | None \<Rightarrow> False) then (Some err, None)
            else
              (map_option ctx_perr (ad_wait d w),
               Some \<lparr>re_category = ''provider_error'', re_message = retry_message (adx_print std) (adx_tokens std) err\<rparr>))"

lemma after_failure_bound: "after_failure std p n err w = (None, r) \<Longrightarrow> int n < adp_max_retries p"
  by (auto simp: after_failure_def Let_def split: option.splits if_splits)

text \<open>The loop from attempt \<open>n\<close> on, over the state \<open>'s\<close> the attempts and the recorded reasons thread. It ends
  because a retry is made only while fewer than the policy's have been.\<close>

definition record_some :: "(retry_reason \<Rightarrow> 's \<Rightarrow> 's) \<Rightarrow> retry_reason option \<Rightarrow> 's \<Rightarrow> 's" where
  "record_some record_reason r s = (case r of Some r \<Rightarrow> record_reason r s | None \<Rightarrow> s)"

function ad_retry_loop ::
  "ad_std \<Rightarrow> ad_policy \<Rightarrow> (nat \<Rightarrow> ad_env) \<Rightarrow> ('s \<Rightarrow> (perr + 'a) \<times> 's) \<Rightarrow> (retry_reason \<Rightarrow> 's \<Rightarrow> 's) \<Rightarrow> nat \<Rightarrow> 's \<Rightarrow>
   ((perr + 'a) \<times> nat) \<times> 's" where
  "ad_retry_loop std p env attempt record_reason n s =
     (case attempt s of
        (Inr res, s') \<Rightarrow> ((Inr res, n), s')
      | (Inl err, s') \<Rightarrow>
          (case after_failure std p n err (env n) of
             (Some e, reason) \<Rightarrow> ((Inl e, n), record_some record_reason reason s')
           | (None, reason) \<Rightarrow>
               ad_retry_loop std p env attempt record_reason (n + 1) (record_some record_reason reason s')))"
  by pat_completeness auto
termination
  by (relation "measure (\<lambda>(std, p, env, attempt, record_reason, n, s). nat (adp_max_retries p - int n))")
    (auto dest!: sym [of _ "after_failure _ _ _ _ _"] after_failure_bound)

declare ad_retry_loop.simps [simp del]

definition run_with_retries ::
  "ad_std \<Rightarrow> ad_policy \<Rightarrow> ctx_end option \<Rightarrow> (nat \<Rightarrow> ad_env) \<Rightarrow> ('s \<Rightarrow> (perr + 'a) \<times> 's) \<Rightarrow> (retry_reason \<Rightarrow> 's \<Rightarrow> 's) \<Rightarrow> 's \<Rightarrow>
   ((perr + 'a) \<times> nat) \<times> 's" where
  "run_with_retries std p ctx env attempt record_reason s =
     (case ad_check p of
        Some e \<Rightarrow> ((Inl e, 0), s)
      | None \<Rightarrow>
          (case ctx of
             Some e \<Rightarrow> ((Inl (ctx_perr e), 0), s)
           | None \<Rightarrow> ad_retry_loop std p env attempt record_reason 0 s))"

text \<open>\<open>ContextWithRetry\<close>: a context carries at most one policy, the last one put in it.\<close>

definition retry_policy_for :: "ad_policy option \<Rightarrow> ad_policy \<Rightarrow> ad_policy" where
  "retry_policy_for ctx def = (case ctx of Some p \<Rightarrow> p | None \<Rightarrow> def)"

section \<open>The accounting of the loop\<close>

definition provider_reason :: "retry_reason \<Rightarrow> bool" where
  "provider_reason r \<longleftrightarrow> re_category r = ''provider_error''"

lemma after_failure_cases:
  obtains (ends) e where "after_failure std p n err w = (Some e, None)"
  | (ended) c r where "after_failure std p n err w = (Some (ctx_perr c), Some r)" "provider_reason r" "int n < adp_max_retries p"
  | (again) r where "after_failure std p n err w = (None, Some r)" "provider_reason r" "int n < adp_max_retries p"
proof -
  obtain d where d: "d = ad_delay (adx_lower std) (adx_parse_time std) (adx_log2 std) p (n + 1) err w" by simp
  show thesis
  proof (cases "aw_ctx w = None \<and> ad_retryable p err \<and> int n < adp_max_retries p \<and>
      \<not> (case ad_budget_of p of Some b \<Rightarrow> b - aw_elapsed w \<le> d | None \<Rightarrow> False)")
    case True
    then show thesis using ended again d
      by (cases "ad_wait d w") (auto simp: after_failure_def Let_def provider_reason_def)
  next
    case False
    then have "\<exists>e. after_failure std p n err w = (Some e, None)"
      unfolding after_failure_def d by (auto simp: Let_def split: option.splits)
    then show thesis using ends by blast
  qed
qed

text \<open>What every attempt establishes and every recorded reason restores holds when the loop ends.\<close>

lemma retry_loop_invariant:
  fixes attempt :: "'s \<Rightarrow> (perr + 'a) \<times> 's"
  assumes "\<And>s. P s \<Longrightarrow> Q (snd (attempt s))" and "\<And>r s. Q s \<Longrightarrow> P (record_reason r s)"
    and "P s" and "ad_retry_loop std p env attempt record_reason n s = ((res, m), s')"
  shows "(is_ok res \<longrightarrow> Q s') \<and> (P s' \<or> Q s')"
  using assms(3,4)
proof (induction "nat (adp_max_retries p - int n)" arbitrary: n s rule: less_induct)
  case less
  obtain r s1 where a: "attempt s = (r, s1)" by fastforce
  with assms(1) [OF less.prems(1)] have q: "Q s1" by simp
  note run = less.prems(2) [unfolded ad_retry_loop.simps [of std p env attempt record_reason n s] a]
  show ?case
  proof (cases r)
    case (Inl err)
    show ?thesis
    proof (cases rule: after_failure_cases [of std p n err "env n"])
      case (again r)
      with run Inl have "ad_retry_loop std p env attempt record_reason (n + 1) (record_reason r s1) = ((res, m), s')"
        by (simp add: record_some_def)
      moreover have "nat (adp_max_retries p - int (n + 1)) < nat (adp_max_retries p - int n)" using again(3) by simp
      ultimately show ?thesis using less.hyps assms(2) [OF q] by blast
    qed (use run q Inl assms(2) [OF q] in \<open>auto simp: record_some_def\<close>)
  qed (use run q in simp)
qed

lemma run_with_retries_invariant:
  fixes attempt :: "'s \<Rightarrow> (perr + 'a) \<times> 's"
  assumes "\<And>s. P s \<Longrightarrow> Q (snd (attempt s))" and "\<And>r s. Q s \<Longrightarrow> P (record_reason r s)"
    and "P s" and "run_with_retries std p ctx env attempt record_reason s = ((res, m), s')"
  shows "(is_ok res \<longrightarrow> Q s') \<and> (P s' \<or> Q s')"
proof (cases "ad_check p = None \<and> ctx = None")
  case True
  with assms(4) have "ad_retry_loop std p env attempt record_reason 0 s = ((res, m), s')" by (simp add: run_with_retries_def)
  from retry_loop_invariant [where P = P and Q = Q, OF assms(1,2,3) this] show ?thesis .
next
  case False
  with assms(3,4) show ?thesis by (auto simp: run_with_retries_def split: option.splits)
qed

text \<open>What the loop's caller promises: every attempt makes one request and records no reason, and recording a
  reason adds it at the end.\<close>

locale retry_client =
  fixes attempt :: "'s \<Rightarrow> (perr + 'a) \<times> 's"
    and record_reason :: "retry_reason \<Rightarrow> 's \<Rightarrow> 's"
    and requests :: "'s \<Rightarrow> nat"
    and reasons :: "'s \<Rightarrow> retry_reason list"
  assumes attempt_requests: "requests (snd (attempt s)) = Suc (requests s)"
    and attempt_reasons: "reasons (snd (attempt s)) = reasons s"
    and record_requests: "requests (record_reason r s) = requests s"
    and record_reasons: "reasons (record_reason r s) = reasons s @ [r]"
begin

lemma record_some_requests: "requests (record_some record_reason r s) = requests s"
  by (simp add: record_some_def record_requests split: option.split)

lemma record_some_reasons: "reasons (record_some record_reason r s) = reasons s @ (case r of Some r \<Rightarrow> [r] | None \<Rightarrow> [])"
  by (simp add: record_some_def record_reasons split: option.split)

lemma loop_accounts:
  assumes "ad_retry_loop std p env attempt record_reason n s = ((res, m), s')"
  shows "n \<le> m \<and> (n < m \<longrightarrow> int m \<le> adp_max_retries p) \<and> requests s' = requests s + (m - n) + 1 \<and>
    (\<exists>rs. reasons s' = reasons s @ rs \<and> list_all provider_reason rs \<and>
       (length rs = m - n \<or> length rs = m - n + 1 \<and> res \<in> Inl ` {PDeadline, PCanceled}))"
  using assms
proof (induction "nat (adp_max_retries p - int n)" arbitrary: n s rule: less_induct)
  case less
  obtain r s1 where a: "attempt s = (r, s1)" by fastforce
  with attempt_requests [of s] attempt_reasons [of s]
  have q: "requests s1 = Suc (requests s)" "reasons s1 = reasons s" by simp_all
  note run = less.prems [unfolded ad_retry_loop.simps [of std p env attempt record_reason n s] a]
  show ?case
  proof (cases r)
    case (Inr x)
    with run q show ?thesis by simp
  next
    case (Inl err)
    show ?thesis
    proof (cases rule: after_failure_cases [of std p n err "env n"])
      case (ends e)
      with run q Inl show ?thesis by (simp add: record_some_def)
    next
      case (ended c r)
      with run q Inl have "res = Inl (ctx_perr c)" "m = n" "s' = record_some record_reason (Some r) s1" by simp_all
      with q ended(2) show ?thesis
        by (cases c) (auto simp: record_some_requests record_some_reasons ctx_perr_def)
    next
      case (again r)
      let ?s2 = "record_some record_reason (Some r) s1"
      from run Inl again have "ad_retry_loop std p env attempt record_reason (n + 1) ?s2 = ((res, m), s')" by simp
      moreover have "nat (adp_max_retries p - int (n + 1)) < nat (adp_max_retries p - int n)" using again(3) by simp
      ultimately have "n + 1 \<le> m \<and> (n + 1 < m \<longrightarrow> int m \<le> adp_max_retries p) \<and> requests s' = requests ?s2 + (m - (n + 1)) + 1 \<and>
        (\<exists>rs. reasons s' = reasons ?s2 @ rs \<and> list_all provider_reason rs \<and>
           (length rs = m - (n + 1) \<or> length rs = m - (n + 1) + 1 \<and> res \<in> Inl ` {PDeadline, PCanceled}))"
        using less.hyps by blast
      then obtain rs where rs: "n + 1 \<le> m" "n + 1 < m \<longrightarrow> int m \<le> adp_max_retries p" "requests s' = requests ?s2 + (m - (n + 1)) + 1"
        "reasons s' = reasons ?s2 @ rs" "list_all provider_reason rs"
        "length rs = m - (n + 1) \<or> length rs = m - (n + 1) + 1 \<and> res \<in> Inl ` {PDeadline, PCanceled}" by blast
      have "reasons s' = reasons s @ (r # rs)" using rs(4) q by (simp add: record_some_reasons)
      moreover have "int m \<le> adp_max_retries p" using rs(1,2) again(3) by (cases "n + 1 = m") auto
      moreover have "requests s' = requests s + (m - n) + 1" using rs(1,3) q by (simp add: record_some_requests)
      moreover have "length (r # rs) = m - n \<or> length (r # rs) = m - n + 1 \<and> res \<in> Inl ` {PDeadline, PCanceled}"
        using rs(1,6) by auto
      moreover have "list_all provider_reason (r # rs)" using rs(5) again(2) by simp
      ultimately show ?thesis using rs(1) by (intro conjI exI [of _ "r # rs"]) auto
    qed
  qed
qed

lemma run_accounts:
  assumes "run_with_retries std p ctx env attempt record_reason s = ((res, m), s')"
  shows "(requests s' = requests s + m + 1 \<or> m = 0 \<and> s' = s \<and> \<not> is_ok res) \<and> int m \<le> max 0 (adp_max_retries p) \<and>
    (\<exists>rs. reasons s' = reasons s @ rs \<and> list_all provider_reason rs \<and>
       (length rs = m \<or> length rs = m + 1 \<and> res \<in> Inl ` {PDeadline, PCanceled}))"
proof (cases "ad_check p = None \<and> ctx = None")
  case True
  with assms have "ad_retry_loop std p env attempt record_reason 0 s = ((res, m), s')" by (simp add: run_with_retries_def)
  from loop_accounts [OF this] show ?thesis by (cases "m = 0") auto
next
  case False
  with assms show ?thesis by (auto simp: run_with_retries_def split: option.splits)
qed

end

section \<open>Properties\<close>

definition plain_wait :: ad_env where
  "plain_wait =
     \<lparr>aw_ctx = None, aw_date = 0, aw_random = 0, aw_elapsed = 0, aw_deadline = None, aw_now = 0, aw_done = CtxCanceled,
      aw_timer = True, aw_after = None\<rparr>"

definition plain_std :: ad_std where
  "plain_std =
     \<lparr>adx_print = (\<lambda>r. True), adx_tokens = (\<lambda>t. \<lparr>js_tokens = [], js_eof = False\<rparr>), adx_lower = lower_ascii,
      adx_parse_time = (\<lambda>t. None), adx_log2 = (\<lambda>f. f)\<rparr>"

text \<open>a completed response that is not an answer is never asked for again: whatever the policy, its predicate
  included, and however the provider wraps the error, the loop ends at that attempt, with the attempt's error or, on
  a context that is done, the context's.\<close>

theorem non_answer_final:
  assumes "attempt s = (Inl err, s')" "as_non_answer err \<noteq> None"
  shows "ad_retry_loop std p env attempt record_reason n s =
    ((Inl (case aw_ctx (env n) of Some e \<Rightarrow> ctx_perr e | None \<Rightarrow> err), n), s')"
  using assms
  by (subst ad_retry_loop.simps) (auto simp: after_failure_def ad_retryable_def record_some_def split: option.split)

theorem non_answer_final_witness:
  "ad_retry_loop plain_std (ad_predicate (Some (\<lambda>e. True)) ad_default_retry) (\<lambda>n. plain_wait)
     (\<lambda>s :: nat. (Inl (POther ''wrapped'' [PNonAnswer ''cut off'']) :: perr + nat, s + 1)) (\<lambda>r s. s) 0 0 =
   ((Inl (POther ''wrapped'' [PNonAnswer ''cut off'']), 0), 1)"
  using non_answer_final [where attempt = "\<lambda>s :: nat. (Inl (POther ''wrapped'' [PNonAnswer ''cut off'']) :: perr + nat, s + 1)"
      and s = 0 and n = 0 and env = "\<lambda>n. plain_wait" and record_reason = "\<lambda>r s. s" and std = plain_std
      and p = "ad_predicate (Some (\<lambda>e. True)) ad_default_retry", OF refl]
  by (simp add: as_non_answer_def plain_wait_def)

end
