(* ===== verification/Spec2Isabelle.thy ===== *)
theory Spec2Isabelle
  imports Sdk_Response Sdk_Log H2_Gate Adapter_Evaluate
begin

text \<open>
  A model of the Go SDK for decision models (\<open>decision-model-sdk-go\<close>), translated from the source of the
  repository, and the properties that make its parts correct. Names of files are relative to the repository.

  The program. A caller builds a client and asks it System One questions. A call encodes a request body
  (\<open>internal/wire\<close> writes JSON, \<open>internal/engine/body.go\<close> merges the extra members), sends it with retries
  (\<open>client.go\<close>, \<open>retry.go\<close>) through the SDK's transport (\<open>internal/h2gate\<close>: one HTTP/2 connection behind a cold-start
  gate and a header-write token), reads the answer within a limit (\<open>internal/engine/read.go\<close>) and decodes it with a
  visitor on sonic's traversal (\<open>internal/codec\<close>), whose results must be those of the Python SDK. Whatever goes
  wrong becomes one of the SDK's errors (\<open>errors.go\<close>), whose text shows no credential (\<open>internal/engine/redact.go\<close>).

  The theories, in the order of their dependence:

  \<^item> \<open>Prelude\<close>, \<open>Utf8\<close>, \<open>Go_Strings\<close>, \<open>Float64\<close>: bytes, results as sums, UTF-8 as Go decodes it, the functions of package
    strings, IEEE doubles and their shortest decimal form. The locales \<open>keyed_list\<close> (a list of named entries with an
    optional index) and \<open>appender\<close> (an operation that only appends) are in \<open>Prelude\<close>; each component that provides one
    interprets it.
  \<^item> \<open>Wire_Json\<close>, \<open>Wire_Content\<close>, \<open>Wire_Value\<close>: \<open>internal/wire/json.go\<close> and \<open>content.go\<close>. \<open>append_json\<close> accepts exactly the
    grammar of RFC 8259, given as inductive predicates.
  \<^item> \<open>Wire_Answers\<close>, \<open>Wire_Prepared\<close>, \<open>Wire_Payload\<close>: the answers of a result, a prepared question set with its tables of
    spans, and the writer of a result.
  \<^item> \<open>Codec_Control\<close>, \<open>Codec_State\<close>, \<open>Codec_Answer\<close>, \<open>Codec_Commit\<close>, \<open>Codec_Core\<close>, \<open>Codec_Visitor\<close>: the decoder's state and its
    visitor, one definition per callback. \<open>Codec_Run\<close> shows that the visitor never meets a state it has no case for.
  \<^item> \<open>Codec_Reference\<close>, \<open>Codec_Fold\<close>, \<open>Codec_Decoded\<close>, \<open>Codec_Finish\<close>, \<open>Codec_Root\<close>, \<open>Codec_Traverse\<close>: what the Python SDK decodes, as
    an abstract specification on JSON trees, and the refinement: \<open>DecodeSystemOne\<close> and \<open>DecodeModels\<close> compute it.
  \<^item> \<open>Codec_Errorbody\<close>: the message of an error body (\<open>internal/codec/errorbody.go\<close>).
  \<^item> \<open>Engine_Text\<close>, \<open>Engine_Redact\<close>, \<open>Engine_Header\<close>, \<open>Engine_Chain\<close>: escaping foreign text, the credentials of a call, header
    redaction and the proxies remembered, error chains.
  \<^item> \<open>Engine_Read\<close>, \<open>Engine_Body\<close>: reading a response within its limit; the request body.
  \<^item> \<open>Sdk_Number\<close>, \<open>Sdk_Errors\<close>, \<open>Sdk_Retry\<close>, \<open>Sdk_Send\<close>: the numbers of a Retry-After header, the SDK's errors, the retry
    policy, and the loop of attempts.
  \<^item> \<open>Sdk_Header\<close>: the headers a client and a call may set and the template of a request.
  \<^item> \<open>H2_Gate\<close>, \<open>H2_Call\<close>, \<open>H2_Config\<close>, \<open>H2_Dial\<close>: the gate and the token as a transition system of any number of requests, one
    request's trace hooks, the configuration of the transport with its ALPN check, and its dials.

  Bounds and fuel. The search for the shortest decimal tries 17 digits, which always round-trip. The decoder's depth is
  bounded by \<open>max_depth\<close> 4 for the schema and \<open>max_nesting\<close> 4096, as in the code. A read loop has fuel one more than
  the bytes and the end it reads, each read making progress. Walks of an error chain visit at most 64 errors and the
  proxies remembered are at most 16, as in the code. The loop of attempts ends by a measure, the retries left.

  Parameters. Code that is not in the repository is a parameter: sonic's encoder and decoder (with the hypothesis that
  its traversal of a text is the traversal of the text's tree), \<open>unicode.IsPrint\<close>, \<open>strings.ToLower\<close> beyond ASCII,
  \<open>http.ParseTime\<close>, \<open>math.Log2\<close>, \<open>http.ProxyFromEnvironment\<close> and \<open>http.Transport.Clone\<close>.
\<close>

end
